(* ===== verification/MG_Prelude.thy ===== *)
theory MG_Prelude
  imports Main "HOL-Library.Sublist"
begin

text \<open>
  Shared ground of the development: the machine integers the code uses (\<open>u64\<close> as \<open>nat\<close> and
  \<open>i64\<close> as \<open>int\<close>, with the saturating operations of the Rust standard library written out), the
  named collections the component theories add to, and generic lemmas on lists and options.
\<close>

named_theorems mg_defs \<open>definitions to unfold when a component is evaluated\<close>
named_theorems mg_inv \<open>preservation facts of the component invariants\<close>

section \<open>Machine integers\<close>

definition u64_max :: nat where
  "u64_max = 18446744073709551615"

definition i64_max :: int where
  "i64_max = 9223372036854775807"

definition i64_min :: int where
  "i64_min = -9223372036854775808"

definition u32_max :: nat where
  "u32_max = 4294967295"

text \<open>\<open>u64::saturating_add\<close>, \<open>u64::saturating_mul\<close>, \<open>u32::saturating_add\<close>; \<open>saturating_sub\<close> on an unsigned
  type is the truncated subtraction of \<open>nat\<close>.\<close>

definition sat_add_u64 :: "nat \<Rightarrow> nat \<Rightarrow> nat" where
  "sat_add_u64 a b = min u64_max (a + b)"

definition sat_mul_u64 :: "nat \<Rightarrow> nat \<Rightarrow> nat" where
  "sat_mul_u64 a b = min u64_max (a * b)"

definition sat_add_u32 :: "nat \<Rightarrow> nat \<Rightarrow> nat" where
  "sat_add_u32 a b = min u32_max (a + b)"

definition sat_add_i64 :: "int \<Rightarrow> int \<Rightarrow> int" where
  "sat_add_i64 a b = max i64_min (min i64_max (a + b))"

text \<open>\<open>i64::try_from(x).unwrap_or(i64::MAX)\<close> for an unsigned \<open>x\<close>.\<close>

definition i64_of_u64_sat :: "nat \<Rightarrow> int" where
  "i64_of_u64_sat n = (if int n \<le> i64_max then int n else i64_max)"

lemma sat_add_u64_le [simp]: "sat_add_u64 a b \<le> u64_max"
  by (simp add: sat_add_u64_def)

lemma sat_add_u64_exact: "a + b \<le> u64_max \<Longrightarrow> sat_add_u64 a b = a + b"
  by (simp add: sat_add_u64_def)

lemma sat_add_u64_ge1: "a \<le> u64_max \<Longrightarrow> a \<le> sat_add_u64 a b"
  by (simp add: sat_add_u64_def)

lemma sat_add_u32_le [simp]: "sat_add_u32 a b \<le> u32_max"
  by (simp add: sat_add_u32_def)

lemma sat_add_i64_mono: "0 \<le> b \<Longrightarrow> a \<le> i64_max \<Longrightarrow> a \<le> sat_add_i64 a b"
  by (simp add: sat_add_i64_def i64_min_def i64_max_def)

lemma sat_add_i64_le [simp]: "sat_add_i64 a b \<le> i64_max"
  by (simp add: sat_add_i64_def i64_min_def i64_max_def)

lemma i64_of_u64_sat_nonneg [simp]: "0 \<le> i64_of_u64_sat n"
  by (simp add: i64_of_u64_sat_def i64_max_def)

lemma i64_of_u64_sat_le [simp]: "i64_of_u64_sat n \<le> i64_max"
  by (simp add: i64_of_u64_sat_def)

section \<open>Options and lists\<close>

text \<open>SQL's and Rust's \<open>coalesce\<close> / \<open>or\<close>: the first value that is present.\<close>

fun coalesce :: "'a option \<Rightarrow> 'a option \<Rightarrow> 'a option" where
  "coalesce (Some x) y = Some x"
| "coalesce None y = y"

lemma coalesce_None2 [simp]: "coalesce x None = x"
  by (cases x) simp_all

lemma coalesce_self [simp]: "coalesce x x = x"
  by (cases x) simp_all

lemma coalesce_assoc: "coalesce (coalesce x y) z = coalesce x (coalesce y z)"
  by (cases x) simp_all

lemma coalesce_absorb [simp]: "coalesce x (coalesce x y) = coalesce x y"
  by (cases x) simp_all

lemma coalesce_absorb2 [simp]: "coalesce (coalesce x y) y = coalesce x y"
  by (cases x) simp_all

text \<open>\<open>Option::filter\<close> and \<open>Option::zip\<close>.\<close>

fun opt_filter :: "('a \<Rightarrow> bool) \<Rightarrow> 'a option \<Rightarrow> 'a option" where
  "opt_filter P None = None"
| "opt_filter P (Some x) = (if P x then Some x else None)"

fun opt_zip :: "'a option \<Rightarrow> 'b option \<Rightarrow> ('a \<times> 'b) option" where
  "opt_zip (Some x) (Some y) = Some (x, y)"
| "opt_zip _ _ = None"

lemma opt_filter_Some [simp]: "opt_filter P x = Some y \<longleftrightarrow> x = Some y \<and> P y"
  by (cases x) auto

lemma opt_zip_Some [simp]: "opt_zip x y = Some (a, b) \<longleftrightarrow> x = Some a \<and> y = Some b"
  by (cases x; cases y) auto

lemma suffix_length_drop: "suffix xs ys \<Longrightarrow> xs = drop (length ys - length xs) ys"
  by (auto simp: suffix_def)

text \<open>A fold over a list whose step keeps \<open>P\<close> keeps \<open>P\<close>.\<close>

lemma fold_invariant:
  assumes "P s" and "\<And>x s. x \<in> set xs \<Longrightarrow> P s \<Longrightarrow> P (f x s)"
  shows "P (fold f xs s)"
  using assms by (induction xs arbitrary: s) auto

lemma strict_remdups_adj: "sorted xs \<Longrightarrow> sorted_wrt (<) (remdups_adj xs)" for xs :: "'a::linorder list"
  by (induction xs rule: remdups_adj.induct) (auto simp: order.strict_iff_order)

text \<open>\<open>retain\<close> with a set that remembers: the first element of each key stays.\<close>

fun retain_new :: "('a \<Rightarrow> 'k) \<Rightarrow> 'k set \<Rightarrow> 'a list \<Rightarrow> 'a list" where
  "retain_new key seen [] = []"
| "retain_new key seen (x # xs) =
     (if key x \<in> seen then retain_new key seen xs else x # retain_new key (insert (key x) seen) xs)"

lemma retain_new_subset: "set (retain_new key seen xs) \<subseteq> set xs"
  by (induction key seen xs rule: retain_new.induct) auto

lemma retain_new_keys: "distinct (map key (retain_new key seen xs)) \<and> key ` set (retain_new key seen xs) = key ` set xs - seen"
  by (induction key seen xs rule: retain_new.induct) auto

lemma retain_new_distinct: "distinct (map f xs) \<Longrightarrow> distinct (map f (retain_new key seen xs))"
proof (induction key seen xs rule: retain_new.induct)
  case (2 key seen x xs)
  then show ?case using retain_new_subset[of key "insert (key x) seen" xs] by auto
qed simp

lemma retain_new_first: "xs \<noteq> [] \<Longrightarrow> seen = {} \<Longrightarrow> hd (retain_new key seen xs) = hd xs"
  by (cases xs) auto

lemma distinct_take_map: "distinct (map f xs) \<Longrightarrow> distinct (map f (take n xs))"
  by (simp add: distinct_take flip: take_map)

end
