(* ===== verification/Rust_Text.thy ===== *)
theory Rust_Text
  imports MG_Prelude
begin

text \<open>
  Rust's \<open>str\<close>. A text is the list of its Unicode scalar values, so \<open>chars().count()\<close> is
  \<open>length\<close>; \<open>len()\<close>, which counts UTF-8 bytes, is \<open>byte_len\<close>. A byte offset that the code gets from
  \<open>find\<close> and slices at is represented by the two texts on either side of it, and
  \<open>is_char_boundary\<close> is defined on byte offsets. The functions of \<open>str\<close> and \<open>char\<close> are the ones the
  program calls.
\<close>

type_synonym uchar = nat
type_synonym str = "uchar list"

definition lit :: "string \<Rightarrow> str" where
  "lit s = map of_char s"

lemma lit_Nil [simp]: "lit [] = []"
  by (simp add: lit_def)

lemma lit_Cons [simp]: "lit (c # cs) = of_char c # lit cs"
  by (simp add: lit_def)

section \<open>Characters\<close>

definition utf8_width :: "uchar \<Rightarrow> nat" where
  "utf8_width c = (if c < 128 then 1 else if c < 2048 then 2 else if c < 65536 then 3 else 4)"

text \<open>\<open>char::is_whitespace\<close>: the Unicode property \<open>White_Space\<close>.\<close>

definition is_ws :: "uchar \<Rightarrow> bool" where
  "is_ws c \<longleftrightarrow> 9 \<le> c \<and> c \<le> 13 \<or> c = 32 \<or> c = 133 \<or> c = 160 \<or> c = 5760
     \<or> 8192 \<le> c \<and> c \<le> 8202 \<or> c = 8232 \<or> c = 8233 \<or> c = 8239 \<or> c = 8287 \<or> c = 12288"

text \<open>\<open>char::is_control\<close>: the general category \<open>Cc\<close>.\<close>

definition is_control :: "uchar \<Rightarrow> bool" where
  "is_control c \<longleftrightarrow> c < 32 \<or> 127 \<le> c \<and> c \<le> 159"

definition is_ascii_digit :: "uchar \<Rightarrow> bool" where
  "is_ascii_digit c \<longleftrightarrow> 48 \<le> c \<and> c \<le> 57"

definition ascii_lower_char :: "uchar \<Rightarrow> uchar" where
  "ascii_lower_char c = (if 65 \<le> c \<and> c \<le> 90 then c + 32 else c)"

definition to_ascii_lowercase :: "str \<Rightarrow> str" where
  "to_ascii_lowercase = map ascii_lower_char"

section \<open>Byte lengths and char boundaries\<close>

definition byte_len :: "str \<Rightarrow> nat" where
  "byte_len s = sum_list (map utf8_width s)"

lemma byte_len_Nil [simp]: "byte_len [] = 0"
  by (simp add: byte_len_def)

lemma byte_len_Cons [simp]: "byte_len (c # cs) = utf8_width c + byte_len cs"
  by (simp add: byte_len_def)

lemma byte_len_append [simp]: "byte_len (s @ t) = byte_len s + byte_len t"
  by (simp add: byte_len_def)

lemma utf8_width_pos [simp]: "0 < utf8_width c"
  by (simp add: utf8_width_def)

lemma utf8_width_le [simp]: "utf8_width c \<le> 4"
  by (simp add: utf8_width_def)

lemma length_le_byte_len: "length s \<le> byte_len s"
proof (induction s)
  case (Cons c s)
  have "0 < utf8_width c" by simp
  with Cons show ?case by (simp only: length_Cons byte_len_Cons)
qed simp

text \<open>The longest prefix that fits into \<open>n\<close> bytes, and \<open>str::is_char_boundary\<close>.\<close>

fun take_bytes :: "nat \<Rightarrow> str \<Rightarrow> str" where
  "take_bytes n [] = []"
| "take_bytes n (c # cs) = (if utf8_width c \<le> n then c # take_bytes (n - utf8_width c) cs else [])"

definition is_char_boundary :: "str \<Rightarrow> nat \<Rightarrow> bool" where
  "is_char_boundary s i \<longleftrightarrow> byte_len (take_bytes i s) = i"

lemma take_bytes_prefix: "prefix (take_bytes n s) s"
  by (induction n s rule: take_bytes.induct) auto

lemma byte_len_take_bytes: "byte_len (take_bytes n s) \<le> n"
  by (induction n s rule: take_bytes.induct) auto

lemma take_bytes_all: "byte_len s \<le> n \<Longrightarrow> take_bytes n s = s"
  by (induction n s rule: take_bytes.induct) auto

lemma take_bytes_maximal:
  "prefix p s \<Longrightarrow> byte_len p \<le> n \<Longrightarrow> prefix p (take_bytes n s)"
proof (induction n s arbitrary: p rule: take_bytes.induct)
  case (2 n c cs)
  then show ?case by (cases p) auto
qed simp

lemma take_bytes_Suc_not_boundary:
  "\<not> is_char_boundary s (Suc n) \<Longrightarrow> take_bytes (Suc n) s = take_bytes n s"
proof -
  assume "\<not> is_char_boundary s (Suc n)"
  then have "byte_len (take_bytes (Suc n) s) \<le> n"
    using byte_len_take_bytes [of "Suc n" s] by (simp add: is_char_boundary_def)
  then have "prefix (take_bytes (Suc n) s) (take_bytes n s)"
    by (intro take_bytes_maximal take_bytes_prefix)
  moreover have "prefix (take_bytes n s) (take_bytes (Suc n) s)"
    using byte_len_take_bytes [of n s]
    by (intro take_bytes_maximal take_bytes_prefix) simp
  ultimately show ?thesis by (rule prefix_order.antisym)
qed

lemma is_char_boundary_0 [simp]: "is_char_boundary s 0"
  using byte_len_take_bytes [of 0 s] by (simp add: is_char_boundary_def)

text \<open>\<open>while end > 0 && !s.is_char_boundary(end) { end -= 1 }\<close>, the loop the code uses to cut a
  text at a byte budget.\<close>

fun floor_boundary :: "str \<Rightarrow> nat \<Rightarrow> nat" where
  "floor_boundary s 0 = 0"
| "floor_boundary s (Suc n) = (if is_char_boundary s (Suc n) then Suc n else floor_boundary s n)"

lemma floor_boundary_boundary: "is_char_boundary s (floor_boundary s n)"
  by (induction n) auto

lemma take_floor_boundary: "take_bytes (floor_boundary s n) s = take_bytes n s"
  by (induction n) (auto simp: take_bytes_Suc_not_boundary)

section \<open>Trimming\<close>

definition trim_start :: "str \<Rightarrow> str" where
  "trim_start s = dropWhile is_ws s"

definition trim_end :: "str \<Rightarrow> str" where
  "trim_end s = rev (dropWhile is_ws (rev s))"

definition trim :: "str \<Rightarrow> str" where
  "trim s = trim_end (trim_start s)"

definition blank :: "str \<Rightarrow> bool" where
  "blank s \<longleftrightarrow> trim s = []"

lemma length_trim_end: "length (trim_end s) \<le> length s"
  by (simp add: trim_end_def) (metis length_dropWhile_le length_rev)

lemma length_trim: "length (trim s) \<le> length s"
  unfolding trim_def trim_start_def
  by (meson length_trim_end length_dropWhile_le le_trans)

lemma trim_end_eq_Nil: "trim_end s = [] \<longleftrightarrow> (\<forall>c\<in>set s. is_ws c)"
  by (simp add: trim_end_def dropWhile_eq_Nil_conv)

lemma blank_iff: "blank s \<longleftrightarrow> (\<forall>c\<in>set s. is_ws c)"
proof -
  have "blank s \<longleftrightarrow> (\<forall>c\<in>set (dropWhile is_ws s). is_ws c)"
    by (simp add: blank_def trim_def trim_start_def trim_end_eq_Nil)
  also have "\<dots> \<longleftrightarrow> (\<forall>c\<in>set s. is_ws c)"
    by (metis hd_dropWhile list.set_sel(1) dropWhile_eq_Nil_conv set_dropWhileD)
  finally show ?thesis .
qed

lemma blank_Nil [simp]: "blank []"
  by (simp add: blank_iff)

lemma blank_append [simp]: "blank (s @ t) \<longleftrightarrow> blank s \<and> blank t"
  by (auto simp: blank_iff)

lemma trim_end_append_ws:
  "\<exists>w. s = trim_end s @ w \<and> (\<forall>c\<in>set w. is_ws c)"
proof -
  have "rev s = takeWhile is_ws (rev s) @ dropWhile is_ws (rev s)" by simp
  then have "s = rev (dropWhile is_ws (rev s)) @ rev (takeWhile is_ws (rev s))"
    by (metis rev_append rev_rev_ident)
  moreover have "\<forall>c\<in>set (rev (takeWhile is_ws (rev s))). is_ws c"
    by (auto dest: set_takeWhileD)
  ultimately show ?thesis by (metis trim_end_def)
qed

lemma trim_start_trim_end:
  assumes "xs = [] \<or> \<not> is_ws (hd xs)"
  shows "trim_start (trim_end xs) = trim_end xs"
proof (cases xs)
  case (Cons x xs')
  with assms have "\<not> is_ws x" by simp
  then show ?thesis by (simp add: Cons trim_start_def trim_end_def dropWhile_append3)
qed (simp add: trim_start_def trim_end_def)

lemma trim_trim [simp]: "trim (trim s) = trim s"
proof -
  have "trim_start (trim s) = trim s"
    unfolding trim_def by (rule trim_start_trim_end) (metis hd_dropWhile trim_start_def)
  then show ?thesis by (simp add: trim_def [of "trim s"]) (simp add: trim_def trim_end_def dropWhile_idem)
qed

lemma trim_no_ws: "\<forall>c\<in>set s. \<not> is_ws c \<Longrightarrow> trim s = s"
proof -
  assume n: "\<forall>c\<in>set s. \<not> is_ws c"
  then have "dropWhile is_ws s = s" "dropWhile is_ws (rev s) = rev s"
    by (metis dropWhile_eq_self_iff hd_in_set, metis dropWhile_eq_self_iff hd_in_set set_rev)
  then show ?thesis by (simp add: trim_def trim_start_def trim_end_def)
qed

lemma trim_decomp:
  "\<exists>v w. s = v @ trim s @ w \<and> (\<forall>c\<in>set v. is_ws c) \<and> (\<forall>c\<in>set w. is_ws c)"
proof -
  have "s = takeWhile is_ws s @ trim_start s"
    by (simp add: trim_start_def)
  moreover obtain w where "trim_start s = trim s @ w" and "\<forall>c\<in>set w. is_ws c"
    using trim_end_append_ws [of "trim_start s"] by (auto simp: trim_def)
  ultimately show ?thesis
    by (metis set_takeWhileD)
qed

section \<open>Searching and splitting\<close>

definition starts_with :: "str \<Rightarrow> str \<Rightarrow> bool" where
  "starts_with p s \<longleftrightarrow> take (length p) s = p"

lemma starts_with_iff: "starts_with p s \<longleftrightarrow> (\<exists>t. s = p @ t)"
  by (auto simp: starts_with_def) (metis append_take_drop_id)

text \<open>\<open>str::split_once\<close>: the texts before and after the first occurrence of a pattern. It also
  stands for \<open>find\<close> followed by slicing.\<close>

fun split_once :: "str \<Rightarrow> str \<Rightarrow> (str \<times> str) option" where
  "split_once p s =
     (if starts_with p s then Some ([], drop (length p) s)
      else (case s of [] \<Rightarrow> None
            | c # cs \<Rightarrow> (case split_once p cs of None \<Rightarrow> None | Some (a, b) \<Rightarrow> Some (c # a, b))))"

declare split_once.simps [simp del]

definition contains :: "str \<Rightarrow> str \<Rightarrow> bool" where
  "contains p s \<longleftrightarrow> split_once p s \<noteq> None"

lemma split_once_Nil: "split_once p [] = (if p = [] then Some ([], []) else None)"
  by (simp add: split_once.simps starts_with_def)

lemma split_once_Cons:
  "split_once p (c # cs) =
     (if starts_with p (c # cs) then Some ([], drop (length p) (c # cs))
      else (case split_once p cs of None \<Rightarrow> None | Some (a, b) \<Rightarrow> Some (c # a, b)))"
  by (subst split_once.simps) simp

lemma split_once_SomeD: "split_once p s = Some (a, b) \<Longrightarrow> s = a @ p @ b"
proof (induction s arbitrary: a)
  case Nil
  then show ?case by (simp add: split_once_Nil split: if_splits)
next
  case (Cons c cs)
  then show ?case
    by (fastforce simp: split_once_Cons starts_with_iff split: if_splits option.splits)
qed

lemma split_once_append: "split_once p (a @ p @ b) \<noteq> None"
proof (induction a)
  case Nil
  then show ?case
    by (subst split_once.simps) (auto simp: starts_with_iff)
next
  case (Cons c a)
  then show ?case by (auto simp: split_once_Cons split: option.splits)
qed

lemma contains_iff: "contains p s \<longleftrightarrow> (\<exists>a b. s = a @ p @ b)"
  using split_once_append split_once_SomeD by (fastforce simp: contains_def)

text \<open>It is the \<^emph>\<open>first\<close> occurrence: no occurrence begins earlier.\<close>

lemma split_once_first:
  "split_once p s = Some (a, b) \<Longrightarrow> s = a' @ p @ b' \<Longrightarrow> length a \<le> length a'"
proof (induction s arbitrary: a a')
  case Nil
  then show ?case by (simp add: split_once_Nil split: if_splits)
next
  case (Cons c cs)
  show ?case
  proof (cases "starts_with p (c # cs)")
    case True
    with Cons.prems(1) show ?thesis by (simp add: split_once_Cons)
  next
    case False
    then obtain d a'' where a': "a' = d # a''" using Cons.prems(2)
      by (cases a') (auto simp: starts_with_iff)
    from False Cons.prems(1) obtain e where e: "a = c # e" "split_once p cs = Some (e, b)"
      by (auto simp: split_once_Cons split: option.splits)
    from Cons.prems(2) a' have "cs = a'' @ p @ b'" by simp
    from Cons.IH [OF e(2) this] show ?thesis by (simp add: e a')
  qed
qed

lemma split_once_shorter: "split_once p s = Some (a, b) \<Longrightarrow> p \<noteq> [] \<Longrightarrow> length b < length s"
  by (drule split_once_SomeD) auto

text \<open>\<open>str::split\<close> for a non-empty pattern.\<close>

function str_split :: "str \<Rightarrow> str \<Rightarrow> str list" where
  "str_split p s =
     (if p = [] then [s]
      else (case split_once p s of None \<Rightarrow> [s] | Some (a, b) \<Rightarrow> a # str_split p b))"
  by pat_completeness auto
termination
  by (relation "measure (\<lambda>(p, s). length s)") (auto dest: split_once_shorter)

declare str_split.simps [simp del]

lemma str_split_nonempty: "str_split p s \<noteq> []"
  by (subst str_split.simps) (auto split: option.splits)

text \<open>\<open>join\<close>.\<close>

fun join :: "str \<Rightarrow> str list \<Rightarrow> str" where
  "join sep [] = []"
| "join sep [x] = x"
| "join sep (x # y # ys) = x @ sep @ join sep (y # ys)"

lemma join_Cons: "xs \<noteq> [] \<Longrightarrow> join sep (x # xs) = x @ sep @ join sep xs"
  by (cases xs) auto

lemma join_str_split: "p \<noteq> [] \<Longrightarrow> join p (str_split p s) = s"
proof (induction p s rule: str_split.induct)
  case (1 p s)
  show ?case
  proof (cases "split_once p s")
    case None
    then show ?thesis by (simp add: str_split.simps [of p s] 1)
  next
    case (Some ab)
    obtain a b where ab: "ab = (a, b)" by (cases ab)
    with Some 1 have "join p (str_split p b) = b" by simp
    moreover from Some ab have "s = a @ p @ b" by (simp add: split_once_SomeD)
    ultimately show ?thesis using Some ab 1
      by (subst str_split.simps) (simp add: join_Cons str_split_nonempty)
  qed
qed

text \<open>\<open>str::lines\<close>: the pieces between line feeds, each that a line feed ends
  without the carriage return before it, and without the empty piece after a final line feed.\<close>

definition strip_cr :: "str \<Rightarrow> str" where
  "strip_cr s = (if s \<noteq> [] \<and> last s = 13 then butlast s else s)"

definition text_lines :: "str \<Rightarrow> str list" where
  "text_lines s =
     (let ps = str_split [10] s in map strip_cr (butlast ps) @ (if last ps = [] then [] else [last ps]))"

section \<open>Numbers and file names\<close>

text \<open>The decimal form of an unsigned integer.\<close>

fun nat_str :: "nat \<Rightarrow> str" where
  "nat_str n = (if n < 10 then [48 + n] else nat_str (n div 10) @ [48 + n mod 10])"

declare nat_str.simps [simp del]

lemma nat_str_digits: "c \<in> set (nat_str n) \<Longrightarrow> 48 \<le> c \<and> c \<le> 57"
proof (induction n rule: nat_str.induct)
  case (1 n)
  then show ?case by (cases "n < 10") (auto simp: nat_str.simps [of n])
qed

lemma nat_str_nonempty [simp]: "nat_str n \<noteq> []"
  by (subst nat_str.simps) simp

text \<open>\<open>Path::extension\<close> of a file name: what follows the last dot, unless nothing precedes it.\<close>

definition file_extension :: "str \<Rightarrow> str option" where
  "file_extension name =
     (let ext = rev (takeWhile (\<lambda>c. c \<noteq> 46) (rev name));
          before = take (length name - length ext - 1) name
      in if 46 \<in> set name \<and> before \<noteq> [] then Some ext else None)"

text \<open>\<open>str::split_whitespace\<close>.\<close>

function split_ws :: "str \<Rightarrow> str list" where
  "split_ws s =
     (case dropWhile is_ws s of
        [] \<Rightarrow> []
      | c # cs \<Rightarrow> takeWhile (\<lambda>x. \<not> is_ws x) (c # cs) # split_ws (dropWhile (\<lambda>x. \<not> is_ws x) (c # cs)))"
  by pat_completeness auto
termination
proof (relation "measure length", goal_cases)
  case (2 s c cs)
  then have "\<not> is_ws c" by (metis hd_dropWhile list.distinct(1) list.sel(1))
  moreover have "length (c # cs) \<le> length s" using 2 length_dropWhile_le [of is_ws s] by simp
  moreover have "length (dropWhile (\<lambda>x. \<not> is_ws x) cs) \<le> length cs" by (rule length_dropWhile_le)
  ultimately show ?case by simp
qed simp

declare split_ws.simps [simp del]

end
