(* ===== verification/Hook_State.thy ===== *)
theory Hook_State
  imports Rust_Text
begin

text \<open>
  \<open>crates/memgarden-cli/src/state.rs\<close>: the hook's per-session state and the files it is kept in, with the
  two gates of \<open>cmd/mod.rs\<close> that read it (circuit breaker and poison throttle) and the recovery from
  the daemon's mirror. A state directory is the list of its entries; printing and parsing a state
  file are \<open>serde_json\<close>'s and appear as parameters.
\<close>

record pending_job =
  p_job_id :: str
  p_offset_from :: nat
  p_offset_to :: nat
  p_chunk_before :: nat
  p_compactions_before :: nat

record hook_state =
  hs_schema :: nat
  hs_session_id :: str
  hs_bank_id :: str
  hs_transcript_path :: str
  hs_cwd :: str
  hs_offset :: nat
  hs_chunk :: nat
  hs_turns :: nat
  hs_turns_since_retain :: nat
  hs_compactions :: nat
  hs_pending :: "pending_job option"
  hs_unconfirmed_bytes :: nat
  hs_transport_failures :: nat
  hs_reject_failures :: nat
  hs_breaker_open_until_ms :: int
  hs_poisoned_at :: "int option"
  hs_injected_uuids :: "str list"

definition state_schema :: nat where
  "state_schema = 1"

definition hook_state_new :: "str \<Rightarrow> str \<Rightarrow> hook_state" where
  "hook_state_new session_id bank_id =
     \<lparr>hs_schema = state_schema, hs_session_id = session_id, hs_bank_id = bank_id,
      hs_transcript_path = [], hs_cwd = [], hs_offset = 0, hs_chunk = 0, hs_turns = 0,
      hs_turns_since_retain = 0, hs_compactions = 0, hs_pending = None, hs_unconfirmed_bytes = 0,
      hs_transport_failures = 0, hs_reject_failures = 0, hs_breaker_open_until_ms = 0,
      hs_poisoned_at = None, hs_injected_uuids = []\<rparr>"

lemma hook_state_new_sid [simp]: "hs_session_id (hook_state_new sid b) = sid"
  by (simp add: hook_state_new_def)

definition hook_state_recovered :: "str \<Rightarrow> str \<Rightarrow> nat \<Rightarrow> nat \<Rightarrow> hook_state" where
  "hook_state_recovered session_id bank_id confirmed_offset chunk =
     (hook_state_new session_id bank_id)\<lparr>hs_offset := confirmed_offset, hs_chunk := chunk\<rparr>"

text \<open>\<open>Mirror::into_state\<close>: the mirror's \<open>byte_offset\<close> is not a field of it.\<close>

record mirror =
  m_confirmed_offset :: int
  m_chunk_index :: int

definition mirror_into_state :: "mirror \<Rightarrow> str \<Rightarrow> str \<Rightarrow> hook_state" where
  "mirror_into_state m session_id bank_id =
     hook_state_recovered session_id bank_id (nat (max 0 (m_confirmed_offset m)))
       (nat (max 0 (m_chunk_index m)))"

section \<open>What was injected\<close>

definition injected_cap :: nat where
  "injected_cap = 1000"

definition note_injected :: "str list \<Rightarrow> hook_state \<Rightarrow> hook_state" where
  "note_injected uuids s =
     (let xs = foldl (\<lambda>acc u. if u \<in> set acc then acc else acc @ [u]) (hs_injected_uuids s) uuids
      in s\<lparr>hs_injected_uuids :=
             (if injected_cap < length xs then drop (length xs - injected_cap) xs else xs)\<rparr>)"

section \<open>The breaker and the poison throttle\<close>

record hooks_config =
  hc_retain_every_n_turns :: nat
  hc_max_post_bytes :: nat
  hc_breaker_failures :: nat
  hc_breaker_cooldown_secs :: nat
  hc_max_reject_failures :: nat
  hc_poison_retry_secs :: nat

definition breaker_cooldown_ms :: "hooks_config \<Rightarrow> int" where
  "breaker_cooldown_ms cfg = i64_of_u64_sat (sat_mul_u64 (hc_breaker_cooldown_secs cfg) 1000)"

definition breaker_open :: "hook_state \<Rightarrow> hooks_config \<Rightarrow> int \<Rightarrow> bool" where
  "breaker_open s cfg now_ms \<longleftrightarrow>
     now_ms < hs_breaker_open_until_ms s \<and>
     hs_breaker_open_until_ms s \<le> sat_add_i64 now_ms (breaker_cooldown_ms cfg)"

definition poisoned_within_throttle :: "hook_state \<Rightarrow> nat \<Rightarrow> int \<Rightarrow> bool" where
  "poisoned_within_throttle s retry_secs now_ms =
     (case hs_poisoned_at s of
        None \<Rightarrow> False
      | Some poisoned_at \<Rightarrow>
          (let window_ms = i64_of_u64_sat (sat_mul_u64 retry_secs 1000)
           in poisoned_at \<le> now_ms \<and> now_ms < sat_add_i64 poisoned_at window_ms))"

section \<open>File names\<close>

definition max_filename_bytes :: nat where
  "max_filename_bytes = 200"

definition safe_char :: "uchar \<Rightarrow> uchar" where
  "safe_char c =
     (if c \<in> set (lit [CHR 0x5C, CHR ''/'', CHR '':'', CHR ''*'', CHR ''?'', CHR 0x22, CHR ''<'',
                   CHR ''>'', CHR ''|'']) then 95
      else if is_control c then 95 else c)"

function collapse_dots :: "str \<Rightarrow> str" where
  "collapse_dots s =
     (case split_once [46, 46] s of None \<Rightarrow> s | Some (a, b) \<Rightarrow> collapse_dots (a @ 95 # b))"
  by pat_completeness auto
termination
  by (relation "measure length") (auto dest: split_once_SomeD)

declare collapse_dots.simps [simp del]

definition truncate_bytes :: "nat \<Rightarrow> str \<Rightarrow> str" where
  "truncate_bytes n s = (if n < byte_len s then take_bytes (floor_boundary s n) s else s)"

text \<open>The file name of a session inside the state directory; the containment check compares the
  parent of the joined path with the directory, and fails only for a name with a separator in it.\<close>

definition path_for :: "str \<Rightarrow> str option" where
  "path_for session_id =
     (let safe = truncate_bytes max_filename_bytes (collapse_dots (map safe_char session_id));
          safe = (if safe = [] then lit ''state'' else safe);
          name = safe @ lit ''.json''
      in if 47 \<in> set name then None else Some name)"

lemma collapse_dots_length: "length (collapse_dots s) \<le> length s"
proof (induction s rule: collapse_dots.induct)
  case (1 s)
  then show ?case
    by (subst collapse_dots.simps) (fastforce split: option.splits dest: split_once_SomeD)
qed

lemma collapse_dots_no_dots: "\<not> contains [46, 46] (collapse_dots s)"
proof (induction s rule: collapse_dots.induct)
  case (1 s)
  show ?case
  proof (cases "split_once [46, 46] s")
    case None
    then show ?thesis by (subst collapse_dots.simps) (simp add: contains_def)
  next
    case (Some ab)
    with 1 show ?thesis by (subst collapse_dots.simps) (auto split: prod.splits)
  qed
qed

lemma collapse_dots_chars: "set (collapse_dots s) \<subseteq> insert 95 (set s)"
proof (induction s rule: collapse_dots.induct)
  case (1 s)
  show ?case
  proof (cases "split_once [46, 46] s")
    case None
    then show ?thesis by (subst collapse_dots.simps) auto
  next
    case (Some ab)
    obtain a b where ab: "ab = (a, b)" by (cases ab)
    from 1 [OF Some ab [symmetric]] Some ab show ?thesis
      by (subst collapse_dots.simps) (auto dest!: split_once_SomeD)
  qed
qed

lemma truncate_bytes_prefix: "prefix (truncate_bytes n s) s"
  by (simp add: truncate_bytes_def take_bytes_prefix)

lemma truncate_bytes_len: "byte_len (truncate_bytes n s) \<le> n"
  by (simp add: truncate_bytes_def take_floor_boundary byte_len_take_bytes)

lemma contains_prefix: "contains p s \<Longrightarrow> prefix s t \<Longrightarrow> contains p t"
  by (fastforce simp: contains_iff prefix_def)

definition unsafe_char :: "uchar \<Rightarrow> bool" where
  "unsafe_char c \<longleftrightarrow> is_control c \<or> c \<in> {47, 92, 58, 42, 63, 34, 60, 62, 124}"

lemma safe_char_safe: "\<not> unsafe_char (safe_char c)"
  by (auto simp: safe_char_def unsafe_char_def is_control_def)

lemma unsafe_char_95: "\<not> unsafe_char 95"
  by (simp add: unsafe_char_def is_control_def)

lemma unsafe_char_47: "unsafe_char 47"
  by (simp add: unsafe_char_def)

lemma path_for_contained_stem:
  "\<exists>stem. path_for sid = Some (stem @ lit ''.json'') \<and> stem \<noteq> []
     \<and> list_all (\<lambda>c. \<not> unsafe_char c) (stem @ lit ''.json'') \<and> \<not> contains (lit ''..'') stem
     \<and> byte_len (stem @ lit ''.json'') \<le> 205"
proof -
  let ?t = "truncate_bytes max_filename_bytes (collapse_dots (map safe_char sid))"
  let ?s = "if ?t = [] then lit ''state'' else ?t"
  have sub: "set ?t \<subseteq> insert 95 (safe_char ` set sid)"
    using collapse_dots_chars [of "map safe_char sid"] truncate_bytes_prefix
    by (metis set_mono_prefix subset_trans set_map)
  have "\<not> unsafe_char c" if "c \<in> set ?t" for c
    using subsetD [OF sub that] safe_char_safe by (auto simp: unsafe_char_95)
  then have s: "list_all (\<lambda>c. \<not> unsafe_char c) (?s @ lit ''.json'')"
    by (simp add: list_all_iff) (simp add: unsafe_char_def is_control_def)
  have "\<not> contains [46, 46] ?t"
    using contains_prefix [OF _ truncate_bytes_prefix] collapse_dots_no_dots by blast
  then have "\<not> contains (lit ''..'') ?s"
    by (auto simp: contains_def split_once_Cons split_once_Nil starts_with_def)
  moreover have "byte_len (?s @ lit ''.json'') \<le> 205"
  proof (cases "?t = []")
    case True
    then show ?thesis by (simp add: utf8_width_def)
  next
    case False
    have "byte_len ?t \<le> 200"
      using truncate_bytes_len [of max_filename_bytes] by (simp add: max_filename_bytes_def)
    moreover have "byte_len (lit ''.json'') = 5" by (simp add: utf8_width_def)
    ultimately show ?thesis using False by (simp only: if_False byte_len_append)
  qed
  moreover have "47 \<notin> set (?s @ lit ''.json'')"
    using s unsafe_char_47 unfolding list_all_iff by blast
  then have "path_for sid = Some (?s @ lit ''.json'')"
    by (simp add: path_for_def Let_def)
  moreover have "?s \<noteq> []" by simp
  ultimately show ?thesis using s by blast
qed

text \<open>Every session id, however hostile, maps to a file directly inside the state directory: the
  name has no path separator, control or reserved character, no \<open>..\<close>, is not longer than 205 bytes,
  and ends in \<open>.json\<close>, so the containment check never fails.\<close>

lemma path_for_contained:
  "\<exists>stem. path_for sid = Some (stem @ lit ''.json'') \<and> stem \<noteq> []
     \<and> list_all (\<lambda>c. \<not> unsafe_char c) (stem @ lit ''.json'') \<and> \<not> contains (lit ''..'') stem
     \<and> byte_len (stem @ lit ''.json'') \<le> 205"
  by (rule path_for_contained_stem)

section \<open>State files\<close>

type_synonym file_bytes = "nat list"
type_synonym dir = "str \<Rightarrow> file_bytes option"

definition max_state_file_bytes :: nat where
  "max_state_file_bytes = 65536"

text \<open>\<open>load\<close>: a bounded read, then the parser, then the two checks.\<close>

definition state_load :: "(file_bytes \<Rightarrow> hook_state option) \<Rightarrow> dir \<Rightarrow> str \<Rightarrow> hook_state option" where
  "state_load parse d session_id =
     (case path_for session_id of
        None \<Rightarrow> None
      | Some path \<Rightarrow>
          (case d path of
             None \<Rightarrow> None
           | Some bytes \<Rightarrow>
               (case parse (take max_state_file_bytes bytes) of
                  None \<Rightarrow> None
                | Some s \<Rightarrow> if hs_schema s = state_schema \<and> hs_session_id s = session_id
                            then Some s else None)))"

text \<open>\<open>load_all\<close> over the entries of the directory: name, whether it is a regular file, contents.\<close>

definition accept_entry ::
  "(file_bytes \<Rightarrow> hook_state option) \<Rightarrow> str \<times> bool \<times> file_bytes \<Rightarrow> hook_state option" where
  "accept_entry parse e =
     (case e of (name, is_file, bytes) \<Rightarrow>
        if file_extension name \<noteq> Some (lit ''json'') \<or> \<not> is_file then None
        else (case parse (take max_state_file_bytes bytes) of
                None \<Rightarrow> None
              | Some s \<Rightarrow> if hs_schema s = state_schema \<and> path_for (hs_session_id s) = Some name
                          then Some s else None))"

definition state_load_all ::
  "(file_bytes \<Rightarrow> hook_state option) \<Rightarrow> (str \<times> bool \<times> file_bytes) list \<Rightarrow> hook_state list" where
  "state_load_all parse entries = List.map_filter (accept_entry parse) entries"

text \<open>\<open>create_temp\<close>: four candidate names; a stale one is removed and the next is tried. The directory
  after the attempts, and the name that was created, if one was.\<close>

definition tmp_name :: "str \<Rightarrow> nat \<Rightarrow> nat \<Rightarrow> str" where
  "tmp_name stem pid attempt =
     lit ''.'' @ stem @ lit ''.'' @ nat_str pid @ lit ''.'' @ nat_str attempt @ lit ''.tmp''"

fun create_temp :: "str \<Rightarrow> nat \<Rightarrow> nat list \<Rightarrow> dir \<Rightarrow> dir list \<times> str option" where
  "create_temp stem pid [] d = ([d], None)"
| "create_temp stem pid (a # as) d =
     (let tmp = tmp_name stem pid a in
      if d tmp = None then ([d, d(tmp \<mapsto> [])], Some tmp)
      else (let (ds, r) = create_temp stem pid as (d(tmp := None)) in (d # ds, r)))"

text \<open>\<open>store\<close>, as the directories a concurrent reader can see, in order, and whether it succeeded.
  \<open>written\<close> is how many bytes reach the temporary file before a write error (all of them: no error);
  \<open>renamed\<close> is whether the rename succeeds.\<close>

definition state_store ::
  "(hook_state \<Rightarrow> file_bytes) \<Rightarrow> nat \<Rightarrow> nat \<Rightarrow> bool \<Rightarrow> dir \<Rightarrow> hook_state \<Rightarrow> dir list \<times> bool" where
  "state_store print pid written renamed d s =
     (case path_for (hs_session_id s) of
        None \<Rightarrow> ([d], False)
      | Some path \<Rightarrow>
          (let bytes = print s; stem = take (length path - 5) path in
           case create_temp stem pid [0, 1, 2, 3] d of
             (ds, None) \<Rightarrow> (ds, False)
           | (ds, Some tmp) \<Rightarrow>
               (let d1 = (last ds)(tmp \<mapsto> take written bytes) in
                if length bytes \<le> written \<and> renamed
                then (ds @ [d1, d1(tmp := None, path \<mapsto> bytes)], True)
                else (ds @ [d1, d1(tmp := None)], False))))"

lemma path_for_json: "path_for sid = Some name \<Longrightarrow> \<exists>stem. name = stem @ lit ''.json''"
  using path_for_contained_stem [of sid] by auto

lemma tmp_name_tmp: "\<exists>stem'. tmp_name stem pid a = stem' @ lit ''.tmp''"
  by (rule exI [of _ "lit ''.'' @ stem @ lit ''.'' @ nat_str pid @ lit ''.'' @ nat_str a"])
    (simp add: tmp_name_def)

lemma json_not_tmp: "s @ lit ''.json'' \<noteq> tmp_name stem pid a"
proof -
  obtain t where "tmp_name stem pid a = t @ lit ''.tmp''" using tmp_name_tmp by blast
  moreover have "last (s @ lit ''.json'') \<noteq> last (t @ lit ''.tmp'')" by simp
  ultimately show ?thesis by metis
qed

text \<open>What the temporary-file attempts leave alone.\<close>

lemma create_temp_frame:
  assumes "create_temp stem pid as d = (ds, r)" and "d' \<in> set ds"
    and "\<And>a. name \<noteq> tmp_name stem pid a"
  shows "d' name = d name"
  using assms
proof (induction as arbitrary: d ds r)
  case (Cons a as)
  show ?case
  proof (cases "d (tmp_name stem pid a)")
    case None
    with Cons.prems show ?thesis by (auto simp: Let_def)
  next
    case (Some x)
    obtain ds1 r1 where c: "create_temp stem pid as (d(tmp_name stem pid a := None)) = (ds1, r1)"
      by (cases "create_temp stem pid as (d(tmp_name stem pid a := None))")
    with Some Cons.prems(1) have "ds = d # ds1" by (auto simp: Let_def)
    with Cons.prems Cons.IH [OF c] show ?thesis by auto
  qed
qed simp

lemma create_temp_nonempty: "create_temp stem pid as d = (ds, r) \<Longrightarrow> ds \<noteq> []"
  by (induction as arbitrary: d ds r) (auto simp: Let_def split: if_splits prod.splits)

lemma create_temp_name: "create_temp stem pid as d = (ds, Some tmp) \<Longrightarrow> \<exists>a. tmp = tmp_name stem pid a"
  by (induction as arbitrary: d ds) (auto simp: Let_def split: if_splits prod.splits)

lemma state_store_cases:
  assumes "state_store print pid written renamed d s = (ds, ok)"
    and "path_for (hs_session_id s) = Some path"
  obtains (failed) stem where "\<not> ok" "\<exists>r. create_temp stem pid [0, 1, 2, 3] d = (ds, r)"
  | (wrote) stem ds0 a where "create_temp stem pid [0, 1, 2, 3] d = (ds0, Some (tmp_name stem pid a))"
      "ds = ds0 @ [(last ds0)(tmp_name stem pid a \<mapsto> take written (print s)),
        (last ds0)(tmp_name stem pid a \<mapsto> take written (print s), tmp_name stem pid a := None,
          path := (if ok then Some (print s) else (last ds0) path))]"
proof -
  let ?stem = "take (length path - 5) path"
  obtain ds0 r where c: "create_temp ?stem pid [0, 1, 2, 3] d = (ds0, r)"
    by (cases "create_temp ?stem pid [0, 1, 2, 3] d")
  obtain stem0 where path: "path = stem0 @ lit ''.json''" using path_for_json assms(2) by blast
  show thesis
  proof (cases r)
    case None
    with c assms show ?thesis by (intro failed [of ?stem]) (auto simp: state_store_def Let_def)
  next
    case (Some tmp)
    then obtain a where a: "tmp = tmp_name ?stem pid a" using create_temp_name c by blast
    have "path \<noteq> tmp" unfolding path a by (rule json_not_tmp)
    let ?d1 = "(last ds0)(tmp \<mapsto> take written (print s))"
    have "(ds, ok) = (if length (print s) \<le> written \<and> renamed
        then (ds0 @ [?d1, ?d1(tmp := None, path \<mapsto> print s)], True)
        else (ds0 @ [?d1, ?d1(tmp := None)], False))"
      using assms c Some by (simp add: state_store_def Let_def)
    then have "ds = ds0 @ [?d1, ?d1(tmp := None, path := (if ok then Some (print s) else (last ds0) path))]"
      using \<open>path \<noteq> tmp\<close> by (cases "length (print s) \<le> written \<and> renamed") (simp_all add: fun_eq_iff)
    with c Some a show ?thesis by (intro wrote [of ?stem ds0 a]) simp_all
  qed
qed

lemma state_store_frame:
  assumes st: "state_store print pid written renamed d s = (ds, ok)"
    and p: "path_for (hs_session_id s) = Some path"
  shows "ds \<noteq> []"
    and "d' \<in> set ds \<Longrightarrow> d' path = d path \<or> d' path = Some (print s)"
    and "d' \<in> set ds \<Longrightarrow> other = o1 @ lit ''.json'' \<Longrightarrow> other \<noteq> path \<Longrightarrow> d' other = d other"
    and "(last ds) path = (if ok then Some (print s) else d path)"
proof -
  obtain stem0 where path: "path = stem0 @ lit ''.json''" using path_for_json p by blast
  have nt: "path \<noteq> tmp_name stem pid a" for stem pid a unfolding path by (rule json_not_tmp)
  have no: "other \<noteq> tmp_name stem pid a" if "other = o1 @ lit ''.json''" for stem pid a
    unfolding that by (rule json_not_tmp)
  from st p have "ds \<noteq> [] \<and> (d' \<in> set ds \<longrightarrow> d' path = d path \<or> d' path = Some (print s))
    \<and> (d' \<in> set ds \<longrightarrow> other = o1 @ lit ''.json'' \<longrightarrow> other \<noteq> path \<longrightarrow> d' other = d other)
    \<and> (last ds) path = (if ok then Some (print s) else d path)"
  proof (cases rule: state_store_cases)
    case (failed stem)
    then obtain r where c: "create_temp stem pid [0, 1, 2, 3] d = (ds, r)" by blast
    note fr = create_temp_frame [OF c] and ne = create_temp_nonempty [OF c]
    show ?thesis using failed fr [OF _ nt] fr [OF last_in_set [OF ne] nt] fr [OF _ no] ne by auto
  next
    case (wrote stem ds0 a)
    note fr = create_temp_frame [OF wrote(1)] and ne = create_temp_nonempty [OF wrote(1)]
    show ?thesis
      unfolding wrote(2) using fr [OF _ nt] fr [OF last_in_set [OF ne] nt]
        fr [OF _ no] fr [OF last_in_set [OF ne] no] nt no
      by auto
  qed
  then show "ds \<noteq> []"
    and "d' \<in> set ds \<Longrightarrow> d' path = d path \<or> d' path = Some (print s)"
    and "d' \<in> set ds \<Longrightarrow> other = o1 @ lit ''.json'' \<Longrightarrow> other \<noteq> path \<Longrightarrow> d' other = d other"
    and "(last ds) path = (if ok then Some (print s) else d path)" by auto
qed

text \<open>C6: A state file is replaced atomically. In every directory a concurrent reader can observe while
  \<open>store\<close> runs, under any write error, stale temporary file or failed rename, the session's file holds
  its old contents or the complete new ones, and every other session's file is untouched; at the end
  it holds the new contents exactly when \<open>store\<close> reports success.\<close>

theorem state_store_atomic:
  assumes "state_store print pid written renamed d s = (ds, ok)"
    and "path_for (hs_session_id s) = Some path"
  shows "list_all (\<lambda>d'. (d' path = d path \<or> d' path = Some (print s))
      \<and> (\<forall>sid' other. path_for sid' = Some other \<longrightarrow> other \<noteq> path \<longrightarrow> d' other = d other)) ds
    \<and> ds \<noteq> [] \<and> (last ds) path = (if ok then Some (print s) else d path)"
  unfolding list_all_iff
  using state_store_frame [OF assms] path_for_json by metis

text \<open>What is stored is what is loaded, and nothing else. After a successful store of a state that
  its printer and parser carry faithfully and that fits the read bound, loading its session gives it
  back; loading any other session gives what it gave before, or, where the two ids were sanitised to
  the same name, nothing: never another session's state.\<close>

lemma state_store_load:
  assumes st: "state_store print pid written renamed d s = (ds, True)"
    and rt: "parse (print s) = Some s" and sz: "length (print s) \<le> max_state_file_bytes"
    and sch: "hs_schema s = state_schema"
  shows "state_load parse (last ds) (hs_session_id s) = Some s
    \<and> (sid \<noteq> hs_session_id s \<longrightarrow>
        state_load parse (last ds) sid = state_load parse d sid \<or>
        (path_for sid = path_for (hs_session_id s) \<and> state_load parse (last ds) sid = None))"
proof -
  obtain path where p: "path_for (hs_session_id s) = Some path"
    using path_for_contained_stem by blast
  note fr = state_store_frame [OF st p]
  have l: "(last ds) path = Some (print s)" using fr(4) by simp
  have tk: "take max_state_file_bytes (print s) = print s" using sz by simp
  have one: "state_load parse (last ds) (hs_session_id s) = Some s"
    by (simp add: state_load_def p l tk rt sch)
  obtain other where q: "path_for sid = Some other" using path_for_contained_stem by blast
  show ?thesis
  proof (cases "other = path")
    case True
    then have "state_load parse (last ds) sid = None" if "sid \<noteq> hs_session_id s"
      using that by (simp add: state_load_def q l tk rt)
    with one True p q show ?thesis by auto
  next
    case False
    obtain o1 where "other = o1 @ lit ''.json''" using path_for_json q by blast
    from fr(3) [OF last_in_set [OF fr(1)] this False] have "(last ds) other = d other" .
    then have "state_load parse (last ds) sid = state_load parse d sid" by (simp add: state_load_def q)
    with one show ?thesis by blast
  qed
qed

text \<open>The catch-up child sees each session at most once. Over a directory, whose names are distinct,
  the states \<open>load_all\<close> returns have distinct session ids, and each is exactly what \<open>load\<close> returns for
  its id.\<close>

lemma state_load_all_sound:
  assumes "distinct (map fst entries)"
    and d: "d = map_of (map (\<lambda>(name, is_file, bytes). (name, bytes)) entries)"
  shows "distinct (map hs_session_id (state_load_all parse entries))
    \<and> list_all (\<lambda>s. state_load parse d (hs_session_id s) = Some s) (state_load_all parse entries)"
proof -
  have name: "path_for (hs_session_id s) = Some (fst e)" if "accept_entry parse e = Some s" for e s
    using that by (auto simp: accept_entry_def split: prod.splits if_splits option.splits)
  have "distinct (map hs_session_id (List.map_filter (accept_entry parse) es))"
    if "distinct (map fst es)" for es
    using that
  proof (induction es)
    case (Cons e es)
    have "hs_session_id s \<noteq> hs_session_id s'"
      if "accept_entry parse e = Some s" "e' \<in> set es" "accept_entry parse e' = Some s'" for s s' e'
      using name [OF that(1)] name [OF that(3)] that(2) Cons.prems by (auto simp: image_iff)
    with Cons show ?case by (auto simp: List.map_filter_def)
  qed (simp add: List.map_filter_def)
  moreover have "state_load parse d (hs_session_id s) = Some s"
    if "s \<in> set (state_load_all parse entries)" for s
  proof -
    from that obtain e where e: "e \<in> set entries" "accept_entry parse e = Some s"
      by (auto simp: state_load_all_def List.map_filter_def)
    obtain name is_file bytes where ee: "e = (name, is_file, bytes)" by (cases e)
    have "map fst (map (\<lambda>(name, is_file, bytes). (name, bytes)) entries) = map fst entries"
      by (simp add: comp_def case_prod_beta)
    with assms(1) have "distinct (map fst (map (\<lambda>(name, is_file, bytes). (name, bytes)) entries))"
      by (simp only:)
    moreover have "(name, bytes) \<in> set (map (\<lambda>(name, is_file, bytes). (name, bytes)) entries)"
      using e(1) ee by force
    ultimately have "d name = Some bytes" unfolding d by (rule map_of_is_SomeI)
    with e(2) ee name [OF e(2)] show ?thesis
      by (auto simp: state_load_def accept_entry_def split: if_splits option.splits)
  qed
  ultimately show ?thesis using assms(1) by (auto simp: state_load_all_def list_all_iff)
qed

lemma demo_path: "path_for [115] = Some (lit ''s.json'')"
  by (simp add: path_for_def collapse_dots.simps split_once_Cons split_once_Nil starts_with_def
      truncate_bytes_def max_filename_bytes_def utf8_width_def safe_char_def is_control_def Let_def)

lemma demo_store:
  "snd (state_store (\<lambda>_. [1]) 7 1 True (\<lambda>_. None) (hook_state_new [115] [98]))"
  by (simp add: state_store_def hook_state_new_def demo_path Let_def)

theorem state_store_atomic_witness:
  "last (fst (state_store (\<lambda>_. [1]) 7 1 True (\<lambda>_. None) (hook_state_new [115] [98]))) (lit ''s.json'') = Some [1]"
proof -
  obtain ds ok where e: "state_store (\<lambda>_. [1]) 7 1 True (\<lambda>_. None) (hook_state_new [115] [98]) = (ds, ok)"
    by (cases "state_store (\<lambda>_. [1]) 7 1 True (\<lambda>_. None) (hook_state_new [115] [98])")
  have p: "path_for (hs_session_id (hook_state_new [115] [98])) = Some (lit ''s.json'')"
    by (simp only: hook_state_new_def hook_state.simps demo_path)
  from demo_store e have "ok" by simp
  with state_store_atomic [OF e p] e show ?thesis by simp
qed

section \<open>Gates\<close>

text \<open>The circuit breaker cannot wedge. While it is open, its deadline lies at most one cooldown in
  the future, so it is closed again a cooldown later at the latest; and it reads as closed when the
  clock is set back by more than a cooldown. The poison throttle is bounded the same way by its
  retry window.\<close>

lemma gates_never_wedge:
  assumes "breaker_open s cfg now" and "i64_min \<le> now"
  shows "hs_breaker_open_until_ms s - now \<le> breaker_cooldown_ms cfg
    \<and> (\<forall>later \<ge> hs_breaker_open_until_ms s. \<not> breaker_open s cfg later)
    \<and> (\<forall>earlier. earlier + breaker_cooldown_ms cfg < hs_breaker_open_until_ms s \<longrightarrow>
         i64_min \<le> earlier \<longrightarrow> \<not> breaker_open s cfg earlier)
    \<and> (\<forall>t p. hs_poisoned_at s = Some p \<longrightarrow> i64_min \<le> p \<longrightarrow>
         poisoned_within_throttle s (hc_poison_retry_secs cfg) t \<longrightarrow>
         p \<le> t \<and> t - p < i64_of_u64_sat (sat_mul_u64 (hc_poison_retry_secs cfg) 1000))"
  using assms i64_of_u64_sat_nonneg [of "sat_mul_u64 (hc_breaker_cooldown_secs cfg) 1000"]
  by (auto simp: breaker_open_def breaker_cooldown_ms_def sat_add_i64_def poisoned_within_throttle_def
      Let_def i64_min_def i64_max_def split: option.splits)

definition demo_hooks_config :: hooks_config where
  "demo_hooks_config = \<lparr>hc_retain_every_n_turns = 10, hc_max_post_bytes = 25165824,
     hc_breaker_failures = 3, hc_breaker_cooldown_secs = 60, hc_max_reject_failures = 3,
     hc_poison_retry_secs = 3600\<rparr>"

lemma foldl_unseen:
  "\<exists>new. foldl (\<lambda>acc u. if u \<in> set acc then acc else acc @ [u]) xs us = xs @ new
     \<and> set (xs @ new) = set xs \<union> set us \<and> (distinct xs \<longrightarrow> distinct (xs @ new))"
proof (induction us arbitrary: xs)
  case (Cons u us)
  show ?case
  proof (cases "u \<in> set xs")
    case True
    with Cons [of xs] show ?thesis by auto
  next
    case False
    from Cons [of "xs @ [u]"] obtain new where
      "foldl (\<lambda>acc u. if u \<in> set acc then acc else acc @ [u]) (xs @ [u]) us = (xs @ [u]) @ new"
      "set ((xs @ [u]) @ new) = set (xs @ [u]) \<union> set us"
      "distinct (xs @ [u]) \<longrightarrow> distinct ((xs @ [u]) @ new)" by blast
    with False show ?thesis by (intro exI [of _ "u # new"]) auto
  qed
qed simp

text \<open>The injected list stays bounded and never repeats. It keeps at most 1000 ids, without
  duplicates when it had none, as the newest part of the old list followed by the new ids in the
  order given; below the bound every id offered is remembered.\<close>

lemma note_injected_bounded:
  assumes "distinct (hs_injected_uuids s)"
  shows "\<exists>new. suffix (hs_injected_uuids (note_injected us s)) (hs_injected_uuids s @ new)
    \<and> set (hs_injected_uuids s @ new) = set (hs_injected_uuids s) \<union> set us
    \<and> distinct (hs_injected_uuids (note_injected us s))
    \<and> length (hs_injected_uuids (note_injected us s)) = min injected_cap (length (hs_injected_uuids s @ new))
    \<and> note_injected us s = s\<lparr>hs_injected_uuids := hs_injected_uuids (note_injected us s)\<rparr>"
proof -
  obtain new where new: "foldl (\<lambda>acc u. if u \<in> set acc then acc else acc @ [u]) (hs_injected_uuids s) us
      = hs_injected_uuids s @ new"
    "set (hs_injected_uuids s @ new) = set (hs_injected_uuids s) \<union> set us"
    "distinct (hs_injected_uuids s @ new)"
    using foldl_unseen [of "hs_injected_uuids s" us] assms by auto
  let ?xs = "hs_injected_uuids s @ new"
  let ?ys = "if injected_cap < length ?xs then drop (length ?xs - injected_cap) ?xs else ?xs"
  have n: "note_injected us s = s\<lparr>hs_injected_uuids := ?ys\<rparr>"
    by (simp only: note_injected_def Let_def new(1))
  have "suffix ?ys ?xs" by (simp only: suffix_drop suffix_order.refl split: if_split) simp
  moreover have "distinct ?ys" using new(3) by (metis distinct_drop)
  moreover have "length ?ys = min injected_cap (length ?xs)" by auto
  ultimately obtain ys where "note_injected us s = s\<lparr>hs_injected_uuids := ys\<rparr>" "suffix ys ?xs"
      "distinct ys" "length ys = min injected_cap (length ?xs)"
    using n by blast
  then show ?thesis using new(2) by (intro exI [of _ new]) simp
qed

end
