(* ===== verification/Json_Value.thy ===== *)
theory Json_Value
  imports Complex_Main Rust_Text "HOL-Library.List_Lexorder"
begin

text \<open>
  \<open>serde_json::Value\<close> with the accessors the program uses. An object is the \<open>BTreeMap\<close> serde uses
  here: an association list whose keys ascend strictly. Parsing and printing are \<open>serde_json\<close>'s own
  code and appear as parameters (\<open>parse\<close>, \<open>to_string\<close>) of the definitions that call them. A finite
  \<open>f64\<close> is a rational number.
\<close>

datatype jnum = NInt int | NFloat rat

datatype json =
    JNull
  | JBool bool
  | JNum jnum
  | JStr str
  | JArr "json list"
  | JObj "(str \<times> json) list"

fun jget :: "json \<Rightarrow> str \<Rightarrow> json option" where
  "jget (JObj m) k = map_of m k"
| "jget _ k = None"

fun as_str :: "json \<Rightarrow> str option" where
  "as_str (JStr s) = Some s"
| "as_str _ = None"

fun as_object :: "json \<Rightarrow> (str \<times> json) list option" where
  "as_object (JObj m) = Some m"
| "as_object _ = None"

fun as_array :: "json \<Rightarrow> json list option" where
  "as_array (JArr xs) = Some xs"
| "as_array _ = None"

fun is_object :: "json \<Rightarrow> bool" where
  "is_object (JObj _) = True"
| "is_object _ = False"

fun is_array :: "json \<Rightarrow> bool" where
  "is_array (JArr _) = True"
| "is_array _ = False"

text \<open>\<open>v.get(k).and_then(Value::as_str)\<close>, the idiom of almost every reader.\<close>

definition get_str :: "json \<Rightarrow> str \<Rightarrow> str option" where
  "get_str v k = Option.bind (jget v k) as_str"

text \<open>\<open>Map::insert\<close>, \<open>Map::remove\<close> and the invariant of a \<open>BTreeMap\<close>.\<close>

fun obj_insert :: "str \<Rightarrow> json \<Rightarrow> (str \<times> json) list \<Rightarrow> (str \<times> json) list" where
  "obj_insert k v [] = [(k, v)]"
| "obj_insert k v ((k', v') # m) =
     (if k = k' then (k, v) # m
      else if k < k' then (k, v) # (k', v') # m
      else (k', v') # obj_insert k v m)"

definition obj_remove :: "str \<Rightarrow> (str \<times> json) list \<Rightarrow> (str \<times> json) list" where
  "obj_remove k m = filter (\<lambda>(k', v). k' \<noteq> k) m"

definition obj_wf :: "(str \<times> json) list \<Rightarrow> bool" where
  "obj_wf m \<longleftrightarrow> sorted_wrt (<) (map fst m)"

lemma map_of_obj_insert [simp]: "map_of (obj_insert k v m) = (map_of m)(k \<mapsto> v)"
  by (induction k v m rule: obj_insert.induct) auto

lemma fst_obj_insert [simp]: "fst ` set (obj_insert k v m) = insert k (fst ` set m)"
  by (induction k v m rule: obj_insert.induct) auto

lemma obj_insert_wf: "obj_wf m \<Longrightarrow> obj_wf (obj_insert k v m)"
proof (induction k v m rule: obj_insert.induct)
  case (2 k v k' v' m)
  have "\<forall>y\<in>fst ` set (obj_insert k v m). k' < y" if "k' < k"
    using 2(2) that by (auto simp: obj_wf_def)
  with 2 show ?case
    by (auto simp: obj_wf_def not_less dest: le_neq_trans)
qed (simp add: obj_wf_def)

lemma map_of_obj_remove [simp]: "map_of (obj_remove k m) = (map_of m)(k := None)"
  by (induction m) (auto simp: obj_remove_def)

lemma obj_remove_wf: "obj_wf m \<Longrightarrow> obj_wf (obj_remove k m)"
  by (simp add: obj_wf_def obj_remove_def sorted_wrt_map sorted_wrt_filter)

end
