(* ===== verification/Transcript_Delta.thy ===== *)
theory Transcript_Delta
  imports Json_Value
begin

text \<open>
  \<open>crates/memgarden-cli/src/transcript.rs\<close>: reading a growing transcript by byte offset. A file is
  its list of bytes. \<open>serde_json\<close>'s line parser and the length of its printer's output are the
  parameters \<open>parse\<close> and \<open>ser_len\<close>; \<open>fails o\<close> says that the read at offset \<open>o\<close> returns an I/O error.
\<close>

type_synonym byte = nat

definition max_line_bytes :: nat where
  "max_line_bytes = 33554432"

record delta =
  d_messages :: "json list"
  d_consumed_to :: nat
  d_compactions :: nat
  d_truncated :: bool

definition delta_empty_at :: "nat \<Rightarrow> delta" where
  "delta_empty_at offset =
     \<lparr>d_messages = [], d_consumed_to = offset, d_compactions = 0, d_truncated = False\<rparr>"

text \<open>\<open>take(MAX_LINE_BYTES).read_until(b'\n')\<close>: up to and with the first line feed, if it comes within
  the limit, and otherwise as much as the limit and the file allow.\<close>

definition read_line :: "nat \<Rightarrow> byte list \<Rightarrow> byte list" where
  "read_line limit bs =
     (let l = take limit bs; p = takeWhile (\<lambda>b. b \<noteq> 10) l
      in if length p < length l then p @ [10] else p)"

text \<open>\<open>classify\<close>: the message of one line, and the compaction counter after it.\<close>

definition classify_entry :: "json \<Rightarrow> nat \<Rightarrow> json option \<times> nat" where
  "classify_entry entry compactions =
     (case as_object entry of
        None \<Rightarrow> (None, compactions)
      | Some obj \<Rightarrow>
          (case get_str entry (lit ''type'') of
             Some ty \<Rightarrow>
               if ty = lit ''user'' \<or> ty = lit ''assistant'' then
                 (if (case Option.bind (jget entry (lit ''message'')) (\<lambda>m. get_str m (lit ''role'')) of
                        None \<Rightarrow> False | Some role \<Rightarrow> role \<noteq> [])
                  then (jget entry (lit ''message''), compactions) else (None, compactions))
               else if ty = lit ''system'' then
                 (None, if get_str entry (lit ''subtype'') = Some (lit ''compact_boundary'')
                        then Suc compactions else compactions)
               else (None, compactions)
           | None \<Rightarrow>
               if map_of obj (lit ''role'') \<noteq> None \<and> map_of obj (lit ''content'') \<noteq> None
               then (Some entry, compactions) else (None, compactions)))"

definition classify :: "(byte list \<Rightarrow> json option) \<Rightarrow> byte list \<Rightarrow> nat \<Rightarrow> json option \<times> nat" where
  "classify parse line compactions =
     (case parse line of None \<Rightarrow> (None, compactions) | Some entry \<Rightarrow> classify_entry entry compactions)"

text \<open>The suffix rule: \<open>while total + 1 > max_post_bytes && !window.is_empty()\<close>.\<close>

fun shrink_window :: "nat \<Rightarrow> nat \<Rightarrow> (nat \<times> json) list \<Rightarrow> bool \<Rightarrow> nat \<times> (nat \<times> json) list \<times> bool" where
  "shrink_window cap tot [] trunc = (tot, [], trunc)"
| "shrink_window cap tot ((sz, m) # w) trunc =
     (if cap < tot + 1 then shrink_window cap (tot - sz) w True
      else (tot, (sz, m) # w, trunc))"

record reader =
  r_consumed :: nat
  r_compactions :: nat
  r_truncated :: bool
  r_window :: "(nat \<times> json) list"
  r_total :: nat

lemma read_line_le: "length (read_line limit bs) \<le> length bs"
proof -
  let ?p = "takeWhile (\<lambda>b. b \<noteq> 10) (take limit bs)"
  have "length ?p \<le> length (take limit bs)" by (rule length_takeWhile_le)
  then show ?thesis by (auto simp: read_line_def Let_def)
qed

lemma read_line_drop:
  "read_line limit bs \<noteq> [] \<Longrightarrow> 0 < length (read_line limit bs) \<and> bs \<noteq> []"
  using read_line_le [of limit bs] by auto

function read_loop ::
  "(nat \<Rightarrow> bool) \<Rightarrow> (byte list \<Rightarrow> json option) \<Rightarrow> (json \<Rightarrow> nat) \<Rightarrow> nat \<Rightarrow> byte list \<Rightarrow> reader \<Rightarrow> reader"
where
  "read_loop fails parse ser_len cap rest s =
     (if fails (r_consumed s) then s
      else (let line = read_line max_line_bytes rest in
        if line = [] \<or> last line \<noteq> 10 then s
        else (let (msg, cmp) = classify parse line (r_compactions s);
                  s1 = s\<lparr>r_consumed := r_consumed s + length line, r_compactions := cmp\<rparr>;
                  rest1 = drop (length line) rest in
          (case msg of
             None \<Rightarrow> read_loop fails parse ser_len cap rest1 s1
           | Some m \<Rightarrow>
               (let sz = ser_len m + 1;
                    (tot, w, trunc) =
                      shrink_window cap (r_total s + sz) (r_window s @ [(sz, m)]) (r_truncated s)
                in read_loop fails parse ser_len cap rest1
                     (s1\<lparr>r_window := w, r_total := tot, r_truncated := trunc\<rparr>))))))"
  by pat_completeness auto
termination
  by (relation "measure (\<lambda>(_, _, _, _, rest, _). length rest)") (auto dest: read_line_drop)

declare read_loop.simps [simp del]

text \<open>\<open>read_delta\<close>. \<open>None\<close> is a file that cannot be opened; seeking past the end reads nothing.\<close>

definition read_delta ::
  "(nat \<Rightarrow> bool) \<Rightarrow> (byte list \<Rightarrow> json option) \<Rightarrow> (json \<Rightarrow> nat) \<Rightarrow> byte list option \<Rightarrow> nat \<Rightarrow> nat \<Rightarrow> delta"
where
  "read_delta fails parse ser_len file from_offset max_post_bytes =
     (case file of
        None \<Rightarrow> delta_empty_at from_offset
      | Some bytes \<Rightarrow>
          (let s = read_loop fails parse ser_len max_post_bytes (drop from_offset bytes)
                     \<lparr>r_consumed = from_offset, r_compactions = 0, r_truncated = False,
                      r_window = [], r_total = 0\<rparr>
           in \<lparr>d_messages = map snd (r_window s), d_consumed_to = r_consumed s,
               d_compactions = r_compactions s, d_truncated = r_truncated s\<rparr>))"


section \<open>Complete lines\<close>

text \<open>
  The specification: the complete lines at the head of the bytes that are left, each ended by a
  line feed and short enough, up to a torn line, an oversized line, a read error or the end.
\<close>

function full_lines :: "(nat \<Rightarrow> bool) \<Rightarrow> nat \<Rightarrow> byte list \<Rightarrow> byte list list" where
  "full_lines fails off rest =
     (let line = read_line max_line_bytes rest in
      if fails off \<or> line = [] \<or> last line \<noteq> 10 then []
      else line # full_lines fails (off + length line) (drop (length line) rest))"
  by pat_completeness auto
termination
  by (relation "measure (\<lambda>(_, _, rest). length rest)") (auto dest: read_line_drop)

declare full_lines.simps [simp del]

text \<open>The messages of a list of lines, sized for the array they are posted in, and the longest
  suffix that fits under the cap.\<close>

fun sized_messages :: "(byte list \<Rightarrow> json option) \<Rightarrow> (json \<Rightarrow> nat) \<Rightarrow> byte list list \<Rightarrow> (nat \<times> json) list" where
  "sized_messages parse ser_len [] = []"
| "sized_messages parse ser_len (l # ls) =
     (case fst (classify parse l 0) of
        None \<Rightarrow> sized_messages parse ser_len ls
      | Some m \<Rightarrow> (ser_len m + 1, m) # sized_messages parse ser_len ls)"

definition compactions_of :: "(byte list \<Rightarrow> json option) \<Rightarrow> byte list list \<Rightarrow> nat" where
  "compactions_of parse ls = sum_list (map (\<lambda>l. snd (classify parse l 0)) ls)"

definition fits :: "nat \<Rightarrow> (nat \<times> json) list \<Rightarrow> bool" where
  "fits cap w \<longleftrightarrow> sum_list (map fst w) + 1 \<le> cap"

fun fit_suffix :: "nat \<Rightarrow> (nat \<times> json) list \<Rightarrow> (nat \<times> json) list" where
  "fit_suffix cap [] = []"
| "fit_suffix cap (x # xs) = (if fits cap (x # xs) then x # xs else fit_suffix cap xs)"

lemma fit_suffix_suffix: "suffix (fit_suffix cap w) w"
  by (induction w) (auto intro: suffix_ConsI)

lemma fit_suffix_fits: "fit_suffix cap w = [] \<or> fits cap (fit_suffix cap w)"
  by (induction w) auto

lemma fit_suffix_longest: "suffix s w \<Longrightarrow> fits cap s \<Longrightarrow> suffix s (fit_suffix cap w)"
  by (induction w) (auto simp: suffix_Cons)

lemma fits_suffix: "suffix s w \<Longrightarrow> fits cap w \<Longrightarrow> fits cap s"
  by (auto simp: fits_def suffix_def)

lemma fit_suffix_idle: "fits cap w \<Longrightarrow> fit_suffix cap w = w"
  by (cases w) auto

lemma fit_suffix_whole: "fit_suffix cap w = w \<longleftrightarrow> w = [] \<or> fits cap w"
  by (metis fit_suffix.simps(1) fit_suffix_fits fit_suffix_idle)

lemma fit_suffix_whole_append:
  "fit_suffix cap (v @ w) = v @ w \<Longrightarrow> fit_suffix cap v = v \<and> fit_suffix cap w = w"
  by (auto simp: fit_suffix_whole fits_def)

lemma fit_suffix_snoc: "fit_suffix cap (fit_suffix cap p @ [x]) = fit_suffix cap (p @ [x])"
proof (induction p)
  case (Cons y p)
  show ?case
  proof (cases "fits cap (y # p)")
    case False
    then have "\<not> fits cap (y # p @ [x])" by (auto simp: fits_def)
    with False Cons show ?thesis by simp
  qed simp
qed simp

lemma shrink_window_fit:
  "shrink_window cap (sum_list (map fst w)) w tr =
     (sum_list (map fst (fit_suffix cap w)), fit_suffix cap w, tr \<or> fit_suffix cap w \<noteq> w)"
proof (induction w arbitrary: tr)
  case (Cons x w)
  obtain sz m where x: "x = (sz, m)" by (cases x)
  have "fit_suffix cap w \<noteq> x # w"
    using suffix_length_le [OF fit_suffix_suffix [of cap w]] by auto
  with Cons [of True] show ?case by (auto simp: x fits_def)
qed simp

lemma classify_entry_counter:
  "classify_entry e c = (fst (classify_entry e 0), c + snd (classify_entry e 0))"
proof (cases "as_object e")
  case (Some m)
  then show ?thesis
    by (cases "get_str e (lit ''type'')") (simp_all add: classify_entry_def)
qed (simp add: classify_entry_def)

lemma classify_counter: "classify parse l c = (fst (classify parse l 0), c + snd (classify parse l 0))"
  by (cases "parse l") (simp_all add: classify_def classify_entry_counter [of _ c])

lemma full_lines_step:
  "\<not> (fails off \<or> read_line max_line_bytes rest = [] \<or> last (read_line max_line_bytes rest) \<noteq> 10) \<Longrightarrow>
   full_lines fails off rest = read_line max_line_bytes rest #
     full_lines fails (off + length (read_line max_line_bytes rest))
       (drop (length (read_line max_line_bytes rest)) rest)"
  by (subst full_lines.simps) (simp add: Let_def)

text \<open>The reader's loop computes the specification: its state is a function of the messages \<open>p\<close>
  pushed so far.\<close>

definition reader_state :: "nat \<Rightarrow> nat \<Rightarrow> nat \<Rightarrow> (nat \<times> json) list \<Rightarrow> reader" where
  "reader_state cap off cmp p =
     \<lparr>r_consumed = off, r_compactions = cmp, r_truncated = (fit_suffix cap p \<noteq> p),
      r_window = fit_suffix cap p, r_total = sum_list (map fst (fit_suffix cap p))\<rparr>"

lemma fit_suffix_snoc_eq:
  "(fit_suffix cap p \<noteq> p \<or> fit_suffix cap (p @ [x]) \<noteq> fit_suffix cap p @ [x])
    = (fit_suffix cap (p @ [x]) \<noteq> p @ [x])"
proof (cases "fit_suffix cap p = p")
  case False
  have "length (fit_suffix cap p) < length p"
    using fit_suffix_suffix [of cap p] False
    by (metis suffix_length_le suffix_order.antisym_conv2 le_neq_implies_less suffix_def append_eq_append_conv append_Nil)
  moreover have "length (fit_suffix cap (p @ [x])) \<le> Suc (length (fit_suffix cap p))"
    using suffix_length_le [OF fit_suffix_suffix [of cap "fit_suffix cap p @ [x]"]]
    by (simp add: fit_suffix_snoc)
  ultimately show ?thesis using False by auto
qed simp

lemma read_loop_spec:
  "read_loop fails parse ser_len cap rest (reader_state cap off cmp p) =
     (let ls = full_lines fails off rest in
      reader_state cap (off + length (concat ls)) (cmp + compactions_of parse ls)
        (p @ sized_messages parse ser_len ls))"
proof (induction "length rest" arbitrary: rest off cmp p rule: less_induct)
  case less
  let ?line = "read_line max_line_bytes rest"
  show ?case
  proof (cases "fails off \<or> ?line = [] \<or> last ?line \<noteq> 10")
    case True
    then show ?thesis
      by (subst read_loop.simps, subst full_lines.simps)
        (auto simp: Let_def reader_state_def compactions_of_def)
  next
    case False
    let ?rest = "drop (length ?line) rest" and ?off = "off + length ?line"
    let ?c = "cmp + snd (classify parse ?line 0)"
    from False have lt: "length ?rest < length rest"
      using read_line_drop [of max_line_bytes rest] by auto
    have unf: "read_loop fails parse ser_len cap rest (reader_state cap off cmp p) =
        read_loop fails parse ser_len cap ?rest (reader_state cap ?off ?c
          (p @ (case fst (classify parse ?line 0) of None \<Rightarrow> [] | Some m \<Rightarrow> [(ser_len m + 1, m)])))"
    proof (cases "fst (classify parse ?line 0)")
      case None
      with False show ?thesis
        by (subst read_loop.simps)
          (simp add: Let_def reader_state_def classify_counter [of parse ?line cmp])
    next
      case (Some m)
      have "shrink_window cap (sum_list (map fst (fit_suffix cap p)) + (ser_len m + 1))
          (fit_suffix cap p @ [(ser_len m + 1, m)]) (fit_suffix cap p \<noteq> p) =
        (sum_list (map fst (fit_suffix cap (p @ [(ser_len m + 1, m)]))),
         fit_suffix cap (p @ [(ser_len m + 1, m)]),
         fit_suffix cap (p @ [(ser_len m + 1, m)]) \<noteq> p @ [(ser_len m + 1, m)])"
        using shrink_window_fit [of cap "fit_suffix cap p @ [(ser_len m + 1, m)]" "fit_suffix cap p \<noteq> p"]
          fit_suffix_snoc_eq [of cap p "(ser_len m + 1, m)"]
        by (simp only: fit_suffix_snoc map_append sum_list.append list.map sum_list.Cons sum_list.Nil fst_conv add_0_right)
      with False Some show ?thesis
        by (subst read_loop.simps)
          (simp add: Let_def reader_state_def classify_counter [of parse ?line cmp])
    qed
    show ?thesis
      unfolding unf less.hyps [OF lt]
      using False by (simp add: full_lines_step Let_def compactions_of_def add.assoc
          split: option.splits)
  qed
qed

lemma reader_state_init:
  "\<lparr>r_consumed = off, r_compactions = 0, r_truncated = False, r_window = [], r_total = 0\<rparr>
   = reader_state cap off 0 []"
  by (simp add: reader_state_def)

lemma read_delta_spec:
  "read_delta fails parse ser_len (Some bytes) from cap =
     (let ls = full_lines fails from (drop from bytes);
          ms = sized_messages parse ser_len ls in
      \<lparr>d_messages = map snd (fit_suffix cap ms), d_consumed_to = from + length (concat ls),
       d_compactions = compactions_of parse ls, d_truncated = (fit_suffix cap ms \<noteq> ms)\<rparr>)"
  by (simp add: read_delta_def reader_state_init [of "from" cap] read_loop_spec Let_def)
    (simp add: reader_state_def)

section \<open>Torn records, and growth of the file\<close>

lemma read_line_complete:
  assumes "read_line limit bs \<noteq> []" and "last (read_line limit bs) = 10"
  shows "\<exists>p t. bs = p @ 10 # t \<and> read_line limit bs = p @ [10] \<and> 10 \<notin> set p \<and> length p < limit"
proof -
  let ?l = "take limit bs"
  let ?p = "takeWhile (\<lambda>b. b \<noteq> 10) ?l"
  have nin: "10 \<notin> set ?p" by (auto dest: set_takeWhileD)
  have lt: "length ?p < length ?l"
  proof (rule ccontr)
    assume "\<not> ?thesis"
    then have "read_line limit bs = ?p" by (simp add: read_line_def Let_def)
    with assms nin show False by (metis last_in_set)
  qed
  then have "?l ! length ?p = 10"
    using nth_length_takeWhile [of "\<lambda>b. b \<noteq> 10" ?l] by simp
  with lt obtain t where t: "?l = ?p @ 10 # t"
    by (metis id_take_nth_drop takeWhile_eq_take)
  have "bs = ?p @ 10 # (t @ drop limit bs)"
    using t by (metis append_Cons append_assoc append_take_drop_id)
  moreover have "read_line limit bs = ?p @ [10]"
    using lt by (simp add: read_line_def Let_def)
  moreover have "length ?p < limit" using lt by simp
  ultimately show ?thesis using nin by blast
qed

lemma read_line_of_complete:
  assumes "10 \<notin> set p" and "length p < limit"
  shows "read_line limit (p @ 10 # t) = p @ [10]"
proof -
  have "take limit (p @ 10 # t) = p @ 10 # take (limit - length p - 1) t"
    using assms(2) by (cases "limit - length p") auto
  moreover have "takeWhile (\<lambda>b. b \<noteq> 10) (p @ 10 # u) = p" for u
    using assms(1) by (subst takeWhile_append2) auto
  ultimately show ?thesis by (simp add: read_line_def Let_def)
qed

lemma read_line_append:
  assumes "read_line limit bs \<noteq> []" and "last (read_line limit bs) = 10"
  shows "read_line limit (bs @ new) = read_line limit bs"
proof -
  from read_line_complete [OF assms] obtain p t where
    "bs = p @ 10 # t" "read_line limit bs = p @ [10]" "10 \<notin> set p" "length p < limit" by blast
  then show ?thesis by (simp add: read_line_of_complete)
qed

lemma full_lines_append:
  "full_lines fails off (bs @ new) =
     (let ls = full_lines fails off bs; n = length (concat ls)
      in ls @ full_lines fails (off + n) (drop n bs @ new))"
proof (induction fails off bs rule: full_lines.induct)
  case (1 fails off rest)
  let ?line = "read_line max_line_bytes rest"
  show ?case
  proof (cases "fails off \<or> ?line = [] \<or> last ?line \<noteq> 10")
    case True
    then have "full_lines fails off rest = []" by (subst full_lines.simps) (auto simp: Let_def)
    then show ?thesis by simp
  next
    case False
    then have la: "read_line max_line_bytes (rest @ new) = ?line"
      by (simp add: read_line_append)
    have le: "length ?line \<le> length rest" by (rule read_line_le)
    from 1 [OF refl] False have IH: "full_lines fails (off + length ?line) (drop (length ?line) rest @ new) =
       (let ls = full_lines fails (off + length ?line) (drop (length ?line) rest); n = length (concat ls)
        in ls @ full_lines fails (off + length ?line + n) (drop n (drop (length ?line) rest) @ new))"
      by simp
    have "full_lines fails off (rest @ new) =
        ?line # full_lines fails (off + length ?line) (drop (length ?line) rest @ new)"
      using False la le full_lines_step [of fails off "rest @ new"] by simp
    with False IH show ?thesis
      by (simp add: full_lines_step [of fails off rest] Let_def add.assoc add.commute)
  qed
qed

lemma full_lines_prefix: "concat (full_lines fails off rest) = take (length (concat (full_lines fails off rest))) rest"
proof (induction fails off rest rule: full_lines.induct)
  case (1 fails off rest)
  let ?line = "read_line max_line_bytes rest"
  show ?case
  proof (cases "fails off \<or> ?line = [] \<or> last ?line \<noteq> 10")
    case True
    then have "full_lines fails off rest = []" by (subst full_lines.simps) (auto simp: Let_def)
    then show ?thesis by simp
  next
    case False
    from read_line_complete [of max_line_bytes rest] False obtain p t where
      pt: "rest = p @ 10 # t" "?line = p @ [10]" by auto
    let ?ls = "full_lines fails (off + length ?line) (drop (length ?line) rest)"
    from 1 [OF refl] False have "concat ?ls = take (length (concat ?ls)) (drop (length ?line) rest)"
      by simp
    moreover have "rest = ?line @ drop (length ?line) rest" using pt by simp
    ultimately have "concat (?line # ?ls) = take (length (concat (?line # ?ls))) rest"
      by (metis concat.simps(2) length_append take_add append_eq_conv_conj)
    with False show ?thesis by (simp only: full_lines_step [of fails off rest] not_False_eq_True)
  qed
qed

lemma full_lines_shape:
  "l \<in> set (full_lines fails off rest) \<Longrightarrow> \<exists>p. l = p @ [10] \<and> 10 \<notin> set p \<and> length p < max_line_bytes"
proof (induction fails off rest rule: full_lines.induct)
  case (1 fails off rest)
  let ?line = "read_line max_line_bytes rest"
  show ?case
  proof (cases "fails off \<or> ?line = [] \<or> last ?line \<noteq> 10")
    case True
    with 1(2) show ?thesis by (subst (asm) full_lines.simps) (auto simp: Let_def)
  next
    case False
    then have "?line = l \<or> l \<in> set (full_lines fails (off + length ?line) (drop (length ?line) rest))"
      using 1(2) by (auto simp: full_lines_step [of fails off rest])
    with False 1(1) [OF refl] read_line_complete [of max_line_bytes rest] show ?thesis by auto
  qed
qed

lemma sized_messages_append [simp]:
  "sized_messages parse ser_len (ls @ ms) = sized_messages parse ser_len ls @ sized_messages parse ser_len ms"
  by (induction ls) (auto split: option.splits)

lemma compactions_of_append [simp]:
  "compactions_of parse (ls @ ms) = compactions_of parse ls + compactions_of parse ms"
  by (simp add: compactions_of_def)

lemma full_lines_stop:
  "let n = length (concat (full_lines fails off rest)); l = read_line max_line_bytes (drop n rest)
   in fails (off + n) \<or> l = [] \<or> last l \<noteq> 10"
proof (induction fails off rest rule: full_lines.induct)
  case (1 fails off rest)
  let ?line = "read_line max_line_bytes rest"
  show ?case
  proof (cases "fails off \<or> ?line = [] \<or> last ?line \<noteq> 10")
    case True
    then have "full_lines fails off rest = []" by (subst full_lines.simps) (auto simp: Let_def)
    with True show ?thesis by simp
  next
    case False
    with 1 [OF refl] show ?thesis
      by (simp add: full_lines_step [of fails off rest] Let_def add.assoc add.commute)
  qed
qed

text \<open>C4: The cursor only ever advances over whole records. Whatever the file, the offset and the
  parser, the bytes \<open>read_delta\<close> consumes are a sequence of newline-terminated lines, and it stops
  there only because the read failed, the file ended, or what follows is a torn or oversized line: a
  record that is still being written is never skipped, and no complete record is left behind.\<close>

theorem read_delta_consumes_whole_lines:
  fixes bytes :: "byte list"
  defines "rest d \<equiv> drop (d_consumed_to d) bytes"
  shows "let d = read_delta fails parse ser_len (Some bytes) from cap in
    from \<le> d_consumed_to d \<and>
    (\<exists>ls. drop from bytes = concat ls @ rest d \<and> d_consumed_to d = from + length (concat ls)
      \<and> list_all (\<lambda>l. l \<noteq> [] \<and> last l = 10 \<and> 10 \<notin> set (butlast l) \<and> length l \<le> max_line_bytes) ls)
    \<and> (fails (d_consumed_to d) \<or> rest d = [] \<or> 10 \<notin> set (take max_line_bytes (rest d)))"
proof -
  let ?ls = "full_lines fails from (drop from bytes)"
  let ?n = "length (concat ?ls)"
  have split: "drop from bytes = concat ?ls @ drop (from + ?n) bytes"
    using full_lines_prefix [of fails "from" "drop from bytes"]
    by (metis append_take_drop_id drop_drop add.commute)
  have shape: "list_all (\<lambda>l. l \<noteq> [] \<and> last l = 10 \<and> 10 \<notin> set (butlast l) \<and> length l \<le> max_line_bytes) ?ls"
    by (auto simp: list_all_iff dest!: full_lines_shape)
  have stop: "fails (from + ?n) \<or> drop (from + ?n) bytes = [] \<or> 10 \<notin> set (take max_line_bytes (drop (from + ?n) bytes))"
  proof (rule ccontr)
    assume c: "\<not> ?thesis"
    let ?r = "drop (from + ?n) bytes"
    let ?p = "takeWhile (\<lambda>b. b \<noteq> 10) (take max_line_bytes ?r)"
    from c have "?p \<noteq> take max_line_bytes ?r"
      by (simp add: takeWhile_eq_all_conv)
    moreover have "take max_line_bytes ?r = ?p @ dropWhile (\<lambda>b. b \<noteq> 10) (take max_line_bytes ?r)" by simp
    ultimately have "0 < length (dropWhile (\<lambda>b. b \<noteq> 10) (take max_line_bytes ?r))"
      by (metis append_Nil2 length_greater_0_conv)
    then have "length ?p < length (take max_line_bytes ?r)"
      by (metis takeWhile_dropWhile_id length_append less_add_same_cancel1)
    then have "read_line max_line_bytes ?r = ?p @ [10]" by (simp add: read_line_def Let_def)
    with full_lines_stop [of fails "from" "drop from bytes"] c show False
      by (simp add: Let_def drop_drop add.commute)
  qed
  show ?thesis
    unfolding rest_def read_delta_spec Let_def
    using split shape stop by auto
qed

text \<open>Nothing is lost and nothing is read twice when the transcript grows between two calls.
  Reading the old file and later reading the grown file from where the first call stopped yields,
  when no message had to be dropped for size, exactly the messages, the compaction count and the
  cursor of one read of the grown file.\<close>

lemma read_delta_resumes:
  assumes "d0 = read_delta fails parse ser_len (Some bytes) from cap"
    and "d1 = read_delta fails parse ser_len (Some (bytes @ new)) (d_consumed_to d0) cap"
    and "d2 = read_delta fails parse ser_len (Some (bytes @ new)) from cap"
    and "from \<le> length bytes" and "\<not> d_truncated d2"
  shows "d_messages d2 = d_messages d0 @ d_messages d1
    \<and> d_compactions d2 = d_compactions d0 + d_compactions d1
    \<and> d_consumed_to d2 = d_consumed_to d1 \<and> \<not> d_truncated d0 \<and> \<not> d_truncated d1"
proof -
  let ?l0 = "full_lines fails from (drop from bytes)"
  let ?c = "from + length (concat ?l0)"
  let ?l1 = "full_lines fails ?c (drop ?c (bytes @ new))"
  let ?l2 = "full_lines fails from (drop from (bytes @ new))"
  let ?m = "sized_messages parse ser_len"
  have le: "?c \<le> length bytes"
  proof -
    have "length (concat ?l0) \<le> length (drop from bytes)"
      using full_lines_prefix [of fails "from" "drop from bytes"] by (metis length_take min.cobounded1)
    with assms(4) show ?thesis by simp
  qed
  have l2: "?l2 = ?l0 @ ?l1"
    using full_lines_append [of fails "from" "drop from bytes" new] le assms(4)
    by (simp add: Let_def add.commute)
  have whole: "fit_suffix cap (?m ?l2) = ?m ?l2"
    using assms(3,5) by (simp add: read_delta_spec Let_def)
  then have parts: "fit_suffix cap (?m ?l0) = ?m ?l0" "fit_suffix cap (?m ?l1) = ?m ?l1"
    unfolding l2 sized_messages_append by (blast dest: fit_suffix_whole_append)+
  have c0: "d_consumed_to d0 = ?c" by (simp add: assms(1) read_delta_spec Let_def)
  show ?thesis
    unfolding assms(1,3) unfolding assms(2) c0
    using whole parts unfolding read_delta_spec Let_def l2 by simp
qed

text \<open>The bytes of a compactly printed array: brackets, and a comma between two elements.\<close>

definition array_bytes :: "(json \<Rightarrow> nat) \<Rightarrow> json list \<Rightarrow> nat" where
  "array_bytes ser_len ms = 2 + sum_list (map ser_len ms) + (length ms - 1)"

lemma sized_messages_sum:
  "sum_list (map fst (sized_messages parse ser_len ls)) =
     sum_list (map (\<lambda>x. ser_len (snd x)) (sized_messages parse ser_len ls)) + length (sized_messages parse ser_len ls)"
  by (induction ls) (auto split: option.splits)

lemma sized_fst: "x \<in> set (sized_messages parse ser_len ls) \<Longrightarrow> fst x = ser_len (snd x) + 1"
  by (induction ls) (auto split: option.splits)

lemma sized_array_bytes:
  assumes "\<And>x. x \<in> set w \<Longrightarrow> fst x = ser_len (snd x) + 1" and "w \<noteq> []"
  shows "array_bytes ser_len (map snd w) = sum_list (map fst w) + 1"
proof -
  have "sum_list (map fst w) = sum_list (map (\<lambda>x. ser_len (snd x)) w) + length w"
    using assms(1) by (induction w) auto
  moreover have "0 < length w" using assms(2) by simp
  ultimately show ?thesis by (simp add: array_bytes_def comp_def)
qed

text \<open>The oversize fallback is exact. The posted messages are a suffix of all messages of the
  consumed lines; the body they print to is within the cap whenever there is a message in it; one more
  message would exceed the cap; and \<open>truncated\<close> is set precisely when something was dropped.\<close>

lemma read_delta_longest_fitting_suffix:
  "let d = read_delta fails parse ser_len (Some bytes) from cap;
       all = map snd (sized_messages parse ser_len (full_lines fails from (drop from bytes)))
   in \<exists>dropped. all = dropped @ d_messages d
      \<and> (d_messages d \<noteq> [] \<longrightarrow> array_bytes ser_len (d_messages d) \<le> cap)
      \<and> (dropped \<noteq> [] \<longrightarrow> cap < array_bytes ser_len (last dropped # d_messages d))
      \<and> (d_truncated d \<longleftrightarrow> dropped \<noteq> [])"
proof -
  let ?all = "sized_messages parse ser_len (full_lines fails from (drop from bytes))"
  let ?w = "fit_suffix cap ?all"
  obtain dr where dr: "?all = dr @ ?w"
    using fit_suffix_suffix [of cap ?all] by (auto simp: suffix_def)
  have sz: "fst x = ser_len (snd x) + 1" if "x \<in> set dr \<union> set ?w" for x
    using sized_fst [of x parse ser_len "full_lines fails from (drop from bytes)"] that
    by (metis dr set_append)
  have "array_bytes ser_len (map snd ?w) \<le> cap" if "?w \<noteq> []"
    using fit_suffix_fits [of cap ?all] sized_array_bytes [of ?w ser_len] sz that by (auto simp: fits_def)
  moreover have "cap < array_bytes ser_len (map snd (last dr # ?w))" if "dr \<noteq> []"
  proof -
    have mem: "last dr \<in> set dr" using that by simp
    have "suffix (last dr # ?w) ?all"
      using that dr by (metis append_butlast_last_id append.assoc append_Cons append_Nil suffix_def)
    moreover have "\<not> suffix (last dr # ?w) ?w"
      using suffix_length_le [of "last dr # ?w" ?w] by (metis length_Cons not_less_eq_eq order_refl)
    ultimately have "\<not> fits cap (last dr # ?w)"
      using fit_suffix_longest by blast
    moreover have "array_bytes ser_len (map snd (last dr # ?w)) = sum_list (map fst (last dr # ?w)) + 1"
      by (rule sized_array_bytes) (use sz mem in auto)
    ultimately show ?thesis by (simp only: fits_def not_le)
  qed
  moreover have "?w \<noteq> ?all \<longleftrightarrow> dr \<noteq> []" using dr by (metis append_Nil append_self_conv2)
  ultimately show ?thesis
    unfolding read_delta_spec Let_def
    by (intro exI [of _ "map snd dr"]) (use dr in \<open>auto simp: last_map simp flip: map_append\<close>)
qed

section \<open>A small transcript\<close>

text \<open>One record per line, a flat message; the second record of the file is still being written.\<close>

definition demo_message :: json where
  "demo_message = JObj [(lit ''content'', JStr [104]), (lit ''role'', JStr [117])]"

definition demo_parse :: "byte list \<Rightarrow> json option" where
  "demo_parse line = (if line = [123, 10] then Some demo_message else None)"

lemmas demo_eval = read_delta_spec full_lines.simps [of _ _ "_ # _"] full_lines.simps [of _ _ "[]"]
  Let_def read_line_def max_line_bytes_def demo_parse_def demo_message_def compactions_of_def
  classify_def classify_entry_def get_str_def fits_def

lemma demo_torn:
  "read_delta (\<lambda>_. False) demo_parse (\<lambda>_. 5) (Some [123, 10, 123]) 0 100 =
     \<lparr>d_messages = [demo_message], d_consumed_to = 2, d_compactions = 0, d_truncated = False\<rparr>"
  by (simp add: demo_eval)

lemma demo_whole:
  "read_delta (\<lambda>_. False) demo_parse (\<lambda>_. 5) (Some ([123, 10, 123] @ [10])) 0 100 =
     \<lparr>d_messages = [demo_message, demo_message], d_consumed_to = 4, d_compactions = 0, d_truncated = False\<rparr>"
  by (simp add: demo_eval)

theorem read_delta_consumes_whole_lines_witness:
  "d_consumed_to (read_delta (\<lambda>_. False) demo_parse (\<lambda>_. 5) (Some [123, 10, 123]) 0 100) = 2
   \<and> 10 \<notin> set (take max_line_bytes (drop 2 [123, 10, 123 :: nat]))"
  using read_delta_consumes_whole_lines [of "\<lambda>_. False" demo_parse "\<lambda>_. 5" "[123, 10, 123]" 0 100]
  by (simp add: demo_torn Let_def)

end
