(* ===== verification/Hook_Retain.thy ===== *)
theory Hook_Retain
  imports Hook_State Transcript_Delta
begin

text \<open>
  \<open>crates/memgarden-cli/src/cmd/retain.rs\<close>: the retain hook's state machine. One invocation runs
  \<open>advance\<close>: the two throttles, the reconciliation of the previous accepted job, the turn gate, the
  transcript read, the request, and the accept table. The daemon, the file system and the JSON readers
  of the two replies are the fields of \<open>net\<close>; nothing is assumed of what they answer. A returned
  trace records the requests made and what became of each byte range, which the code only logs.
\<close>

datatype http_error = HttpUrl | HttpToken | HttpConnect | HttpTimeout | HttpIo | HttpProtocol

record response =
  resp_status :: nat
  resp_body :: "nat list"

definition is_success :: "response \<Rightarrow> bool" where
  "is_success r \<longleftrightarrow> 200 \<le> resp_status r \<and> resp_status r < 300"

record retain_reply =
  rr_status :: "str option"
  rr_job_id :: "str option"

record job_reply =
  jr_status :: "str option"
  jr_chunks_failed :: int

datatype outcome =
    Accepted str
  | Settled
  | Unreconcilable
  | Transport
  | Rejected nat
  | NotReady
  | ConfigFault

datatype job_outcome = JobDone int | JobFailed | JobUnsettled | JobUnreachable

text \<open>The body of the retain request.\<close>

record retain_body =
  rb_messages :: "json list"
  rb_session_id :: str
  rb_cwd :: "str option"
  rb_is_initial :: bool
  rb_document_id :: str
  rb_event_date :: int
  rb_byte_offset :: nat
  rb_offset_from :: nat
  rb_turn :: nat
  rb_chunk :: nat
  rb_compactions :: nat
  rb_transcript_bytes :: nat
  rb_truncated :: bool

record net =
  n_target :: "http_error option"
  n_get_job :: "str \<Rightarrow> http_error + response"
  n_post_retain :: "nat \<Rightarrow> retain_body \<Rightarrow> http_error + response"
  n_parse_retain :: "nat list \<Rightarrow> retain_reply option"
  n_parse_job :: "nat list \<Rightarrow> job_reply option"
  n_file_len :: "str \<Rightarrow> nat option"
  n_read_delta :: "str \<Rightarrow> nat \<Rightarrow> nat \<Rightarrow> delta"

datatype event =
    EvPosted retain_body
  | EvJobDone nat nat int
  | EvJobFailed nat nat
  | EvSkipped nat nat
  | EvSettled nat nat
  | EvAccepted nat nat

definition none_if_empty :: "str \<Rightarrow> str option" where
  "none_if_empty s = (if s = [] then None else Some s)"

section \<open>Answers\<close>

definition job_status :: "net \<Rightarrow> str \<Rightarrow> job_outcome" where
  "job_status n job_id =
     (if n_target n \<noteq> None then JobUnreachable
      else (case n_get_job n job_id of
         Inl e \<Rightarrow> JobUnreachable
       | Inr r \<Rightarrow>
           (if is_success r then
              (let reply = (case n_parse_job n (resp_body r) of
                              Some j \<Rightarrow> j | None \<Rightarrow> \<lparr>jr_status = None, jr_chunks_failed = 0\<rparr>);
                   status = (case jr_status reply of Some s \<Rightarrow> s | None \<Rightarrow> [])
               in if status = lit ''done'' \<or> status = lit ''partial'' then JobDone (jr_chunks_failed reply)
                  else if status = lit ''failed'' then JobFailed
                  else JobUnsettled)
            else if resp_status r = 404 then JobFailed
            else JobUnreachable)))"

definition classify_reply :: "net \<Rightarrow> http_error + response \<Rightarrow> outcome" where
  "classify_reply n result =
     (case result of
        Inl HttpUrl \<Rightarrow> ConfigFault
      | Inl _ \<Rightarrow> Transport
      | Inr r \<Rightarrow>
          (let reply = n_parse_retain n (resp_body r); status = resp_status r in
           if status = 202 then
             (case opt_filter (\<lambda>i. i \<noteq> []) (Option.bind reply rr_job_id) of
                Some job_id \<Rightarrow> Accepted job_id | None \<Rightarrow> Unreconcilable)
           else if status = 200 then
             (case Option.bind reply rr_status of
                Some s \<Rightarrow> if s = lit ''duplicate'' then Settled
                          else if s = lit ''skipped'' then Settled else Transport
              | None \<Rightarrow> Transport)
           else if status = 429 then Transport
           else if status = 503 then NotReady
           else if 400 \<le> status \<and> status < 500 then Rejected status
           else Transport))"

definition document_id_of :: "hook_state \<Rightarrow> str" where
  "document_id_of s =
     (if hs_chunk s = 0 then hs_session_id s
      else hs_session_id s @ lit ''-c'' @ nat_str (hs_chunk s))"

definition retain_body_of :: "hook_state \<Rightarrow> delta \<Rightarrow> nat \<Rightarrow> int \<Rightarrow> retain_body" where
  "retain_body_of s d from now_ms =
     \<lparr>rb_messages = d_messages d, rb_session_id = hs_session_id s,
      rb_cwd = none_if_empty (hs_cwd s), rb_is_initial = (from = 0),
      rb_document_id = document_id_of s, rb_event_date = now_ms,
      rb_byte_offset = d_consumed_to d, rb_offset_from = from,
      rb_turn = hs_turns s, rb_chunk = hs_chunk s,
      rb_compactions = sat_add_u64 (hs_compactions s) (d_compactions d),
      rb_transcript_bytes = d_consumed_to d - from, rb_truncated = d_truncated d\<rparr>"

text \<open>\<open>post_delta\<close>: one request, and a second after creating the bank when the first is answered 404.\<close>

definition post_delta :: "net \<Rightarrow> hook_state \<Rightarrow> delta \<Rightarrow> nat \<Rightarrow> int \<Rightarrow> outcome \<times> event list" where
  "post_delta n s d from now_ms =
     (case n_target n of
        Some HttpUrl \<Rightarrow> (ConfigFault, [])
      | Some _ \<Rightarrow> (Transport, [])
      | None \<Rightarrow>
          (let body = retain_body_of s d from now_ms;
               first = classify_reply n (n_post_retain n 0 body)
           in if first \<noteq> Rejected 404 then (first, [EvPosted body])
              else (classify_reply n (n_post_retain n 1 body), [EvPosted body, EvPosted body])))"

section \<open>State changes\<close>

definition count_transport_failure :: "hooks_config \<Rightarrow> hook_state \<Rightarrow> int \<Rightarrow> hook_state" where
  "count_transport_failure cfg s now_ms =
     (let s1 = s\<lparr>hs_transport_failures := sat_add_u32 (hs_transport_failures s) 1\<rparr> in
      if hc_breaker_failures cfg \<le> hs_transport_failures s1
      then s1\<lparr>hs_breaker_open_until_ms := sat_add_i64 now_ms (breaker_cooldown_ms cfg)\<rparr>
      else s1)"

definition reconcile :: "hooks_config \<Rightarrow> net \<Rightarrow> hook_state \<Rightarrow> int \<Rightarrow> bool \<times> hook_state \<times> event list" where
  "reconcile cfg n s now_ms =
     (case hs_pending s of
        None \<Rightarrow> (True, s, [])
      | Some p \<Rightarrow>
          (case job_status n (p_job_id p) of
             JobDone chunks_failed \<Rightarrow>
               (let s1 = (if 0 < chunks_failed
                          then s\<lparr>hs_unconfirmed_bytes :=
                                 sat_add_u64 (hs_unconfirmed_bytes s) (p_offset_to p - p_offset_from p)\<rparr>
                          else s)
                in (True, s1\<lparr>hs_pending := None\<rparr>,
                    [EvJobDone (p_offset_from p) (p_offset_to p) chunks_failed]))
           | JobFailed \<Rightarrow>
               (True, s\<lparr>hs_offset := p_offset_from p, hs_chunk := p_chunk_before p,
                        hs_compactions := p_compactions_before p, hs_pending := None\<rparr>,
                [EvJobFailed (p_offset_from p) (p_offset_to p)])
           | JobUnsettled \<Rightarrow> (False, s, [])
           | JobUnreachable \<Rightarrow> (False, count_transport_failure cfg s now_ms, [])))"

definition accept :: "hook_state \<Rightarrow> delta \<Rightarrow> hook_state" where
  "accept s d =
     s\<lparr>hs_offset := d_consumed_to d,
       hs_compactions := sat_add_u64 (hs_compactions s) (d_compactions d),
       hs_chunk := sat_add_u64 (hs_chunk s) 1,
       hs_turns_since_retain := 0,
       hs_transport_failures := 0,
       hs_reject_failures := 0,
       hs_breaker_open_until_ms := 0,
       hs_poisoned_at := None\<rparr>"

definition apply_outcome ::
  "hooks_config \<Rightarrow> hook_state \<Rightarrow> outcome \<Rightarrow> delta \<Rightarrow> nat \<Rightarrow> int \<Rightarrow> hook_state \<times> event list" where
  "apply_outcome cfg s oc d from now_ms =
     (case oc of
        Accepted job_id \<Rightarrow>
          (accept (s\<lparr>hs_pending := Some \<lparr>p_job_id = job_id, p_offset_from = from,
                      p_offset_to = d_consumed_to d, p_chunk_before = hs_chunk s,
                      p_compactions_before = hs_compactions s\<rparr>\<rparr>) d,
           [EvAccepted from (d_consumed_to d)])
      | Settled \<Rightarrow> (accept (s\<lparr>hs_pending := None\<rparr>) d, [EvSettled from (d_consumed_to d)])
      | Unreconcilable \<Rightarrow> (s, [])
      | Transport \<Rightarrow> (count_transport_failure cfg s now_ms, [])
      | Rejected status \<Rightarrow>
          (let s1 = s\<lparr>hs_reject_failures := sat_add_u32 (hs_reject_failures s) 1\<rparr> in
           (if hc_max_reject_failures cfg \<le> hs_reject_failures s1
            then s1\<lparr>hs_poisoned_at := Some now_ms\<rparr> else s1, []))
      | NotReady \<Rightarrow> (s, [])
      | ConfigFault \<Rightarrow> (s, []))"

section \<open>One invocation\<close>

text \<open>What follows the reconciliation: the gate, the \<open>stat\<close>, the read and the request.\<close>

definition send_delta ::
  "hooks_config \<Rightarrow> net \<Rightarrow> hook_state \<Rightarrow> bool \<Rightarrow> int \<Rightarrow> hook_state \<times> event list" where
  "send_delta cfg n s force now_ms =
     (if \<not> force \<and> hs_turns_since_retain s < hc_retain_every_n_turns cfg then (s, [])
      else (case (if hs_transcript_path s = [] then None else n_file_len n (hs_transcript_path s)) of
         None \<Rightarrow> (s, [])
       | Some sz \<Rightarrow>
           (let s1 = (if sz < hs_offset s then s\<lparr>hs_offset := 0\<rparr> else s) in
            if sz \<le> hs_offset s1 then (s1\<lparr>hs_turns_since_retain := 0\<rparr>, [])
            else
              (let from = hs_offset s1;
                   d = n_read_delta n (hs_transcript_path s1) from (hc_max_post_bytes cfg)
               in if d_messages d = [] then
                    (s1\<lparr>hs_offset := d_consumed_to d,
                        hs_compactions := sat_add_u64 (hs_compactions s1) (d_compactions d),
                        hs_turns_since_retain := 0\<rparr>, [EvSkipped from (d_consumed_to d)])
                  else
                    (let (oc, posts) = post_delta n s1 d from now_ms;
                         (s2, evs) = apply_outcome cfg s1 oc d from now_ms
                     in (s2, posts @ evs))))))"

definition advance ::
  "hooks_config \<Rightarrow> net \<Rightarrow> hook_state \<Rightarrow> bool \<Rightarrow> int \<Rightarrow> hook_state \<times> event list" where
  "advance cfg n s force now_ms =
     (if breaker_open s cfg now_ms then (s, [])
      else if poisoned_within_throttle s (hc_poison_retry_secs cfg) now_ms then (s, [])
      else (let (go, s1, evs) = reconcile cfg n s now_ms in
        if \<not> go then (s1, evs)
        else (let (s2, evs2) = send_delta cfg n s1 force now_ms in (s2, evs @ evs2))))"

record hook_input =
  hi_session_id :: str
  hi_transcript_path :: str
  hi_cwd :: str

text \<open>The part of \<open>run\<close> under the session's lock: the state that is loaded, recovered or new; what the
  payload updates; and the advance. \<open>None\<close>: a forced run without a state file has nothing to do.\<close>

definition note_input :: "hook_input option \<Rightarrow> hook_state \<Rightarrow> hook_state" where
  "note_input input s =
     (case input of
        None \<Rightarrow> s
      | Some i \<Rightarrow>
          (let s1 = (if hi_transcript_path i \<noteq> [] then s\<lparr>hs_transcript_path := hi_transcript_path i\<rparr> else s);
               s2 = (if hi_cwd i \<noteq> [] then s1\<lparr>hs_cwd := hi_cwd i\<rparr> else s1)
           in s2\<lparr>hs_turns := sat_add_u64 (hs_turns s2) 1,
                 hs_turns_since_retain := sat_add_u64 (hs_turns_since_retain s2) 1\<rparr>))"

definition starting_state ::
  "hook_state option \<Rightarrow> hook_input option \<Rightarrow> mirror option \<Rightarrow> str \<Rightarrow> str \<Rightarrow> hook_state option" where
  "starting_state loaded input recovered bank session_id =
     (case loaded of
        Some s \<Rightarrow> Some s
      | None \<Rightarrow>
          (case input of
             None \<Rightarrow> None
           | Some i \<Rightarrow> (case recovered of
                 Some m \<Rightarrow> Some (mirror_into_state m session_id bank)
               | None \<Rightarrow> Some (hook_state_new session_id bank))))"

definition retain_invoke ::
  "hooks_config \<Rightarrow> net \<Rightarrow> hook_state option \<Rightarrow> hook_input option \<Rightarrow> mirror option \<Rightarrow> str \<Rightarrow> str \<Rightarrow> bool
    \<Rightarrow> int \<Rightarrow> (hook_state \<times> event list) option" where
  "retain_invoke cfg n loaded input recovered bank session_id force now_ms =
     map_option (\<lambda>s. advance cfg n (note_input input s) force now_ms)
       (starting_state loaded input recovered bank session_id)"

text \<open>A session's life: one invocation after the other, each with its own payload, daemon and file
  system, on the state the previous one stored.\<close>

fun hook_run ::
  "hooks_config \<Rightarrow> (net \<times> hook_input option \<times> bool \<times> int) list \<Rightarrow> hook_state \<Rightarrow> hook_state \<times> event list" where
  "hook_run cfg [] s = (s, [])"
| "hook_run cfg ((n, input, force, now_ms) # is) s =
     (let (s1, evs1) = advance cfg n (note_input input s) force now_ms;
          (s2, evs2) = hook_run cfg is s1
      in (s2, evs1 @ evs2))"

section \<open>What happened to each byte\<close>

fun accounted :: "event \<Rightarrow> (nat \<times> nat) option" where
  "accounted (EvJobDone f t c) = Some (f, t)"
| "accounted (EvSkipped f t) = Some (f, t)"
| "accounted (EvSettled f t) = Some (f, t)"
| "accounted _ = None"

definition covered :: "event list \<Rightarrow> nat \<Rightarrow> bool" where
  "covered evs b \<longleftrightarrow> (\<exists>e\<in>set evs. \<exists>f t. accounted e = Some (f, t) \<and> f \<le> b \<and> b < t)"

definition in_pending :: "hook_state \<Rightarrow> nat \<Rightarrow> bool" where
  "in_pending s b \<longleftrightarrow> (\<exists>p. hs_pending s = Some p \<and> p_offset_from p \<le> b \<and> b < p_offset_to p)"

text \<open>The invariant of the state: an outstanding job ends where the cursor stands.\<close>

definition hook_inv :: "hook_state \<Rightarrow> bool" where
  "hook_inv s \<longleftrightarrow>
     (case hs_pending s of None \<Rightarrow> True
      | Some p \<Rightarrow> p_offset_from p \<le> p_offset_to p \<and> p_offset_to p = hs_offset s)"

lemma covered_append [simp]: "covered (xs @ ys) b \<longleftrightarrow> covered xs b \<or> covered ys b"
  by (auto simp: covered_def)

lemma covered_Nil [simp]: "\<not> covered [] b"
  by (simp add: covered_def)

lemma covered_Cons:
  "covered (e # evs) b \<longleftrightarrow> (\<exists>f t. accounted e = Some (f, t) \<and> f \<le> b \<and> b < t) \<or> covered evs b"
  by (auto simp: covered_def)

lemma count_transport_failure_frame [simp]:
  "hs_pending (count_transport_failure cfg s now) = hs_pending s"
  "hs_offset (count_transport_failure cfg s now) = hs_offset s"
  "hs_chunk (count_transport_failure cfg s now) = hs_chunk s"
  "hs_poisoned_at (count_transport_failure cfg s now) = hs_poisoned_at s"
  "hs_reject_failures (count_transport_failure cfg s now) = hs_reject_failures s"
  "hs_compactions (count_transport_failure cfg s now) = hs_compactions s"
  "hs_unconfirmed_bytes (count_transport_failure cfg s now) = hs_unconfirmed_bytes s"
  by (simp_all add: count_transport_failure_def Let_def)

lemma note_input_frame [simp]:
  "hs_pending (note_input i s) = hs_pending s"
  "hs_offset (note_input i s) = hs_offset s"
  "hs_chunk (note_input i s) = hs_chunk s"
  "hs_poisoned_at (note_input i s) = hs_poisoned_at s"
  "hs_reject_failures (note_input i s) = hs_reject_failures s"
  by (simp_all add: note_input_def Let_def split: option.splits)

text \<open>A step is sound when it keeps the invariant and accounts for what the cursor newly passes.\<close>

definition sound_step :: "hook_state \<Rightarrow> event list \<Rightarrow> hook_state \<Rightarrow> bool" where
  "sound_step s evs s' \<longleftrightarrow> hook_inv s' \<and>
     (\<forall>b < hs_offset s'. (b < hs_offset s \<and> \<not> in_pending s b) \<or> covered evs b \<or> in_pending s' b)"

lemma sound_stepI:
  assumes "hook_inv s'" and "\<And>b. b < hs_offset s' \<Longrightarrow>
    (b < hs_offset s \<and> \<not> in_pending s b) \<or> covered evs b \<or> in_pending s' b"
  shows "sound_step s evs s'"
  using assms by (simp add: sound_step_def)

lemma sound_step_same:
  assumes "hook_inv s" and "hs_pending s' = hs_pending s" and "hs_offset s' = hs_offset s"
  shows "sound_step s evs s'"
  using assms by (auto simp: sound_step_def hook_inv_def in_pending_def split: option.splits)

lemma sound_step_trans:
  assumes "sound_step s evs1 s1" and "sound_step s1 evs2 s2"
  shows "sound_step s (evs1 @ evs2) s2"
  using assms by (auto simp: sound_step_def)

lemma reconcile_sound:
  assumes "hook_inv s" and "reconcile cfg n s now = (go, s', evs)"
  shows "sound_step s evs s' \<and> (go \<longrightarrow> hs_pending s' = None)"
proof (cases "hs_pending s")
  case None
  with assms show ?thesis by (auto simp: reconcile_def intro: sound_step_same)
next
  case (Some p)
  with assms(1) have p: "p_offset_from p \<le> p_offset_to p" "p_offset_to p = hs_offset s"
    by (simp_all add: hook_inv_def)
  show ?thesis
  proof (cases "job_status n (p_job_id p)")
    case (JobDone c)
    with assms(2) Some p show ?thesis
      by (auto simp: reconcile_def Let_def hook_inv_def in_pending_def covered_Cons
          intro!: sound_stepI split: if_splits)
  next
    case JobFailed
    with assms(2) Some p show ?thesis
      by (auto simp: reconcile_def hook_inv_def in_pending_def intro!: sound_stepI)
  next
    case JobUnsettled
    with assms Some show ?thesis by (auto simp: reconcile_def intro: sound_step_same)
  next
    case JobUnreachable
    with assms Some show ?thesis by (auto simp: reconcile_def intro!: sound_step_same)
  qed
qed

lemma covered_posts [simp]:
  "covered (snd (post_delta n s d from now)) b = False"
  by (simp add: post_delta_def Let_def covered_def split: option.splits http_error.splits)

section \<open>The reader's contract, and what it gives the hook\<close>

text \<open>All the hook needs of its transcript reader, in whatever state \<open>w\<close> the file system is: the offset it
  returns is not before the one it was given.\<close>

locale delta_source =
  fixes rd :: "'w \<Rightarrow> str \<Rightarrow> nat \<Rightarrow> nat \<Rightarrow> delta"
  assumes rd_from: "from \<le> d_consumed_to (rd w path from cap)"
begin

lemma send_delta_sound:
  assumes "n_read_delta n = rd w" and "hook_inv s" and "hs_pending s = None"
    and "send_delta cfg n s force now = (s', evs)"
  shows "sound_step s evs s'"
proof -
  let ?sz = "if hs_transcript_path s = [] then None else n_file_len n (hs_transcript_path s)"
  show ?thesis
  proof (cases "(\<not> force \<and> hs_turns_since_retain s < hc_retain_every_n_turns cfg) \<or> ?sz = None")
    case True
    with assms show ?thesis by (auto simp: send_delta_def intro!: sound_step_same split: if_splits)
  next
    case False
    then obtain sz where sz: "?sz = Some sz" by auto
    define s1 where "s1 = (if sz < hs_offset s then s\<lparr>hs_offset := 0\<rparr> else s)"
    have s1: "hs_pending s1 = None" "hs_offset s1 \<le> hs_offset s"
      using assms(3) by (simp_all add: s1_def)
    have step1: "sound_step s [] s1"
      using s1 assms(3) by (auto simp: hook_inv_def in_pending_def intro!: sound_stepI)
    define d where "d = rd w (hs_transcript_path s1) (hs_offset s1) (hc_max_post_bytes cfg)"
    have from_le: "hs_offset s1 \<le> d_consumed_to d" by (simp add: d_def rd_from)
    have "sound_step s1 evs s'"
    proof (cases "sz \<le> hs_offset s1")
      case True
      with False sz assms(4) s1 show ?thesis
        by (auto simp: send_delta_def Let_def s1_def [symmetric] hook_inv_def intro!: sound_step_same)
    next
      case le: False
      show ?thesis
      proof (cases "d_messages d = []")
        case True
        with False sz le assms(1,4) s1 show ?thesis
          by (auto simp: send_delta_def Let_def s1_def [symmetric] d_def hook_inv_def
              in_pending_def covered_Cons intro!: sound_stepI)
      next
        case msgs: False
        obtain oc posts where po: "post_delta n s1 d (hs_offset s1) now = (oc, posts)"
          by (cases "post_delta n s1 d (hs_offset s1) now")
        obtain s2 evs2 where ap: "apply_outcome cfg s1 oc d (hs_offset s1) now = (s2, evs2)"
          by (cases "apply_outcome cfg s1 oc d (hs_offset s1) now")
        have eq: "s' = s2" "evs = posts @ evs2"
          using False sz le msgs assms(1,4) po ap
          by (auto simp: send_delta_def Let_def s1_def [symmetric] d_def)
        have inv1: "hook_inv s1" by (simp add: hook_inv_def s1)
        have "sound_step s1 evs2 s2"
        proof (cases oc)
          case (Accepted j)
          with ap s1 from_le show ?thesis
            by (auto simp: apply_outcome_def accept_def hook_inv_def in_pending_def intro!: sound_stepI)
        next
          case Settled
          with ap s1 from_le show ?thesis
            by (auto simp: apply_outcome_def accept_def hook_inv_def in_pending_def covered_Cons
                intro!: sound_stepI)
        qed (use ap inv1 in \<open>auto simp: apply_outcome_def Let_def intro!: sound_step_same split: if_splits\<close>)
        then show ?thesis by (auto simp: eq sound_step_def)
      qed
    qed
    from sound_step_trans [OF step1 this] show ?thesis by simp
  qed
qed

lemma advance_sound:
  assumes "n_read_delta n = rd w" and "hook_inv s" and "advance cfg n s force now = (s', evs)"
  shows "sound_step s evs s'"
proof (cases "breaker_open s cfg now \<or> poisoned_within_throttle s (hc_poison_retry_secs cfg) now")
  case True
  with assms show ?thesis by (auto simp: advance_def intro!: sound_step_same split: if_splits)
next
  case False
  obtain go s1 evs1 where r: "reconcile cfg n s now = (go, s1, evs1)"
    by (cases "reconcile cfg n s now")
  note rs = reconcile_sound [OF assms(2) r]
  show ?thesis
  proof (cases go)
    case True
    obtain s2 evs2 where sd: "send_delta cfg n s1 force now = (s2, evs2)"
      by (cases "send_delta cfg n s1 force now")
    from rs True have "hook_inv s1" "hs_pending s1 = None" by (simp_all add: sound_step_def)
    from send_delta_sound [OF assms(1) this sd] rs have "sound_step s (evs1 @ evs2) s2"
      by (blast intro: sound_step_trans)
    with False True r sd assms(3) show ?thesis by (simp add: advance_def)
  next
    case go: False
    with False r rs assms(3) show ?thesis by (simp add: advance_def)
  qed
qed

lemma hook_run_sound:
  assumes "\<forall>(n, _)\<in>set is. \<exists>w. n_read_delta n = rd w" and "hook_inv s" and "hook_run cfg is s = (s', evs)"
  shows "sound_step s evs s'"
  using assms
proof (induction "is" arbitrary: s s' evs)
  case Nil
  then show ?case by (auto intro: sound_step_same)
next
  case (Cons i "is")
  obtain n input force now where i: "i = (n, input, force, now)" by (cases i)
  obtain s1 evs1 where a: "advance cfg n (note_input input s) force now = (s1, evs1)"
    by (cases "advance cfg n (note_input input s) force now")
  obtain s2 evs2 where r: "hook_run cfg is s1 = (s2, evs2)" by (cases "hook_run cfg is s1")
  have inv: "hook_inv (note_input input s)"
    using Cons.prems(2) by (auto simp: hook_inv_def split: option.splits)
  have "sound_step (note_input input s) evs1 s1"
    using advance_sound [OF _ inv a] Cons.prems(1) i by fastforce
  then have st: "sound_step s evs1 s1" by (simp add: sound_step_def in_pending_def)
  then have "hook_inv s1" by (simp add: sound_step_def)
  moreover have "\<forall>(n, _)\<in>set is. \<exists>w. n_read_delta n = rd w" using Cons.prems(1) by simp
  ultimately have "sound_step s1 evs2 s2" using Cons.IH r by blast
  with st have "sound_step s (evs1 @ evs2) s2" by (rule sound_step_trans)
  with Cons.prems(3) show ?case by (simp add: i a r)
qed

end

section \<open>The hook over the transcript reader\<close>

text \<open>The reader of \<open>transcript.rs\<close>, over the files and read errors of one moment.\<close>

definition file_reader ::
  "(nat list \<Rightarrow> json option) \<Rightarrow> (json \<Rightarrow> nat) \<Rightarrow> (str \<Rightarrow> nat list option) \<times> (nat \<Rightarrow> bool)
    \<Rightarrow> str \<Rightarrow> nat \<Rightarrow> nat \<Rightarrow> delta" where
  "file_reader parse ser_len w path from cap = read_delta (snd w) parse ser_len (fst w path) from cap"

lemma read_delta_from: "from \<le> d_consumed_to (read_delta fails parse ser_len bs from cap)"
  by (cases bs) (simp_all add: read_delta_spec Let_def, simp add: read_delta_def delta_empty_at_def)

interpretation transcripts: delta_source "file_reader parse ser_len" for parse ser_len
  by unfold_locales (simp add: file_reader_def read_delta_from)

text \<open>C1: No byte of a transcript is lost. Over any number of invocations, with any daemon (down, slow,
  rejecting, answering nonsense, losing jobs), any payloads and any file contents, every byte the
  cursor ends up past was below it at the start, or lies in a range that was settled by the daemon,
  confirmed done by a job the hook reconciled, or consumed without a postable message, or belongs to
  the one job still outstanding, which a failure rolls back to.\<close>

theorem hook_loses_no_byte:
  assumes "\<forall>(n, _)\<in>set is. \<exists>w. n_read_delta n = file_reader parse ser_len w"
    and "hook_inv s" and "hook_run cfg is s = (s', evs)"
    and "b < hs_offset s'" and "hs_offset s \<le> b"
  shows "covered evs b \<or> in_pending s' b"
  using transcripts.hook_run_sound [OF assms(1-3)] assms(4,5) by (auto simp: sound_step_def)

text \<open>The outstanding job always ends at the cursor: the state invariant holds of new and recovered
  states and is kept by every invocation, so a rollback never skips forward and never leaves a hole
  between what is pending and what is sent next.\<close>

lemma hook_inv_always:
  assumes "\<forall>(n, _)\<in>set is. \<exists>w. n_read_delta n = file_reader parse ser_len w"
    and "starting_state None (Some i) recovered bank sid = Some s"
    and "hook_run cfg is s = (s', evs)"
  shows "hook_inv s \<and> hook_inv s'"
proof -
  have "hook_inv s"
    using assms(2) by (auto simp: starting_state_def hook_inv_def mirror_into_state_def
        hook_state_recovered_def hook_state_new_def split: option.splits)
  with transcripts.hook_run_sound [OF assms(1) this assms(3)] show ?thesis
    by (simp add: sound_step_def)
qed


section \<open>A session on concrete input\<close>

text \<open>A daemon that answers every job lookup with \<open>job\<close> and every post with \<open>post\<close>, and a transcript of
  one message and a torn line.\<close>

definition demo_net :: "http_error + response \<Rightarrow> http_error + response \<Rightarrow> net" where
  "demo_net job post =
     \<lparr>n_target = None, n_get_job = \<lambda>_. job, n_post_retain = \<lambda>_ _. post,
      n_parse_retain = \<lambda>b. if b = [9] then Some \<lparr>rr_status = None, rr_job_id = Some [106]\<rparr> else None,
      n_parse_job = \<lambda>_. None, n_file_len = \<lambda>_. Some 3,
      n_read_delta = file_reader demo_parse (\<lambda>_. 5) (\<lambda>_. Some [123, 10, 123], \<lambda>_. False)\<rparr>"

definition demo_cfg :: hooks_config where
  "demo_cfg = \<lparr>hc_retain_every_n_turns = 10, hc_max_post_bytes = 100, hc_breaker_failures = 1,
     hc_breaker_cooldown_secs = 60, hc_max_reject_failures = 3, hc_poison_retry_secs = 3600\<rparr>"

definition demo_state :: hook_state where
  "demo_state = (hook_state_new [115] [98])\<lparr>hs_transcript_path := [116]\<rparr>"

definition demo_sent :: hook_state where
  "demo_sent = demo_state\<lparr>hs_offset := 2, hs_chunk := 1,
     hs_pending := Some \<lparr>p_job_id = [106], p_offset_from = 0, p_offset_to = 2, p_chunk_before = 0,
       p_compactions_before = 0\<rparr>\<rparr>"

abbreviation demo_accepts :: net where
  "demo_accepts \<equiv> demo_net (Inl HttpConnect) (Inr \<lparr>resp_status = 202, resp_body = [9]\<rparr>)"

abbreviation demo_forgot :: net where
  "demo_forgot \<equiv> demo_net (Inr \<lparr>resp_status = 404, resp_body = []\<rparr>) (Inr \<lparr>resp_status = 202, resp_body = [9]\<rparr>)"

definition demo_body :: retain_body where
  "demo_body = retain_body_of demo_state
     \<lparr>d_messages = [demo_message], d_consumed_to = 2, d_compactions = 0, d_truncated = False\<rparr> 0 1000"

lemma demo_not_gated:
  "\<not> breaker_open demo_state demo_cfg 1000" "\<not> breaker_open demo_sent demo_cfg 1000"
  "\<not> poisoned_within_throttle demo_state w 1000" "\<not> poisoned_within_throttle demo_sent w 1000"
  by (simp_all add: breaker_open_def poisoned_within_throttle_def demo_sent_def demo_state_def hook_state_new_def)

lemma demo_state_sel:
  "hs_offset demo_state = 0" "hs_pending demo_state = None" "hs_transcript_path demo_state = [116]"
  "hs_chunk demo_state = 0" "hs_compactions demo_state = 0" "hs_session_id demo_state = [115]"
  by (simp_all add: demo_state_def hook_state_new_def)

lemma demo_send:
  "send_delta demo_cfg (demo_net job (Inr \<lparr>resp_status = 202, resp_body = [9]\<rparr>)) demo_state True 1000
   = (demo_sent, [EvPosted demo_body, EvAccepted 0 2])"
  by (simp add: send_delta_def demo_state_sel demo_net_def demo_cfg_def file_reader_def demo_torn
      post_delta_def classify_reply_def apply_outcome_def accept_def demo_body_def
      sat_add_u64_def u64_max_def)
    (simp add: demo_sent_def demo_state_def hook_state_new_def)

lemma demo_first: "advance demo_cfg demo_accepts demo_state True 1000
    = (demo_sent, [EvPosted demo_body, EvAccepted 0 2])"
  by (simp add: advance_def demo_not_gated reconcile_def demo_state_sel demo_send)

lemma demo_lost: "advance demo_cfg demo_forgot demo_sent True 1000
    = (demo_sent, [EvJobFailed 0 2, EvPosted demo_body, EvAccepted 0 2])"
proof -
  have "reconcile demo_cfg demo_forgot demo_sent 1000 = (True, demo_state, [EvJobFailed 0 2])"
    by (simp add: reconcile_def demo_sent_def job_status_def demo_net_def is_success_def)
      (simp add: demo_state_def hook_state_new_def)
  then show ?thesis by (simp add: advance_def demo_not_gated demo_send)
qed

theorem hook_loses_no_byte_witness:
  "covered [EvPosted demo_body, EvAccepted 0 2] 1 \<or> in_pending demo_sent 1"
proof -
  have r: "hook_run demo_cfg [(demo_accepts, None, True, 1000)] demo_state
      = (demo_sent, [EvPosted demo_body, EvAccepted 0 2])"
    by (simp add: note_input_def demo_first)
  have "\<exists>w. n_read_delta demo_accepts = file_reader demo_parse (\<lambda>_. 5) w"
    by (auto simp: demo_net_def)
  moreover have "hook_inv demo_state" by (simp add: hook_inv_def demo_state_sel)
  ultimately show ?thesis
    using hook_loses_no_byte [OF _ _ r, of demo_parse "\<lambda>_. 5" 1]
    by (simp add: demo_state_sel demo_sent_def)
qed

end
