(* ===== verification/Hook_Recovery.thy ===== *)
theory Hook_Recovery
  imports Hook_Retain
begin

text \<open>
  What the retain hook promises when the daemon misbehaves, over the definitions of \<open>Hook_Retain\<close>: a lost
  job is sent again in place, an outage changes nothing but the breaker, the breaker holds until its
  cooldown is over, a settled request clears every counter, and the one way bytes pass the cursor
  unsent.
\<close>

section \<open>What a request carries\<close>

lemma post_delta_posts:
  "EvPosted body \<in> set (snd (post_delta n s d from now)) \<Longrightarrow> body = retain_body_of s d from now"
  by (auto simp: post_delta_def Let_def split: option.splits http_error.splits if_splits)

lemma post_delta_only_posts:
  "e \<in> set (snd (post_delta n s d from now)) \<Longrightarrow> \<exists>body. e = EvPosted body"
  by (auto simp: post_delta_def Let_def split: option.splits http_error.splits if_splits)

lemma apply_outcome_no_post:
  "EvPosted body \<notin> set (snd (apply_outcome cfg s oc d from now))"
  by (simp add: apply_outcome_def Let_def split: outcome.splits)

lemma reconcile_events:
  "e \<in> set (snd (snd (reconcile cfg n s now))) \<Longrightarrow>
     (\<exists>f t c. e = EvJobDone f t c) \<or> (\<exists>f t. e = EvJobFailed f t)"
  by (auto simp: reconcile_def split: option.splits job_outcome.splits)

text \<open>The offset a request starts from: the cursor, or zero for a file that shrank.\<close>

definition send_from :: "net \<Rightarrow> hook_state \<Rightarrow> nat" where
  "send_from n s =
     (case n_file_len n (hs_transcript_path s) of
        None \<Rightarrow> hs_offset s | Some sz \<Rightarrow> if sz < hs_offset s then 0 else hs_offset s)"

definition sent_delta :: "hooks_config \<Rightarrow> net \<Rightarrow> hook_state \<Rightarrow> delta" where
  "sent_delta cfg n s = n_read_delta n (hs_transcript_path s) (send_from n s) (hc_max_post_bytes cfg)"

text \<open>Every way \<open>send_delta\<close> ends.\<close>

lemma send_delta_cases [consumes 1, case_names gated empty answered]:
  assumes "send_delta cfg n s force now = (s', evs)"
  obtains
    "evs = []" "hs_pending s' = hs_pending s" "hs_chunk s' = hs_chunk s"
      "hs_reject_failures s' = hs_reject_failures s" "hs_poisoned_at s' = hs_poisoned_at s"
      "hs_offset s' \<le> hs_offset s"
  | "d_messages (sent_delta cfg n s) = []"
      "evs = [EvSkipped (send_from n s) (d_consumed_to (sent_delta cfg n s))]"
      "s' = s\<lparr>hs_offset := d_consumed_to (sent_delta cfg n s),
         hs_compactions := sat_add_u64 (hs_compactions s) (d_compactions (sent_delta cfg n s)),
         hs_turns_since_retain := 0\<rparr>"
  | oc posts evs2 where "d_messages (sent_delta cfg n s) \<noteq> []"
      "post_delta n (s\<lparr>hs_offset := send_from n s\<rparr>) (sent_delta cfg n s) (send_from n s) now = (oc, posts)"
      "apply_outcome cfg (s\<lparr>hs_offset := send_from n s\<rparr>) oc (sent_delta cfg n s) (send_from n s) now
         = (s', evs2)"
      "evs = posts @ evs2"
proof -
  let ?sz = "if hs_transcript_path s = [] then None else n_file_len n (hs_transcript_path s)"
  show ?thesis
  proof (cases "(\<not> force \<and> hs_turns_since_retain s < hc_retain_every_n_turns cfg) \<or> ?sz = None")
    case True
    with assms have "evs = []" "s' = s"
      by (auto simp: send_delta_def split: if_splits option.splits)
    then show ?thesis by (auto intro: that(1))
  next
    case False
    then obtain sz where sz: "?sz = Some sz" by auto
    then have len: "n_file_len n (hs_transcript_path s) = Some sz" by (simp split: if_splits)
    define s1 where "s1 = s\<lparr>hs_offset := send_from n s\<rparr>"
    have s1: "(if sz < hs_offset s then s\<lparr>hs_offset := 0\<rparr> else s) = s1"
      by (simp add: s1_def send_from_def len)
    have sel: "hs_offset s1 = send_from n s" "hs_transcript_path s1 = hs_transcript_path s"
      by (simp_all add: s1_def)
    show ?thesis
    proof (cases "sz \<le> hs_offset s1")
      case True
      with False sz assms s1 have "evs = []" "s' = s1\<lparr>hs_turns_since_retain := 0\<rparr>"
        by (auto simp: send_delta_def Let_def)
      then show ?thesis by (intro that(1)) (auto simp: s1_def send_from_def len)
    next
      case big: False
      let ?d = "sent_delta cfg n s"
      have d: "n_read_delta n (hs_transcript_path s) (send_from n s) (hc_max_post_bytes cfg) = ?d"
        by (simp add: sent_delta_def)
      show ?thesis
      proof (cases "d_messages ?d = []")
        case True
        with False sz assms s1 big d sel
        have "evs = [EvSkipped (send_from n s) (d_consumed_to ?d)]"
          "s' = s1\<lparr>hs_offset := d_consumed_to ?d,
             hs_compactions := sat_add_u64 (hs_compactions s1) (d_compactions ?d),
             hs_turns_since_retain := 0\<rparr>"
          by (auto simp: send_delta_def Let_def)
        with True show ?thesis by (intro that(2)) (simp_all add: s1_def)
      next
        case msgs: False
        obtain oc posts where po: "post_delta n s1 ?d (send_from n s) now = (oc, posts)"
          by (cases "post_delta n s1 ?d (send_from n s) now")
        obtain s2 evs2 where ap: "apply_outcome cfg s1 oc ?d (send_from n s) now = (s2, evs2)"
          by (cases "apply_outcome cfg s1 oc ?d (send_from n s) now")
        have "s' = s2 \<and> evs = posts @ evs2"
          using False sz assms s1 big d sel msgs po ap by (auto simp: send_delta_def Let_def)
        with msgs po ap show ?thesis by (intro that(3)) (simp_all add: s1_def)
      qed
    qed
  qed
qed

lemma send_delta_posted:
  assumes "send_delta cfg n s force now = (s', evs)" and "EvPosted body \<in> set evs"
  shows "rb_offset_from body = send_from n s \<and> rb_chunk body = hs_chunk s
    \<and> rb_document_id body = document_id_of s \<and> rb_messages body = d_messages (sent_delta cfg n s)"
  using assms(1)
proof (cases rule: send_delta_cases)
  case gated
  with assms(2) show ?thesis by simp
next
  case empty
  with assms(2) show ?thesis by simp
next
  case (answered oc posts evs2)
  with assms(2) apply_outcome_no_post have "EvPosted body \<in> set posts"
    by (metis UnE set_append snd_conv)
  with answered(2) post_delta_posts
  have "body = retain_body_of (s\<lparr>hs_offset := send_from n s\<rparr>) (sent_delta cfg n s) (send_from n s) now"
    by (metis snd_conv)
  then show ?thesis by (simp add: retain_body_of_def document_id_of_def)
qed

lemma send_delta_accepted:
  assumes "send_delta cfg n s force now = (s', evs)" and "EvAccepted f t \<in> set evs"
  shows "\<exists>j. hs_pending s' = Some \<lparr>p_job_id = j, p_offset_from = send_from n s, p_offset_to = hs_offset s',
      p_chunk_before = hs_chunk s, p_compactions_before = hs_compactions s\<rparr>
    \<and> hs_session_id s' = hs_session_id s"
  using assms(1)
proof (cases rule: send_delta_cases)
  case gated
  with assms(2) show ?thesis by simp
next
  case empty
  with assms(2) show ?thesis by simp
next
  case (answered oc posts evs2)
  with assms(2) post_delta_only_posts have "EvAccepted f t \<in> set evs2"
    by (metis UnE event.distinct(9) set_append snd_conv)
  with answered(3) show ?thesis
    by (auto simp: apply_outcome_def accept_def Let_def split: outcome.splits)
qed

lemma advance_cases [consumes 1, case_names closed stopped went]:
  assumes "advance cfg n s force now = (s', evs)"
  obtains
    "s' = s" "evs = []"
  | "reconcile cfg n s now = (False, s', evs)"
  | s1 evs1 evs2 where "reconcile cfg n s now = (True, s1, evs1)"
      "send_delta cfg n s1 force now = (s', evs2)" "evs = evs1 @ evs2"
proof (cases "breaker_open s cfg now \<or> poisoned_within_throttle s (hc_poison_retry_secs cfg) now")
  case True
  with assms show ?thesis by (auto simp: advance_def intro: that(1) split: if_splits)
next
  case False
  obtain go s1 evs1 where r: "reconcile cfg n s now = (go, s1, evs1)"
    by (cases "reconcile cfg n s now")
  obtain s2 evs2 where sd: "send_delta cfg n s1 force now = (s2, evs2)"
    by (cases "send_delta cfg n s1 force now")
  from False r sd assms show ?thesis
    by (cases go) (auto simp: advance_def intro: that(2,3))
qed

lemma reconcile_no_send:
  assumes "reconcile cfg n s now = (go, s1, evs)"
  shows "EvPosted body \<notin> set evs" and "EvAccepted f t \<notin> set evs" and "EvSettled f t \<notin> set evs"
  using reconcile_events [of _ cfg n s now] assms by fastforce+

lemma advance_posted:
  assumes "advance cfg n s force now = (s', evs)" and "EvPosted body \<in> set evs"
  obtains s1 evs1 evs2 where "reconcile cfg n s now = (True, s1, evs1)"
    "send_delta cfg n s1 force now = (s', evs2)" "evs = evs1 @ evs2" "EvPosted body \<in> set evs2"
  using assms(1)
proof (cases rule: advance_cases)
  case (went s1 evs1 evs2)
  with assms(2) reconcile_no_send(1) [OF went(1)] show ?thesis by (auto intro: that)
next
  case closed
  with assms(2) show ?thesis by simp
next
  case stopped
  with assms(2) reconcile_no_send(1) [OF stopped] show ?thesis by simp
qed

lemma note_input_session [simp]: "hs_session_id (note_input i s) = hs_session_id s"
  by (simp add: note_input_def Let_def split: option.splits)

lemma reconcile_session [simp]:
  "hs_session_id (fst (snd (reconcile cfg n s now))) = hs_session_id s"
  by (simp add: reconcile_def count_transport_failure_def Let_def split: option.splits job_outcome.splits)

section \<open>A lost job\<close>

text \<open>C5: A lost job is sent again in place. When an invocation's request was accepted and the next
  invocation learns that the job failed, or that the daemon forgot it, whatever it then posts starts at
  the same byte and carries the same chunk number and document id as the request that was lost, so the
  daemon overwrites the failed delta instead of leaving it orphaned.\<close>

theorem failed_job_is_resent_in_place:
  assumes first: "advance cfg n0 s0 force0 now0 = (s1, evs1)"
    and sent: "EvPosted lost \<in> set evs1" "EvAccepted f t \<in> set evs1"
    and gone: "hs_pending s1 = Some p" "job_status n1 (p_job_id p) = JobFailed"
    and "file": "n_file_len n1 (hs_transcript_path (note_input i s1)) = Some sz" "rb_offset_from lost \<le> sz"
    and second: "advance cfg n1 (note_input i s1) force1 now1 = (s2, evs2)"
    and posted: "EvPosted body \<in> set evs2"
  shows "rb_offset_from body = rb_offset_from lost \<and> rb_chunk body = rb_chunk lost
    \<and> rb_document_id body = rb_document_id lost"
proof -
  obtain t0 a0 b0 where a: "reconcile cfg n0 s0 now0 = (True, t0, a0)"
      "send_delta cfg n0 t0 force0 now0 = (s1, b0)" "evs1 = a0 @ b0" "EvPosted lost \<in> set b0"
    using advance_posted [OF first sent(1)] by metis
  with sent(2) reconcile_no_send(2) [OF a(1)] have "EvAccepted f t \<in> set b0" by auto
  from send_delta_accepted [OF a(2) this] gone(1)
  have p: "p_offset_from p = send_from n0 t0" "p_chunk_before p = hs_chunk t0"
    "hs_session_id s1 = hs_session_id t0" by auto
  note l = send_delta_posted [OF a(2,4)]
  obtain t1 a1 b1 where b: "reconcile cfg n1 (note_input i s1) now1 = (True, t1, a1)"
      "send_delta cfg n1 t1 force1 now1 = (s2, b1)" "evs2 = a1 @ b1" "EvPosted body \<in> set b1"
    using advance_posted [OF second posted] by metis
  from b(1) gone have t1: "hs_offset t1 = p_offset_from p" "hs_chunk t1 = p_chunk_before p"
    "hs_session_id t1 = hs_session_id s1" "hs_transcript_path t1 = hs_transcript_path (note_input i s1)"
    by (auto simp: reconcile_def)
  have "send_from n1 t1 = p_offset_from p" using t1 "file" p l by (simp add: send_from_def)
  with send_delta_posted [OF b(2,4)] l p t1 show ?thesis by (simp add: document_id_of_def)
qed

section \<open>An outage\<close>

text \<open>A daemon that answers nothing: every exchange fails before a status is read.\<close>

definition unanswering :: "net \<Rightarrow> bool" where
  "unanswering n \<longleftrightarrow> (\<forall>j. isl (n_get_job n j)) \<and> (\<forall>k body. isl (n_post_retain n k body))"

lemma unanswering_job:
  assumes "unanswering n"
  shows "job_status n j = JobUnreachable"
proof -
  from assms obtain e where "n_get_job n j = Inl e" by (metis unanswering_def isl_def)
  then show ?thesis by (simp add: job_status_def)
qed

lemma unanswering_post:
  assumes "unanswering n" and "post_delta n s d from now = (oc, posts)"
  shows "oc = Transport \<or> oc = ConfigFault"
proof -
  have "classify_reply n (n_post_retain n k body) \<in> {Transport, ConfigFault}" for k body
  proof -
    from assms(1) obtain e where "n_post_retain n k body = Inl e" by (metis unanswering_def isl_def)
    then show ?thesis by (cases e) (simp_all add: classify_reply_def)
  qed
  with assms(2) show ?thesis
    by (fastforce simp: post_delta_def Let_def split: option.splits http_error.splits if_splits)
qed

definition outage_keeps :: "hook_state \<Rightarrow> hook_state \<Rightarrow> bool" where
  "outage_keeps s s' \<longleftrightarrow> hs_pending s' = hs_pending s \<and> hs_chunk s' = hs_chunk s
     \<and> hs_reject_failures s' = hs_reject_failures s \<and> hs_poisoned_at s' = hs_poisoned_at s"

lemma outage_advance:
  assumes "unanswering n" and "advance cfg n s force now = (s', evs)"
  shows "outage_keeps s s' \<and> (hs_pending s \<noteq> None \<longrightarrow> hs_offset s' = hs_offset s \<and> evs = [])"
  using assms(2)
proof (cases rule: advance_cases)
  case closed
  then show ?thesis by (simp add: outage_keeps_def)
next
  case stopped
  with unanswering_job [OF assms(1)] show ?thesis
    by (auto simp: reconcile_def outage_keeps_def split: option.splits)
next
  case (went s1 evs1 evs2)
  from went(1) unanswering_job [OF assms(1)] have none: "hs_pending s = None" "s1 = s" "evs1 = []"
    by (auto simp: reconcile_def split: option.splits)
  from went(2) none(2) have sd: "send_delta cfg n s force now = (s', evs2)" by simp
  have "outage_keeps s s'"
    using sd
  proof (cases rule: send_delta_cases)
    case (answered oc posts evs2)
    with unanswering_post [OF assms(1) answered(2)] show ?thesis
      by (auto simp: outage_keeps_def apply_outcome_def)
  qed (simp_all add: outage_keeps_def)
  with none show ?thesis by simp
qed

text \<open>C40: An outage can never poison a session. However long the daemon gives no answer, over any
  number of invocations, the rejection counter, the poison mark, the chunk number and the outstanding
  job stay as they are, and while a job is outstanding neither the cursor moves nor anything is sent.\<close>

theorem outage_never_poisons:
  assumes "\<forall>(n, _)\<in>set is. unanswering n" and "hook_run cfg is s = (s', evs)"
  shows "outage_keeps s s' \<and> (hs_pending s \<noteq> None \<longrightarrow> hs_offset s' = hs_offset s \<and> evs = [])"
  using assms
proof (induction "is" arbitrary: s s' evs)
  case Nil
  then show ?case by (simp add: outage_keeps_def)
next
  case (Cons x "is")
  obtain n input force now where x: "x = (n, input, force, now)" by (cases x)
  obtain s1 e1 where a: "advance cfg n (note_input input s) force now = (s1, e1)"
    by (cases "advance cfg n (note_input input s) force now")
  obtain s2 e2 where r: "hook_run cfg is s1 = (s2, e2)" by (cases "hook_run cfg is s1")
  from Cons.prems(1) x have "unanswering n" by simp
  note 1 = outage_advance [OF this a]
  from Cons.prems(1) have "\<forall>(n, _)\<in>set is. unanswering n" by simp
  note 2 = Cons.IH [OF this r]
  from Cons.prems(2) x a r have "s' = s2" "evs = e1 @ e2" by simp_all
  with 1 2 show ?case by (simp add: outage_keeps_def)
qed


section \<open>The breaker\<close>

text \<open>The breaker bounds what an outage costs. Once enough transport failures have been counted,
  no later invocation in the cooldown sends anything, reads the transcript or changes the state, at
  whatever turn count, forced or not, and whatever its daemon would have answered.\<close>

lemma breaker_silences_cooldown:
  assumes "hc_breaker_failures cfg \<le> hs_transport_failures (count_transport_failure cfg s now)"
    and "0 \<le> now" "now \<le> later" "later < hs_breaker_open_until_ms (count_transport_failure cfg s now)"
  shows "advance cfg n (count_transport_failure cfg s now) force later
      = (count_transport_failure cfg s now, [])
    \<and> hs_breaker_open_until_ms (count_transport_failure cfg s now)
      = sat_add_i64 now (breaker_cooldown_ms cfg)"
proof -
  let ?s = "count_transport_failure cfg s now"
  have e: "hs_breaker_open_until_ms ?s = sat_add_i64 now (breaker_cooldown_ms cfg)"
    using assms(1) by (auto simp: count_transport_failure_def Let_def split: if_splits)
  then have "breaker_open ?s cfg later"
    using assms(2-4) by (simp add: breaker_open_def sat_add_i64_def)
  with e show ?thesis by (simp add: advance_def)
qed

section \<open>A settled request\<close>

text \<open>An accepted or already settled request clears every failure. Afterwards the cursor stands
  where the sent delta ended, the chunk number is the next one, both failure counters, the breaker and
  the poison mark are cleared, and the outstanding job is exactly the one accepted, if any.\<close>

lemma settled_request_clears_failures:
  assumes "advance cfg n s force now = (s', evs)"
    and "EvAccepted f t \<in> set evs \<or> EvSettled f t \<in> set evs"
  shows "hs_offset s' = t \<and> hs_transport_failures s' = 0 \<and> hs_reject_failures s' = 0
    \<and> hs_breaker_open_until_ms s' = 0 \<and> hs_poisoned_at s' = None \<and> hs_turns_since_retain s' = 0
    \<and> 0 < hs_chunk s'
    \<and> (case hs_pending s' of None \<Rightarrow> EvSettled f t \<in> set evs
        | Some p \<Rightarrow> EvAccepted f t \<in> set evs \<and> p_offset_from p = f \<and> p_offset_to p = t)"
  using assms(1)
proof (cases rule: advance_cases)
  case (went s1 evs1 evs2)
  with assms(2) reconcile_no_send(2,3) [OF went(1)]
  have ev: "EvAccepted f t \<in> set evs2 \<or> EvSettled f t \<in> set evs2" by auto
  from went(2) show ?thesis
  proof (cases rule: send_delta_cases)
    case gated
    with ev show ?thesis by simp
  next
    case empty
    with ev show ?thesis by simp
  next
    case (answered oc posts evs3)
    have "EvAccepted f t \<notin> set posts" "EvSettled f t \<notin> set posts"
      using post_delta_only_posts [of _ n "s1\<lparr>hs_offset := send_from n s1\<rparr>" "sent_delta cfg n s1"
          "send_from n s1" now] answered(2) by fastforce+
    with ev answered(4) have "EvAccepted f t \<in> set evs3 \<or> EvSettled f t \<in> set evs3" by auto
    with answered(3,4) went(3) show ?thesis
      by (auto simp: apply_outcome_def accept_def Let_def sat_add_u64_def u64_max_def split: outcome.splits)
  qed
next
  case closed
  with assms(2) show ?thesis by simp
next
  case stopped
  with assms(2) reconcile_no_send(2,3) [OF stopped] show ?thesis by auto
qed


section \<open>The bytes that pass unsent\<close>

text \<open>A message that does not fit the post cap is consumed and never sent. When the only message
  of the unread part is larger than \<open>max_post_bytes\<close>, the cursor passes it, no request is made, and the
  resulting state is the one a delta without any message leaves: the truncation is not recorded
  anywhere.\<close>

lemma oversized_message_is_never_sent:
  assumes "n_read_delta n = file_reader parse ser_len (files, fails)"
    and "files (hs_transcript_path s) = Some bytes" "hs_transcript_path s \<noteq> []"
    and "n_file_len n (hs_transcript_path s) = Some (length bytes)" "hs_offset s < length bytes"
    and "sized_messages parse ser_len (full_lines fails (hs_offset s) (drop (hs_offset s) bytes)) = [(w, m)]"
    and "hc_max_post_bytes cfg < w" "hs_pending s = None"
    and "\<not> breaker_open s cfg now" "\<not> poisoned_within_throttle s (hc_poison_retry_secs cfg) now"
  shows "\<exists>d. d = n_read_delta n (hs_transcript_path s) (hs_offset s) (hc_max_post_bytes cfg)
    \<and> d_truncated d
    \<and> advance cfg n s True now =
       (s\<lparr>hs_offset := d_consumed_to d,
          hs_compactions := sat_add_u64 (hs_compactions s) (d_compactions d),
          hs_turns_since_retain := 0\<rparr>, [EvSkipped (hs_offset s) (d_consumed_to d)])"
proof -
  let ?d = "n_read_delta n (hs_transcript_path s) (hs_offset s) (hc_max_post_bytes cfg)"
  have "d_messages ?d = [] \<and> d_truncated ?d"
    using assms(7) by (simp add: assms(1,2) file_reader_def read_delta_spec assms(6) Let_def fits_def)
  with assms(3-5,8-10) show ?thesis
    by (intro exI [of _ ?d]) (simp add: advance_def reconcile_def send_delta_def Let_def)
qed


section \<open>The theorems on concrete input\<close>

theorem failed_job_is_resent_in_place_witness:
  "advance demo_cfg demo_forgot (note_input None demo_sent) True 1000
     = (demo_sent, [EvJobFailed 0 2, EvPosted demo_body, EvAccepted 0 2])
   \<and> rb_document_id demo_body = [115]"
proof -
  have p: "hs_pending demo_sent = Some \<lparr>p_job_id = [106], p_offset_from = 0, p_offset_to = 2,
      p_chunk_before = 0, p_compactions_before = 0\<rparr>" by (simp add: demo_sent_def)
  have j: "job_status demo_forgot [106] = JobFailed"
    by (simp add: job_status_def demo_net_def is_success_def)
  have i: "note_input None demo_sent = demo_sent" by (simp add: note_input_def)
  have f: "n_file_len demo_forgot x = Some 3" for x by (simp add: demo_net_def)
  have b: "rb_offset_from demo_body \<le> 3" by (simp add: demo_body_def retain_body_of_def)
  have l: "advance demo_cfg demo_forgot (note_input None demo_sent) True 1000
     = (demo_sent, [EvJobFailed 0 2, EvPosted demo_body, EvAccepted 0 2])"
    unfolding i by (rule demo_lost)
  have s: "EvPosted demo_body \<in> set [EvPosted demo_body, EvAccepted 0 2]"
    "EvAccepted 0 2 \<in> set [EvPosted demo_body, EvAccepted 0 2]"
    "EvPosted demo_body \<in> set [EvJobFailed 0 2, EvPosted demo_body, EvAccepted 0 2]" by simp_all
  have j': "job_status demo_forgot (p_job_id \<lparr>p_job_id = [106], p_offset_from = 0, p_offset_to = 2,
      p_chunk_before = 0, p_compactions_before = 0\<rparr>) = JobFailed" using j by simp
  have d: "rb_document_id demo_body = [115]"
    by (simp add: demo_body_def retain_body_of_def document_id_of_def demo_state_sel)
  from failed_job_is_resent_in_place [OF demo_first s(1,2) p j' f b l s(3)] l d
  show ?thesis by blast
qed

theorem outage_never_poisons_witness:
  "fst (hook_run demo_cfg
     [(demo_net (Inl HttpConnect) (Inl HttpTimeout), None, True, 1000)] demo_sent)
   = count_transport_failure demo_cfg demo_sent 1000
   \<and> outage_keeps demo_sent (count_transport_failure demo_cfg demo_sent 1000)"
proof -
  let ?n = "demo_net (Inl HttpConnect) (Inl HttpTimeout)"
  have r: "hook_run demo_cfg [(?n, None, True, 1000)] demo_sent
      = (count_transport_failure demo_cfg demo_sent 1000, [])"
    using unanswering_job [of ?n "[106]"]
    by (simp add: note_input_def advance_def demo_not_gated reconcile_def unanswering_def demo_net_def)
      (simp add: demo_sent_def job_status_def)
  have "unanswering ?n" by (simp add: unanswering_def demo_net_def)
  then have "\<forall>(n, _)\<in>set [(?n, None, True, 1000)]. unanswering n" by simp
  from outage_never_poisons [OF this r] r show ?thesis by simp
qed

end
