(* ===== verification/Chunking.thy ===== *)
theory Chunking
  imports Json_Value
begin

text \<open>
  \<open>crates/memgardend/src/retain/chunk.rs\<close>: the chunker the retain pipeline runs before extraction. Texts
  are lists of characters, so every size is a character count as in the code. The JSON parser and the
  compact serializer are parameters; what is assumed of them is named where a theorem needs it.
\<close>

definition separators :: "str list" where
  "separators = [[10, 10], [10], lit ''. '', lit ''! '', lit ''? '', lit ''; '', lit '', '', lit '' '', []]"

section \<open>Splitting text\<close>

text \<open>\<open>slice::chunks\<close>. A zero size panics in the source; no caller passes one.\<close>

fun chunks_of :: "nat \<Rightarrow> 'a list \<Rightarrow> 'a list list" where
  "chunks_of n xs = (if xs = [] then [] else if n = 0 then [xs] else take n xs # chunks_of n (drop n xs))"

declare chunks_of.simps [simp del]

definition emit :: "str \<Rightarrow> str list" where
  "emit buf = (if blank buf then [] else [trim buf])"

text \<open>The separator stays attached to the piece it ends.\<close>

fun attach :: "str \<Rightarrow> str list \<Rightarrow> str list" where
  "attach sep [] = []"
| "attach sep [p] = [p]"
| "attach sep (p # q # ps) = (p @ sep) # attach sep (q # ps)"

definition pack_piece ::
  "(str \<Rightarrow> str list) \<Rightarrow> nat \<Rightarrow> str list \<times> str \<Rightarrow> str \<Rightarrow> str list \<times> str" where
  "pack_piece deeper max_chars st piece =
     (case st of (out, buf) \<Rightarrow>
        if max_chars < length piece then (out @ emit buf @ deeper piece, [])
        else if max_chars < length buf + length piece \<and> buf \<noteq> [] then (out @ emit buf, piece)
        else (out, buf @ piece))"

text \<open>\<open>split_recursive\<close>, with the pieces it appends to \<open>out\<close> as its value. The first separator that occurs
  is used, the empty one being the hard split; the pieces that stay too long go down the ladder.\<close>

function split_recursive :: "nat \<Rightarrow> str list \<Rightarrow> str \<Rightarrow> str list" where
  "split_recursive max_chars seps text =
     (if length text \<le> max_chars then emit text
      else (case dropWhile (\<lambda>s. s \<noteq> [] \<and> \<not> contains s text) seps of
              [] \<Rightarrow> filter (\<lambda>s. \<not> blank s) (chunks_of max_chars text)
            | sep # rest \<Rightarrow>
                (if sep = [] then filter (\<lambda>s. \<not> blank s) (chunks_of max_chars text)
                 else (let (out, buf) =
                         foldl (pack_piece (split_recursive max_chars rest) max_chars) ([], [])
                           (attach sep (str_split sep text))
                       in out @ emit buf))))"
  by pat_completeness auto
termination
proof (relation "measure (\<lambda>(_, seps, _). length seps)", goal_cases)
  case (2 max_chars seps "text" sep rest)
  from 2(2) have "length (sep # rest) \<le> length seps" by (metis length_dropWhile_le)
  then show ?case by simp
qed simp

declare split_recursive.simps [simp del]

definition split_oversized_unit :: "str \<Rightarrow> nat \<Rightarrow> str list" where
  "split_oversized_unit t max_chars =
     (let out = filter (\<lambda>c. \<not> blank c) (split_recursive max_chars separators t)
      in if out = [] then [t] else out)"

section \<open>Conversations and JSON lines\<close>

text \<open>\<open>flush\<close> and one turn of \<open>chunk_conversation\<close>; the state is \<open>chunks\<close>, \<open>current\<close> and its size.\<close>

type_synonym 'a packing = "str list \<times> 'a list \<times> nat"

definition flush_turns :: "(json \<Rightarrow> str) \<Rightarrow> json packing \<Rightarrow> json packing" where
  "flush_turns ser st =
     (case st of (chunks, current, size_now) \<Rightarrow>
        if current = [] then st else (chunks @ [ser (JArr current)], [], 2))"

definition pack_turn :: "(json \<Rightarrow> str) \<Rightarrow> nat \<Rightarrow> nat \<Rightarrow> json packing \<Rightarrow> json \<Rightarrow> json packing" where
  "pack_turn ser max_chars structured_limit st turn =
     (let unit_size = length (ser turn); turn_size = unit_size + 1 in
      if structured_limit < unit_size + 2 then
        (case flush_turns ser st of (chunks, current, size_now) \<Rightarrow>
           (chunks @ split_oversized_unit (ser turn) (min structured_limit max_chars), current, size_now))
      else (case (case st of (chunks, current, size_now) \<Rightarrow>
                    if max_chars < size_now + turn_size \<and> current \<noteq> [] then flush_turns ser st else st) of
              (chunks, current, size_now) \<Rightarrow> (chunks, current @ [turn], size_now + turn_size)))"

definition chunk_conversation :: "(json \<Rightarrow> str) \<Rightarrow> json list \<Rightarrow> nat \<Rightarrow> nat \<Rightarrow> str list" where
  "chunk_conversation ser turns max_chars structured_limit =
     (let chunks = fst (flush_turns ser (foldl (pack_turn ser max_chars structured_limit) ([], [], 2) turns))
      in if chunks = [] then [ser (JArr turns)] else chunks)"

definition flush_lines :: "str packing \<Rightarrow> str packing" where
  "flush_lines st =
     (case st of (chunks, current, size_now) \<Rightarrow>
        if current = [] then st else (chunks @ [join [10] current], [], 0))"

definition pack_line :: "nat \<Rightarrow> nat \<Rightarrow> str packing \<Rightarrow> str \<Rightarrow> str packing" where
  "pack_line max_chars structured_limit st line =
     (let unit_size = length line; line_size = unit_size + 1 in
      if structured_limit < unit_size then
        (case flush_lines st of (chunks, current, size_now) \<Rightarrow>
           (chunks @ split_oversized_unit line (min structured_limit max_chars), current, size_now))
      else (case (case st of (chunks, current, size_now) \<Rightarrow>
                    if max_chars < size_now + line_size \<and> current \<noteq> [] then flush_lines st else st) of
              (chunks, current, size_now) \<Rightarrow> (chunks, current @ [line], size_now + line_size)))"

definition chunk_jsonl :: "(str \<Rightarrow> json option) \<Rightarrow> str \<Rightarrow> nat \<Rightarrow> nat \<Rightarrow> str list option" where
  "chunk_jsonl parse t max_chars structured_limit =
     (let ls = filter (\<lambda>l. \<not> blank l) (text_lines t) in
      if length ls < 2 then None
      else if \<not> list_all (\<lambda>l. case parse l of Some v \<Rightarrow> is_object v | None \<Rightarrow> False) ls then None
      else Some (fst (flush_lines (foldl (pack_line max_chars structured_limit) ([], [], 0) ls))))"

definition chunk_text :: "(str \<Rightarrow> json option) \<Rightarrow> (json \<Rightarrow> str) \<Rightarrow> str \<Rightarrow> nat \<Rightarrow> str list" where
  "chunk_text parse ser t max_chars0 =
     (let max_chars = max max_chars0 1 in
      if length t \<le> max_chars then [t]
      else (case parse t of
              Some (JObj m) \<Rightarrow> split_oversized_unit t max_chars
            | v \<Rightarrow>
                (case v of
                   Some (JArr turns) \<Rightarrow>
                     if list_all is_object turns then chunk_conversation ser turns max_chars max_chars
                     else (case chunk_jsonl parse t max_chars max_chars of
                             Some chunks \<Rightarrow> chunks | None \<Rightarrow> split_oversized_unit t max_chars)
                 | _ \<Rightarrow> (case chunk_jsonl parse t max_chars max_chars of
                             Some chunks \<Rightarrow> chunks | None \<Rightarrow> split_oversized_unit t max_chars))))"

text \<open>The three ways a long text is cut.\<close>

lemma chunk_text_cases [case_names short conversation jsonl unit]:
  obtains "length t \<le> max m 1" "chunk_text parse ser t m = [t]"
  | turns where "max m 1 < length t" "parse t = Some (JArr turns)" "list_all is_object turns"
      "chunk_text parse ser t m = chunk_conversation ser turns (max m 1) (max m 1)"
  | chunks where "max m 1 < length t" "chunk_jsonl parse t (max m 1) (max m 1) = Some chunks"
      "chunk_text parse ser t m = chunks"
  | "max m 1 < length t" "chunk_text parse ser t m = split_oversized_unit t (max m 1)"
proof (cases "length t \<le> max m 1")
  case True
  then show ?thesis by (intro that(1)) (simp_all add: chunk_text_def Let_def del: One_nat_def)
next
  case False
  then have long: "max m 1 < length t" by linarith
  define other where "other = (case chunk_jsonl parse t (max m 1) (max m 1) of
    Some chunks \<Rightarrow> chunks | None \<Rightarrow> split_oversized_unit t (max m 1))"
  note arms = that
  have other: thesis if o: "chunk_text parse ser t m = other"
  proof (cases "chunk_jsonl parse t (max m 1) (max m 1)")
    case None
    with o long show thesis by (intro arms(4)) (simp_all add: other_def)
  next
    case (Some chunks)
    with o long show thesis by (intro arms(3) [of chunks]) (simp_all add: other_def)
  qed
  show ?thesis
  proof (cases "parse t")
    case None
    with False have "chunk_text parse ser t m = other" by (simp add: chunk_text_def Let_def other_def del: One_nat_def)
    then show ?thesis by (rule other)
  next
    case (Some v)
    show ?thesis
    proof (cases v)
      case (JObj x)
      with False Some have "chunk_text parse ser t m = split_oversized_unit t (max m 1)"
        by (simp add: chunk_text_def Let_def del: One_nat_def)
      with long show ?thesis by (rule that(4))
    next
      case (JArr turns)
      show ?thesis
      proof (cases "list_all is_object turns")
        case True
        with False Some JArr
        have "chunk_text parse ser t m = chunk_conversation ser turns (max m 1) (max m 1)"
          by (simp add: chunk_text_def Let_def del: One_nat_def)
        with that(2) [OF long _ True] Some JArr show ?thesis by simp
      next
        case no: False
        with False Some JArr have "chunk_text parse ser t m = other"
          by (simp add: chunk_text_def Let_def other_def del: One_nat_def)
        then show ?thesis by (rule other)
      qed
    qed (use False Some in \<open>auto simp: chunk_text_def Let_def other_def simp del: One_nat_def intro!: other\<close>)
  qed
qed


section \<open>Sizes\<close>

lemma chunks_of_le: "0 < n \<Longrightarrow> c \<in> set (chunks_of n xs) \<Longrightarrow> length c \<le> n"
proof (induction n xs rule: chunks_of.induct)
  case (1 n xs)
  then show ?case by (auto simp: chunks_of.simps [of n xs] split: if_splits)
qed

lemma concat_chunks_of: "concat (chunks_of n xs) = xs"
proof (induction n xs rule: chunks_of.induct)
  case (1 n xs)
  then show ?case by (auto simp: chunks_of.simps [of n xs])
qed

lemma emit_le: "c \<in> set (emit buf) \<Longrightarrow> length c \<le> length buf"
  by (auto simp: emit_def length_trim split: if_splits)

lemma pack_piece_le:
  assumes "\<And>p c. c \<in> set (deeper p) \<Longrightarrow> length c \<le> n"
    and "\<forall>c\<in>set (fst st). length c \<le> n" and "length (snd st) \<le> n"
  shows "(\<forall>c\<in>set (fst (pack_piece deeper n st piece)). length c \<le> n)
    \<and> length (snd (pack_piece deeper n st piece)) \<le> n"
  using assms by (cases st) (auto simp: pack_piece_def dest: emit_le intro: le_trans)

lemma foldl_pack_le:
  assumes "\<And>p c. c \<in> set (deeper p) \<Longrightarrow> length c \<le> n"
    and "\<forall>c\<in>set (fst st). length c \<le> n" and "length (snd st) \<le> n"
  shows "(\<forall>c\<in>set (fst (foldl (pack_piece deeper n) st ps)). length c \<le> n)
    \<and> length (snd (foldl (pack_piece deeper n) st ps)) \<le> n"
  using assms(2,3)
proof (induction ps arbitrary: st)
  case (Cons p ps)
  show ?case
    using Cons.IH [of "pack_piece deeper n st p"] pack_piece_le [OF assms(1) Cons.prems]
    by simp
qed simp

lemma split_recursive_hard:
  assumes "\<not> length t \<le> n"
    and "dropWhile (\<lambda>s. s \<noteq> [] \<and> \<not> contains s t) seps = [] \<or>
      hd (dropWhile (\<lambda>s. s \<noteq> [] \<and> \<not> contains s t) seps) = []"
  shows "split_recursive n seps t = filter (\<lambda>s. \<not> blank s) (chunks_of n t)"
  using assms by (cases "dropWhile (\<lambda>s. s \<noteq> [] \<and> \<not> contains s t) seps")
    (simp_all add: split_recursive.simps [of n seps t] del: dropWhile_eq_Nil_conv)

lemma attach_nonempty: "ps \<noteq> [] \<Longrightarrow> attach sep ps \<noteq> []"
  by (cases "(sep, ps)" rule: attach.cases) auto

lemma attach_split_obtains:
  obtains p where "p \<in> set (attach sep (str_split sep t))"
  using attach_nonempty [OF str_split_nonempty] by (meson list.set_sel(1))

lemma split_recursive_ladder:
  assumes "\<not> length t \<le> n"
    and "dropWhile (\<lambda>s. s \<noteq> [] \<and> \<not> contains s t) seps = sep # rest" "sep \<noteq> []"
    and "foldl (pack_piece (split_recursive n rest) n) ([], []) (attach sep (str_split sep t)) = (out, buf)"
  shows "split_recursive n seps t = out @ emit buf"
  using assms by (simp add: split_recursive.simps [of n seps t] Let_def)

lemma split_recursive_le:
  "0 < n \<Longrightarrow> c \<in> set (split_recursive n seps t) \<Longrightarrow> length c \<le> n"
proof (induction n seps t arbitrary: c rule: split_recursive.induct)
  case (1 n seps t)
  show ?case
  proof (cases "length t \<le> n")
    case True
    with 1(3) show ?thesis by (auto simp: split_recursive.simps [of n seps t] dest: emit_le)
  next
    case long: False
    let ?dw = "dropWhile (\<lambda>s. s \<noteq> [] \<and> \<not> contains s t) seps"
    show ?thesis
    proof (cases "?dw = [] \<or> hd ?dw = []")
      case True
      from split_recursive_hard [OF long True] 1(2,3) show ?thesis by (auto dest: chunks_of_le)
    next
      case False
      then obtain sep rest where dw: "?dw = sep # rest" "sep \<noteq> []" by (cases ?dw) auto
      let ?st = "foldl (pack_piece (split_recursive n rest) n) ([], []) (attach sep (str_split sep t))"
      have "(\<forall>c\<in>set (fst ?st). length c \<le> n) \<and> length (snd ?st) \<le> n"
        by (rule foldl_pack_le)
          (use 1(1) [OF long dw(1,2)] 1(2) attach_split_obtains [of sep t] in \<open>blast, auto\<close>)
      moreover have "c \<in> set (fst ?st @ emit (snd ?st))"
        using 1(3) split_recursive_ladder [OF long dw, of "fst ?st" "snd ?st"] by simp
      ultimately show ?thesis by (auto dest: emit_le)
    qed
  qed
qed

lemma split_oversized_unit_le:
  "0 < n \<Longrightarrow> c \<in> set (split_oversized_unit t n) \<Longrightarrow> length c \<le> n \<or> c = t \<and> split_oversized_unit t n = [t]"
  by (auto simp: split_oversized_unit_def Let_def dest: split_recursive_le split: if_splits)


section \<open>What is kept\<close>

definition visible :: "str \<Rightarrow> str" where
  "visible s = filter (\<lambda>c. \<not> is_ws c) s"

lemma visible_append [simp]: "visible (s @ t) = visible s @ visible t"
  by (simp add: visible_def)

lemma visible_Nil [simp]: "visible [] = []"
  by (simp add: visible_def)

lemma visible_blank: "visible s = [] \<longleftrightarrow> blank s"
  by (auto simp: visible_def blank_iff filter_empty_conv)

lemma visible_trim [simp]: "visible (trim s) = visible s"
proof -
  obtain v w where "s = v @ trim s @ w" "\<forall>c\<in>set v. is_ws c" "\<forall>c\<in>set w. is_ws c"
    using trim_decomp by blast
  then have "visible s = visible v @ visible (trim s) @ visible w" "blank v" "blank w"
    by (metis visible_append, simp_all add: blank_iff)
  then show ?thesis by (simp flip: visible_blank)
qed

lemma visible_emit [simp]: "visible (concat (emit s)) = visible s"
  using visible_blank [of s] by (auto simp: emit_def)

lemma visible_nonblank: "visible (concat (filter (\<lambda>s. \<not> blank s) cs)) = visible (concat cs)"
  by (induction cs) (auto simp: visible_blank)

lemma concat_attach: "concat (attach sep ps) = join sep ps"
  by (induction sep ps rule: attach.induct) (auto simp: join_Cons)

lemma foldl_pack_visible:
  assumes "\<And>p. visible (concat (deeper p)) = visible p"
  shows "visible (concat (fst (foldl (pack_piece deeper n) st ps)) @ snd (foldl (pack_piece deeper n) st ps))
    = visible (concat (fst st) @ snd st) @ visible (concat ps)"
proof (induction ps arbitrary: st)
  case (Cons p ps)
  have "visible (concat (fst (pack_piece deeper n st p)) @ snd (pack_piece deeper n st p))
      = visible (concat (fst st) @ snd st) @ visible p"
    by (cases st) (simp add: pack_piece_def assms)
  with Cons [of "pack_piece deeper n st p"] show ?case by simp
qed simp

lemma split_recursive_visible:
  "visible (concat (split_recursive n seps t)) = visible t"
proof (induction n seps t rule: split_recursive.induct)
  case (1 n seps t)
  show ?case
  proof (cases "length t \<le> n")
    case True
    then show ?thesis by (simp add: split_recursive.simps [of n seps t])
  next
    case long: False
    let ?dw = "dropWhile (\<lambda>s. s \<noteq> [] \<and> \<not> contains s t) seps"
    show ?thesis
    proof (cases "?dw = [] \<or> hd ?dw = []")
      case True
      from split_recursive_hard [OF long True] show ?thesis
        by (simp add: visible_nonblank concat_chunks_of)
    next
      case False
      then obtain sep rest where dw: "?dw = sep # rest" "sep \<noteq> []" by (cases ?dw) auto
      obtain out buf where f: "foldl (pack_piece (split_recursive n rest) n) ([], [])
          (attach sep (str_split sep t)) = (out, buf)" by fastforce
      have "visible (concat (split_recursive n rest p)) = visible p" for p
        using 1 [OF long dw(1,2)] attach_split_obtains [of sep t] by metis
      from foldl_pack_visible [of "split_recursive n rest", OF this, of n "([], [])" "attach sep (str_split sep t)"]
      have "visible (concat out @ buf) = visible t"
        by (simp add: f concat_attach join_str_split dw(2))
      with split_recursive_ladder [OF long dw f] show ?thesis by simp
    qed
  qed
qed

lemma split_oversized_unit_visible:
  "visible (concat (split_oversized_unit t n)) = visible t"
  using split_recursive_visible [of n separators t] visible_nonblank [of "split_recursive n separators t"]
  by (auto simp: split_oversized_unit_def Let_def)

lemma visible_strip_cr [simp]: "visible (strip_cr s) = visible s"
proof (cases "s \<noteq> [] \<and> last s = 13")
  case True
  then have "s = butlast s @ [13]" by (metis append_butlast_last_id)
  then have "visible s = visible (butlast s) @ visible [13]" by (metis visible_append)
  moreover have "visible [13] = []" by (simp add: visible_def is_ws_def)
  ultimately show ?thesis using True by (simp add: strip_cr_def)
next
  case False
  then show ?thesis by (auto simp: strip_cr_def)
qed

lemma visible_join_lf: "visible (join [10] ls) = visible (concat ls)"
  by (induction "[10] :: str" ls rule: join.induct) (auto simp: visible_def is_ws_def)

lemma visible_map_strip_cr: "visible (concat (map strip_cr ls)) = visible (concat ls)"
  by (induction ls) auto

lemma concat_butlast_last: "ps \<noteq> [] \<Longrightarrow> concat ps = concat (butlast ps) @ last ps"
  by (induction ps) auto

lemma visible_text_lines: "visible (concat (text_lines t)) = visible t"
proof -
  let ?ps = "str_split [10] t"
  have "visible (concat (text_lines t)) = visible (concat ?ps)"
    using concat_butlast_last [OF str_split_nonempty [of "[10]" t]]
    by (simp add: text_lines_def Let_def visible_map_strip_cr)
  also have "\<dots> = visible (join [10] ?ps)" by (simp add: visible_join_lf)
  also have "join [10] ?ps = t" by (simp add: join_str_split)
  finally show ?thesis .
qed

definition packed_lines :: "str packing \<Rightarrow> str" where
  "packed_lines st = (case st of (chunks, current, _) \<Rightarrow> visible (concat chunks) @ visible (concat current))"

lemma packed_flush [simp]: "packed_lines (flush_lines st) = packed_lines st"
  by (auto simp: packed_lines_def flush_lines_def visible_join_lf split: prod.splits)

lemma flush_lines_current [simp]: "fst (snd (flush_lines st)) = []"
  by (auto simp: flush_lines_def split: prod.splits)

lemma pack_line_fits:
  assumes "\<not> k < length l"
  shows "pack_line n k st l =
    (case (if n < snd (snd st) + (length l + 1) \<and> fst (snd st) \<noteq> [] then flush_lines st else st) of
       (chunks, current, size_now) \<Rightarrow> (chunks, current @ [l], size_now + (length l + 1)))"
  using assms by (cases st) (simp add: pack_line_def Let_def)

lemma packed_pack [simp]: "packed_lines (pack_line n k st l) = packed_lines st @ visible l"
proof -
  show ?thesis
  proof (cases "k < length l")
    case True
    obtain c2 s2 where f: "flush_lines st = (c2, [], s2)"
      using flush_lines_current [of st] by (metis prod.collapse)
    with packed_flush [of st] have "packed_lines st = visible (concat c2)" by (simp add: packed_lines_def)
    with True f show ?thesis
      by (simp add: pack_line_def packed_lines_def split_oversized_unit_visible)
  next
    case False
    let ?st = "if n < snd (snd st) + (length l + 1) \<and> fst (snd st) \<noteq> [] then flush_lines st else st"
    obtain a b c where s: "?st = (a, b, c)" by (cases ?st)
    have "packed_lines ?st = packed_lines st" by simp
    then show ?thesis unfolding pack_line_fits [OF False] s by (simp add: packed_lines_def)
  qed
qed

lemma chunk_jsonl_visible:
  assumes "chunk_jsonl parse t n k = Some chunks"
  shows "visible (concat chunks) = visible t"
proof -
  let ?ls = "filter (\<lambda>l. \<not> blank l) (text_lines t)"
  have fold: "packed_lines (foldl (pack_line n k) st ls) = packed_lines st @ visible (concat ls)" for st ls
    by (induction ls arbitrary: st) auto
  let ?st = "flush_lines (foldl (pack_line n k) ([], [], 0) ?ls)"
  from assms have "chunks = fst ?st"
    by (auto simp: chunk_jsonl_def Let_def split: if_splits)
  moreover have "packed_lines ?st = visible (concat ?ls)" by (simp add: fold) (simp add: packed_lines_def)
  moreover have "packed_lines ?st = visible (concat (fst ?st))"
    using flush_lines_current [of "foldl (pack_line n k) ([], [], 0) ?ls"]
    by (cases ?st) (simp add: packed_lines_def)
  ultimately show ?thesis using visible_nonblank [of "text_lines t"] visible_text_lines [of t] by simp
qed


section \<open>Conversations\<close>

text \<open>How one group of turns is rendered: a turn that does not fit alone is split as text.\<close>

definition render_group :: "(json \<Rightarrow> str) \<Rightarrow> nat \<Rightarrow> json list \<Rightarrow> str list" where
  "render_group ser n g =
     (if length g = 1 \<and> n < length (ser (hd g)) + 2 then split_oversized_unit (ser (hd g)) n
      else [ser (JArr g)])"

definition group_size :: "(json \<Rightarrow> str) \<Rightarrow> json list \<Rightarrow> nat" where
  "group_size ser g = sum_list (map (\<lambda>t. length (ser t) + 1) g)"

definition packed_turns :: "(json \<Rightarrow> str) \<Rightarrow> nat \<Rightarrow> json list \<Rightarrow> json packing \<Rightarrow> bool" where
  "packed_turns ser n turns st \<longleftrightarrow>
     (\<exists>gs. concat gs @ fst (snd st) = turns \<and> [] \<notin> set gs
       \<and> (\<forall>g\<in>set gs. length g = 1 \<or> (\<forall>t\<in>set g. length (ser t) + 2 \<le> n))
       \<and> (\<forall>g\<in>set gs. group_size ser g + 1 \<le> n \<or> length g = 1)
       \<and> fst st = concat (map (render_group ser n) gs))
     \<and> (\<forall>t\<in>set (fst (snd st)). length (ser t) + 2 \<le> n)
     \<and> snd (snd st) = 2 + group_size ser (fst (snd st))
     \<and> (fst (snd st) \<noteq> [] \<longrightarrow> group_size ser (fst (snd st)) + 1 \<le> n)"

lemma packed_flush_turns:
  assumes "packed_turns ser n turns st"
  shows "packed_turns ser n turns (flush_turns ser st)" and "fst (snd (flush_turns ser st)) = []"
proof -
  obtain chunks current sz where st: "st = (chunks, current, sz)" by (cases st)
  show "fst (snd (flush_turns ser st)) = []" by (simp add: flush_turns_def st)
  show "packed_turns ser n turns (flush_turns ser st)"
  proof (cases "current = []")
    case True
    with assms show ?thesis by (simp add: flush_turns_def st)
  next
    case False
    from assms st obtain gs where gs: "concat gs @ current = turns" "[] \<notin> set gs"
      "\<forall>g\<in>set gs. length g = 1 \<or> (\<forall>t\<in>set g. length (ser t) + 2 \<le> n)"
      "\<forall>g\<in>set gs. group_size ser g + 1 \<le> n \<or> length g = 1" "chunks = concat (map (render_group ser n) gs)"
      and c: "\<forall>t\<in>set current. length (ser t) + 2 \<le> n" "group_size ser current + 1 \<le> n"
      using False by (auto simp: packed_turns_def)
    have "hd current \<in> set current" using False by simp
    with c have "render_group ser n current = [ser (JArr current)]"
      by (auto simp: render_group_def not_less)
    with False gs c have "concat (gs @ [current]) = turns \<and> [] \<notin> set (gs @ [current])
       \<and> (\<forall>g\<in>set (gs @ [current]). length g = 1 \<or> (\<forall>t\<in>set g. length (ser t) + 2 \<le> n))
       \<and> (\<forall>g\<in>set (gs @ [current]). group_size ser g + 1 \<le> n \<or> length g = 1)
       \<and> chunks @ [ser (JArr current)] = concat (map (render_group ser n) (gs @ [current]))" by auto
    with False show ?thesis unfolding packed_turns_def
      by (intro conjI exI [of _ "gs @ [current]"]) (auto simp: flush_turns_def st group_size_def)
  qed
qed

lemma packed_pack_turn:
  assumes "packed_turns ser n turns st"
  shows "packed_turns ser n (turns @ [t]) (pack_turn ser n n st t)"
proof (cases "n < length (ser t) + 2")
  case True
  obtain chunks sz where f: "flush_turns ser st = (chunks, [], sz)"
    using packed_flush_turns(2) [OF assms] by (metis prod.collapse)
  from packed_flush_turns(1) [OF assms] f obtain gs where gs: "concat gs = turns" "[] \<notin> set gs"
      "\<forall>g\<in>set gs. length g = 1 \<or> (\<forall>t\<in>set g. length (ser t) + 2 \<le> n)"
      "\<forall>g\<in>set gs. group_size ser g + 1 \<le> n \<or> length g = 1" "chunks = concat (map (render_group ser n) gs)"
    and sz: "sz = 2"
    by (auto simp: packed_turns_def group_size_def)
  have p: "pack_turn ser n n st t = (chunks @ split_oversized_unit (ser t) n, [], sz)"
    using True f by (simp add: pack_turn_def)
  show ?thesis unfolding p packed_turns_def
    using gs sz True
    by (intro conjI exI [of _ "gs @ [[t]]"]) (auto simp: render_group_def group_size_def)
next
  case False
  let ?big = "n < snd (snd st) + (length (ser t) + 1) \<and> fst (snd st) \<noteq> []"
  define st1 where "st1 = (if ?big then flush_turns ser st else st)"
  have p1: "packed_turns ser n turns st1"
    using packed_flush_turns(1) [OF assms] assms by (simp add: st1_def)
  have room: "fst (snd st1) = [] \<or> snd (snd st1) + (length (ser t) + 1) \<le> n"
    using packed_flush_turns(2) [OF assms] by (auto simp: st1_def)
  obtain chunks current sz where s: "st1 = (chunks, current, sz)" by (cases st1)
  have "pack_turn ser n n st t = (case st1 of (chunks, current, sz) \<Rightarrow>
      (chunks, current @ [t], sz + (length (ser t) + 1)))"
    using False unfolding st1_def by (cases st) (simp add: pack_turn_def Let_def)
  then have p: "pack_turn ser n n st t = (chunks, current @ [t], sz + (length (ser t) + 1))"
    by (simp add: s)
  from p1 s obtain gs where gs: "concat gs @ current = turns" "[] \<notin> set gs"
      "\<forall>g\<in>set gs. length g = 1 \<or> (\<forall>t\<in>set g. length (ser t) + 2 \<le> n)"
      "\<forall>g\<in>set gs. group_size ser g + 1 \<le> n \<or> length g = 1" "chunks = concat (map (render_group ser n) gs)"
    and c: "\<forall>t\<in>set current. length (ser t) + 2 \<le> n" "sz = 2 + group_size ser current"
    by (auto simp: packed_turns_def)
  have "group_size ser (current @ [t]) + 1 \<le> n"
    using room s c(2) False by (auto simp: group_size_def)
  with gs c False show ?thesis unfolding p packed_turns_def
    by (intro conjI exI [of _ gs]) (auto simp: group_size_def)
qed

lemma packed_foldl:
  "packed_turns ser n done_turns st \<Longrightarrow>
   packed_turns ser n (done_turns @ turns) (foldl (pack_turn ser n n) st turns)"
proof (induction turns arbitrary: done_turns st)
  case (Cons t turns)
  from Cons.IH [OF packed_pack_turn [OF Cons.prems]] show ?case by simp
qed simp

lemma render_group_nonempty: "render_group ser n g \<noteq> []"
  by (auto simp: render_group_def split_oversized_unit_def Let_def)

lemma chunk_conversation_groups:
  assumes "turns \<noteq> []"
  obtains gs where "concat gs = turns" "[] \<notin> set gs"
    "chunk_conversation ser turns n n = concat (map (render_group ser n) gs)"
    "\<forall>g\<in>set gs. length g = 1 \<or> (\<forall>t\<in>set g. length (ser t) + 2 \<le> n)"
    "\<forall>g\<in>set gs. group_size ser g + 1 \<le> n \<or> length g = 1"
proof -
  have "packed_turns ser n [] ([], [], 2)"
    by (auto simp: packed_turns_def group_size_def intro: exI [of _ "[]"])
  from packed_flush_turns [OF packed_foldl [OF this, of turns]]
  obtain gs where gs: "concat gs = turns" "[] \<notin> set gs"
      "\<forall>g\<in>set gs. length g = 1 \<or> (\<forall>t\<in>set g. length (ser t) + 2 \<le> n)"
      "\<forall>g\<in>set gs. group_size ser g + 1 \<le> n \<or> length g = 1"
      "fst (flush_turns ser (foldl (pack_turn ser n n) ([], [], 2) turns)) = concat (map (render_group ser n) gs)"
    by (auto simp: packed_turns_def)
  from gs(1) assms have "gs \<noteq> []" by auto
  then have "concat (map (render_group ser n) gs) \<noteq> []"
    by (cases gs) (simp_all add: render_group_nonempty)
  then have "chunk_conversation ser turns n n = concat (map (render_group ser n) gs)"
    unfolding chunk_conversation_def Let_def gs(5) by (rule if_not_P)
  with gs(1-4) show ?thesis by (intro that [of gs])
qed


section \<open>Every piece fits\<close>

text \<open>What the pieces' sizes rest on: the serializer writes an array as its elements between brackets,
  separated by commas.\<close>

definition compact :: "(json \<Rightarrow> str) \<Rightarrow> bool" where
  "compact ser \<longleftrightarrow> (\<forall>ts. ser (JArr ts) = [91] @ join [44] (map ser ts) @ [93])"

lemma length_join: "ls \<noteq> [] \<Longrightarrow> length (join [c] ls) + 1 = sum_list (map (\<lambda>l. length l + 1) ls)"
  by (induction "[c]" ls rule: join.induct) auto

lemma compact_group:
  assumes "compact ser" and "g \<noteq> []"
  shows "length (ser (JArr g)) = group_size ser g + 1"
  using assms length_join [of "map ser g" 44]
  by (simp add: compact_def group_size_def comp_def)

lemma split_oversized_unit_fits:
  assumes "0 < n" and "c \<in> set (split_oversized_unit t n)"
  shows "length c \<le> n \<or> blank c"
proof (cases "filter (\<lambda>c. \<not> blank c) (split_recursive n separators t) = []")
  case True
  then have "visible t = []"
    using split_recursive_visible [of n separators t] visible_nonblank [of "split_recursive n separators t"] by simp
  with True assms(2) show ?thesis by (simp add: split_oversized_unit_def visible_blank)
next
  case False
  with assms show ?thesis
    by (auto simp: split_oversized_unit_def Let_def dest: split_recursive_le split: if_splits)
qed

lemma render_group_fits:
  assumes "compact ser" "0 < n" "g \<noteq> []" "length g = 1 \<or> group_size ser g + 1 \<le> n"
    and "c \<in> set (render_group ser n g)"
  shows "length c \<le> n \<or> blank c"
proof (cases "length g = 1 \<and> n < length (ser (hd g)) + 2")
  case True
  with assms(5) split_oversized_unit_fits [OF assms(2)] show ?thesis by (auto simp: render_group_def)
next
  case False
  then have "group_size ser g + 1 \<le> n"
    using assms(3,4) by (cases g) (auto simp: group_size_def)
  with False assms(5) compact_group [OF assms(1,3)] show ?thesis by (auto simp: render_group_def)
qed

definition lines_fit :: "nat \<Rightarrow> str packing \<Rightarrow> bool" where
  "lines_fit n st \<longleftrightarrow> (\<forall>c\<in>set (fst st). length c \<le> n \<or> blank c)
     \<and> snd (snd st) = sum_list (map (\<lambda>l. length l + 1) (fst (snd st)))
     \<and> snd (snd st) \<le> n + 1"

lemma lines_fit_flush: "lines_fit n st \<Longrightarrow> lines_fit n (flush_lines st)"
  using length_join [of "fst (snd st)" 10]
  by (cases st) (auto simp: lines_fit_def flush_lines_def)

lemma lines_fit_pack:
  assumes "lines_fit n st" and "0 < n"
  shows "lines_fit n (pack_line n n st l)"
proof (cases "n < length l")
  case True
  obtain chunks sz where f: "flush_lines st = (chunks, [], sz)"
    using flush_lines_current [of st] by (metis prod.collapse)
  with True lines_fit_flush [OF assms(1)] split_oversized_unit_fits [OF assms(2)] show ?thesis
    by (auto simp: pack_line_def lines_fit_def)
next
  case False
  define st1 where "st1 = (if n < snd (snd st) + (length l + 1) \<and> fst (snd st) \<noteq> [] then flush_lines st else st)"
  have p1: "lines_fit n st1" using lines_fit_flush [OF assms(1)] assms(1) by (simp add: st1_def)
  have room: "fst (snd st1) = [] \<or> snd (snd st1) + (length l + 1) \<le> n" by (auto simp: st1_def)
  obtain a b c where s: "st1 = (a, b, c)" by (cases st1)
  have e: "pack_line n n st l = (a, b @ [l], c + (length l + 1))"
    unfolding pack_line_fits [OF False] st1_def [symmetric] s by simp
  show ?thesis using p1 room False unfolding e by (auto simp: lines_fit_def s)
qed

lemma chunk_jsonl_fits:
  assumes "chunk_jsonl parse t n n = Some chunks" and "0 < n" and "c \<in> set chunks"
  shows "length c \<le> n \<or> blank c"
proof -
  have "lines_fit n st \<Longrightarrow> lines_fit n (foldl (pack_line n n) st ls)" for st ls
    by (induction ls arbitrary: st) (auto simp: lines_fit_pack assms(2))
  moreover have "lines_fit n ([], [], 0)" by (simp add: lines_fit_def)
  ultimately have "lines_fit n (flush_lines (foldl (pack_line n n) ([], [], 0) ls))" for ls
    by (intro lines_fit_flush)
  with assms(1,3) show ?thesis
    by (auto simp: chunk_jsonl_def Let_def lines_fit_def split: if_splits)
qed

lemma chunk_text_fits:
  assumes "compact ser" and "p \<in> set (chunk_text parse ser t m)"
  shows "length p \<le> max m 1 \<or> blank p \<or> p = ser (JArr [])"
proof (cases rule: chunk_text_cases [of t m parse ser])
  case short
  with assms(2) show ?thesis by simp
next
  case (conversation turns)
  show ?thesis
  proof (cases "turns = []")
    case True
    with conversation(4) assms(2) show ?thesis
      by (simp add: chunk_conversation_def flush_turns_def)
  next
    case False
    obtain gs where gs: "[] \<notin> set gs" "chunk_conversation ser turns (max m 1) (max m 1)
        = concat (map (render_group ser (max m 1)) gs)"
      "\<forall>g\<in>set gs. group_size ser g + 1 \<le> max m 1 \<or> length g = 1"
      using chunk_conversation_groups [OF False, of ser "max m 1"] by metis
    with conversation(4) assms(2) obtain g where "g \<in> set gs" "p \<in> set (render_group ser (max m 1) g)"
      by auto
    with gs(1,3) render_group_fits [OF assms(1), of "max m 1" g p] show ?thesis by fastforce
  qed
next
  case (jsonl chunks)
  have "0 < max m 1" by linarith
  from chunk_jsonl_fits [OF jsonl(2) this] assms(2) jsonl(3) show ?thesis by blast
next
  case unit
  have "0 < max m 1" by linarith
  from split_oversized_unit_fits [OF this] assms(2) unit(2) show ?thesis by metis
qed

section \<open>Properties\<close>

text \<open>Every chunk fits the budget. A chunk has at most \<open>max(max_chars, 1)\<close> characters, with two
  exceptions: a text that is white space throughout is returned whole at any length, and the empty
  array is written with its two characters.\<close>

lemma chunk_pieces_fit:
  assumes "compact ser" and "p \<in> set (chunk_text parse ser t m)"
  shows "length p \<le> max m 1 \<or> blank p \<or> p = [91, 93]"
  using chunk_text_fits [OF assms] assms(1) by (auto simp: compact_def)

text \<open>C29: Chunking is idempotent, which the streaming pipeline depends on: chunking a chunk again with
  the same budget returns exactly that chunk. Of the parser it uses that white space is not a JSON
  value and that \<open>[]\<close> is the empty array.\<close>

theorem chunk_idempotent:
  assumes "compact ser" and "p \<in> set (chunk_text parse ser t m)"
    and "\<forall>s. blank s \<longrightarrow> parse s = None" and "parse [91, 93] = Some (JArr [])"
  shows "chunk_text parse ser p m = [p]"
proof (cases "length p \<le> max m 1")
  case True
  then show ?thesis by (simp add: chunk_text_def del: One_nat_def)
next
  case False
  with chunk_text_fits [OF assms(1,2)] consider "blank p" | "p = ser (JArr [])" by blast
  then show ?thesis
  proof cases
    case 1
    with assms(3) have "parse p = None" by simp
    have v: "visible p = []" using 1 by (simp add: visible_blank)
    then have "visible (concat (text_lines p)) = []" by (simp add: visible_text_lines)
    then have "\<forall>l\<in>set (text_lines p). blank l" by (simp add: visible_def blank_iff filter_empty_conv)
    then have "filter (\<lambda>l. \<not> blank l) (text_lines p) = []" by (simp add: filter_empty_conv)
    then have j: "chunk_jsonl parse p n n = None" for n by (simp add: chunk_jsonl_def)
    have "visible (concat (split_recursive (max m 1) separators p)) = []"
      by (simp only: split_recursive_visible v)
    then have "\<forall>l\<in>set (split_recursive (max m 1) separators p). blank l"
      by (simp add: visible_def blank_iff filter_empty_conv)
    then have "split_oversized_unit p (max m 1) = [p]"
      by (simp add: split_oversized_unit_def filter_empty_conv)
    with False j \<open>parse p = None\<close> show ?thesis by (simp add: chunk_text_def Let_def del: One_nat_def)
  next
    case 2
    with assms(1) have p: "p = [91, 93]" by (simp add: compact_def)
    with assms(4) False 2 show ?thesis
      by (simp add: chunk_text_def Let_def chunk_conversation_def flush_turns_def del: One_nat_def)
  qed
qed

text \<open>C30: Chunking loses no text. Whatever is not a JSON array of objects keeps every visible character,
  in order: plain text, JSON lines and lone objects are only cut at, and stripped of, white space.\<close>

theorem chunk_loses_no_text:
  assumes "\<nexists>turns. parse t = Some (JArr turns) \<and> list_all is_object turns"
  shows "visible (concat (chunk_text parse ser t m)) = visible t"
proof (cases rule: chunk_text_cases [of t m parse ser])
  case (conversation turns)
  with assms show ?thesis by blast
next
  case (jsonl chunks)
  with chunk_jsonl_visible [OF jsonl(2)] show ?thesis by simp
qed (simp_all add: split_oversized_unit_visible)

text \<open>A conversation keeps every turn. The chunks of an array of turns too long for one chunk are the
  renderings of consecutive groups of the turns, in order and without a turn left out: a group is
  serialized whole, except that a single turn too large to stand alone is split as text without losing
  a visible character.\<close>

lemma chunk_conversation_keeps_turns:
  assumes "parse t = Some (JArr turns)" "list_all is_object turns" "turns \<noteq> []" "max m 1 < length t"
  shows "\<exists>gs. concat gs = turns \<and> [] \<notin> set gs
    \<and> chunk_text parse ser t m = concat (map (render_group ser (max m 1)) gs)
    \<and> (\<forall>g\<in>set gs. render_group ser (max m 1) g = [ser (JArr g)] \<or>
        (\<exists>turn. g = [turn] \<and> max m 1 < length (ser turn) + 2
          \<and> visible (concat (render_group ser (max m 1) g)) = visible (ser turn)))"
proof -
  obtain gs where gs: "concat gs = turns" "[] \<notin> set gs"
    "chunk_conversation ser turns (max m 1) (max m 1) = concat (map (render_group ser (max m 1)) gs)"
    using chunk_conversation_groups [OF assms(3), of ser "max m 1"] by metis
  have "chunk_text parse ser t m = chunk_conversation ser turns (max m 1) (max m 1)"
  proof -
    have "\<not> length t \<le> max m 1" using assms(4) by linarith
    with assms(1,2) show ?thesis by (simp add: chunk_text_def Let_def del: One_nat_def)
  qed
  moreover have "render_group ser (max m 1) g = [ser (JArr g)] \<or> (\<exists>turn. g = [turn]
      \<and> max m 1 < length (ser turn) + 2
      \<and> visible (concat (render_group ser (max m 1) g)) = visible (ser turn))" for g
    using split_oversized_unit_visible by (cases g) (auto simp: render_group_def)
  ultimately show ?thesis using gs by auto
qed


section \<open>The theorems on concrete input\<close>

fun sample_ser :: "json \<Rightarrow> str" where
  "sample_ser (JArr ts) = [91] @ join [44] (map sample_ser ts) @ [93]"
| "sample_ser _ = [123, 125]"

definition sample_parse :: "str \<Rightarrow> json option" where
  "sample_parse s =
     (if s = [91, 93] then Some (JArr [])
      else if s = [91, 123, 125, 44, 123, 125, 93] then Some (JArr [JObj [], JObj []])
      else None)"

lemma sample_compact: "compact sample_ser"
  by (simp add: compact_def)

lemma sample_conversation:
  "chunk_text sample_parse sample_ser [91, 123, 125, 44, 123, 125, 93] 4
   = [[91, 123, 125, 93], [91, 123, 125, 93]]"
  by (simp add: chunk_text_def sample_parse_def chunk_conversation_def pack_turn_def flush_turns_def Let_def)

lemma sample_words: "chunk_text sample_parse sample_ser [97, 32, 98, 98] 2 = [[97], [98, 98]]"
proof -
  have none: "\<not> contains s [97, 32, 98, 98]" if "s \<in> set (take 7 separators)" for s
    using that by (auto simp: separators_def contains_def split_once.simps starts_with_def)
  have d: "dropWhile (\<lambda>s. s \<noteq> [] \<and> \<not> contains s [97, 32, 98, 98]) separators = [[32], []]"
    using none by (simp add: separators_def) (simp add: contains_def split_once.simps starts_with_def)
  have s: "str_split [32] [97, 32, 98, 98] = [[97], [98, 98]]"
    by (simp add: str_split.simps split_once.simps starts_with_def)
  have l: "str_split [10] [97, 32, 98, 98] = [[97, 32, 98, 98]]"
    by (simp add: str_split.simps split_once.simps starts_with_def)
  have "split_recursive 2 separators [97, 32, 98, 98] = [[97], [98, 98]]"
    by (rule trans [OF split_recursive_ladder [OF _ d, of 2 "[[97]]" "[98, 98]"]])
      (simp_all add: s pack_piece_def emit_def blank_iff is_ws_def trim_def trim_start_def trim_end_def)
  then have "split_oversized_unit [97, 32, 98, 98] 2 = [[97], [98, 98]]"
    by (simp add: split_oversized_unit_def blank_iff is_ws_def)
  then show ?thesis
    by (simp add: chunk_text_def sample_parse_def chunk_jsonl_def text_lines_def l blank_iff is_ws_def
        numeral_2_eq_2)
qed

theorem chunk_idempotent_witness: "chunk_text sample_parse sample_ser [98, 98] 2 = [[98, 98]]"
proof -
  have "[98, 98] \<in> set (chunk_text sample_parse sample_ser [97, 32, 98, 98] 2)"
    by (simp add: sample_words)
  moreover have "\<forall>s. blank s \<longrightarrow> sample_parse s = None"
    by (auto simp: sample_parse_def blank_iff is_ws_def)
  moreover have "sample_parse [91, 93] = Some (JArr [])" by (simp add: sample_parse_def)
  ultimately show ?thesis by (rule chunk_idempotent [OF sample_compact])
qed

theorem chunk_loses_no_text_witness:
  "visible (concat (chunk_text sample_parse sample_ser [97, 32, 98, 98] 2)) = [97, 98, 98]"
proof -
  have "\<nexists>turns. sample_parse [97, 32, 98, 98] = Some (JArr turns) \<and> list_all is_object turns"
    by (simp add: sample_parse_def)
  from chunk_loses_no_text [of sample_parse, OF this] show ?thesis
    by (simp add: visible_def is_ws_def)
qed

end
