(* ===== verification/Core_Types.thy ===== *)
theory Core_Types
  imports Rust_Text
begin

text \<open>
  \<open>crates/memgarden-core/src/types.rs\<close> and \<open>error.rs\<close>: the fact and link kinds with their wire
  spelling, and the error type every store function returns. An error's message is for people
  and is not modelled; its kind is what callers branch on (the HTTP status).
\<close>

datatype mg_error = ErrConfig | ErrIo | ErrStorage | ErrNotFound | ErrInvalid | ErrConflict

text \<open>The daemon's \<open>ApiError\<close> by what answers: an error of the libraries above, or one of its named
  constructors (\<open>crates/memgardend/src/error.rs\<close>).\<close>

datatype api_error = ApiStore mg_error | ApiNotFound | ApiTooManyRequests | ApiUnavailable | ApiInternal | ApiBadGateway

datatype fact_type = World | Observation | Experience

fun fact_type_as_str :: "fact_type \<Rightarrow> str" where
  "fact_type_as_str World = lit ''world''"
| "fact_type_as_str Observation = lit ''observation''"
| "fact_type_as_str Experience = lit ''experience''"

definition fact_type_from_str :: "str \<Rightarrow> mg_error + fact_type" where
  "fact_type_from_str s =
     (if s = lit ''world'' then Inr World
      else if s = lit ''observation'' then Inr Observation
      else if s = lit ''experience'' then Inr Experience
      else Inl ErrInvalid)"

datatype link_type = Semantic | Temporal | Entity | CausedBy | Causes | Enables | Prevents

fun link_type_as_str :: "link_type \<Rightarrow> str" where
  "link_type_as_str Semantic = lit ''semantic''"
| "link_type_as_str Temporal = lit ''temporal''"
| "link_type_as_str Entity = lit ''entity''"
| "link_type_as_str CausedBy = lit ''caused_by''"
| "link_type_as_str Causes = lit ''causes''"
| "link_type_as_str Enables = lit ''enables''"
| "link_type_as_str Prevents = lit ''prevents''"

definition link_type_from_str :: "str \<Rightarrow> mg_error + link_type" where
  "link_type_from_str s =
     (if s = lit ''semantic'' then Inr Semantic
      else if s = lit ''temporal'' then Inr Temporal
      else if s = lit ''entity'' then Inr Entity
      else if s = lit ''caused_by'' then Inr CausedBy
      else if s = lit ''causes'' then Inr Causes
      else if s = lit ''enables'' then Inr Enables
      else if s = lit ''prevents'' then Inr Prevents
      else Inl ErrInvalid)"

lemma fact_type_from_str_inv: "fact_type_from_str s = Inr t \<longleftrightarrow> s = fact_type_as_str t"
  by (cases t) (auto simp: fact_type_from_str_def)

lemma link_type_from_str_inv: "link_type_from_str s = Inr t \<longleftrightarrow> s = link_type_as_str t"
  by (cases t) (auto simp: link_type_from_str_def)

end
