(* ===== verification/Sessions_Store.thy ===== *)
theory Sessions_Store
  imports Core_Types "HOL-Library.List_Lexorder" "HOL-Library.Product_Lexorder"
begin

text \<open>
  \<open>crates/memgarden-store/src/sessions.rs\<close>: the daemon's mirror of a hook session. The table is
  the list of its rows, at most one for a (bank, session) pair; the SQL of \<open>upsert\<close> is written
  out as the row it inserts and the row it merges. The optimistic cursor \<open>byte_offset\<close> is what
  was posted, the durable cursor \<open>confirmed_offset\<close> what was settled. The clock is an argument.
\<close>

record session =
  ms_bank_id :: str
  ms_session_id :: str
  ms_cwd :: "str option"
  ms_transcript_path :: "str option"
  ms_source :: "str option"
  ms_end_reason :: "str option"
  ms_turns :: int
  ms_retains :: int
  ms_chunk_index :: int
  ms_byte_offset :: int
  ms_confirmed_offset :: int
  ms_messages_sent :: int
  ms_compactions :: int
  ms_started_at :: int
  ms_last_seen_at :: int
  ms_ended_at :: "int option"

definition inflight_bytes :: "session \<Rightarrow> int" where
  "inflight_bytes r = max 0 (ms_byte_offset r - ms_confirmed_offset r)"

record session_update =
  su_session_id :: str
  su_cwd :: "str option"
  su_transcript_path :: "str option"
  su_source :: "str option"
  su_end_reason :: "str option"
  su_ended_at :: "int option"
  su_turns :: "int option"
  su_chunk_index :: "int option"
  su_byte_offset :: "int option"
  su_confirm_range :: "(int \<times> int) option"
  su_confirm_if_settled :: "int option"
  su_compactions :: "int option"
  su_retains_delta :: int
  su_messages_sent_delta :: int

text \<open>\<open>SessionUpdate::default()\<close>, the base of every struct-update literal in the callers.\<close>

definition su_default :: session_update where
  "su_default = \<lparr>su_session_id = [], su_cwd = None, su_transcript_path = None, su_source = None,
     su_end_reason = None, su_ended_at = None, su_turns = None, su_chunk_index = None,
     su_byte_offset = None, su_confirm_range = None, su_confirm_if_settled = None,
     su_compactions = None, su_retains_delta = 0, su_messages_sent_delta = 0\<rparr>"

definition max_session_id_bytes :: nat where
  "max_session_id_bytes = 200"

definition clamp0 :: "int option \<Rightarrow> int" where
  "clamp0 v = max 0 (case v of None \<Rightarrow> 0 | Some x \<Rightarrow> x)"

definition range_params :: "session_update \<Rightarrow> int \<times> int" where
  "range_params u = (case su_confirm_range u of Some (f, t) \<Rightarrow> (max 0 f, max 0 t) | None \<Rightarrow> (0, 0))"

text \<open>The \<open>VALUES\<close> row.\<close>

definition insert_row :: "str \<Rightarrow> session_update \<Rightarrow> int \<Rightarrow> session" where
  "insert_row bank u now =
     (let (cf, ct) = range_params u in
      \<lparr>ms_bank_id = bank, ms_session_id = su_session_id u, ms_cwd = su_cwd u,
       ms_transcript_path = su_transcript_path u, ms_source = su_source u,
       ms_end_reason = su_end_reason u, ms_turns = clamp0 (su_turns u),
       ms_retains = max 0 (su_retains_delta u), ms_chunk_index = clamp0 (su_chunk_index u),
       ms_byte_offset = clamp0 (su_byte_offset u),
       ms_confirmed_offset = max (clamp0 (su_confirm_if_settled u)) (if cf = 0 then ct else 0),
       ms_messages_sent = max 0 (su_messages_sent_delta u),
       ms_compactions = clamp0 (su_compactions u),
       ms_started_at = now, ms_last_seen_at = now, ms_ended_at = su_ended_at u\<rparr>)"

text \<open>The \<open>DO UPDATE SET\<close> row; every right-hand side reads the row before the statement.\<close>

definition merge_row :: "session \<Rightarrow> session_update \<Rightarrow> int \<Rightarrow> session" where
  "merge_row r u now =
     (let (cf, ct) = range_params u in
      r\<lparr>ms_cwd := coalesce (su_cwd u) (ms_cwd r),
        ms_transcript_path := coalesce (su_transcript_path u) (ms_transcript_path r),
        ms_source := coalesce (ms_source r) (su_source u),
        ms_end_reason := coalesce (su_end_reason u) (ms_end_reason r),
        ms_ended_at := coalesce (su_ended_at u) (ms_ended_at r),
        ms_turns := max (ms_turns r) (clamp0 (su_turns u)),
        ms_chunk_index := max (ms_chunk_index r) (clamp0 (su_chunk_index u)),
        ms_byte_offset := max (ms_byte_offset r) (clamp0 (su_byte_offset u)),
        ms_confirmed_offset :=
          max (ms_confirmed_offset r)
            (max (if cf \<le> ms_confirmed_offset r then ct else 0)
                 (if ms_byte_offset r \<le> ms_confirmed_offset r
                  then clamp0 (su_confirm_if_settled u) else 0)),
        ms_compactions := max (ms_compactions r) (clamp0 (su_compactions u)),
        ms_retains := ms_retains r + max 0 (su_retains_delta u),
        ms_messages_sent := ms_messages_sent r + max 0 (su_messages_sent_delta u),
        ms_last_seen_at := now\<rparr>)"

type_synonym sessions_table = "session list"

definition has_key :: "str \<Rightarrow> str \<Rightarrow> session \<Rightarrow> bool" where
  "has_key bank sid r \<longleftrightarrow> ms_bank_id r = bank \<and> ms_session_id r = sid"

definition session_get :: "sessions_table \<Rightarrow> str \<Rightarrow> str \<Rightarrow> session option" where
  "session_get t bank sid = find (has_key bank sid) t"

text \<open>\<open>upsert\<close>. \<open>banks\<close> are the rows of the table the foreign key points at: only an insert can
  violate it, since deleting a bank cascades.\<close>

definition session_upsert ::
  "str list \<Rightarrow> sessions_table \<Rightarrow> str \<Rightarrow> session_update \<Rightarrow> int \<Rightarrow> mg_error + (session \<times> sessions_table)"
where
  "session_upsert banks t bank u now =
     (if su_session_id u = [] \<or> max_session_id_bytes < byte_len (su_session_id u) then Inl ErrInvalid
      else (case session_get t bank (su_session_id u) of
              None \<Rightarrow> (if bank \<in> set banks
                       then (let r = insert_row bank u now in Inr (r, r # t))
                       else Inl ErrNotFound)
            | Some r \<Rightarrow> (let r' = merge_row r u now in
                Inr (r', map (\<lambda>x. if has_key bank (su_session_id u) x then r' else x) t))))"

definition session_list :: "sessions_table \<Rightarrow> str \<Rightarrow> nat \<Rightarrow> bool \<Rightarrow> session list" where
  "session_list t bank limit active_only =
     take limit (sort_key (\<lambda>r. (- ms_last_seen_at r, ms_session_id r))
       (filter (\<lambda>r. ms_bank_id r = bank \<and> (active_only \<longrightarrow> ms_ended_at r = None)) t))"

definition session_gc :: "sessions_table \<Rightarrow> int \<Rightarrow> nat \<times> sessions_table" where
  "session_gc t cutoff =
     (length (filter (\<lambda>r. ms_last_seen_at r < cutoff) t),
      filter (\<lambda>r. \<not> ms_last_seen_at r < cutoff) t)"

lemmas session_defs [mg_defs] = session_upsert_def Let_def session_get_def has_key_def insert_row_def
  merge_row_def range_params_def clamp0_def su_default_def max_session_id_bytes_def

section \<open>The table\<close>

definition sessions_wf :: "sessions_table \<Rightarrow> bool" where
  "sessions_wf t \<longleftrightarrow> distinct (map (\<lambda>r. (ms_bank_id r, ms_session_id r)) t)"

lemma clamp0_nonneg [simp]: "0 \<le> clamp0 v"
  by (simp add: clamp0_def)

lemma has_key_insert_row [simp]: "has_key b s (insert_row bank u now) \<longleftrightarrow> b = bank \<and> s = su_session_id u"
  by (auto simp: has_key_def insert_row_def split: prod.splits)

lemma has_key_merge_row [simp]: "has_key b s (merge_row r u now) = has_key b s r"
  by (simp add: has_key_def merge_row_def split: prod.splits)

lemma key_merge_row [simp]:
  "ms_bank_id (merge_row r u now) = ms_bank_id r" "ms_session_id (merge_row r u now) = ms_session_id r"
  by (simp_all add: merge_row_def split: prod.splits)

lemma key_insert_row [simp]:
  "ms_bank_id (insert_row b u now) = b" "ms_session_id (insert_row b u now) = su_session_id u"
  by (simp_all add: insert_row_def split: prod.splits)

lemma find_has_key: "find (has_key b s) t = Some r \<Longrightarrow> r \<in> set t \<and> has_key b s r"
  by (auto simp: find_Some_iff)

lemma find_replace:
  assumes "has_key b' s' r' \<longleftrightarrow> b' = b \<and> s' = s"
  shows "find (has_key b' s') (map (\<lambda>x. if has_key b s x then r' else x) t) =
    (if b' = b \<and> s' = s then map_option (\<lambda>_. r') (find (has_key b s) t) else find (has_key b' s') t)"
  using assms by (induction t) (auto simp: has_key_def)

lemma upsert_get:
  assumes "session_upsert banks t bank u now = Inr (r', t')"
  shows "session_get t' b s =
    (if b = bank \<and> s = su_session_id u then Some r' else session_get t b s)"
proof (cases "session_get t bank (su_session_id u)")
  case None
  with assms show ?thesis
    by (auto simp: session_upsert_def Let_def session_get_def Let_def split: if_splits)
next
  case (Some r)
  with assms have t': "r' = merge_row r u now"
      "t' = map (\<lambda>x. if has_key bank (su_session_id u) x then r' else x) t"
    by (auto simp: session_upsert_def Let_def split: if_splits)
  from Some have "has_key bank (su_session_id u) r"
    by (auto simp: session_get_def dest: find_has_key)
  then have "has_key b' s' r' \<longleftrightarrow> b' = bank \<and> s' = su_session_id u" for b' s'
    by (auto simp: t' has_key_def)
  then have k: "has_key b s r' \<longleftrightarrow> b = bank \<and> s = su_session_id u" .
  from find_replace [OF k] Some show ?thesis
    by (simp add: session_get_def t'(2))
qed

lemma find_Cons_None: "find P xs = None \<Longrightarrow> x \<in> set xs \<Longrightarrow> \<not> P x"
  by (auto simp: find_None_iff)

lemma upsert_wf [mg_inv]:
  assumes "sessions_wf t" and "session_upsert banks t bank u now = Inr (r', t')"
  shows "sessions_wf t'"
proof (cases "session_get t bank (su_session_id u)")
  case None
  then have "\<forall>x\<in>set t. \<not> has_key bank (su_session_id u) x"
    by (auto simp: session_get_def find_None_iff)
  then have "(bank, su_session_id u) \<notin> (\<lambda>r. (ms_bank_id r, ms_session_id r)) ` set t"
    by (auto simp: has_key_def)
  with None assms show ?thesis
    by (auto simp: session_upsert_def Let_def sessions_wf_def split: if_splits)
next
  case (Some r)
  with assms(2) have t': "r' = merge_row r u now"
      "t' = map (\<lambda>x. if has_key bank (su_session_id u) x then r' else x) t"
    by (auto simp: session_upsert_def Let_def split: if_splits)
  from Some have "has_key bank (su_session_id u) r"
    by (auto simp: session_get_def dest: find_has_key)
  then have "map (\<lambda>r. (ms_bank_id r, ms_session_id r)) t' = map (\<lambda>r. (ms_bank_id r, ms_session_id r)) t"
    by (auto simp: t' has_key_def)
  with assms(1) show ?thesis by (simp add: sessions_wf_def)
qed

lemma gc_wf [mg_inv]: "sessions_wf t \<Longrightarrow> sessions_wf (snd (session_gc t cutoff))"
  by (simp add: sessions_wf_def session_gc_def distinct_map_filter)

section \<open>What a write may do to a row\<close>

lemma upsert_existing:
  assumes "session_upsert banks t bank u now = Inr (r', t')"
    and "session_get t bank (su_session_id u) = Some r"
  shows "r' = merge_row r u now"
  using assms by (auto simp: session_upsert_def Let_def split: if_splits)

lemma upsert_fresh:
  assumes "session_upsert banks t bank u now = Inr (r', t')"
    and "session_get t bank (su_session_id u) = None"
  shows "r' = insert_row bank u now"
  using assms by (auto simp: session_upsert_def Let_def split: if_splits)

text \<open>The part of a row the hook reports, as one value: where it was last, how far it had come.\<close>

definition progress :: "session \<Rightarrow> int \<times> int \<times> int \<times> int" where
  "progress r = (ms_turns r, ms_chunk_index r, ms_byte_offset r, ms_compactions r)"

text \<open>C28: The mirror never rewinds. An upsert of an existing row leaves the turn count, the chunk
  index, the compaction count, both byte cursors and the two daemon counters at least where they
  were, keeps the start time, keeps a source once one is recorded, and stamps the write time,
  whatever a stale or repeated request carries.\<close>

theorem upsert_never_rewinds:
  assumes "session_get t bank (su_session_id u) = Some r"
    and "session_upsert banks t bank u now = Inr (r', t')"
  shows "ms_turns r \<le> ms_turns r' \<and> ms_chunk_index r \<le> ms_chunk_index r'
    \<and> ms_byte_offset r \<le> ms_byte_offset r' \<and> ms_confirmed_offset r \<le> ms_confirmed_offset r'
    \<and> ms_compactions r \<le> ms_compactions r' \<and> ms_retains r \<le> ms_retains r'
    \<and> ms_messages_sent r \<le> ms_messages_sent r' \<and> ms_started_at r' = ms_started_at r
    \<and> (ms_source r \<noteq> None \<longrightarrow> ms_source r' = ms_source r) \<and> ms_last_seen_at r' = now
    \<and> session_get t' bank (su_session_id u) = Some r'"
  using upsert_existing [OF assms(2,1)] upsert_get [OF assms(2)]
  by (auto simp: merge_row_def split: prod.splits)

theorem upsert_never_rewinds_witness:
  "let r = insert_row [98] (su_default\<lparr>su_session_id := [115], su_byte_offset := Some 70,
             su_turns := Some 4, su_source := Some [1]\<rparr>) 50;
       u = su_default\<lparr>su_session_id := [115], su_byte_offset := Some 20, su_turns := Some 2,
             su_source := Some [2]\<rparr>
   in ms_byte_offset r \<le> ms_byte_offset (merge_row r u 60) \<and> ms_source (merge_row r u 60) = Some [1]"
proof -
  let ?r = "insert_row [98] (su_default\<lparr>su_session_id := [115], su_byte_offset := Some 70,
             su_turns := Some 4, su_source := Some [1]\<rparr>) 50"
  let ?u = "su_default\<lparr>su_session_id := [115], su_byte_offset := Some 20, su_turns := Some 2,
             su_source := Some [2]\<rparr>"
  have g: "session_get [?r] [98] (su_session_id ?u) = Some ?r"
    by (simp add: session_get_def su_default_def)
  have "session_upsert [[98]] [?r] [98] ?u 60 = Inr (merge_row ?r ?u 60, [merge_row ?r ?u 60])"
    by (simp add: session_upsert_def Let_def session_get_def su_default_def max_session_id_bytes_def
        utf8_width_def)
  from upsert_never_rewinds [OF g this] show ?thesis
    by (simp add: insert_row_def su_default_def split: prod.splits)
qed

lemma range_params_nonneg: "range_params u = (cf, ct) \<Longrightarrow> 0 \<le> cf \<and> 0 \<le> ct"
  by (auto simp: range_params_def split: option.splits)

definition confirm_merge :: "int \<Rightarrow> int \<Rightarrow> int \<Rightarrow> int \<Rightarrow> int \<Rightarrow> int" where
  "confirm_merge c b cf ct s = max c (max (if cf \<le> c then ct else 0) (if b \<le> c then s else 0))"

lemma confirm_merge_idem:
  assumes "ct = 0 \<or> s = 0" "0 \<le> c" "0 \<le> s" "0 \<le> ct"
  shows "confirm_merge (confirm_merge c b cf ct s) (max b b') cf ct s = confirm_merge c b cf ct s"
proof (cases "ct = 0")
  case True
  with assms show ?thesis by (cases "b \<le> c") (simp_all add: confirm_merge_def)
next
  case False
  with assms show ?thesis by (cases "cf \<le> c") (simp_all add: confirm_merge_def)
qed

text \<open>The fields of the two rows, one equation each, so that proofs need not unfold the records.\<close>

lemma merge_row_sel:
  "ms_cwd (merge_row r u now) = coalesce (su_cwd u) (ms_cwd r)"
  "ms_transcript_path (merge_row r u now) = coalesce (su_transcript_path u) (ms_transcript_path r)"
  "ms_source (merge_row r u now) = coalesce (ms_source r) (su_source u)"
  "ms_end_reason (merge_row r u now) = coalesce (su_end_reason u) (ms_end_reason r)"
  "ms_ended_at (merge_row r u now) = coalesce (su_ended_at u) (ms_ended_at r)"
  "ms_turns (merge_row r u now) = max (ms_turns r) (clamp0 (su_turns u))"
  "ms_chunk_index (merge_row r u now) = max (ms_chunk_index r) (clamp0 (su_chunk_index u))"
  "ms_byte_offset (merge_row r u now) = max (ms_byte_offset r) (clamp0 (su_byte_offset u))"
  "ms_compactions (merge_row r u now) = max (ms_compactions r) (clamp0 (su_compactions u))"
  "ms_retains (merge_row r u now) = ms_retains r + max 0 (su_retains_delta u)"
  "ms_messages_sent (merge_row r u now) = ms_messages_sent r + max 0 (su_messages_sent_delta u)"
  "ms_started_at (merge_row r u now) = ms_started_at r"
  "ms_last_seen_at (merge_row r u now) = now"
  by (simp_all add: merge_row_def split: prod.splits)

lemma insert_row_sel:
  "ms_cwd (insert_row b u now) = su_cwd u"
  "ms_transcript_path (insert_row b u now) = su_transcript_path u"
  "ms_source (insert_row b u now) = su_source u"
  "ms_end_reason (insert_row b u now) = su_end_reason u"
  "ms_ended_at (insert_row b u now) = su_ended_at u"
  "ms_turns (insert_row b u now) = clamp0 (su_turns u)"
  "ms_chunk_index (insert_row b u now) = clamp0 (su_chunk_index u)"
  "ms_byte_offset (insert_row b u now) = clamp0 (su_byte_offset u)"
  "ms_compactions (insert_row b u now) = clamp0 (su_compactions u)"
  "ms_retains (insert_row b u now) = max 0 (su_retains_delta u)"
  "ms_messages_sent (insert_row b u now) = max 0 (su_messages_sent_delta u)"
  "ms_started_at (insert_row b u now) = now"
  "ms_last_seen_at (insert_row b u now) = now"
  by (simp_all add: insert_row_def split: prod.splits)

lemma merge_row_confirmed:
  "range_params u = (cf, ct) \<Longrightarrow> ms_confirmed_offset (merge_row r u now) =
     confirm_merge (ms_confirmed_offset r) (ms_byte_offset r) cf ct (clamp0 (su_confirm_if_settled u))"
  by (simp add: merge_row_def confirm_merge_def)

definition one_channel :: "session_update \<Rightarrow> bool" where
  "one_channel u \<longleftrightarrow> su_confirm_range u = None \<or> su_confirm_if_settled u = None"

lemma one_channel_zero:
  "one_channel u \<Longrightarrow> range_params u = (cf, ct) \<Longrightarrow> ct = 0 \<or> clamp0 (su_confirm_if_settled u) = 0"
  by (auto simp: one_channel_def range_params_def clamp0_def)

lemma merge_row_retry:
  assumes one: "one_channel u"
    and d: "su_retains_delta u \<le> 0" "su_messages_sent_delta u \<le> 0"
    and nn: "0 \<le> ms_confirmed_offset r"
  shows "merge_row (merge_row r u n1) u n2 = merge_row r u n2"
proof -
  obtain cf ct where p: "range_params u = (cf, ct)" by (cases "range_params u")
  have c: "ms_confirmed_offset (merge_row (merge_row r u n1) u n2) = ms_confirmed_offset (merge_row r u n2)"
    using confirm_merge_idem [OF one_channel_zero [OF one p] nn clamp0_nonneg] range_params_nonneg [OF p]
    by (simp add: merge_row_confirmed [OF p] merge_row_sel)
  show ?thesis
    by (rule session.equality) (use d in \<open>simp_all add: merge_row_sel c\<close>)
qed

lemma insert_row_confirmed:
  "range_params u = (cf, ct) \<Longrightarrow> ms_confirmed_offset (insert_row b u now) =
     max (clamp0 (su_confirm_if_settled u)) (if cf = 0 then ct else 0)"
  by (simp add: insert_row_def)

lemma merge_insert_retry:
  assumes one: "one_channel u"
    and d: "su_retains_delta u \<le> 0" "su_messages_sent_delta u \<le> 0"
  shows "merge_row (insert_row bank u n1) u n2 = (insert_row bank u n2)\<lparr>ms_started_at := n1\<rparr>"
proof -
  obtain cf ct where p: "range_params u = (cf, ct)" by (cases "range_params u")
  have "ms_confirmed_offset (merge_row (insert_row bank u n1) u n2) = ms_confirmed_offset (insert_row bank u n2)"
    using one_channel_zero [OF one p] range_params_nonneg [OF p] clamp0_nonneg [of "su_confirm_if_settled u"]
    by (elim disjE; cases "cf = 0")
      (simp_all add: merge_row_confirmed [OF p] insert_row_confirmed [OF p] insert_row_sel confirm_merge_def)
  then show ?thesis
    by (intro session.equality) (use d in \<open>simp_all add: merge_row_sel insert_row_sel\<close>)
qed

text \<open>A retried write is harmless. An update that adds nothing to the two additive counters and
  uses at most one of the two confirm channels (every caller uses at most one) leaves, when it is
  sent twice in a row, the table it leaves when it is sent once at the second time; on a new row
  only the start time remembers the first send.\<close>

lemma upsert_retry_idempotent:
  assumes one: "one_channel u" and d: "su_retains_delta u \<le> 0" "su_messages_sent_delta u \<le> 0"
    and nn: "\<And>r. session_get t bank (su_session_id u) = Some r \<Longrightarrow> 0 \<le> ms_confirmed_offset r"
    and u1: "session_upsert banks t bank u n1 = Inr (r1, t1)"
    and u2: "session_upsert banks t1 bank u n2 = Inr (r2, t2)"
    and u3: "session_upsert banks t bank u n2 = Inr (r3, t3)"
  shows "r2 = r3\<lparr>ms_started_at := ms_started_at r1\<rparr>"
proof -
  have g1: "session_get t1 bank (su_session_id u) = Some r1"
    using upsert_get [OF u1] by simp
  note r2 = upsert_existing [OF u2 g1]
  show ?thesis
  proof (cases "session_get t bank (su_session_id u)")
    case None
    note e1 = upsert_fresh [OF u1 None] and e3 = upsert_fresh [OF u3 None]
    show ?thesis by (simp only: r2 e1 e3 merge_insert_retry [OF one d] insert_row_sel)
  next
    case (Some r)
    note e1 = upsert_existing [OF u1 Some] and e3 = upsert_existing [OF u3 Some]
    have "r2 = r3"
      by (simp only: r2 e1 e3 merge_row_retry [OF one d nn [OF Some]])
    moreover have "ms_started_at r3 = ms_started_at r1"
      by (simp only: e1 e3 merge_row_sel)
    ultimately show ?thesis by simp
  qed
qed

text \<open>Delivery order does not matter for what the hook reports. Two upserts of the same row, in
  either order, leave the same turn count, chunk index, optimistic cursor and compaction count, and
  the same totals of the two additive counters: an overtaken asynchronous request cannot corrupt
  the mirror.\<close>

lemma upsert_order_irrelevant:
  assumes "session_get t bank s = Some r" and "su_session_id u = s" and "su_session_id v = s"
    and "session_upsert banks t bank u n1 = Inr (ru, tu)"
    and "session_upsert banks tu bank v n2 = Inr (ruv, tuv)"
    and "session_upsert banks t bank v n3 = Inr (rv, tv)"
    and "session_upsert banks tv bank u n4 = Inr (rvu, tvu)"
  shows "progress ruv = progress rvu \<and> ms_retains ruv = ms_retains rvu
    \<and> ms_messages_sent ruv = ms_messages_sent rvu"
proof -
  have "ru = merge_row r u n1" "rv = merge_row r v n3"
    using assms upsert_existing by metis+
  moreover have "session_get tu bank s = Some ru" "session_get tv bank s = Some rv"
    using upsert_get [OF assms(4)] upsert_get [OF assms(6)] assms(2,3) by simp_all
  then have "ruv = merge_row ru v n2" "rvu = merge_row rv u n4"
    using assms upsert_existing by metis+
  ultimately show ?thesis
    by (simp add: progress_def merge_row_sel max.commute max.left_commute)
qed

section \<open>The durable cursor\<close>

text \<open>
  What a write claims to have settled, against the row it meets: a range confirm claims its range;
  a conditional confirm, which the request path sends for a request that starts at or before the
  row's optimistic cursor, claims the bytes from that cursor to its offset.
\<close>

definition claims_of :: "session option \<Rightarrow> session_update \<Rightarrow> (int \<times> int) list" where
  "claims_of ro u =
     [range_params u,
      (case ro of None \<Rightarrow> 0 | Some r \<Rightarrow> ms_byte_offset r, clamp0 (su_confirm_if_settled u))]"

definition covered_by :: "(int \<times> int) list \<Rightarrow> int \<Rightarrow> bool" where
  "covered_by cs b \<longleftrightarrow> (\<exists>(f, t)\<in>set cs. f \<le> b \<and> b < t)"

text \<open>A run of writes to one row, and everything they claimed.\<close>

fun upsert_run :: "str list \<Rightarrow> sessions_table \<Rightarrow> str \<Rightarrow> (session_update \<times> int) list \<Rightarrow>
    mg_error + (sessions_table \<times> (int \<times> int) list)" where
  "upsert_run banks t bank [] = Inr (t, [])"
| "upsert_run banks t bank ((u, now) # us) =
     (case session_upsert banks t bank u now of
        Inl e \<Rightarrow> Inl e
      | Inr (r, t') \<Rightarrow> (case upsert_run banks t' bank us of
          Inl e \<Rightarrow> Inl e
        | Inr (t'', cs) \<Rightarrow> Inr (t'', claims_of (session_get t bank (su_session_id u)) u @ cs)))"

lemma covered_by_append [simp]: "covered_by (cs @ ds) b \<longleftrightarrow> covered_by cs b \<or> covered_by ds b"
  by (auto simp: covered_by_def)

lemma upsert_step_covered:
  assumes "session_upsert banks t bank u now = Inr (r', t')"
    and "\<not> covered_by (claims_of (session_get t bank (su_session_id u)) u) b"
    and "0 \<le> b" and "b < ms_confirmed_offset r'"
  shows "\<exists>r. session_get t bank (su_session_id u) = Some r \<and> b < ms_confirmed_offset r"
proof -
  obtain cf ct where p: "range_params u = (cf, ct)" by (cases "range_params u")
  show ?thesis
  proof (cases "session_get t bank (su_session_id u)")
    case None
    from upsert_fresh [OF assms(1) None] have "ms_confirmed_offset r' =
        max (clamp0 (su_confirm_if_settled u)) (if cf = 0 then ct else 0)"
      by (simp only: insert_row_confirmed [OF p])
    with assms(2-4) None show ?thesis
      by (auto simp: claims_of_def covered_by_def p split: if_splits)
  next
    case (Some r)
    from upsert_existing [OF assms(1) Some] have "ms_confirmed_offset r' =
        confirm_merge (ms_confirmed_offset r) (ms_byte_offset r) cf ct (clamp0 (su_confirm_if_settled u))"
      by (simp only: merge_row_confirmed [OF p])
    with assms(2-4) Some show ?thesis
      by (auto simp: claims_of_def covered_by_def p confirm_merge_def max_def split: if_splits)
  qed
qed

lemma upsert_run_covered:
  assumes "upsert_run banks t bank us = Inr (t', cs)"
    and "\<forall>(u, n)\<in>set us. su_session_id u = sid"
    and "session_get t' bank sid = Some r'" and "0 \<le> b" and "b < ms_confirmed_offset r'"
    and "\<not> covered_by cs b"
  shows "\<exists>r. session_get t bank sid = Some r \<and> b < ms_confirmed_offset r"
  using assms
proof (induction us arbitrary: t cs)
  case (Cons un us)
  obtain u n where un: "un = (u, n)" by (cases un)
  from Cons.prems(1) obtain r1 t1 cs1 where s:
      "session_upsert banks t bank u n = Inr (r1, t1)" "upsert_run banks t1 bank us = Inr (t', cs1)"
      "cs = claims_of (session_get t bank (su_session_id u)) u @ cs1"
    by (auto simp: un split: sum.splits)
  from Cons.prems(2) un have sid: "su_session_id u = sid" by simp
  from Cons.IH [OF s(2)] Cons.prems s(3) obtain r where
      "session_get t1 bank sid = Some r" "b < ms_confirmed_offset r"
    by (auto simp: un)
  with upsert_get [OF s(1)] sid have "b < ms_confirmed_offset r1" by simp
  with upsert_step_covered [OF s(1)] Cons.prems(4,6) s(3) sid show ?case by auto
qed simp

text \<open>The durable cursor never erases a gap. After any sequence of successful writes to a session
  that had no row, every byte below \<open>confirmed_offset\<close> lies in a range that one of those writes
  claimed: a clean job further on cannot move the cursor over bytes that no one settled.\<close>

lemma confirmed_bytes_were_claimed:
  assumes "upsert_run banks t bank us = Inr (t', cs)"
    and "\<forall>(u, n)\<in>set us. su_session_id u = sid"
    and "session_get t bank sid = None" and "session_get t' bank sid = Some r"
    and "0 \<le> b" and "b < ms_confirmed_offset r"
  shows "covered_by cs b"
  using upsert_run_covered [OF assms(1,2,4-6)] assms(3) by auto

text \<open>The order of the two cursors. It is kept by a write whose confirmed end does not pass the
  optimistic cursor of the row after the write.\<close>

definition cursors_ordered :: "session \<Rightarrow> bool" where
  "cursors_ordered r \<longleftrightarrow> 0 \<le> ms_confirmed_offset r \<and> ms_confirmed_offset r \<le> ms_byte_offset r"

definition confirm_within :: "session option \<Rightarrow> session_update \<Rightarrow> bool" where
  "confirm_within ro u \<longleftrightarrow>
     (let top = max (case ro of None \<Rightarrow> 0 | Some r \<Rightarrow> ms_byte_offset r) (clamp0 (su_byte_offset u))
      in snd (range_params u) \<le> top \<and> clamp0 (su_confirm_if_settled u) \<le> top)"

lemma cursors_ordered_insert:
  "confirm_within None u \<Longrightarrow> cursors_ordered (insert_row bank u now)"
  by (auto simp: cursors_ordered_def confirm_within_def insert_row_def Let_def
      dest: range_params_nonneg split: prod.splits)

lemma cursors_ordered_merge:
  "confirm_within (Some r) u \<Longrightarrow> cursors_ordered r \<Longrightarrow> cursors_ordered (merge_row r u now)"
  by (cases "range_params u")
    (auto simp: cursors_ordered_def confirm_within_def merge_row_sel merge_row_confirmed
      confirm_merge_def Let_def)

text \<open>\<open>inflight_bytes\<close> is exact on every row written within the protocol: a write whose
  confirmed end lies within the optimistic cursor it leaves keeps \<open>0 <= confirmed <= byte\<close>, so the
  reported number is the true difference and is zero only when everything posted is settled.\<close>

lemma upsert_keeps_cursor_order:
  assumes "session_upsert banks t bank u now = Inr (r', t')"
    and "confirm_within (session_get t bank (su_session_id u)) u"
    and "\<And>r. session_get t bank (su_session_id u) = Some r \<Longrightarrow> cursors_ordered r"
  shows "cursors_ordered r' \<and> inflight_bytes r' = ms_byte_offset r' - ms_confirmed_offset r'
    \<and> (inflight_bytes r' = 0 \<longleftrightarrow> ms_confirmed_offset r' = ms_byte_offset r')"
proof -
  have "cursors_ordered r'"
  proof (cases "session_get t bank (su_session_id u)")
    case None
    with assms show ?thesis
      by (metis upsert_fresh cursors_ordered_insert)
  next
    case (Some r)
    with assms show ?thesis
      by (metis upsert_existing cursors_ordered_merge)
  qed
  then show ?thesis by (auto simp: cursors_ordered_def inflight_bytes_def)
qed

text \<open>The protocol condition is not implied by the callers. The retain worker's completion write
  carries only a session id and its range; when the session's row has been garbage collected in
  the meantime, or its request-path mirror write failed, that write leaves a row whose durable cursor is ahead of its optimistic
  one, the inversion the debug assertion of \<open>inflight_bytes\<close> says nothing can produce, and
  \<open>inflight_bytes\<close> reports 0 on it.\<close>

lemma worker_confirm_without_row_inverts:
  assumes "session_get t bank sid = None" and "bank \<in> set banks"
    and "sid \<noteq> []" and "byte_len sid \<le> max_session_id_bytes" and "0 < to"
  shows "\<exists>r t'. session_upsert banks t bank
      (su_default\<lparr>su_session_id := sid, su_confirm_range := Some (0, to)\<rparr>) now = Inr (r, t')
    \<and> ms_byte_offset r < ms_confirmed_offset r \<and> inflight_bytes r = 0"
  using assms by (simp add: session_upsert_def Let_def insert_row_def su_default_def range_params_def
      clamp0_def inflight_bytes_def)

text \<open>The row was there, with its cursors in order, until the daemon's own garbage collection ran.\<close>

text \<open>Garbage collection removes the sessions last seen before the cutoff and no others, reports
  how many those were, and keeps the table's keys unique.\<close>

lemma session_gc_exact:
  assumes "sessions_wf t" and "session_gc t cutoff = (n, t')"
  shows "sessions_wf t' \<and> n = length t - length t'
    \<and> (\<forall>b s. session_get t' b s = (case session_get t b s of
          Some r \<Rightarrow> if ms_last_seen_at r < cutoff then None else Some r | None \<Rightarrow> None))"
proof -
  from assms(2) have t': "t' = filter (\<lambda>r. \<not> ms_last_seen_at r < cutoff) t"
    and n: "n = length (filter (\<lambda>r. ms_last_seen_at r < cutoff) t)"
    by (simp_all add: session_gc_def)
  have "find (has_key b s) (filter P t) =
      (case find (has_key b s) t of Some r \<Rightarrow> if P r then Some r else None | None \<Rightarrow> None)" for P b s
    using assms(1)
  proof (induction t)
    case (Cons x t)
    have "find (has_key b s) (filter P t) = None" if "has_key b s x"
      using that Cons.prems by (force simp: find_None_iff sessions_wf_def has_key_def image_iff)
    with Cons show ?case by (auto simp: sessions_wf_def)
  qed simp
  then have "session_get t' b s = (case session_get t b s of
      Some r \<Rightarrow> if ms_last_seen_at r < cutoff then None else Some r | None \<Rightarrow> None)" for b s
    unfolding session_get_def t' by (auto split: option.splits)
  moreover have "sessions_wf t'"
    using gc_wf [OF assms(1), of cutoff] assms(2) by simp
  moreover have "n = length t - length t'"
    using sum_length_filter_compl [of "\<lambda>r. ms_last_seen_at r < cutoff" t] by (simp add: n t')
  ultimately show ?thesis by blast
qed

end
