(* ===== verification/Jobs_Store.thy ===== *)
theory Jobs_Store
  imports Core_Types "HOL-Library.List_Lexorder"
begin

text \<open>
  \<open>crates/memgarden-store/src/retain_jobs.rs\<close>: the rows of the retain jobs, in the order of their
  insertion. The column \<open>task\<close>, which \<open>RetainJob\<close> does not carry, is a field of the row here. The clock
  is an argument; SQLite's \<open>json_set\<close> is a parameter.
\<close>

datatype job_status = JPending | JRunning | JDone | JPartial | JFailed

fun job_status_as_str :: "job_status \<Rightarrow> str" where
  "job_status_as_str JPending = lit ''pending''"
| "job_status_as_str JRunning = lit ''running''"
| "job_status_as_str JDone = lit ''done''"
| "job_status_as_str JPartial = lit ''partial''"
| "job_status_as_str JFailed = lit ''failed''"

definition job_status_parse :: "str \<Rightarrow> job_status option" where
  "job_status_parse s =
     (if s = lit ''pending'' then Some JPending
      else if s = lit ''running'' then Some JRunning
      else if s = lit ''done'' then Some JDone
      else if s = lit ''partial'' then Some JPartial
      else if s = lit ''failed'' then Some JFailed
      else None)"

definition is_terminal :: "job_status \<Rightarrow> bool" where
  "is_terminal s \<longleftrightarrow> s \<in> {JDone, JPartial, JFailed}"

record retain_job =
  j_job_id :: str
  j_bank_id :: str
  j_document_id :: "int option"
  j_session_id :: "str option"
  j_status :: str
  j_chunks_total :: int
  j_chunks_done :: int
  j_chunks_skipped :: int
  j_chunks_failed :: int
  j_facts_written :: int
  j_error :: "str option"
  j_detail :: "str option"
  j_created_at :: int
  j_updated_at :: int
  j_offset_from :: int
  j_offset_to :: int
  j_task :: "str option"

record job_progress =
  jp_status :: job_status
  jp_chunks_total :: int
  jp_chunks_done :: int
  jp_chunks_skipped :: int
  jp_chunks_failed :: int
  jp_facts_written :: int
  jp_error :: "str option"
  jp_detail :: "str option"

definition jp_default :: job_progress where
  "jp_default = \<lparr>jp_status = JPending, jp_chunks_total = 0, jp_chunks_done = 0, jp_chunks_skipped = 0,
     jp_chunks_failed = 0, jp_facts_written = 0, jp_error = None, jp_detail = None\<rparr>"

type_synonym jobs_table = "retain_job list"

section \<open>Operations\<close>

text \<open>The primary key and the bank's foreign key are the two constraints an insert can violate.\<close>

definition job_insert ::
  "str list \<Rightarrow> jobs_table \<Rightarrow> str \<Rightarrow> str \<Rightarrow> int option \<Rightarrow> str option \<Rightarrow> str option \<Rightarrow> (int \<times> int) option \<Rightarrow> int
    \<Rightarrow> mg_error + jobs_table" where
  "job_insert banks t job_id bank_id document_id session_id detail byte_range now =
     (let (offset_from, offset_to) = (case byte_range of Some r \<Rightarrow> r | None \<Rightarrow> (0, 0)) in
      if job_id \<in> j_job_id ` set t \<or> bank_id \<notin> set banks then Inl ErrStorage
      else Inr (t @ [\<lparr>j_job_id = job_id, j_bank_id = bank_id, j_document_id = document_id,
             j_session_id = session_id, j_status = lit ''pending'', j_chunks_total = 0,
             j_chunks_done = 0, j_chunks_skipped = 0, j_chunks_failed = 0, j_facts_written = 0,
             j_error = None, j_detail = detail, j_created_at = now, j_updated_at = now,
             j_offset_from = max 0 offset_from, j_offset_to = max 0 offset_to, j_task = None\<rparr>]))"

definition update_row :: "retain_job \<Rightarrow> job_progress \<Rightarrow> int \<Rightarrow> retain_job" where
  "update_row j p now =
     j\<lparr>j_status := job_status_as_str (jp_status p),
       j_chunks_total := jp_chunks_total p, j_chunks_done := jp_chunks_done p,
       j_chunks_skipped := jp_chunks_skipped p, j_chunks_failed := jp_chunks_failed p,
       j_facts_written := jp_facts_written p, j_error := jp_error p,
       j_detail := coalesce (jp_detail p) (j_detail j), j_updated_at := now,
       j_task := (if job_status_as_str (jp_status p) \<in> {lit ''done'', lit ''partial'', lit ''failed''}
                  then None else j_task j)\<rparr>"

definition job_update :: "jobs_table \<Rightarrow> str \<Rightarrow> job_progress \<Rightarrow> int \<Rightarrow> jobs_table" where
  "job_update t job_id p now = map (\<lambda>j. if j_job_id j = job_id then update_row j p now else j) t"

definition set_detail_field ::
  "(str \<Rightarrow> str \<Rightarrow> str \<Rightarrow> str) \<Rightarrow> jobs_table \<Rightarrow> str \<Rightarrow> str \<Rightarrow> str \<Rightarrow> jobs_table" where
  "set_detail_field json_set t job_id key v =
     map (\<lambda>j. if j_job_id j = job_id
              then j\<lparr>j_detail := Some (json_set (case j_detail j of Some d \<Rightarrow> d | None \<Rightarrow> lit ''{}'') key v)\<rparr>
              else j) t"

definition set_task :: "jobs_table \<Rightarrow> str \<Rightarrow> str \<Rightarrow> jobs_table" where
  "set_task t job_id task = map (\<lambda>j. if j_job_id j = job_id then j\<lparr>j_task := Some task\<rparr> else j) t"

definition unfinished :: "retain_job \<Rightarrow> bool" where
  "unfinished j \<longleftrightarrow> j_status j = lit ''pending'' \<or> j_status j = lit ''running''"

definition job_get :: "jobs_table \<Rightarrow> str \<Rightarrow> retain_job option" where
  "job_get t job_id = find (\<lambda>j. j_job_id j = job_id) t"

text \<open>\<open>resumable\<close>: the query for the ids and tasks, then the rows by id.\<close>

definition resumable :: "jobs_table \<Rightarrow> (retain_job \<times> str) list" where
  "resumable t =
     List.map_filter (\<lambda>(job_id, task). map_option (\<lambda>j. (j, task)) (job_get t job_id))
       (map (\<lambda>j. (j_job_id j, the (j_task j)))
         (sort_key j_created_at (filter (\<lambda>j. unfinished j \<and> j_task j \<noteq> None) t)))"

definition fail_stale :: "jobs_table \<Rightarrow> str \<Rightarrow> int \<Rightarrow> nat \<times> jobs_table" where
  "fail_stale t reason now =
     (length (filter (\<lambda>j. unfinished j \<and> j_task j = None) t),
      map (\<lambda>j. if unfinished j \<and> j_task j = None
               then j\<lparr>j_status := lit ''failed'', j_error := Some reason, j_updated_at := now\<rparr> else j) t)"

definition fail_unfinished :: "jobs_table \<Rightarrow> str \<Rightarrow> int \<Rightarrow> nat \<times> jobs_table" where
  "fail_unfinished t reason now =
     (length (filter unfinished t),
      map (\<lambda>j. if unfinished j
               then j\<lparr>j_status := lit ''failed'', j_error := Some reason, j_updated_at := now,
                      j_task := None\<rparr> else j) t)"

section \<open>Statuses\<close>

lemma job_status_parse_as_str [simp]: "job_status_parse (job_status_as_str s) = Some s"
  by (cases s) (simp_all add: job_status_parse_def)

lemma terminal_str: "job_status_as_str s \<in> {lit ''done'', lit ''partial'', lit ''failed''} \<longleftrightarrow> is_terminal s"
  by (cases s) (simp_all add: is_terminal_def)

lemma unfinished_str: "job_status_as_str s = lit ''pending'' \<or> job_status_as_str s = lit ''running'' \<longleftrightarrow> \<not> is_terminal s"
  by (cases s) (simp_all add: is_terminal_def)

text \<open>The table's invariant: distinct keys, known statuses, and no input kept for a finished job.\<close>

definition job_ok :: "retain_job \<Rightarrow> bool" where
  "job_ok j \<longleftrightarrow> (\<exists>s. j_status j = job_status_as_str s \<and> (is_terminal s \<longrightarrow> j_task j = None))"

definition jobs_wf :: "jobs_table \<Rightarrow> bool" where
  "jobs_wf t \<longleftrightarrow> distinct (map j_job_id t) \<and> (\<forall>j\<in>set t. job_ok j)"

lemma job_ok_unfinished: "job_ok j \<Longrightarrow> unfinished j \<or> (\<exists>s. j_status j = job_status_as_str s \<and> is_terminal s)"
  unfolding job_ok_def unfinished_def using unfinished_str by metis

lemma job_ok_update [simp]: "job_ok (update_row j p now)"
proof -
  have "j_task (update_row j p now) = None" if "is_terminal (jp_status p)"
    using that terminal_str [of "jp_status p"] unfolding update_row_def by simp
  then show ?thesis unfolding job_ok_def by (intro exI [of _ "jp_status p"]) (simp add: update_row_def)
qed

lemma update_row_id [simp]: "j_job_id (update_row j p now) = j_job_id j"
  by (simp add: update_row_def)

lemma ids_map: "(\<And>j. j_job_id (f j) = j_job_id j) \<Longrightarrow> map j_job_id (map f t) = map j_job_id t"
  by simp

lemma jobs_wf_map:
  assumes "jobs_wf t" and "\<And>j. j_job_id (f j) = j_job_id j" and "\<And>j. job_ok j \<Longrightarrow> job_ok (f j)"
  shows "jobs_wf (map f t)"
  using assms by (auto simp: jobs_wf_def comp_def)

lemma job_update_wf: "jobs_wf t \<Longrightarrow> jobs_wf (job_update t job_id p now)"
  unfolding job_update_def by (rule jobs_wf_map) auto

lemma fail_stale_wf: "jobs_wf t \<Longrightarrow> jobs_wf (snd (fail_stale t reason now))"
  unfolding fail_stale_def snd_conv
  by (rule jobs_wf_map) (auto simp: job_ok_def simp del: lit_Cons intro: exI [of _ JFailed])

lemma fail_unfinished_wf: "jobs_wf t \<Longrightarrow> jobs_wf (snd (fail_unfinished t reason now))"
  unfolding fail_unfinished_def snd_conv
  by (rule jobs_wf_map) (auto simp: job_ok_def simp del: lit_Cons intro: exI [of _ JFailed])

lemma set_detail_wf: "jobs_wf t \<Longrightarrow> jobs_wf (set_detail_field js t job_id k v)"
  unfolding set_detail_field_def by (rule jobs_wf_map) (auto simp: job_ok_def)

lemma job_insert_wf:
  assumes "jobs_wf t" and "job_insert banks t job_id b d s det r now = Inr t'"
  shows "jobs_wf t'"
proof -
  have "job_ok j" if "j_status j = lit ''pending''" "j_task j = None" for j
    unfolding job_ok_def using that by (intro exI [of _ JPending]) simp
  with assms show ?thesis
    by (auto simp: job_insert_def jobs_wf_def simp del: lit_Cons split: prod.splits if_splits)
qed

lemma job_get_in: "jobs_wf t \<Longrightarrow> j \<in> set t \<Longrightarrow> job_get t (j_job_id j) = Some j"
  by (induction t) (auto simp: job_get_def jobs_wf_def)

lemma job_get_SomeD: "job_get t i = Some j \<Longrightarrow> j \<in> set t \<and> j_job_id j = i"
  by (auto simp: job_get_def find_Some_iff)

lemma job_get_map:
  assumes "\<And>j. j_job_id (f j) = j_job_id j"
  shows "job_get (map f t) i = map_option f (job_get t i)"
  by (induction t) (auto simp: job_get_def assms)

lemma job_get_update:
  "job_get (job_update t job_id p now) i =
     map_option (\<lambda>j. if i = job_id then update_row j p now else j) (job_get t i)"
proof -
  have "job_get (job_update t job_id p now) i =
      map_option (\<lambda>j. if j_job_id j = job_id then update_row j p now else j) (job_get t i)"
    unfolding job_update_def by (rule job_get_map) simp
  also have "\<dots> = map_option (\<lambda>j. if i = job_id then update_row j p now else j) (job_get t i)"
    by (rule option.map_cong0) (use job_get_SomeD [of t i] in \<open>force dest: in_set_dropD\<close>)
  finally show ?thesis .
qed

lemma resumable_wf:
  assumes "jobs_wf t"
  shows "set (resumable t) = {(j, task). j \<in> set t \<and> unfinished j \<and> j_task j = Some task}"
proof -
  have "List.map_filter (\<lambda>(i, task). map_option (\<lambda>j. (j, task)) (job_get t i))
      (map (\<lambda>j. (j_job_id j, the (j_task j))) ls) = map (\<lambda>j. (j, the (j_task j))) ls"
    if "set ls \<subseteq> set t" for ls
    using that by (induction ls) (auto simp: map_filter_simps job_get_in [OF assms])
  then have "resumable t = map (\<lambda>j. (j, the (j_task j)))
      (sort_key j_created_at (filter (\<lambda>j. unfinished j \<and> j_task j \<noteq> None) t))"
    unfolding resumable_def by (metis (no_types, lifting) filter_is_subset set_sort)
  then show ?thesis by (auto simp: image_iff)
qed

end
