(* ===== verification/Documents_Store.thy ===== *)
theory Documents_Store
  imports Core_Types Json_Value
begin

text \<open>
  \<open>crates/memgarden-store/src/documents.rs\<close>: the documents, keyed by bank and document key, with the
  content hash that marks a document as completely ingested inside their metadata. The metadata text is
  the JSON object it encodes; SQLite's rendering of a nested value, which no writer stores under the
  hash's key, is a parameter.
\<close>

record document =
  dc_id :: int
  dc_bank_id :: str
  dc_doc_key :: str
  dc_title :: "str option"
  dc_metadata :: "(str \<times> json) list option"
  dc_created_at :: int
  dc_updated_at :: int

record doc_upsert =
  du_id :: int
  du_unchanged :: bool

type_synonym documents_table = "document list"

definition hash_key :: str where
  "hash_key = lit ''content_sha256''"

text \<open>\<open>json_extract(metadata, '$.content_sha256')\<close>, read as an optional text.\<close>

definition stored_hash :: "(json \<Rightarrow> str) \<Rightarrow> document \<Rightarrow> mg_error + str option" where
  "stored_hash render d =
     (case Option.bind (dc_metadata d) (\<lambda>m. map_of m hash_key) of
        None \<Rightarrow> Inr None
      | Some (JStr s) \<Rightarrow> Inr (Some s)
      | Some JNull \<Rightarrow> Inr None
      | Some (JArr xs) \<Rightarrow> Inr (Some (render (JArr xs)))
      | Some (JObj m) \<Rightarrow> Inr (Some (render (JObj m)))
      | Some _ \<Rightarrow> Inl ErrStorage)"

definition fresh_doc_id :: "documents_table \<Rightarrow> int" where
  "fresh_doc_id t = foldr (\<lambda>d m. max (dc_id d) m) t 0 + 1"

definition doc_find :: "documents_table \<Rightarrow> str \<Rightarrow> str \<Rightarrow> document option" where
  "doc_find t bank key = find (\<lambda>d. dc_bank_id d = bank \<and> dc_doc_key d = key) t"

definition documents_upsert ::
  "(json \<Rightarrow> str) \<Rightarrow> str list \<Rightarrow> documents_table \<Rightarrow> str \<Rightarrow> str \<Rightarrow> str option \<Rightarrow> (str \<times> json) list \<Rightarrow> str \<Rightarrow> int
    \<Rightarrow> mg_error + (doc_upsert \<times> documents_table)" where
  "documents_upsert render banks t bank key title metadata content_hash now =
     (case doc_find t bank key of
        Some d \<Rightarrow>
          (case stored_hash render d of
             Inl e \<Rightarrow> Inl e
           | Inr h \<Rightarrow>
               (if h = Some content_hash then Inr (\<lparr>du_id = dc_id d, du_unchanged = True\<rparr>, t)
                else Inr (\<lparr>du_id = dc_id d, du_unchanged = False\<rparr>,
                  map (\<lambda>x. if dc_id x = dc_id d
                           then x\<lparr>dc_title := title, dc_metadata := Some metadata, dc_updated_at := now\<rparr>
                           else x) t)))
      | None \<Rightarrow>
          (if bank \<in> set banks
           then Inr (\<lparr>du_id = fresh_doc_id t, du_unchanged = False\<rparr>,
             t @ [\<lparr>dc_id = fresh_doc_id t, dc_bank_id = bank, dc_doc_key = key, dc_title = title,
                   dc_metadata = Some metadata, dc_created_at = now, dc_updated_at = now\<rparr>])
           else Inl ErrStorage))"

definition set_content_hash :: "documents_table \<Rightarrow> int \<Rightarrow> str \<Rightarrow> int \<Rightarrow> documents_table" where
  "set_content_hash t i content_hash now =
     map (\<lambda>x. if dc_id x = i
              then x\<lparr>dc_metadata := Some (obj_insert hash_key (JStr content_hash)
                       (case dc_metadata x of Some m \<Rightarrow> m | None \<Rightarrow> [])), dc_updated_at := now\<rparr>
              else x) t"

definition get_metadata :: "documents_table \<Rightarrow> int \<Rightarrow> (str \<times> json) list option" where
  "get_metadata t i = Option.bind (find (\<lambda>d. dc_id d = i) t) dc_metadata"

section \<open>The hash\<close>

definition doc_hash :: "document \<Rightarrow> json option" where
  "doc_hash d = Option.bind (dc_metadata d) (\<lambda>m. map_of m hash_key)"

definition docs_wf :: "documents_table \<Rightarrow> bool" where
  "docs_wf t \<longleftrightarrow> distinct (map dc_id t)"

lemma fresh_doc_id_gt: "d \<in> set t \<Longrightarrow> dc_id d < fresh_doc_id t"
  unfolding fresh_doc_id_def by (induction t) auto

lemma stored_hash_eq: "stored_hash render d = Inr (Some h) \<Longrightarrow> \<forall>v. doc_hash d = Some v \<longrightarrow> is_object v \<or> is_array v \<or> v = JStr h"
  by (auto simp: stored_hash_def doc_hash_def split: option.splits json.splits)

lemma stored_hash_str: "doc_hash d = Some (JStr h) \<Longrightarrow> stored_hash render d = Inr (Some h)"
  by (simp add: stored_hash_def doc_hash_def)

lemma doc_find_in: "doc_find t bank key = Some d \<Longrightarrow> d \<in> set t"
  by (auto simp: doc_find_def find_Some_iff)

lemma set_content_hash_rows:
  "d' \<in> set (set_content_hash t i h now) \<Longrightarrow>
     \<exists>d\<in>set t. dc_id d' = dc_id d \<and> dc_bank_id d' = dc_bank_id d \<and> dc_doc_key d' = dc_doc_key d
       \<and> doc_hash d' = (if dc_id d = i then Some (JStr h) else doc_hash d)"
  by (auto simp: set_content_hash_def doc_hash_def)

lemma set_content_hash_wf: "docs_wf t \<Longrightarrow> docs_wf (set_content_hash t i h now)"
  by (auto simp: docs_wf_def set_content_hash_def comp_def if_distrib cong: if_cong)

lemma documents_upsert_rows:
  assumes "documents_upsert render banks t bank key title m h now = Inr (u, t')" and "d' \<in> set t'"
  shows "(\<exists>d\<in>set t. d' = d) \<or> (\<not> du_unchanged u \<and> dc_id d' = du_id u \<and> doc_hash d' = map_of m hash_key)"
  using assms
  by (auto simp: documents_upsert_def doc_hash_def split: option.splits sum.splits if_splits)

lemma documents_upsert_wf:
  assumes "documents_upsert render banks t bank key title m h now = Inr (u, t')" and "docs_wf t"
  shows "docs_wf t'"
proof -
  have "map dc_id (map (\<lambda>x. if dc_id x = i then x\<lparr>dc_title := a, dc_metadata := b, dc_updated_at := c\<rparr> else x) t)
      = map dc_id t" for i a b c by simp
  with assms fresh_doc_id_gt [of _ t] show ?thesis
    by (fastforce simp: documents_upsert_def docs_wf_def split: option.splits sum.splits if_splits simp del: map_map)
qed

lemma documents_upsert_unchanged:
  assumes "documents_upsert render banks t bank key title m h now = Inr (u, t')" and "du_unchanged u"
  shows "t' = t \<and> (\<exists>d. doc_find t bank key = Some d \<and> dc_id d = du_id u \<and> stored_hash render d = Inr (Some h))"
  using assms by (auto simp: documents_upsert_def split: option.splits sum.splits if_splits)

end
