(* ===== verification/Nodes_Store.thy ===== *)
theory Nodes_Store
  imports Core_Types "HOL-Library.Product_Lexorder"
begin

text \<open>
  \<open>crates/memgarden-store/src/nodes.rs\<close> (with the record types of \<open>models.rs\<close>): the memory nodes, in the
  order of their insertion. A node's tags, a table of their own in the schema, are a field of the row.
  Ids are SQLite rowids: one more than the greatest in use. The clock and the generated uuids are
  arguments; the embedding columns and the vector index are not modelled, except that changing a text
  drops its embedding.
\<close>

record new_node =
  nn_bank_id :: str
  nn_document_id :: "int option"
  nn_fact_type :: fact_type
  nn_text :: str
  nn_context :: "str option"
  nn_event_date :: "int option"
  nn_occurred_start :: "int option"
  nn_occurred_end :: "int option"
  nn_mentioned_at :: "int option"
  nn_metadata :: "str option"
  nn_expires_at :: "int option"

record memory_node =
  mn_id :: int
  mn_uuid :: str
  mn_new :: new_node
  mn_tags :: "str list"
  mn_created_at :: int
  mn_updated_at :: int
  mn_superseded_by :: "int option"
  mn_embedded :: bool

type_synonym nodes_table = "memory_node list"

definition fresh_node_id :: "nodes_table \<Rightarrow> int" where
  "fresh_node_id t = foldr (\<lambda>n m. max (mn_id n) m) t 0 + 1"

text \<open>One iteration of \<open>insert_batch\<close>: the row and its tags, duplicates ignored.\<close>

definition insert_one ::
  "nodes_table \<Rightarrow> int \<Rightarrow> str \<Rightarrow> new_node \<times> str list \<Rightarrow> int \<times> nodes_table" where
  "insert_one t now uuid item =
     (let i = fresh_node_id t in
      (i, t @ [\<lparr>mn_id = i, mn_uuid = uuid, mn_new = fst item, mn_tags = remdups (snd item),
                mn_created_at = now, mn_updated_at = now, mn_superseded_by = None, mn_embedded = False\<rparr>]))"

fun insert_all ::
  "nodes_table \<Rightarrow> int \<Rightarrow> (nat \<Rightarrow> str) \<Rightarrow> (new_node \<times> str list) list \<Rightarrow> int list \<times> nodes_table" where
  "insert_all t now uuid [] = ([], t)"
| "insert_all t now uuid (x # xs) =
     (let (i, t1) = insert_one t now (uuid (length t)) x; (ids, t2) = insert_all t1 now uuid xs
      in (i # ids, t2))"

text \<open>The batch is one transaction: a row that violates the bank's or the document's foreign key rolls
  all of it back.\<close>

definition insert_batch ::
  "str list \<Rightarrow> int list \<Rightarrow> nodes_table \<Rightarrow> int \<Rightarrow> (nat \<Rightarrow> str) \<Rightarrow> (new_node \<times> str list) list
    \<Rightarrow> mg_error + (int list \<times> nodes_table)" where
  "insert_batch banks docs t now uuid items =
     (if list_all (\<lambda>(n, _). nn_bank_id n \<in> set banks \<and>
           (case nn_document_id n of None \<Rightarrow> True | Some d \<Rightarrow> d \<in> set docs)) items
      then Inr (insert_all t now uuid items) else Inl ErrStorage)"

definition node_get :: "nodes_table \<Rightarrow> int \<Rightarrow> memory_node option" where
  "node_get t i = find (\<lambda>n. mn_id n = i) t"

definition node_count :: "nodes_table \<Rightarrow> str \<Rightarrow> nat" where
  "node_count t bank = length (filter (\<lambda>n. nn_bank_id (mn_new n) = bank) t)"

text \<open>Deleting a node clears the retractions it was the replacement of.\<close>

definition node_delete :: "nodes_table \<Rightarrow> int \<Rightarrow> nodes_table" where
  "node_delete t i =
     map (\<lambda>n. if mn_superseded_by n = Some i then n\<lparr>mn_superseded_by := None\<rparr> else n)
       (filter (\<lambda>n. mn_id n \<noteq> i) t)"

definition update_text :: "nodes_table \<Rightarrow> int \<Rightarrow> str \<Rightarrow> int \<Rightarrow> nodes_table" where
  "update_text t i s now =
     map (\<lambda>n. if mn_id n = i
              then n\<lparr>mn_new := (mn_new n)\<lparr>nn_text := s\<rparr>, mn_embedded := False, mn_updated_at := now\<rparr>
              else n) t"

text \<open>The guards of the \<open>UPDATE\<close> in \<open>mark_superseded\<close>; the comparison with an absent replacement is
  \<open>NULL\<close>.\<close>

definition may_supersede :: "nodes_table \<Rightarrow> str \<Rightarrow> memory_node \<Rightarrow> int \<Rightarrow> bool" where
  "may_supersede t bank old new_id \<longleftrightarrow>
     nn_bank_id (mn_new old) = bank \<and> mn_superseded_by old = None \<and> mn_id old \<noteq> new_id \<and>
     (case find (\<lambda>n. mn_id n = new_id \<and> nn_bank_id (mn_new n) = bank) t of
        None \<Rightarrow> False
      | Some n \<Rightarrow> (mn_created_at old, mn_id old) < (mn_created_at n, mn_id n))"

definition supersede_one :: "str \<Rightarrow> int \<Rightarrow> int \<times> int \<Rightarrow> nat \<times> nodes_table \<Rightarrow> nat \<times> nodes_table" where
  "supersede_one bank now pair st =
     (case (pair, st) of ((retracted, replacement), (changed, t)) \<Rightarrow>
        (changed + length (filter (\<lambda>n. mn_id n = retracted \<and> may_supersede t bank n replacement) t),
         map (\<lambda>n. if mn_id n = retracted \<and> may_supersede t bank n replacement
                  then n\<lparr>mn_superseded_by := Some replacement, mn_updated_at := now\<rparr> else n) t))"

definition mark_superseded ::
  "nodes_table \<Rightarrow> str \<Rightarrow> (int \<times> int) list \<Rightarrow> int \<Rightarrow> nat \<times> nodes_table" where
  "mark_superseded t bank pairs now = fold (supersede_one bank now) pairs (0, t)"

definition clear_superseded :: "nodes_table \<Rightarrow> str \<Rightarrow> int \<Rightarrow> int \<Rightarrow> bool \<times> nodes_table" where
  "clear_superseded t bank i now =
     (let hit = (\<lambda>n. mn_id n = i \<and> nn_bank_id (mn_new n) = bank \<and> mn_superseded_by n \<noteq> None) in
      (0 < length (filter hit t),
       map (\<lambda>n. if hit n then n\<lparr>mn_superseded_by := None, mn_updated_at := now\<rparr> else n) t))"

section \<open>Ids\<close>

lemma fresh_node_id_gt: "n \<in> set t \<Longrightarrow> mn_id n < fresh_node_id t"
  unfolding fresh_node_id_def by (induction t) auto

text \<open>The invariant: distinct ids, and a retracted node points at a later node of its own bank.\<close>

definition later :: "memory_node \<Rightarrow> memory_node \<Rightarrow> bool" where
  "later n n' \<longleftrightarrow> nn_bank_id (mn_new n') = nn_bank_id (mn_new n) \<and>
     (mn_created_at n, mn_id n) < (mn_created_at n', mn_id n')"

definition nodes_wf :: "nodes_table \<Rightarrow> bool" where
  "nodes_wf t \<longleftrightarrow> distinct (map mn_id t) \<and>
     (\<forall>n\<in>set t. \<forall>i. mn_superseded_by n = Some i \<longrightarrow> (\<exists>n'\<in>set t. mn_id n' = i \<and> later n n'))"

lemma nodes_wf_map:
  assumes "nodes_wf t"
    and frame: "\<And>n. n \<in> set t \<Longrightarrow> mn_id (f n) = mn_id n \<and> mn_created_at (f n) = mn_created_at n
      \<and> nn_bank_id (mn_new (f n)) = nn_bank_id (mn_new n)"
    and sup: "\<And>n i. n \<in> set t \<Longrightarrow> mn_superseded_by (f n) = Some i \<Longrightarrow> \<exists>n'\<in>set t. mn_id n' = i \<and> later n n'"
  shows "nodes_wf (map f t)"
proof -
  have "map mn_id (map f t) = map mn_id t" using frame by simp
  moreover have "\<exists>n'\<in>set (map f t). mn_id n' = i \<and> later (f n) n'"
    if "n \<in> set t" "mn_superseded_by (f n) = Some i" for n i
  proof -
    from sup [OF that] obtain n' where n': "n' \<in> set t" "mn_id n' = i" "later n n'" by blast
    with frame [OF that(1)] frame [OF n'(1)] show ?thesis
      by (intro bexI [of _ "f n'"]) (auto simp: later_def)
  qed
  ultimately show ?thesis using assms(1) by (auto simp: nodes_wf_def simp del: map_map)
qed

lemma insert_one_wf: "nodes_wf t \<Longrightarrow> nodes_wf (snd (insert_one t now u x))"
  using fresh_node_id_gt [of _ t]
  by (fastforce simp: nodes_wf_def insert_one_def Let_def)

lemma insert_all_wf: "nodes_wf t \<Longrightarrow> nodes_wf (snd (insert_all t now u xs))"
proof (induction xs arbitrary: t)
  case (Cons x xs)
  from Cons.IH [OF insert_one_wf [OF Cons.prems]] show ?case
    by (simp add: split_def Let_def)
qed simp

lemma may_supersedeD:
  "may_supersede t bank old i \<Longrightarrow> \<exists>n'\<in>set t. mn_id n' = i \<and> later old n'"
  by (auto simp: may_supersede_def later_def find_Some_iff split: option.splits)

lemma supersede_one_wf: "nodes_wf (snd st) \<Longrightarrow> nodes_wf (snd (supersede_one bank now p st))"
proof -
  assume wf: "nodes_wf (snd st)"
  obtain a b c t where e: "p = (a, b)" "st = (c, t)" by (cases p, cases st)
  show ?thesis unfolding e supersede_one_def prod.case snd_conv
    by (rule nodes_wf_map) (use wf e may_supersedeD in \<open>auto simp: nodes_wf_def split: if_splits\<close>)
qed

lemma mark_superseded_wf: "nodes_wf t \<Longrightarrow> nodes_wf (snd (mark_superseded t bank pairs now))"
proof -
  have "nodes_wf (snd st) \<Longrightarrow> nodes_wf (snd (fold (supersede_one bank now) pairs st))" for st
    by (induction pairs arbitrary: st) (auto simp: supersede_one_wf)
  then show "nodes_wf t \<Longrightarrow> ?thesis" by (simp add: mark_superseded_def)
qed

lemma clear_superseded_wf: "nodes_wf t \<Longrightarrow> nodes_wf (snd (clear_superseded t bank i now))"
  unfolding clear_superseded_def Let_def snd_conv
  by (rule nodes_wf_map) (auto simp: nodes_wf_def split: if_splits)

lemma update_text_wf: "nodes_wf t \<Longrightarrow> nodes_wf (update_text t i s now)"
  unfolding update_text_def
  by (rule nodes_wf_map) (auto simp: nodes_wf_def split: if_splits)

lemma node_delete_wf:
  assumes "nodes_wf t"
  shows "nodes_wf (node_delete t i)"
proof -
  let ?t = "map (\<lambda>n. if mn_superseded_by n = Some i then n\<lparr>mn_superseded_by := None\<rparr> else n) t"
  have wf: "nodes_wf ?t"
    by (rule nodes_wf_map [OF assms]) (use assms in \<open>auto simp: nodes_wf_def split: if_splits\<close>)
  have e: "node_delete t i = filter (\<lambda>n. mn_id n \<noteq> i) ?t"
    unfolding node_delete_def filter_map by (simp add: comp_def if_distrib cong: if_cong)
  have "mn_superseded_by n \<noteq> Some i" if "n \<in> set ?t" for n using that by auto
  with wf show ?thesis unfolding e nodes_wf_def
    by (auto simp: distinct_map_filter simp del: set_map) blast
qed


section \<open>Histories of the table\<close>

datatype node_op =
    InsertBatch "(new_node \<times> str list) list" int
  | MarkSuperseded str "(int \<times> int) list" int
  | ClearSuperseded str int int
  | DeleteNode int
  | UpdateText int str int

fun apply_node_op :: "str list \<Rightarrow> int list \<Rightarrow> (nat \<Rightarrow> str) \<Rightarrow> node_op \<Rightarrow> nodes_table \<Rightarrow> nodes_table" where
  "apply_node_op banks docs uuid (InsertBatch items now) t =
     (case insert_batch banks docs t now uuid items of Inl _ \<Rightarrow> t | Inr (_, t') \<Rightarrow> t')"
| "apply_node_op banks docs uuid (MarkSuperseded bank pairs now) t = snd (mark_superseded t bank pairs now)"
| "apply_node_op banks docs uuid (ClearSuperseded bank i now) t = snd (clear_superseded t bank i now)"
| "apply_node_op banks docs uuid (DeleteNode i) t = node_delete t i"
| "apply_node_op banks docs uuid (UpdateText i s now) t = update_text t i s now"

lemma insert_batch_wf: "nodes_wf t \<Longrightarrow> insert_batch banks docs t now u items = Inr (ids, t') \<Longrightarrow> nodes_wf t'"
  using insert_all_wf [of t now u items] by (auto simp: insert_batch_def split: if_splits)

lemma apply_node_op_wf: "nodes_wf t \<Longrightarrow> nodes_wf (apply_node_op banks docs uuid a t)"
  by (cases a)
    (auto simp: insert_batch_wf mark_superseded_wf clear_superseded_wf node_delete_wf update_text_wf
      split: sum.splits)

lemma node_history_wf: "nodes_wf t \<Longrightarrow> nodes_wf (fold (apply_node_op banks docs uuid) ops t)"
  by (induction ops arbitrary: t) (simp_all add: apply_node_op_wf)

definition superseded_rel :: "nodes_table \<Rightarrow> (int \<times> int) set" where
  "superseded_rel t = {(mn_id n, i) | n i. n \<in> set t \<and> mn_superseded_by n = Some i}"

lemma node_get_in: "distinct (map mn_id t) \<Longrightarrow> n \<in> set t \<Longrightarrow> node_get t (mn_id n) = Some n"
  by (induction t) (auto simp: node_get_def)

lemma nodes_wf_acyclic:
  assumes "nodes_wf t"
  shows "acyclic (superseded_rel t)"
proof -
  define key where "key i = (mn_created_at (the (node_get t i)), i)" for i
  have step: "key i < key j" if "(i, j) \<in> superseded_rel t" for i j
  proof -
    from that assms obtain n n' where n: "n \<in> set t" "mn_id n = i" "n' \<in> set t" "mn_id n' = j" "later n n'"
      by (fastforce simp: superseded_rel_def nodes_wf_def)
    with assms node_get_in have "node_get t i = Some n" "node_get t j = Some n'"
      by (auto simp: nodes_wf_def)
    with n show ?thesis by (auto simp: key_def later_def)
  qed
  have "key i < key j" if "(i, j) \<in> (superseded_rel t)\<^sup>+" for i j
    using that by induction (auto dest: step intro: less_trans)
  then show ?thesis by (auto simp: acyclic_def)
qed

text \<open>C35: Retraction never goes round in a circle. Whatever batches are inserted, retractions claimed,
  undone, nodes deleted and texts changed, in any order and with clocks that may run backwards, following
  \<open>superseded_by\<close> from a node never leads back to it.\<close>

theorem supersession_never_cycles:
  "acyclic (superseded_rel (fold (apply_node_op banks docs uuid) ops []))"
  by (rule nodes_wf_acyclic, rule node_history_wf) (simp add: nodes_wf_def)

text \<open>What one call of \<open>mark_superseded\<close> may do to a row.\<close>

definition marked :: "nodes_table \<Rightarrow> str \<Rightarrow> (int \<times> int) list \<Rightarrow> int \<Rightarrow> memory_node \<Rightarrow> memory_node \<Rightarrow> bool" where
  "marked t bank pairs now n n' \<longleftrightarrow> n' = n \<or>
     (\<exists>r. mn_superseded_by n = None \<and> nn_bank_id (mn_new n) = bank \<and> (mn_id n, r) \<in> set pairs
        \<and> (\<exists>m\<in>set t. mn_id m = r \<and> later n m)
        \<and> n' = n\<lparr>mn_superseded_by := Some r, mn_updated_at := now\<rparr>)"

lemma marked_frame:
  "marked t bank pairs now n n' \<Longrightarrow> mn_id n' = mn_id n \<and> mn_created_at n' = mn_created_at n
     \<and> mn_new n' = mn_new n"
  by (auto simp: marked_def)

lemma marked_bex:
  assumes "list_all2 (marked t0 bank pairs now) t t'" and "m \<in> set t'" and "later n m"
  shows "\<exists>m0\<in>set t. mn_id m0 = mn_id m \<and> later n m0"
proof -
  from assms(1,2) obtain m0 where "m0 \<in> set t" "marked t0 bank pairs now m0 m"
    by (metis in_set_conv_nth list_all2_conv_all_nth)
  with marked_frame [of t0 bank pairs now m0 m] assms(3) show ?thesis
    by (intro bexI [of _ m0]) (auto simp: later_def)
qed

lemma supersede_one_marked:
  assumes "list_all2 (marked t bank pairs now) t (snd st)" and "p \<in> set pairs"
  shows "list_all2 (marked t bank pairs now) t (snd (supersede_one bank now p st))"
proof -
  obtain a b c t1 where e: "p = (a, b)" "st = (c, t1)" by (cases p, cases st)
  let ?f = "\<lambda>n. if mn_id n = a \<and> may_supersede t1 bank n b
    then n\<lparr>mn_superseded_by := Some b, mn_updated_at := now\<rparr> else n"
  have "marked t bank pairs now n (?f n1)" if m: "marked t bank pairs now n n1" and "n1 \<in> set t1" for n n1
  proof (cases "mn_id n1 = a \<and> may_supersede t1 bank n1 b")
    case True
    then have sup: "mn_superseded_by n1 = None" "nn_bank_id (mn_new n1) = bank"
      by (simp_all add: may_supersede_def)
    from m consider "n1 = n" | r where "n1 = n\<lparr>mn_superseded_by := Some r, mn_updated_at := now\<rparr>"
      unfolding marked_def by blast
    then have "n1 = n" using sup(1) by cases simp_all
    moreover obtain m1 where "m1 \<in> set t1" "mn_id m1 = b" "later n1 m1"
      using may_supersedeD True by blast
    then have "\<exists>m0\<in>set t. mn_id m0 = b \<and> later n1 m0" using marked_bex assms(1) e by fastforce
    ultimately show ?thesis using True sup assms(2) e by (auto simp: marked_def)
  next
    case False
    then show ?thesis using m by auto
  qed
  then have "list_all2 (marked t bank pairs now) t (map ?f t1)"
    using assms(1) unfolding e snd_conv list_all2_conv_all_nth by auto
  then show ?thesis by (simp add: supersede_one_def e)
qed

definition retractions :: "nodes_table \<Rightarrow> nat" where
  "retractions t = length (filter (\<lambda>n. mn_superseded_by n \<noteq> None) t)"

lemma supersede_one_count:
  "fst (supersede_one bank now p st) + retractions (snd st)
    = fst st + retractions (snd (supersede_one bank now p st))"
proof -
  obtain a b c t where e: "p = (a, b)" "st = (c, t)" by (cases p, cases st)
  have "length (filter (\<lambda>n. mn_id n = a \<and> may_supersede t0 bank n b) t) + retractions t
    = retractions (map (\<lambda>n. if mn_id n = a \<and> may_supersede t0 bank n b
        then n\<lparr>mn_superseded_by := Some b, mn_updated_at := now\<rparr> else n) t)" for t0
    by (induction t) (auto simp: retractions_def may_supersede_def)
  then show ?thesis by (simp add: supersede_one_def e)
qed

lemma mark_superseded_rows:
  "list_all2 (marked t bank pairs now) t (snd (mark_superseded t bank pairs now))
   \<and> fst (mark_superseded t bank pairs now) + retractions t
       = retractions (snd (mark_superseded t bank pairs now))"
proof -
  have "list_all2 (marked t bank pairs now) t (snd st) \<Longrightarrow> set ps \<subseteq> set pairs \<Longrightarrow>
      list_all2 (marked t bank pairs now) t (snd (fold (supersede_one bank now) ps st))
      \<and> fst (fold (supersede_one bank now) ps st) + retractions (snd st)
        = fst st + retractions (snd (fold (supersede_one bank now) ps st))" for ps st
  proof (induction ps arbitrary: st)
    case (Cons p ps)
    from supersede_one_marked [OF Cons.prems(1), of p] Cons.prems(2)
    have "list_all2 (marked t bank pairs now) t (snd (supersede_one bank now p st))" by simp
    from Cons.IH [OF this] Cons.prems(2) supersede_one_count [of bank now p st] show ?case by simp
  qed simp
  from this [of "(0, t)" pairs] show ?thesis
    by (simp add: mark_superseded_def list_all2_refl marked_def)
qed

lemma mark_superseded_new [simp]: "map mn_new (snd (mark_superseded t bank pairs now)) = map mn_new t"
  using mark_superseded_rows [of t bank pairs now] marked_frame [of t bank pairs now]
  by (auto simp: list_all2_conv_all_nth list_eq_iff_nth_eq)

text \<open>A retraction only happens under all of its guards, and the first one wins. Each row after
  \<open>mark_superseded\<close> is the row before it, or one that was live, of the bank, named by a claimed pair
  and replaced by a strictly later node of the same bank; and the reported count is the number of rows
  newly retracted.\<close>

lemma mark_superseded_exact:
  "list_all2 (marked t bank pairs now) t (snd (mark_superseded t bank pairs now))
   \<and> fst (mark_superseded t bank pairs now) + retractions t
       = retractions (snd (mark_superseded t bank pairs now))"
  by (rule mark_superseded_rows)

lemma insert_one_obtains:
  assumes "insert_one t now u x = (i, t1)"
  obtains r where "t1 = t @ [r]" "mn_id r = i" "mn_new r = fst x" "mn_tags r = remdups (snd x)"
    "mn_superseded_by r = None" "mn_created_at r = now" "i = fresh_node_id t"
proof -
  let ?r = "\<lparr>mn_id = fresh_node_id t, mn_uuid = u, mn_new = fst x, mn_tags = remdups (snd x),
    mn_created_at = now, mn_updated_at = now, mn_superseded_by = None, mn_embedded = False\<rparr>"
  from assms have "i = fresh_node_id t" "t1 = t @ [?r]" unfolding insert_one_def Let_def by blast+
  then show ?thesis by (intro that [of ?r]) simp_all
qed

lemma insert_all_exact:
  "insert_all t now u items = (ids, t') \<Longrightarrow> \<exists>new. t' = t @ new \<and> map mn_id new = ids
     \<and> map mn_new new = map fst items \<and> map mn_tags new = map (remdups \<circ> snd) items
     \<and> sorted_wrt (<) ids \<and> (\<forall>i\<in>set ids. \<forall>n\<in>set t. mn_id n < i)
     \<and> (\<forall>n\<in>set new. mn_superseded_by n = None \<and> mn_created_at n = now)"
proof (induction items arbitrary: t ids t')
  case (Cons x xs)
  obtain i t1 where o: "insert_one t now (u (length t)) x = (i, t1)"
    by (cases "insert_one t now (u (length t)) x")
  obtain is2 t2 where r: "insert_all t1 now u xs = (is2, t2)" by (cases "insert_all t1 now u xs")
  from insert_one_obtains [OF o] obtain r1 where r1: "t1 = t @ [r1]" "mn_id r1 = i" "mn_new r1 = fst x"
      "mn_tags r1 = remdups (snd x)" "mn_superseded_by r1 = None" "mn_created_at r1 = now"
      "i = fresh_node_id t" by metis
  from Cons.IH [OF r] obtain new where new: "t2 = t1 @ new" "map mn_id new = is2"
      "map mn_new new = map fst xs" "map mn_tags new = map (remdups \<circ> snd) xs"
      "sorted_wrt (<) is2" "\<forall>i\<in>set is2. \<forall>n\<in>set t1. mn_id n < i"
      "\<forall>n\<in>set new. mn_superseded_by n = None \<and> mn_created_at n = now" by blast
  have "\<forall>n\<in>set t. mn_id n < i" using r1(7) fresh_node_id_gt by blast
  with Cons.prems o r r1 new show ?case
    by (intro exI [of _ "r1 # new"]) auto
qed simp

lemma insert_batch_new:
  assumes "insert_batch banks docs t now u items = Inr (ids, t')"
  shows "map mn_new t' = map mn_new t @ map fst items" and "length ids = length items"
proof -
  from assms insert_all_exact [of t now u items ids t'] obtain new where
    "t' = t @ new" "map mn_id new = ids" "map mn_new new = map fst items"
    by (auto simp: insert_batch_def split: if_splits)
  then show "map mn_new t' = map mn_new t @ map fst items" "length ids = length items"
    by (simp, metis length_map)
qed

text \<open>A batch of facts is stored completely, in order and under new ids, or not at all. On success
  the table grows by exactly the given nodes with their tags, all live and stamped with one time, under
  increasing ids greater than every id in use.\<close>

lemma insert_batch_exact:
  assumes "insert_batch banks docs t now u items = Inr (ids, t')"
  shows "\<exists>new. t' = t @ new \<and> map mn_id new = ids
     \<and> map mn_new new = map fst items \<and> map mn_tags new = map (remdups \<circ> snd) items
     \<and> sorted_wrt (<) ids \<and> (\<forall>i\<in>set ids. \<forall>n\<in>set t. mn_id n < i)
     \<and> (\<forall>n\<in>set new. mn_superseded_by n = None \<and> mn_created_at n = now)"
  using assms insert_all_exact [of t now u items ids t']
  by (auto simp: insert_batch_def split: if_splits)

definition sample_node :: new_node where
  "sample_node = \<lparr>nn_bank_id = [98], nn_document_id = None, nn_fact_type = World, nn_text = [104],
     nn_context = None, nn_event_date = None, nn_occurred_start = None, nn_occurred_end = None,
     nn_mentioned_at = None, nn_metadata = None, nn_expires_at = None\<rparr>"

end
