(* ===== verification/Retain_Worker.thy ===== *)
theory Retain_Worker
  imports Chunking Sessions_Store Jobs_Store Documents_Store Nodes_Store
begin

text \<open>
  \<open>crates/memgardend/src/retain/mod.rs\<close>: the retain worker. \<open>run_job_inner\<close> takes one task through its
  chunks and settles its job row, its document's content hash and its session's durable cursor. The
  database is the four tables it touches; the entity and link tables of the graph write, whose failure
  the worker only logs, are left out, and so are the metrics. What the worker meets is a
  record of answers indexed by the chunk: the clock, the shutdown signal, the language model, the
  candidate lookup and, for every write, whether the database carried it out.
\<close>

datatype ollama_error = OllamaBusy | OllamaDeadline | OllamaOther str

record parsed_fact =
  pf_text :: str
  pf_fact_type :: fact_type
  pf_fact_kind :: str
  pf_occurred_start :: "str option"
  pf_occurred_end :: "str option"
  pf_where_field :: "str option"
  pf_entities :: "str list"
  pf_supersedes :: "nat list"
  pf_expires_at :: "str option"

record known_fact =
  kf_id :: int
  kf_text :: str

record retain_task =
  rt_job_id :: str
  rt_bank_id :: str
  rt_document_id :: int
  rt_session_id :: "str option"
  rt_transcript :: str
  rt_event_date_ms :: int
  rt_mission :: "str option"
  rt_context :: "str option"
  rt_tags :: "str list"
  rt_content_hash :: str
  rt_byte_offset :: "int option"
  rt_offset_from :: "int option"
  rt_chunk_size :: nat
  rt_chunker :: nat
  rt_resume :: "job_progress option"

record daemon_db =
  db_banks :: "str list"
  db_sessions :: sessions_table
  db_jobs :: jobs_table
  db_docs :: documents_table
  db_nodes :: nodes_table

record worker_env =
  we_parse :: "str \<Rightarrow> json option"
  we_ser :: "json \<Rightarrow> str"
  we_alphanumeric :: "uchar \<Rightarrow> bool"
  we_iso_ms :: "str \<Rightarrow> int option"
  we_uuid :: "nat \<Rightarrow> str"
  we_show :: "ollama_error + mg_error \<Rightarrow> str"
  we_cfg_chunk_size :: nat
  we_wall_timeout_secs :: nat
  we_chunking_panics :: "str option"
  we_timed_out :: "nat \<Rightarrow> bool"
  we_stop_before :: "nat \<Rightarrow> bool"
  we_stop_mid :: "nat \<Rightarrow> bool"
  we_known :: "nat \<Rightarrow> known_fact list"
  we_extract :: "nat \<Rightarrow> nat \<Rightarrow> ollama_error + parsed_fact list"
  we_now :: "nat \<Rightarrow> int"
  we_insert_ok :: "nat \<Rightarrow> bool"
  we_supersede_ok :: "nat \<Rightarrow> bool"
  we_flush_ok :: "nat \<Rightarrow> bool"
  we_hash_ok :: bool
  we_confirm_ok :: bool
  we_inference :: str
  we_json_set :: "str \<Rightarrow> str \<Rightarrow> str \<Rightarrow> str"
  we_detail_ok :: bool

definition chunker_version :: nat where
  "chunker_version = 1"

definition fact_offset_ms :: int where
  "fact_offset_ms = 10"

definition day_ms :: int where
  "day_ms = 86400000"

section \<open>The gate on chunks\<close>

text \<open>\<open>is_degenerate_text\<close> of \<open>extract/parse.rs\<close>; \<open>char::is_alphanumeric\<close> is a parameter.\<close>

definition junk_texts :: "str list" where
  "junk_texts = [lit ''...'', [8230], lit ''-'', lit ''--'', lit ''---'', lit ''.'', lit ''..'', [8226], [183],
     lit ''*'', lit ''**'', lit ''***'', lit ''_,_'', lit ''_, _, _'']"

definition punct_only :: "uchar list" where
  "punct_only = lit ''.,;:!?-'' @ [8211, 8212, 8230, 34, 39, 96, 180, 32, 9, 10, 13]"

definition is_degenerate_text :: "(uchar \<Rightarrow> bool) \<Rightarrow> str \<Rightarrow> bool" where
  "is_degenerate_text alphanumeric t =
     (let stripped = trim t in
      stripped = [] \<or> stripped \<in> set junk_texts \<or> list_all (\<lambda>c. c \<in> set punct_only) stripped
      \<or> length stripped \<le> 2 \<and> list_all (\<lambda>c. \<not> alphanumeric c) stripped)"

section \<open>Facts\<close>

definition str_json :: "str \<Rightarrow> json" where
  "str_json s = JStr s"

text \<open>\<open>NodeDraft::build\<close>, together with the \<open>NewNode\<close> that \<open>write_facts\<close> makes of the draft.\<close>

definition fact_metadata :: "parsed_fact \<Rightarrow> retain_task \<Rightarrow> json" where
  "fact_metadata pf task =
     (let m0 = obj_insert (lit ''fact_kind'') (str_json (pf_fact_kind pf)) [];
          m1 = (case pf_where_field pf of Some w \<Rightarrow> obj_insert (lit ''where'') (str_json w) m0 | None \<Rightarrow> m0);
          m2 = (case rt_session_id task of Some s \<Rightarrow> obj_insert (lit ''session_id'') (str_json s) m1 | None \<Rightarrow> m1);
          m3 = (if pf_entities pf \<noteq> []
                then obj_insert (lit ''entities'') (JArr (map str_json (pf_entities pf))) m2 else m2)
      in JObj m3)"

definition node_draft :: "worker_env \<Rightarrow> retain_task \<Rightarrow> nat \<Rightarrow> parsed_fact \<Rightarrow> new_node" where
  "node_draft env task abs_index pf =
     (let ofs = int abs_index * fact_offset_ms;
          start = map_option (\<lambda>ms. ms + ofs) (Option.bind (pf_occurred_start pf) (we_iso_ms env));
          fin = map_option (\<lambda>ms. ms + ofs) (Option.bind (pf_occurred_end pf) (we_iso_ms env));
          mentioned = Some (rt_event_date_ms task + ofs)
      in \<lparr>nn_bank_id = rt_bank_id task, nn_document_id = Some (rt_document_id task),
          nn_fact_type = pf_fact_type pf, nn_text = pf_text pf, nn_context = rt_context task,
          nn_event_date = coalesce start mentioned, nn_occurred_start = start, nn_occurred_end = fin,
          nn_mentioned_at = mentioned, nn_metadata = Some (we_ser env (fact_metadata pf task)),
          nn_expires_at = map_option (\<lambda>ms. ms + day_ms) (Option.bind (pf_expires_at pf) (we_iso_ms env))\<rparr>)"

definition node_drafts :: "worker_env \<Rightarrow> retain_task \<Rightarrow> nat \<Rightarrow> parsed_fact list \<Rightarrow> new_node list" where
  "node_drafts env task base facts =
     map (\<lambda>(i, f). node_draft env task (base + i) f) (enumerate 0 facts)"

definition supersession_pairs :: "parsed_fact list \<Rightarrow> int list \<Rightarrow> known_fact list \<Rightarrow> (int \<times> int) list" where
  "supersession_pairs facts ids known =
     concat (map (\<lambda>(pf, new_id).
       List.map_filter (\<lambda>idx. if idx < length known then Some (kf_id (known ! idx), new_id) else None)
         (pf_supersedes pf)) (zip facts ids))"

text \<open>\<open>extract_chunk\<close>: a second attempt after a slot error, and only then.\<close>

definition extract_chunk :: "worker_env \<Rightarrow> nat \<Rightarrow> ollama_error + parsed_fact list" where
  "extract_chunk env i =
     (case we_extract env i 0 of
        Inl OllamaBusy \<Rightarrow> we_extract env i 1
      | Inl OllamaDeadline \<Rightarrow> we_extract env i 1
      | other \<Rightarrow> other)"

text \<open>\<open>write_facts\<close>: the batch in one transaction, then the retractions, whose failure is only logged.\<close>

definition write_facts ::
  "worker_env \<Rightarrow> retain_task \<Rightarrow> nat \<Rightarrow> parsed_fact list \<Rightarrow> nat \<Rightarrow> daemon_db \<Rightarrow> mg_error + (nat \<times> daemon_db)" where
  "write_facts env task i facts base db =
     (if facts = [] then Inr (0, db)
      else if \<not> we_insert_ok env i then Inl ErrStorage
      else (case insert_batch (db_banks db) (map dc_id (db_docs db)) (db_nodes db) (we_now env i) (we_uuid env)
                   (map (\<lambda>n. (n, rt_tags task)) (node_drafts env task base facts)) of
              Inl e \<Rightarrow> Inl e
            | Inr (ids, nodes1) \<Rightarrow>
                (let pairs = supersession_pairs facts ids (we_known env i);
                     nodes2 = (if pairs = [] \<or> \<not> we_supersede_ok env i then nodes1
                               else snd (mark_superseded nodes1 (rt_bank_id task) pairs (we_now env i)))
                 in Inr (length ids, db\<lparr>db_nodes := nodes2\<rparr>))))"

section \<open>The chunk loop\<close>

record worker_state =
  ws_progress :: job_progress
  ws_abs_index :: nat
  ws_last_error :: "str option"
  ws_db :: daemon_db

datatype stop = Finished | Aborted str | Interrupted

definition flush :: "worker_env \<Rightarrow> str \<Rightarrow> nat \<Rightarrow> job_progress \<Rightarrow> daemon_db \<Rightarrow> daemon_db" where
  "flush env job_id k p db =
     (if we_flush_ok env k then db\<lparr>db_jobs := job_update (db_jobs db) job_id p (we_now env k)\<rparr> else db)"

definition skip_chunk :: "worker_state \<Rightarrow> worker_state" where
  "skip_chunk s = s\<lparr>ws_progress := (ws_progress s)\<lparr>jp_chunks_skipped := jp_chunks_skipped (ws_progress s) + 1\<rparr>\<rparr>"

definition fail_chunk :: "str \<Rightarrow> worker_state \<Rightarrow> worker_state" where
  "fail_chunk msg s =
     s\<lparr>ws_progress := (ws_progress s)\<lparr>jp_chunks_failed := jp_chunks_failed (ws_progress s) + 1\<rparr>,
       ws_last_error := Some msg\<rparr>"

definition work_chunk :: "worker_env \<Rightarrow> retain_task \<Rightarrow> nat \<Rightarrow> worker_state \<Rightarrow> worker_state" where
  "work_chunk env task i s =
     (case extract_chunk env i of
        Inl e \<Rightarrow> fail_chunk (we_show env (Inl e)) s
      | Inr facts \<Rightarrow>
          (case write_facts env task i facts (ws_abs_index s) (ws_db s) of
             Inl e \<Rightarrow> fail_chunk (we_show env (Inr e)) s
           | Inr (written, db1) \<Rightarrow>
               s\<lparr>ws_abs_index := ws_abs_index s + length facts, ws_db := db1,
                 ws_progress := (ws_progress s)\<lparr>
                   jp_facts_written := jp_facts_written (ws_progress s) + int written,
                   jp_chunks_done := jp_chunks_done (ws_progress s) + 1\<rparr>\<rparr>))"

definition flush_state :: "worker_env \<Rightarrow> retain_task \<Rightarrow> nat \<Rightarrow> worker_state \<Rightarrow> worker_state" where
  "flush_state env task k s = s\<lparr>ws_db := flush env (rt_job_id task) k (ws_progress s) (ws_db s)\<rparr>"

definition timeout_message :: "worker_env \<Rightarrow> nat \<Rightarrow> nat \<Rightarrow> str" where
  "timeout_message env i n =
     lit ''retain wall timeout after '' @ nat_str (we_wall_timeout_secs env) @ lit ''s at chunk ''
       @ nat_str i @ lit ''/'' @ nat_str n"

fun run_chunks ::
  "worker_env \<Rightarrow> retain_task \<Rightarrow> nat \<Rightarrow> nat \<Rightarrow> str list \<Rightarrow> worker_state \<Rightarrow> worker_state \<times> stop" where
  "run_chunks env task n i [] s = (s, Finished)"
| "run_chunks env task n i (c # cs) s =
     (if we_timed_out env i then (s, Aborted (timeout_message env i n))
      else if we_stop_before env i then (s, Interrupted)
      else if blank c \<or> is_degenerate_text (we_alphanumeric env) c
        then run_chunks env task n (Suc i) cs (flush_state env task (Suc i) (skip_chunk s))
      else if we_stop_mid env i then (s, Interrupted)
      else run_chunks env task n (Suc i) cs (flush_state env task (Suc i) (work_chunk env task i s)))"

section \<open>The job\<close>

text \<open>The completion of a clean run: the document's hash, and the session's durable cursor over the range
  the request named.\<close>

definition complete_run :: "worker_env \<Rightarrow> retain_task \<Rightarrow> nat \<Rightarrow> daemon_db \<Rightarrow> daemon_db" where
  "complete_run env task k db =
     (if \<not> we_hash_ok env then db
      else (let db1 = db\<lparr>db_docs := set_content_hash (db_docs db) (rt_document_id task)
                              (rt_content_hash task) (we_now env k)\<rparr>
            in (case (rt_session_id task, opt_zip (rt_offset_from task) (rt_byte_offset task)) of
                  (Some sid, Some r) \<Rightarrow>
                    (if \<not> we_confirm_ok env then db1
                     else (case session_upsert (db_banks db1) (db_sessions db1) (rt_bank_id task)
                                  (su_default\<lparr>su_session_id := sid, su_confirm_range := Some r\<rparr>) (we_now env k) of
                             Inl e \<Rightarrow> db1
                           | Inr (row, t) \<Rightarrow> db1\<lparr>db_sessions := t\<rparr>))
                | _ \<Rightarrow> db1)))"

definition aborted :: "stop \<Rightarrow> bool" where
  "aborted st \<longleftrightarrow> (case st of Aborted _ \<Rightarrow> True | _ \<Rightarrow> False)"

lemma aborted_iff [simp]: "aborted st \<longleftrightarrow> (\<exists>m. st = Aborted m)"
  by (simp add: aborted_def split: stop.split)

definition settle_status :: "stop \<Rightarrow> job_progress \<Rightarrow> job_status" where
  "settle_status st p =
     (let all_failed = (jp_chunks_done p = 0 \<and> 0 < jp_chunks_failed p) in
      if aborted st \<or> all_failed then JFailed
      else if 0 < jp_chunks_failed p then JPartial else JDone)"

definition is_clean :: "stop \<Rightarrow> job_progress \<Rightarrow> bool" where
  "is_clean st p \<longleftrightarrow> \<not> aborted st \<and> \<not> (jp_chunks_done p = 0 \<and> 0 < jp_chunks_failed p)
     \<and> jp_chunks_failed p = 0"

definition settle ::
  "worker_env \<Rightarrow> retain_task \<Rightarrow> nat \<Rightarrow> worker_state \<times> stop \<Rightarrow> daemon_db \<times> job_progress" where
  "settle env task n r =
     (case r of (s, st) \<Rightarrow>
        if st = Interrupted then
          (let p = (ws_progress s)\<lparr>jp_status := JPending, jp_error := ws_last_error s\<rparr>
           in (flush env (rt_job_id task) (Suc n) p (ws_db s), p))
        else
          (let p = (ws_progress s)\<lparr>jp_status := settle_status st (ws_progress s),
                 jp_error := coalesce (case st of Aborted m \<Rightarrow> Some m | _ \<Rightarrow> None) (ws_last_error s)\<rparr>;
               db1 = (if is_clean st (ws_progress s) then complete_run env task (Suc n) (ws_db s) else ws_db s);
               db2 = flush env (rt_job_id task) (Suc n) p db1;
               db3 = (if we_detail_ok env
                      then db2\<lparr>db_jobs := set_detail_field (we_json_set env) (db_jobs db2) (rt_job_id task)
                                 (lit ''inference'') (we_inference env)\<rparr> else db2)
           in (db3, p)))"

definition task_chunks :: "worker_env \<Rightarrow> retain_task \<Rightarrow> str list" where
  "task_chunks env task =
     chunk_text (we_parse env) (we_ser env) (rt_transcript task)
       (if rt_chunk_size task = 0 then we_cfg_chunk_size env else rt_chunk_size task)"

definition resumed_of :: "retain_task \<Rightarrow> job_progress" where
  "resumed_of task = (case rt_resume task of Some p \<Rightarrow> p | None \<Rightarrow> jp_default)"

definition already_of :: "retain_task \<Rightarrow> nat" where
  "already_of task = nat (jp_chunks_done (resumed_of task) + jp_chunks_failed (resumed_of task)
     + jp_chunks_skipped (resumed_of task))"

definition start_state :: "worker_env \<Rightarrow> retain_task \<Rightarrow> nat \<Rightarrow> daemon_db \<Rightarrow> worker_state" where
  "start_state env task n db =
     (let p = jp_default\<lparr>jp_status := JRunning, jp_chunks_total := int n,
            jp_chunks_done := jp_chunks_done (resumed_of task),
            jp_chunks_failed := jp_chunks_failed (resumed_of task),
            jp_chunks_skipped := jp_chunks_skipped (resumed_of task),
            jp_facts_written := jp_facts_written (resumed_of task)\<rparr>
      in \<lparr>ws_progress = p, ws_abs_index = nat (jp_facts_written (resumed_of task)),
          ws_last_error = jp_error (resumed_of task), ws_db = flush env (rt_job_id task) 0 p db\<rparr>)"

text \<open>The worker's answer: the database, the progress last written, and how the loop ended, \<open>None\<close> when
  the loop was not reached.\<close>

definition run_job_inner ::
  "worker_env \<Rightarrow> retain_task \<Rightarrow> daemon_db \<Rightarrow> daemon_db \<times> job_progress \<times> stop option" where
  "run_job_inner env task db =
     (case we_chunking_panics env of
        Some e \<Rightarrow>
          (let p = jp_default\<lparr>jp_status := JFailed, jp_error := Some (lit ''chunking task panicked: '' @ e)\<rparr>
           in (flush env (rt_job_id task) 0 p db, p, None))
      | None \<Rightarrow>
          (let chunks = task_chunks env task; n = length chunks; already = already_of task in
           if 0 < already \<and> rt_chunker task \<noteq> chunker_version then
             (let p = (resumed_of task)\<lparr>jp_status := JFailed,
                    jp_error := Some (lit ''cannot resume after a restart: planned with chunker v''
                      @ nat_str (rt_chunker task) @ lit '', this build cuts v'' @ nat_str chunker_version)\<rparr>
              in (flush env (rt_job_id task) 0 p db, p, None))
           else
             (let r = run_chunks env task n already (drop already chunks) (start_state env task n db);
                  (db1, p) = settle env task n r
              in (db1, p, Some (snd r)))))"


section \<open>What one chunk does\<close>

lemma write_facts_ok:
  assumes "write_facts env task i facts base db = Inr (w, db')"
  shows "w = length facts"
    and "map mn_new (db_nodes db') = map mn_new (db_nodes db) @ node_drafts env task base facts"
    and "db' = db\<lparr>db_nodes := db_nodes db'\<rparr>"
proof -
  have e: "map fst (map (\<lambda>n. (n, rt_tags task)) (node_drafts env task base facts)) = node_drafts env task base facts"
    by (simp add: comp_def)
  have l: "length (node_drafts env task base facts) = length facts"
    by (simp add: node_drafts_def)
  show "w = length facts"
    and "map mn_new (db_nodes db') = map mn_new (db_nodes db) @ node_drafts env task base facts"
    and "db' = db\<lparr>db_nodes := db_nodes db'\<rparr>"
    using assms insert_batch_new [of "db_banks db" "map dc_id (db_docs db)" "db_nodes db" "we_now env i"
        "we_uuid env" "map (\<lambda>n. (n, rt_tags task)) (node_drafts env task base facts)"]
    unfolding e write_facts_def
    by (auto simp: Let_def l node_drafts_def split: if_splits sum.splits)
qed

definition attempted :: "job_progress \<Rightarrow> int" where
  "attempted p = jp_chunks_done p + jp_chunks_failed p + jp_chunks_skipped p"

definition ingested :: "worker_env \<Rightarrow> retain_task \<Rightarrow> new_node list \<Rightarrow> str \<Rightarrow> nat \<Rightarrow> bool" where
  "ingested env task new c i \<longleftrightarrow> blank c \<or> is_degenerate_text (we_alphanumeric env) c \<or>
     (\<exists>facts base. extract_chunk env i = Inr facts \<and> set (node_drafts env task base facts) \<subseteq> set new)"

definition nodes_new :: "daemon_db \<Rightarrow> new_node list" where
  "nodes_new db = map mn_new (db_nodes db)"

text \<open>The relation between a worker state and a later one, \<open>k\<close> chunks on.\<close>

definition counted :: "nat \<Rightarrow> worker_state \<Rightarrow> worker_state \<Rightarrow> bool" where
  "counted k s s' \<longleftrightarrow>
     attempted (ws_progress s') = attempted (ws_progress s) + int k
     \<and> jp_chunks_failed (ws_progress s) \<le> jp_chunks_failed (ws_progress s')
     \<and> jp_chunks_done (ws_progress s) \<le> jp_chunks_done (ws_progress s')
     \<and> jp_chunks_skipped (ws_progress s) \<le> jp_chunks_skipped (ws_progress s')
     \<and> int (ws_abs_index s') - jp_facts_written (ws_progress s')
         = int (ws_abs_index s) - jp_facts_written (ws_progress s)
     \<and> db_docs (ws_db s') = db_docs (ws_db s) \<and> db_sessions (ws_db s') = db_sessions (ws_db s)
     \<and> db_banks (ws_db s') = db_banks (ws_db s)"

definition wrote :: "worker_env \<Rightarrow> retain_task \<Rightarrow> nat \<Rightarrow> str list \<Rightarrow> nat \<Rightarrow> worker_state \<Rightarrow> worker_state \<Rightarrow> bool" where
  "wrote env task i cs k s s' \<longleftrightarrow>
     (\<exists>new. nodes_new (ws_db s') = nodes_new (ws_db s) @ new
        \<and> int (length new) = jp_facts_written (ws_progress s') - jp_facts_written (ws_progress s)
        \<and> (jp_chunks_failed (ws_progress s') = jp_chunks_failed (ws_progress s) \<longrightarrow>
            (\<forall>j<k. ingested env task new (cs ! j) (i + j))))"

definition advanced :: "worker_env \<Rightarrow> retain_task \<Rightarrow> nat \<Rightarrow> str list \<Rightarrow> nat \<Rightarrow> worker_state \<Rightarrow> worker_state \<Rightarrow> bool" where
  "advanced env task i cs k s s' \<longleftrightarrow> counted k s s' \<and> wrote env task i cs k s s'"

lemmas advanced_defs = advanced_def counted_def wrote_def

lemma counted_trans: "counted 1 s s1 \<Longrightarrow> counted k s1 s' \<Longrightarrow> counted (Suc k) s s'"
  by (simp add: counted_def)

lemma advanced_refl [simp]: "advanced env task i cs 0 s s"
  by (simp add: advanced_defs)

lemma ingested_append [simp]:
  "ingested env task new c i \<Longrightarrow> ingested env task (new @ more_new) c i"
  "ingested env task new c i \<Longrightarrow> ingested env task (more_new @ new) c i"
  by (fastforce simp: ingested_def)+

lemma advanced_step:
  assumes "advanced env task i [c] 1 s s1" and "advanced env task (Suc i) cs k s1 s'"
  shows "advanced env task i (c # cs) (Suc k) s s'"
proof -
  from assms(1) obtain new1 where n1: "nodes_new (ws_db s1) = nodes_new (ws_db s) @ new1"
    "int (length new1) = jp_facts_written (ws_progress s1) - jp_facts_written (ws_progress s)"
    "jp_chunks_failed (ws_progress s1) = jp_chunks_failed (ws_progress s) \<longrightarrow> ingested env task new1 c i"
    by (auto simp: advanced_def wrote_def)
  from assms(2) obtain new2 where n2: "nodes_new (ws_db s') = nodes_new (ws_db s1) @ new2"
    "int (length new2) = jp_facts_written (ws_progress s') - jp_facts_written (ws_progress s1)"
    "jp_chunks_failed (ws_progress s') = jp_chunks_failed (ws_progress s1) \<longrightarrow>
       (\<forall>j<k. ingested env task new2 (cs ! j) (Suc i + j))"
    by (auto simp: advanced_def wrote_def)
  have le: "jp_chunks_failed (ws_progress s) \<le> jp_chunks_failed (ws_progress s1)"
    "jp_chunks_failed (ws_progress s1) \<le> jp_chunks_failed (ws_progress s')"
    using assms by (simp_all add: advanced_def counted_def)
  have "ingested env task (new1 @ new2) ((c # cs) ! j) (i + j)"
    if "jp_chunks_failed (ws_progress s') = jp_chunks_failed (ws_progress s)" "j < Suc k" for j
  proof -
    from that(1) le have "jp_chunks_failed (ws_progress s') = jp_chunks_failed (ws_progress s1)"
      "jp_chunks_failed (ws_progress s1) = jp_chunks_failed (ws_progress s)" by linarith+
    with n1(3) n2(3) that(2) show ?thesis by (cases j) auto
  qed
  moreover have "nodes_new (ws_db s') = nodes_new (ws_db s) @ (new1 @ new2)"
    "int (length (new1 @ new2)) = jp_facts_written (ws_progress s') - jp_facts_written (ws_progress s)"
    using n1(1,2) n2(1,2) by simp_all
  ultimately have "wrote env task i (c # cs) (Suc k) s s'" by (auto simp: wrote_def)
  then show ?thesis using assms counted_trans by (auto simp: advanced_def)
qed

lemma flush_frame [simp]:
  "db_docs (flush env j k p db) = db_docs db" "db_sessions (flush env j k p db) = db_sessions db"
  "db_banks (flush env j k p db) = db_banks db" "db_nodes (flush env j k p db) = db_nodes db"
  by (simp_all add: flush_def)

lemma advanced_flush: "advanced env task i cs k s (flush_state env task j s') = advanced env task i cs k s s'"
  by (simp add: advanced_defs flush_state_def nodes_new_def)

lemma advanced_skip:
  "blank c \<or> is_degenerate_text (we_alphanumeric env) c \<Longrightarrow> advanced env task i [c] 1 s (skip_chunk s)"
  by (auto simp: advanced_defs skip_chunk_def attempted_def ingested_def)

lemma advanced_fail: "advanced env task i [c] 1 s (fail_chunk msg s)"
  by (simp add: advanced_defs fail_chunk_def attempted_def)

lemma advanced_work: "advanced env task i [c] 1 s (work_chunk env task i s)"
proof (cases "extract_chunk env i")
  case (Inl e)
  then show ?thesis using advanced_fail by (simp add: work_chunk_def)
next
  case (Inr facts)
  show ?thesis
  proof (cases "write_facts env task i facts (ws_abs_index s) (ws_db s)")
    case (Inl e)
    with Inr show ?thesis using advanced_fail by (simp add: work_chunk_def)
  next
    case w: (Inr r)
    obtain n db1 where r: "r = (n, db1)" by (cases r)
    note ok = write_facts_ok [OF w [unfolded r]]
    let ?s = "s\<lparr>ws_abs_index := ws_abs_index s + length facts, ws_db := db1,
                 ws_progress := (ws_progress s)\<lparr>
                   jp_facts_written := jp_facts_written (ws_progress s) + int n,
                   jp_chunks_done := jp_chunks_done (ws_progress s) + 1\<rparr>\<rparr>"
    have e: "work_chunk env task i s = ?s" using Inr w r by (simp add: work_chunk_def)
    have f: "db_docs db1 = db_docs (ws_db s)" "db_sessions db1 = db_sessions (ws_db s)"
      "db_banks db1 = db_banks (ws_db s)" by (subst ok(3), simp)+
    have n: "nodes_new db1 = nodes_new (ws_db s) @ node_drafts env task (ws_abs_index s) facts"
      using ok(2) by (simp add: nodes_new_def)
    have l: "length (node_drafts env task (ws_abs_index s) facts) = length facts"
      by (simp add: node_drafts_def)
    have g: "ingested env task (node_drafts env task (ws_abs_index s) facts) c i"
      using Inr by (auto simp: ingested_def)
    show ?thesis unfolding e advanced_defs
      using f n l g ok(1)
      by (intro conjI exI [of _ "node_drafts env task (ws_abs_index s) facts"]) (simp_all add: attempted_def)
  qed
qed

lemma run_chunks_advanced:
  "run_chunks env task n i cs s = (s', st) \<Longrightarrow>
     \<exists>k\<le>length cs. (st = Finished \<longrightarrow> k = length cs) \<and> advanced env task i cs k s s'"
proof (induction cs arbitrary: i s)
  case Nil
  then show ?case by simp
next
  case (Cons c cs)
  let ?skip = "blank c \<or> is_degenerate_text (we_alphanumeric env) c"
  let ?s1 = "if ?skip then skip_chunk s else work_chunk env task i s"
  have a: "advanced env task i [c] 1 s (flush_state env task (Suc i) ?s1)"
    using advanced_skip advanced_work by (simp add: advanced_flush)
  show ?case
  proof (cases "we_timed_out env i \<or> we_stop_before env i \<or> (\<not> ?skip \<and> we_stop_mid env i)")
    case True
    with Cons.prems have "s' = s" "st \<noteq> Finished" by (auto split: if_splits)
    then show ?thesis by (intro exI [of _ 0]) simp
  next
    case False
    with Cons.prems have r: "run_chunks env task n (Suc i) cs (flush_state env task (Suc i) ?s1) = (s', st)"
      by (auto split: if_splits)
    from Cons.IH [OF r] obtain k where "k \<le> length cs" "st = Finished \<longrightarrow> k = length cs"
      "advanced env task (Suc i) cs k (flush_state env task (Suc i) ?s1) s'" by blast
    with advanced_step [OF a] show ?thesis by (intro exI [of _ "Suc k"]) auto
  qed
qed


section \<open>What a settled job means\<close>

lemma complete_run_frame [simp]:
  "db_nodes (complete_run env task k db) = db_nodes db" "db_jobs (complete_run env task k db) = db_jobs db"
  "db_banks (complete_run env task k db) = db_banks db"
  by (simp_all add: complete_run_def Let_def split: option.splits sum.splits prod.splits)

lemma settle_result:
  assumes "settle env task n (s, st) = (db', p)"
  shows "nodes_new db' = nodes_new (ws_db s)"
    and "db_docs db' \<noteq> db_docs (ws_db s) \<or> db_sessions db' \<noteq> db_sessions (ws_db s) \<Longrightarrow>
      st = Finished \<and> is_clean st (ws_progress s) \<and> jp_status p = JDone"
    and "attempted p = attempted (ws_progress s)" "jp_chunks_failed p = jp_chunks_failed (ws_progress s)"
      "jp_chunks_done p = jp_chunks_done (ws_progress s)" "jp_facts_written p = jp_facts_written (ws_progress s)"
    and "jp_status p = (if st = Interrupted then JPending else settle_status st (ws_progress s))"
proof -
  have clean: "is_clean Finished (ws_progress s) \<Longrightarrow> settle_status Finished (ws_progress s) = JDone"
    by (auto simp: is_clean_def settle_status_def)
  have p: "p = (ws_progress s)\<lparr>jp_status := (if st = Interrupted then JPending else settle_status st (ws_progress s)),
      jp_error := (if st = Interrupted then ws_last_error s
        else coalesce (case st of Aborted m \<Rightarrow> Some m | _ \<Rightarrow> None) (ws_last_error s))\<rparr>"
    using assms by (auto simp: settle_def Let_def)
  show "nodes_new db' = nodes_new (ws_db s)"
    using assms by (auto simp: settle_def Let_def nodes_new_def split: if_splits)
  show "attempted p = attempted (ws_progress s)" "jp_chunks_failed p = jp_chunks_failed (ws_progress s)"
    "jp_chunks_done p = jp_chunks_done (ws_progress s)" "jp_facts_written p = jp_facts_written (ws_progress s)"
    "jp_status p = (if st = Interrupted then JPending else settle_status st (ws_progress s))"
    unfolding p by (simp_all add: attempted_def)
  show "st = Finished \<and> is_clean st (ws_progress s) \<and> jp_status p = JDone"
    if d: "db_docs db' \<noteq> db_docs (ws_db s) \<or> db_sessions db' \<noteq> db_sessions (ws_db s)"
  proof -
    have "is_clean st (ws_progress s) \<and> st \<noteq> Interrupted"
    proof (rule ccontr)
      assume "\<not> (is_clean st (ws_progress s) \<and> st \<noteq> Interrupted)"
      with assms have "db_docs db' = db_docs (ws_db s) \<and> db_sessions db' = db_sessions (ws_db s)"
        by (auto simp: settle_def Let_def split: if_splits)
      with d show False by blast
    qed
    moreover from this have "st = Finished" by (cases st) (auto simp: is_clean_def)
    ultimately show ?thesis using clean unfolding p by simp
  qed
qed

lemma start_state_sel:
  "ws_progress (start_state env task n db) = jp_default\<lparr>jp_status := JRunning, jp_chunks_total := int n,
      jp_chunks_done := jp_chunks_done (resumed_of task), jp_chunks_failed := jp_chunks_failed (resumed_of task),
      jp_chunks_skipped := jp_chunks_skipped (resumed_of task),
      jp_facts_written := jp_facts_written (resumed_of task)\<rparr>"
  "db_docs (ws_db (start_state env task n db)) = db_docs db"
  "db_sessions (ws_db (start_state env task n db)) = db_sessions db"
  "nodes_new (ws_db (start_state env task n db)) = nodes_new db"
  by (simp_all add: start_state_def Let_def nodes_new_def)

text \<open>One run of a job, with the loop it went through.\<close>

lemma run_job_cases [consumes 1, case_names refused ran]:
  assumes "run_job_inner env task db = (db', p, res)"
  obtains
    "res = None" "nodes_new db' = nodes_new db" "db_docs db' = db_docs db" "db_sessions db' = db_sessions db"
  | s st k where "res = Some st" "settle env task (length (task_chunks env task)) (s, st) = (db', p)"
      "run_chunks env task (length (task_chunks env task)) (already_of task)
        (drop (already_of task) (task_chunks env task))
        (start_state env task (length (task_chunks env task)) db) = (s, st)"
      "k \<le> length (task_chunks env task) - already_of task"
      "st = Finished \<longrightarrow> k = length (task_chunks env task) - already_of task"
      "advanced env task (already_of task) (drop (already_of task) (task_chunks env task)) k
        (start_state env task (length (task_chunks env task)) db) s"
proof (cases "we_chunking_panics env = None \<and> \<not> (0 < already_of task \<and> rt_chunker task \<noteq> chunker_version)")
  case False
  have "res = None \<and> nodes_new db' = nodes_new db \<and> db_docs db' = db_docs db \<and> db_sessions db' = db_sessions db"
    using False assms
    by (auto simp: run_job_inner_def nodes_new_def Let_def split: option.splits)
  then show ?thesis by (intro that(1)) simp_all
next
  case True
  let ?n = "length (task_chunks env task)" and ?a = "already_of task"
  obtain s st where r: "run_chunks env task ?n ?a (drop ?a (task_chunks env task)) (start_state env task ?n db) = (s, st)"
    by (cases "run_chunks env task ?n ?a (drop ?a (task_chunks env task)) (start_state env task ?n db)")
  have "res = Some st \<and> settle env task ?n (s, st) = (db', p)"
    using True assms r by (auto simp: run_job_inner_def Let_def split: prod.splits)
  moreover obtain k where "k \<le> length (drop ?a (task_chunks env task))"
    "st = Finished \<longrightarrow> k = length (drop ?a (task_chunks env task))"
    "advanced env task ?a (drop ?a (task_chunks env task)) k (start_state env task ?n db) s"
    using run_chunks_advanced [OF r] by blast
  ultimately show ?thesis using r by (intro that(2) [of st s k]) simp_all
qed

text \<open>C31: Only a complete ingestion is marked complete. When a run of the worker changes a document's
  content hash or a session's durable cursor, it finished its loop with status \<open>done\<close>, no chunk of the
  job failed in this run or an earlier one, and every chunk from where the run started either carries no
  text worth extracting or was extracted, with a stored node for each of its facts.\<close>

theorem worker_marks_only_complete:
  assumes "run_job_inner env task db = (db', p, res)"
    and "db_docs db' \<noteq> db_docs db \<or> db_sessions db' \<noteq> db_sessions db"
    and "0 \<le> jp_chunks_failed (resumed_of task)"
  shows "res = Some Finished \<and> jp_status p = JDone \<and> jp_chunks_failed p = 0
    \<and> (\<forall>j. already_of task \<le> j \<longrightarrow> j < length (task_chunks env task) \<longrightarrow>
         ingested env task (nodes_new db') (task_chunks env task ! j) j)"
  using assms(1)
proof (cases rule: run_job_cases)
  case refused
  with assms(2) show ?thesis by simp
next
  case (ran s st k)
  let ?a = "already_of task" and ?cs = "task_chunks env task"
  let ?s0 = "start_state env task (length ?cs) db"
  from ran(6) have fr: "db_docs (ws_db s) = db_docs db" "db_sessions (ws_db s) = db_sessions db"
    "jp_chunks_failed (resumed_of task) \<le> jp_chunks_failed (ws_progress s)"
    by (simp_all add: advanced_defs start_state_sel)
  with assms(2) settle_result(2) [OF ran(2)]
  have st: "st = Finished" "is_clean st (ws_progress s)" "jp_status p = JDone" by auto
  then have zero: "jp_chunks_failed (ws_progress s) = 0" by (simp add: is_clean_def)
  with fr(3) assms(3) have same: "jp_chunks_failed (ws_progress s) = jp_chunks_failed (ws_progress ?s0)"
    by (simp add: start_state_sel)
  with ran(6) obtain new where new: "nodes_new (ws_db s) = nodes_new (ws_db ?s0) @ new"
    "\<forall>j<k. ingested env task new (drop ?a ?cs ! j) (?a + j)"
    by (auto simp: advanced_defs)
  have "ingested env task (nodes_new db') (?cs ! j) j" if "?a \<le> j" "j < length ?cs" for j
  proof -
    have "j - ?a < k" using ran(5) st(1) that by simp
    then have "ingested env task new (drop ?a ?cs ! (j - ?a)) (?a + (j - ?a))"
      using new(2) by blast
    then have "ingested env task new (?cs ! j) j" using that by simp
    then show ?thesis using settle_result(1) [OF ran(2)] new(1) by simp
  qed
  with st zero ran(1) settle_result(4) [OF ran(2)] show ?thesis by simp
qed

text \<open>C34: A finished job accounts for every chunk, and its status says what happened to them. Run from
  the start, or resumed at a chunk it has, its counters add up to the number of chunks; it is \<open>done\<close>
  exactly when no chunk failed, \<open>partial\<close> when some failed and some were written, and \<open>failed\<close> when none
  was; and the nodes in the table grew by exactly the facts it counted.\<close>

theorem worker_accounts_for_every_chunk:
  assumes "run_job_inner env task db = (db', p, Some Finished)"
    and "attempted (resumed_of task) = int (already_of task)" "already_of task \<le> length (task_chunks env task)"
    and "0 \<le> jp_chunks_failed (resumed_of task)"
  shows "attempted p = int (length (task_chunks env task))
    \<and> (jp_status p = JDone \<longleftrightarrow> jp_chunks_failed p = 0)
    \<and> (jp_status p = JPartial \<longleftrightarrow> 0 < jp_chunks_failed p \<and> jp_chunks_done p \<noteq> 0)
    \<and> (jp_status p = JFailed \<longleftrightarrow> 0 < jp_chunks_failed p \<and> jp_chunks_done p = 0)
    \<and> int (length (db_nodes db')) = int (length (db_nodes db))
        + jp_facts_written p - jp_facts_written (resumed_of task)"
  using assms(1)
proof (cases rule: run_job_cases)
  case refused
  then show ?thesis by simp
next
  case (ran s st k)
  let ?s0 = "start_state env task (length (task_chunks env task)) db"
  from ran(1) have st: "st = Finished" by simp
  from ran(6) obtain new where "nodes_new (ws_db s) = nodes_new (ws_db ?s0) @ new"
    "int (length new) = jp_facts_written (ws_progress s) - jp_facts_written (ws_progress ?s0)"
    by (auto simp: advanced_defs)
  then have len: "int (length (db_nodes db')) = int (length (db_nodes db))
      + jp_facts_written (ws_progress s) - jp_facts_written (resumed_of task)"
  proof -
    assume a: "nodes_new (ws_db s) = nodes_new (ws_db ?s0) @ new"
      "int (length new) = jp_facts_written (ws_progress s) - jp_facts_written (ws_progress ?s0)"
    have "map mn_new (db_nodes db') = map mn_new (db_nodes db) @ new"
      using settle_result(1) [OF ran(2)] a(1) start_state_sel(4) [of env task _ db] by (simp add: nodes_new_def)
    from arg_cong [OF this, of length] a(2) show ?thesis by (simp add: start_state_sel(1))
  qed
  from ran(6) have "attempted (ws_progress s) = attempted (ws_progress ?s0) + int k"
    "jp_chunks_failed (ws_progress ?s0) \<le> jp_chunks_failed (ws_progress s)"
    by (simp_all add: advanced_defs)
  then have c: "attempted (ws_progress s) = attempted (resumed_of task) + int k"
    "0 \<le> jp_chunks_failed (ws_progress s)"
    using assms(4) by (simp_all add: start_state_sel attempted_def)
  have "k = length (task_chunks env task) - already_of task" using ran(5) st by simp
  then have "attempted (ws_progress s) = int (length (task_chunks env task))"
    using c(1) assms(2,3) by simp
  with c(2) len st settle_result(3-7) [OF ran(2)] show ?thesis
    by (auto simp: settle_status_def Let_def)
qed


section \<open>Pausing and resuming\<close>

text \<open>Two versions of the jobs table that differ only in what the next update of the job overwrites.\<close>

definition same_but_job :: "str \<Rightarrow> daemon_db \<Rightarrow> daemon_db \<Rightarrow> bool" where
  "same_but_job job_id db db' \<longleftrightarrow> db' = db\<lparr>db_jobs := db_jobs db'\<rparr> \<and>
     (\<forall>q now. job_update (db_jobs db') job_id q now = job_update (db_jobs db) job_id q now)"

definition same_state :: "str \<Rightarrow> worker_state \<Rightarrow> worker_state \<Rightarrow> bool" where
  "same_state job_id s s' \<longleftrightarrow> s' = s\<lparr>ws_db := ws_db s'\<rparr> \<and> same_but_job job_id (ws_db s) (ws_db s')"

lemma update_row_twice:
  "\<not> is_terminal (jp_status p) \<Longrightarrow> jp_detail p = None \<Longrightarrow>
     update_row (update_row j p now) q later_now = update_row j q later_now"
  using terminal_str [of "jp_status p"] by (simp add: update_row_def del: lit_Cons)

lemma job_update_twice:
  "\<not> is_terminal (jp_status p) \<Longrightarrow> jp_detail p = None \<Longrightarrow>
     job_update (job_update t i p now) i q later_now = job_update t i q later_now"
  by (simp add: job_update_def update_row_twice)

lemma same_but_job_refl [simp]: "same_but_job i db db"
  by (simp add: same_but_job_def)

lemma same_but_job_flush:
  assumes "\<not> is_terminal (jp_status p)" "jp_detail p = None" "we_flush_ok env k" "same_but_job i db db'"
  shows "same_but_job i db (flush env i k p db')"
proof -
  from assms(4) have "db' = db\<lparr>db_jobs := db_jobs db'\<rparr>" by (simp add: same_but_job_def)
  then have "flush env i k p db' = db\<lparr>db_jobs := job_update (db_jobs db') i p (we_now env k)\<rparr>"
    using assms(3) by (metis daemon_db.fold_congs(3) daemon_db.unfold_congs(3) daemon_db.update_convs(3)
        daemon_db.surjective flush_def)
  with assms show ?thesis by (simp add: same_but_job_def job_update_twice)
qed

lemma flush_same:
  assumes "same_but_job i db db'" "we_flush_ok env k"
  shows "flush env i k p db' = flush env i k p db"
proof -
  from assms(1) obtain J where J: "db' = db\<lparr>db_jobs := J\<rparr>" "job_update J i p (we_now env k) =
      job_update (db_jobs db) i p (we_now env k)" by (metis daemon_db.select_convs(3) daemon_db.surjective
        daemon_db.update_convs(3) same_but_job_def)
  then show ?thesis using assms(2) by (simp add: flush_def)
qed


text \<open>The work on a chunk reads neither the stop signals, nor the task's resume point, nor the jobs.\<close>

lemma node_drafts_resume [simp]:
  "node_drafts env (task\<lparr>rt_resume := r\<rparr>) base facts = node_drafts env task base facts"
  by (simp add: node_drafts_def node_draft_def fact_metadata_def)

lemma node_drafts_stop [simp]:
  "node_drafts (env\<lparr>we_stop_before := f\<rparr>) task base facts = node_drafts env task base facts"
  by (simp add: node_drafts_def node_draft_def fact_metadata_def)

lemmas branch_congs = sum.case_cong prod.case_cong option.case_cong ollama_error.case_cong if_cong

lemma extract_chunk_stop [simp]: "extract_chunk (env\<lparr>we_stop_before := f\<rparr>) i = extract_chunk env i"
  by (simp add: extract_chunk_def cong: branch_congs)

lemma work_chunk_stop [simp]:
  "work_chunk (env\<lparr>we_stop_before := f\<rparr>) task i s = work_chunk env task i s"
  by (simp add: work_chunk_def write_facts_def Let_def cong: branch_congs)

lemma work_chunk_resume [simp]:
  "work_chunk env (task\<lparr>rt_resume := r\<rparr>) i s = work_chunk env task i s"
  by (simp add: work_chunk_def write_facts_def Let_def cong: branch_congs)

lemma flush_stop [simp]: "flush (env\<lparr>we_stop_before := f\<rparr>) = flush env"
  by (intro ext) (simp add: flush_def)

lemma flush_state_stop [simp]:
  "flush_state (env\<lparr>we_stop_before := f\<rparr>) task k s = flush_state env task k s"
  "flush_state env (task\<lparr>rt_resume := r\<rparr>) k s = flush_state env task k s"
  by (simp_all add: flush_state_def)

lemma task_chunks_frame [simp]:
  "task_chunks (env\<lparr>we_stop_before := f\<rparr>) task = task_chunks env task"
  "task_chunks env (task\<lparr>rt_resume := r\<rparr>) = task_chunks env task"
  by (simp_all add: task_chunks_def)

lemma run_chunks_resume [simp]:
  "run_chunks env (task\<lparr>rt_resume := r\<rparr>) n i cs s = run_chunks env task n i cs s"
  by (induction cs arbitrary: i s) (simp_all add: timeout_message_def)

lemma settle_resume [simp]: "settle env (task\<lparr>rt_resume := r\<rparr>) n x = settle env task n x"
  by (simp add: settle_def complete_run_def Let_def cong: branch_congs)

definition quiet :: "worker_env \<Rightarrow> bool" where
  "quiet env \<longleftrightarrow> we_chunking_panics env = None \<and>
     (\<forall>i. \<not> we_timed_out env i \<and> \<not> we_stop_before env i \<and> \<not> we_stop_mid env i \<and> we_flush_ok env i)"

text \<open>The loop paused before chunk \<open>k\<close> is the undisturbed loop over the chunks before it.\<close>

lemma run_chunks_paused:
  assumes "quiet env"
  shows "run_chunks (env\<lparr>we_stop_before := \<lambda>j. j = i + length xs\<rparr>) task n i (xs @ y # ys) s
    = (fst (run_chunks env task n i xs s), Interrupted)"
proof (induction xs arbitrary: i s)
  case Nil
  with assms show ?case by (simp add: quiet_def)
next
  case (Cons x xs)
  let ?s1 = "flush_state env task (Suc i) (if blank x \<or> is_degenerate_text (we_alphanumeric env) x
    then skip_chunk s else work_chunk env task i s)"
  from Cons.IH [of "Suc i" ?s1] assms show ?case by (auto simp: quiet_def)
qed

lemma run_chunks_split:
  assumes "quiet env"
  shows "run_chunks env task n i (xs @ ys) s
    = run_chunks env task n (i + length xs) ys (fst (run_chunks env task n i xs s))"
proof (induction xs arbitrary: i s)
  case (Cons x xs)
  let ?s1 = "flush_state env task (Suc i) (if blank x \<or> is_degenerate_text (we_alphanumeric env) x
    then skip_chunk s else work_chunk env task i s)"
  from Cons.IH [of "Suc i" ?s1] assms show ?case by (auto simp: quiet_def)
qed simp

text \<open>The counters and the text columns of a running job's progress.\<close>

definition running :: "nat \<Rightarrow> worker_state \<Rightarrow> bool" where
  "running n s \<longleftrightarrow> jp_status (ws_progress s) = JRunning \<and> jp_chunks_total (ws_progress s) = int n
     \<and> jp_error (ws_progress s) = None \<and> jp_detail (ws_progress s) = None
     \<and> int (ws_abs_index s) = jp_facts_written (ws_progress s)
     \<and> 0 \<le> jp_chunks_done (ws_progress s) \<and> 0 \<le> jp_chunks_failed (ws_progress s)
     \<and> 0 \<le> jp_chunks_skipped (ws_progress s)"

lemma running_work: "running n s \<Longrightarrow> running n (work_chunk env task i s)"
  by (auto simp: running_def work_chunk_def fail_chunk_def dest: write_facts_ok(1) split: sum.splits prod.splits)

lemma running_skip: "running n s \<Longrightarrow> running n (skip_chunk s)"
  by (simp add: running_def skip_chunk_def)

lemma running_flush [simp]: "running n (flush_state env task k s) = running n s"
  by (simp add: running_def flush_state_def)

lemma running_chunks: "running n s \<Longrightarrow> running n (fst (run_chunks env task m i cs s))"
  by (induction cs arbitrary: i s) (auto simp: running_work running_skip)

text \<open>States that differ only in the job's row stay so, and are equal after a flush.\<close>

lemma write_facts_same:
  assumes "same_but_job j db db'"
  shows "write_facts env task i facts base db' =
    (case write_facts env task i facts base db of Inl e \<Rightarrow> Inl e
     | Inr (w, db1) \<Rightarrow> Inr (w, db1\<lparr>db_jobs := db_jobs db'\<rparr>))"
proof -
  from assms have "db' = db\<lparr>db_jobs := db_jobs db'\<rparr>" by (simp add: same_but_job_def)
  then obtain J where "db' = db\<lparr>db_jobs := J\<rparr>" by blast
  then show ?thesis
    by (auto simp: write_facts_def Let_def split: sum.splits prod.splits if_splits)
qed

lemma work_chunk_same:
  assumes "same_state j s s'"
  shows "same_state j (work_chunk env task i s) (work_chunk env task i s')"
proof -
  from assms obtain db' where s': "s' = s\<lparr>ws_db := db'\<rparr>" "same_but_job j (ws_db s) db'"
    by (auto simp: same_state_def)
  show ?thesis
  proof (cases "extract_chunk env i")
    case (Inl e)
    with assms s' show ?thesis by (simp add: work_chunk_def fail_chunk_def same_state_def)
  next
    case x: (Inr facts)
    show ?thesis
    proof (cases "write_facts env task i facts (ws_abs_index s) (ws_db s)")
      case (Inl e)
      with x s' write_facts_same [OF s'(2), of env task i facts "ws_abs_index s"] show ?thesis
        by (simp add: work_chunk_def fail_chunk_def same_state_def)
    next
      case (Inr r)
      obtain w db1 where r: "r = (w, db1)" by (cases r)
      have "db_jobs db1 = db_jobs (ws_db s)"
        by (subst write_facts_ok(3) [OF Inr [unfolded r]]) simp
      with s'(2) have "same_but_job j db1 (db1\<lparr>db_jobs := db_jobs db'\<rparr>)" by (simp add: same_but_job_def)
      with Inr r x s' write_facts_same [OF s'(2), of env task i facts "ws_abs_index s"] show ?thesis
        by (simp add: work_chunk_def same_state_def)
    qed
  qed
qed

lemma skip_chunk_same: "same_state j s s' \<Longrightarrow> same_state j (skip_chunk s) (skip_chunk s')"
  by (simp add: same_state_def skip_chunk_def) (metis worker_state.select_convs(1,4) worker_state.surjective
      worker_state.update_convs(1,4))

lemma flush_state_same:
  assumes "same_state (rt_job_id task) s s'" "we_flush_ok env k"
  shows "flush_state env task k s' = flush_state env task k s"
proof -
  from assms(1) obtain db' where s': "s' = s\<lparr>ws_db := db'\<rparr>" "same_but_job (rt_job_id task) (ws_db s) db'"
    by (auto simp: same_state_def)
  with flush_same [OF s'(2) assms(2)] show ?thesis by (simp add: flush_state_def)
qed

lemma run_chunks_same:
  assumes "quiet env" "same_state (rt_job_id task) s s'" "cs \<noteq> []"
  shows "run_chunks env task n i cs s' = run_chunks env task n i cs s"
proof -
  obtain c cs' where cs: "cs = c # cs'" using assms(3) by (cases cs) auto
  have "flush_state env task (Suc i) (work_chunk env task i s') = flush_state env task (Suc i) (work_chunk env task i s)"
    "flush_state env task (Suc i) (skip_chunk s') = flush_state env task (Suc i) (skip_chunk s)"
    using assms(1) by (auto intro!: flush_state_same work_chunk_same skip_chunk_same assms(2) simp: quiet_def)
  with assms(1) show ?thesis by (simp add: cs quiet_def)
qed


lemma running_start:
  "rt_resume task = None \<Longrightarrow> running n (start_state env task n db)"
  by (simp add: running_def start_state_def resumed_of_def jp_default_def Let_def)

text \<open>Resuming from the row a paused run left restores its state, up to the job's row.\<close>

definition paused :: "worker_state \<Rightarrow> job_progress" where
  "paused s = (ws_progress s)\<lparr>jp_status := JPending, jp_error := ws_last_error s\<rparr>"

lemma resumed_start:
  assumes "quiet env" "running n s"
  shows "same_state (rt_job_id task) s (start_state env (task\<lparr>rt_resume := Some (paused s)\<rparr>) n
      (flush env (rt_job_id task) k (paused s) (ws_db s)))"
proof -
  let ?j = "rt_job_id task"
  have p: "jp_default\<lparr>jp_status := JRunning, jp_chunks_total := int n,
      jp_chunks_done := jp_chunks_done (ws_progress s), jp_chunks_failed := jp_chunks_failed (ws_progress s),
      jp_chunks_skipped := jp_chunks_skipped (ws_progress s),
      jp_facts_written := jp_facts_written (ws_progress s)\<rparr> = ws_progress s"
    using assms(2) by (simp add: running_def jp_default_def)
  have a: "nat (jp_facts_written (ws_progress s)) = ws_abs_index s"
    using assms(2) unfolding running_def by linarith
  have st: "\<not> is_terminal (jp_status (paused s))" "jp_detail (paused s) = None"
    "\<not> is_terminal (jp_status (ws_progress s))" "jp_detail (ws_progress s) = None"
    using assms(2) by (simp_all add: running_def paused_def is_terminal_def)
  have f: "we_flush_ok env k" "we_flush_ok env 0" using assms(1) by (simp_all add: quiet_def)
  have "same_but_job ?j (ws_db s) (flush env ?j 0 (ws_progress s) (flush env ?j k (paused s) (ws_db s)))"
    by (rule same_but_job_flush [OF st(3,4) f(2)], rule same_but_job_flush [OF st(1,2) f(1)]) simp
  moreover have "start_state env (task\<lparr>rt_resume := Some (paused s)\<rparr>) n (flush env ?j k (paused s) (ws_db s))
      = s\<lparr>ws_db := flush env ?j 0 (ws_progress s) (flush env ?j k (paused s) (ws_db s))\<rparr>"
    using p a by (simp add: start_state_def resumed_of_def Let_def paused_def)
  ultimately show ?thesis by (simp add: same_state_def)
qed

lemma run_job_quiet:
  assumes "quiet env" "already_of task = 0 \<or> rt_chunker task = chunker_version"
    and "run_chunks env' task (length (task_chunks env task)) (already_of task)
      (drop (already_of task) (task_chunks env task))
      (start_state env' task (length (task_chunks env task)) db) = (s, st)"
    and "env' = env\<lparr>we_stop_before := f\<rparr>" "settle env' task (length (task_chunks env task)) (s, st) = (db', p)"
  shows "run_job_inner env' task db = (db', p, Some st)"
  using assms by (auto simp: run_job_inner_def quiet_def Let_def)

text \<open>C32: Pausing a job for a shutdown and resuming it is the same as never having paused. A job whose
  loop is stopped before any of its chunks leaves its row \<open>pending\<close>; run again from that row's
  counters, it ends with exactly the database, the same progress and the same result as one undisturbed
  run: no chunk is extracted twice and none is left out.\<close>

theorem resume_equals_uninterrupted:
  assumes "quiet env" and "rt_resume task = None" and "rt_chunker task = chunker_version"
    and "k < length (task_chunks env task)"
    and "run_job_inner (env\<lparr>we_stop_before := \<lambda>j. j = k\<rparr>) task db = (db1, p1, r1)"
  shows "r1 = Some Interrupted \<and> jp_status p1 = JPending
    \<and> run_job_inner env (task\<lparr>rt_resume := Some p1\<rparr>) db1 = run_job_inner env task db"
proof -
  let ?cs = "task_chunks env task" and ?env = "env\<lparr>we_stop_before := \<lambda>j. j = k\<rparr>" and ?j = "rt_job_id task"
  let ?n = "length ?cs" and ?xs = "take k ?cs" and ?ys = "drop k ?cs"
  let ?s0 = "start_state env task ?n db"
  obtain y ys where ys: "?ys = y # ys" using assms(4) by (cases ?ys) auto
  have xs: "length ?xs = k" using assms(4) by simp
  have a0: "already_of task = 0" by (simp add: already_of_def resumed_of_def assms(2) jp_default_def)
  define s where "s = fst (run_chunks env task ?n 0 ?xs ?s0)"
  have run0: "running ?n s" unfolding s_def by (intro running_chunks running_start assms(2))
  have start: "start_state ?env task ?n db = ?s0" by (simp add: start_state_def resumed_of_def)
  have "run_chunks ?env task ?n 0 ?cs ?s0 = (s, Interrupted)"
    using run_chunks_paused [OF assms(1), of 0 ?xs task ?n y ys ?s0]
    unfolding xs ys [symmetric] append_take_drop_id add_0 s_def .
  then have i: "run_job_inner ?env task db = (flush env ?j (Suc ?n) (paused s) (ws_db s), paused s, Some Interrupted)"
    by (intro run_job_quiet [OF assms(1)]) (simp_all add: a0 start settle_def paused_def Let_def)
  with assms(5) have p1: "p1 = paused s" "db1 = flush env ?j (Suc ?n) (paused s) (ws_db s)"
    "r1 = Some Interrupted" by auto
  obtain k' where k': "run_chunks env task ?n 0 ?xs ?s0 = (s, snd (run_chunks env task ?n 0 ?xs ?s0))"
    "k' \<le> length ?xs" "snd (run_chunks env task ?n 0 ?xs ?s0) = Finished \<longrightarrow> k' = length ?xs"
    "advanced env task 0 ?xs k' ?s0 s"
    using run_chunks_advanced [of env task ?n 0 ?xs ?s0 s "snd (run_chunks env task ?n 0 ?xs ?s0)"]
    by (auto simp: s_def)
  have "snd (run_chunks env task ?n i cs t) = Finished" for i cs t
    using assms(1) by (induction cs arbitrary: i t) (auto simp: quiet_def)
  with k' xs have "attempted (ws_progress s) = int k"
    by (simp add: advanced_defs start_state_sel attempted_def resumed_of_def assms(2) jp_default_def)
  then have a1: "already_of (task\<lparr>rt_resume := Some (paused s)\<rparr>) = k"
    by (simp add: already_of_def resumed_of_def paused_def attempted_def)
  let ?t = "task\<lparr>rt_resume := Some (paused s)\<rparr>"
  have "run_chunks env ?t ?n k ?ys (start_state env ?t ?n db1) = run_chunks env task ?n k ?ys s"
    unfolding run_chunks_resume p1(2)
    by (rule run_chunks_same [OF assms(1) resumed_start [OF assms(1) run0]]) (simp add: ys)
  also have "\<dots> = run_chunks env task ?n 0 ?cs ?s0"
    using run_chunks_split [OF assms(1), of task ?n 0 ?xs ?ys ?s0]
    unfolding xs append_take_drop_id add_0 s_def by simp
  finally have loops: "run_chunks env ?t ?n k ?ys (start_state env ?t ?n db1) = run_chunks env task ?n 0 ?cs ?s0" .
  obtain e st where fin: "run_chunks env task ?n 0 ?cs ?s0 = (e, st)"
    by (cases "run_chunks env task ?n 0 ?cs ?s0")
  obtain db2 p2 where se: "settle env task ?n (e, st) = (db2, p2)" by (cases "settle env task ?n (e, st)")
  have "run_job_inner env task db = (db2, p2, Some st)"
    by (rule run_job_quiet [OF assms(1), where f = "we_stop_before env"]) (use a0 fin se in simp_all)
  moreover have "run_job_inner env ?t db1 = (db2, p2, Some st)"
    by (rule run_job_quiet [OF assms(1), where f = "we_stop_before env"])
      (use a1 loops fin se assms(3) in simp_all)
  ultimately show ?thesis by (simp add: p1 paused_def)
qed


section \<open>The theorems on concrete input\<close>

definition sample_fact :: parsed_fact where
  "sample_fact = \<lparr>pf_text = [104], pf_fact_type = World, pf_fact_kind = [101], pf_occurred_start = None,
     pf_occurred_end = None, pf_where_field = None, pf_entities = [], pf_supersedes = [], pf_expires_at = None\<rparr>"

definition sample_env :: worker_env where
  "sample_env =
     \<lparr>we_parse = sample_parse, we_ser = sample_ser, we_alphanumeric = \<lambda>_. True, we_iso_ms = \<lambda>_. None,
      we_uuid = \<lambda>_. [], we_show = \<lambda>_. [], we_cfg_chunk_size = 3000, we_wall_timeout_secs = 600,
      we_chunking_panics = None, we_timed_out = \<lambda>_. False, we_stop_before = \<lambda>_. False,
      we_stop_mid = \<lambda>_. False, we_known = \<lambda>_. [],
      we_extract = \<lambda>i _. if i = 0 then Inr [] else Inr [sample_fact], we_now = int,
      we_insert_ok = \<lambda>_. True, we_supersede_ok = \<lambda>_. True, we_flush_ok = \<lambda>_. True, we_hash_ok = True,
      we_confirm_ok = True, we_inference = [], we_json_set = \<lambda>d _ _. d, we_detail_ok = False\<rparr>"

definition sample_task :: retain_task where
  "sample_task =
     \<lparr>rt_job_id = [106], rt_bank_id = [98], rt_document_id = 1, rt_session_id = None,
      rt_transcript = [97, 32, 98, 98], rt_event_date_ms = 0, rt_mission = None, rt_context = None,
      rt_tags = [], rt_content_hash = [104], rt_byte_offset = Some 9, rt_offset_from = Some 0,
      rt_chunk_size = 2, rt_chunker = 1, rt_resume = None\<rparr>"

definition sample_db :: daemon_db where
  "sample_db =
     \<lparr>db_banks = [[98]], db_sessions = [], db_jobs = [],
      db_docs = [\<lparr>dc_id = 1, dc_bank_id = [98], dc_doc_key = [100], dc_title = None, dc_metadata = None,
                  dc_created_at = 0, dc_updated_at = 0\<rparr>], db_nodes = []\<rparr>"

lemma sample_chunks: "task_chunks sample_env sample_task = [[97], [98, 98]]"
  by (simp add: task_chunks_def sample_env_def sample_task_def sample_words)

lemma sample_not_degenerate:
  "\<not> is_degenerate_text (we_alphanumeric sample_env) [97]"
  "\<not> is_degenerate_text (we_alphanumeric sample_env) [98, 98]" "\<not> blank [97]" "\<not> blank [98, 98]"
  by (simp_all add: is_degenerate_text_def sample_env_def trim_def trim_start_def trim_end_def is_ws_def
      junk_texts_def punct_only_def blank_iff)

lemma sample_quiet: "quiet sample_env"
  by (simp add: quiet_def sample_env_def)

lemma sample_loop_finishes: "snd (run_chunks sample_env task n i cs s) = Finished"
  using sample_quiet by (induction cs arbitrary: i s) (auto simp: quiet_def)

lemma sample_resumed: "resumed_of sample_task = jp_default" "already_of sample_task = 0"
  by (simp_all add: already_of_def resumed_of_def sample_task_def jp_default_def)

lemma sample_work:
  "jp_chunks_failed (ws_progress (work_chunk sample_env task i s)) = jp_chunks_failed (ws_progress s)
     \<and> jp_chunks_done (ws_progress (work_chunk sample_env task i s)) = jp_chunks_done (ws_progress s) + 1
     \<and> db_docs (ws_db (work_chunk sample_env task i s)) = db_docs (ws_db s)"
  if "task = sample_task" and "db_banks (ws_db s) = [[98]]" and "db_docs (ws_db s) = db_docs sample_db"
proof (cases "i = 0")
  case True
  then show ?thesis by (simp add: work_chunk_def extract_chunk_def sample_env_def write_facts_def)
next
  case False
  then have x: "extract_chunk sample_env i = Inr [sample_fact]"
    by (simp add: extract_chunk_def sample_env_def)
  let ?items = "map (\<lambda>n. (n, rt_tags sample_task)) (node_drafts sample_env sample_task (ws_abs_index s) [sample_fact])"
  obtain ids t' where a: "insert_all (db_nodes (ws_db s)) (we_now sample_env i) (we_uuid sample_env) ?items = (ids, t')"
    by (cases "insert_all (db_nodes (ws_db s)) (we_now sample_env i) (we_uuid sample_env) ?items")
  have la: "list_all (\<lambda>(n, _). nn_bank_id n \<in> set (db_banks (ws_db s)) \<and>
      (case nn_document_id n of None \<Rightarrow> True | Some d \<Rightarrow> d \<in> set (map dc_id (db_docs (ws_db s))))) ?items"
    by (simp add: that node_drafts_def node_draft_def Let_def) (simp add: sample_task_def sample_db_def)
  have b: "insert_batch (db_banks (ws_db s)) (map dc_id (db_docs (ws_db s)))
      (db_nodes (ws_db s)) (we_now sample_env i) (we_uuid sample_env) ?items = Inr (ids, t')"
    unfolding insert_batch_def if_P [OF la] a ..
  then have "\<exists>r. write_facts sample_env sample_task i [sample_fact] (ws_abs_index s) (ws_db s)
      = Inr (length ids, (ws_db s)\<lparr>db_nodes := r\<rparr>)"
    using that(2) by (simp add: write_facts_def Let_def) (auto simp: sample_env_def)
  then show ?thesis using x that(1) by (auto simp: work_chunk_def)
qed

lemma sample_run:
  obtains db' p where "run_job_inner sample_env sample_task sample_db = (db', p, Some Finished)"
    and "jp_chunks_failed p = 0" and "db_docs db' \<noteq> db_docs sample_db"
proof -
  let ?s0 = "start_state sample_env sample_task 2 sample_db"
  let ?s1 = "flush_state sample_env sample_task 1 (work_chunk sample_env sample_task 0 ?s0)"
  let ?s2 = "flush_state sample_env sample_task 2 (work_chunk sample_env sample_task 1 ?s1)"
  have q: "\<not> we_timed_out sample_env i" "\<not> we_stop_before sample_env i" "\<not> we_stop_mid sample_env i" for i
    by (simp_all add: sample_env_def)
  have r: "run_chunks sample_env sample_task 2 0 [[97], [98, 98]] ?s0 = (?s2, Finished)"
    by (simp add: q sample_not_degenerate numeral_2_eq_2)
  have b0: "db_banks (ws_db ?s0) = [[98]]" "db_docs (ws_db ?s0) = db_docs sample_db"
    by (simp_all add: start_state_def Let_def sample_db_def)
  have w1: "advanced sample_env sample_task 0 [c] 1 ?s0 ?s1" for c
    unfolding advanced_flush by (rule advanced_work)
  then have b1: "db_banks (ws_db ?s1) = [[98]]" "db_docs (ws_db ?s1) = db_docs sample_db"
    using b0 by (simp_all add: advanced_defs)
  have f: "jp_chunks_failed (ws_progress ?s2) = 0 \<and> jp_chunks_done (ws_progress ?s2) = 2
      \<and> db_docs (ws_db ?s2) = db_docs sample_db"
    using sample_work [OF refl b0, of 0] sample_work [OF refl b1, of 1]
    by (simp add: flush_state_def start_state_sel sample_resumed jp_default_def)
  obtain db' p where se: "settle sample_env sample_task 2 (?s2, Finished) = (db', p)"
    by (cases "settle sample_env sample_task 2 (?s2, Finished)")
  have "db_docs db' = set_content_hash (db_docs sample_db) 1 [104] 3"
    using se f
    by (auto simp: settle_def is_clean_def Let_def complete_run_def)
      (simp_all add: sample_env_def sample_task_def complete_run_def)
  then have "db_docs db' \<noteq> db_docs sample_db" by (simp add: set_content_hash_def sample_db_def)
  moreover have "run_job_inner sample_env sample_task sample_db = (db', p, Some Finished)"
  proof -
    have l: "length (task_chunks sample_env sample_task) = 2" by (simp add: sample_chunks)
    have e: "sample_env = sample_env\<lparr>we_stop_before := we_stop_before sample_env\<rparr>" by simp
    show ?thesis
    proof (rule run_job_quiet [OF sample_quiet _ _ e, where s = ?s2])
      show "run_chunks sample_env sample_task (length (task_chunks sample_env sample_task))
          (already_of sample_task) (drop (already_of sample_task) (task_chunks sample_env sample_task))
          (start_state sample_env sample_task (length (task_chunks sample_env sample_task)) sample_db)
        = (?s2, Finished)"
        unfolding l unfolding sample_resumed sample_chunks drop_0 by (rule r)
    qed (simp_all only: l se sample_resumed simp_thms)
  qed
  moreover have "jp_chunks_failed p = 0" using settle_result(4) [OF se] f by simp
  ultimately show ?thesis using that by blast
qed

theorem worker_marks_only_complete_witness:
  "\<exists>db' p. run_job_inner sample_env sample_task sample_db = (db', p, Some Finished)
     \<and> ingested sample_env sample_task (nodes_new db') [98, 98] 1"
proof -
  obtain db' p where r: "run_job_inner sample_env sample_task sample_db = (db', p, Some Finished)"
    "db_docs db' \<noteq> db_docs sample_db" using sample_run by metis
  from worker_marks_only_complete [OF r(1)] r(2)
  have "\<forall>j. 0 \<le> j \<longrightarrow> j < length [[97], [98, 98 :: nat]] \<longrightarrow>
      ingested sample_env sample_task (nodes_new db') ([[97], [98, 98]] ! j) j"
    unfolding sample_resumed sample_chunks by (simp add: jp_default_def)
  from this [rule_format, of 1] r(1) show ?thesis by auto
qed

theorem worker_accounts_for_every_chunk_witness:
  "\<exists>db' p. run_job_inner sample_env sample_task sample_db = (db', p, Some Finished)
     \<and> attempted p = 2 \<and> jp_status p = JDone"
proof -
  obtain db' p where r: "run_job_inner sample_env sample_task sample_db = (db', p, Some Finished)"
    "jp_chunks_failed p = 0" using sample_run by metis
  from worker_accounts_for_every_chunk [OF r(1)] r show ?thesis
    by (simp add: sample_resumed sample_chunks jp_default_def attempted_def)
qed

theorem resume_equals_uninterrupted_witness:
  "\<exists>db1 p1. run_job_inner (sample_env\<lparr>we_stop_before := \<lambda>j. j = 1\<rparr>) sample_task sample_db
       = (db1, p1, Some Interrupted)
     \<and> run_job_inner sample_env (sample_task\<lparr>rt_resume := Some p1\<rparr>) db1
       = run_job_inner sample_env sample_task sample_db"
proof -
  obtain db1 p1 r1 where r: "run_job_inner (sample_env\<lparr>we_stop_before := \<lambda>j. j = 1\<rparr>) sample_task sample_db
      = (db1, p1, r1)" by (metis prod_cases3)
  have "rt_resume sample_task = None" "rt_chunker sample_task = chunker_version"
    by (simp_all add: sample_task_def chunker_version_def)
  from resume_equals_uninterrupted [OF sample_quiet this _ r] r show ?thesis by (simp add: sample_chunks)
qed

end
