(* ===== verification/Retain_Queue.thy ===== *)
theory Retain_Queue
  imports Retain_Worker
begin

text \<open>
  The retain queue of \<open>crates/memgardend/src/retain/mod.rs\<close> around the worker: the process-wide byte
  budget, as the interleavings of the threads that reserve and release, and the recovery of unfinished
  jobs at startup, in the order of \<open>main.rs\<close>.
\<close>

section \<open>The byte budget\<close>

definition max_queued_bytes :: nat where
  "max_queued_bytes = 268435456"

text \<open>\<open>QUEUED_BYTES\<close> is a 64-bit counter whose atomic operations wrap. \<open>try_reserve_bytes\<close> is one atomic
  addition, the test of its sum, and on refusal one atomic subtraction; between the two other threads
  see the refused bytes. A request is idle, being refused, refused, holding its bytes, or has released
  them.\<close>

datatype reservation = Idle nat | Rejecting nat | Refused nat | Holding nat | Released nat

definition wrap64 :: "int \<Rightarrow> nat" where
  "wrap64 x = nat (x mod 18446744073709551616)"

inductive budget_step :: "nat \<times> reservation list \<Rightarrow> nat \<times> reservation list \<Rightarrow> bool" where
  reserve: "i < length ts \<Longrightarrow> ts ! i = Idle n \<Longrightarrow> c + n \<le> max_queued_bytes \<Longrightarrow>
     budget_step (c, ts) (wrap64 (int c + int n), ts[i := Holding n])"
| over: "i < length ts \<Longrightarrow> ts ! i = Idle n \<Longrightarrow> max_queued_bytes < c + n \<Longrightarrow>
     budget_step (c, ts) (wrap64 (int c + int n), ts[i := Rejecting n])"
| undo: "i < length ts \<Longrightarrow> ts ! i = Rejecting n \<Longrightarrow>
     budget_step (c, ts) (wrap64 (int c - int n), ts[i := Refused n])"
| release: "i < length ts \<Longrightarrow> ts ! i = Holding n \<Longrightarrow>
     budget_step (c, ts) (wrap64 (int c - int n), ts[i := Released n])"

inductive budget_reachable :: "nat list \<Rightarrow> nat \<times> reservation list \<Rightarrow> bool" for ns :: "nat list" where
  init: "budget_reachable ns (0, map Idle ns)"
| step: "budget_reachable ns st \<Longrightarrow> budget_step st st' \<Longrightarrow> budget_reachable ns st'"

fun held_bytes :: "reservation \<Rightarrow> nat" where
  "held_bytes (Holding n) = n"
| "held_bytes _ = 0"

fun counted_bytes :: "reservation \<Rightarrow> nat" where
  "counted_bytes (Holding n) = n"
| "counted_bytes (Rejecting n) = n"
| "counted_bytes _ = 0"

fun asked_bytes :: "reservation \<Rightarrow> nat" where
  "asked_bytes (Idle n) = n"
| "asked_bytes (Rejecting n) = n"
| "asked_bytes (Refused n) = n"
| "asked_bytes (Holding n) = n"
| "asked_bytes (Released n) = n"

definition budget_inv :: "nat list \<Rightarrow> nat \<times> reservation list \<Rightarrow> bool" where
  "budget_inv ns st \<longleftrightarrow> map asked_bytes (snd st) = ns
     \<and> fst st = sum_list (map counted_bytes (snd st)) \<and> sum_list (map held_bytes (snd st)) \<le> max_queued_bytes"

lemma sum_list_map_update:
  "i < length ts \<Longrightarrow> sum_list (map f (ts[i := x])) + f (ts ! i) = sum_list (map f ts) + (f x :: nat)"
  by (induction ts arbitrary: i) (auto split: nat.splits)

lemma map_update_same: "i < length ts \<Longrightarrow> f x = f (ts ! i) \<Longrightarrow> map f (ts[i := x]) = map f ts"
  by (metis list_update_id map_update)

lemma sum_list_map_le: "(\<And>x. f x \<le> (g x :: nat)) \<Longrightarrow> sum_list (map f ts) \<le> sum_list (map g ts)"
  by (induction ts) (auto simp: add_mono)

lemma counted_le_asked: "counted_bytes r \<le> asked_bytes r"
  by (cases r) auto

lemma held_le_counted: "held_bytes r \<le> counted_bytes r"
  by (cases r) auto

lemma wrap64_small: "n < 18446744073709551616 \<Longrightarrow> wrap64 (int n) = n"
  by (simp add: wrap64_def)

lemma budget_step_inv:
  assumes "budget_step st st'" and "budget_inv ns st" and "sum_list ns < 18446744073709551616"
  shows "budget_inv ns st'"
proof -
  obtain c ts where st: "st = (c, ts)" by (cases st)
  from assms(2) st have inv: "map asked_bytes ts = ns" "c = sum_list (map counted_bytes ts)"
    "sum_list (map held_bytes ts) \<le> max_queued_bytes" by (simp_all add: budget_inv_def)
  have bound: "sum_list (map counted_bytes us) < 18446744073709551616" if "map asked_bytes us = ns" for us
    using sum_list_map_le [of counted_bytes asked_bytes us, OF counted_le_asked] that assms(3) by simp
  have held: "sum_list (map held_bytes ts) \<le> c"
    using sum_list_map_le [of held_bytes counted_bytes ts, OF held_le_counted] inv(2) by simp
  from assms(1) [unfolded st] show ?thesis
  proof cases
    case (reserve i n)
    have m: "map asked_bytes (ts[i := Holding n]) = ns" using reserve inv(1) by (simp add: map_update_same)
    have "sum_list (map counted_bytes (ts[i := Holding n])) = c + n"
      using sum_list_map_update [OF reserve(2), of counted_bytes "Holding n"] reserve(3) inv(2) by simp
    moreover have "sum_list (map held_bytes (ts[i := Holding n])) = sum_list (map held_bytes ts) + n"
      using sum_list_map_update [OF reserve(2), of held_bytes "Holding n"] reserve(3) by simp
    ultimately show ?thesis using reserve m bound [OF m] held wrap64_small [of "c + n"]
      by (simp add: budget_inv_def)
  next
    case (over i n)
    have m: "map asked_bytes (ts[i := Rejecting n]) = ns" using over inv(1) by (simp add: map_update_same)
    have "sum_list (map counted_bytes (ts[i := Rejecting n])) = c + n"
      using sum_list_map_update [OF over(2), of counted_bytes "Rejecting n"] over(3) inv(2) by simp
    moreover have "sum_list (map held_bytes (ts[i := Rejecting n])) = sum_list (map held_bytes ts)"
      using sum_list_map_update [OF over(2), of held_bytes "Rejecting n"] over(3) by simp
    ultimately show ?thesis using over m bound [OF m] inv(3) wrap64_small [of "c + n"]
      by (simp add: budget_inv_def)
  next
    case (undo i n)
    have m: "map asked_bytes (ts[i := Refused n]) = ns" using undo inv(1) by (simp add: map_update_same)
    have e: "sum_list (map counted_bytes (ts[i := Refused n])) + n = c"
      using sum_list_map_update [OF undo(2), of counted_bytes "Refused n"] undo(3) inv(2) by simp
    then have "int c - int n = int (sum_list (map counted_bytes (ts[i := Refused n])))" by linarith
    moreover have "sum_list (map held_bytes (ts[i := Refused n])) = sum_list (map held_bytes ts)"
      using sum_list_map_update [OF undo(2), of held_bytes "Refused n"] undo(3) by simp
    ultimately show ?thesis using undo m wrap64_small [OF bound [OF m]] inv(3)
      by (simp add: budget_inv_def)
  next
    case (release i n)
    have m: "map asked_bytes (ts[i := Released n]) = ns" using release inv(1) by (simp add: map_update_same)
    have e: "sum_list (map counted_bytes (ts[i := Released n])) + n = c"
      using sum_list_map_update [OF release(2), of counted_bytes "Released n"] release(3) inv(2) by simp
    then have "int c - int n = int (sum_list (map counted_bytes (ts[i := Released n])))" by linarith
    moreover have "sum_list (map held_bytes (ts[i := Released n])) + n = sum_list (map held_bytes ts)"
      using sum_list_map_update [OF release(2), of held_bytes "Released n"] release(3) by simp
    ultimately show ?thesis using release m wrap64_small [OF bound [OF m]] inv(3)
      by (simp add: budget_inv_def)
  qed
qed

text \<open>C36: The queued transcripts never exceed the budget, in any interleaving. Whatever threads reserve,
  are refused and release, in whatever order their atomic operations fall, the bytes of all holders
  together stay within 256 MiB; and whenever no refusal is half done the counter is exactly the bytes
  held, so nothing leaks.\<close>

theorem budget_never_exceeded:
  assumes "budget_reachable ns (c, ts)" and "sum_list ns < 18446744073709551616"
  shows "sum_list (map held_bytes ts) \<le> max_queued_bytes
    \<and> ((\<forall>n. Rejecting n \<notin> set ts) \<longrightarrow> c = sum_list (map held_bytes ts))"
proof -
  have "budget_reachable ns st \<Longrightarrow> budget_inv ns st" for st
  proof (induction rule: budget_reachable.induct)
    case init
    have "map asked_bytes (map Idle ns) = ns" "map counted_bytes (map Idle ns) = map (\<lambda>_. 0) ns"
      "map held_bytes (map Idle ns) = map (\<lambda>_. 0) ns" by (induction ns) auto
    then show ?case by (simp add: budget_inv_def del: map_map)
  next
    case (step st st')
    then show ?case using budget_step_inv assms(2) by blast
  qed
  from this [OF assms(1)] have inv: "c = sum_list (map counted_bytes ts)"
    "sum_list (map held_bytes ts) \<le> max_queued_bytes" by (simp_all add: budget_inv_def)
  have "counted_bytes r = held_bytes r" if "\<forall>n. Rejecting n \<notin> set ts" "r \<in> set ts" for r
    using that by (cases r) auto
  then have "map counted_bytes ts = map held_bytes ts" if "\<forall>n. Rejecting n \<notin> set ts"
    using that by simp
  with inv show ?thesis by metis
qed

text \<open>A refusal in progress next to a holder, and the counter above what is held.\<close>

theorem budget_never_exceeded_witness:
  "budget_reachable [200000000, 100000000] (300000000, [Holding 200000000, Rejecting 100000000])
   \<and> sum_list (map held_bytes [Holding 200000000, Rejecting 100000000]) \<le> max_queued_bytes"
proof -
  let ?ns = "[200000000, 100000000]"
  have "budget_reachable ?ns (0, [Idle 200000000, Idle 100000000])"
    using budget_reachable.init [of ?ns] by simp
  moreover have "budget_step (0, [Idle 200000000, Idle 100000000]) (200000000, [Holding 200000000, Idle 100000000])"
    using budget_step.reserve [of 0 "[Idle 200000000, Idle 100000000]" 200000000 0]
    by (simp add: max_queued_bytes_def wrap64_def)
  moreover have "budget_step (200000000, [Holding 200000000, Idle 100000000])
      (300000000, [Holding 200000000, Rejecting 100000000])"
    using budget_step.over [of 1 "[Holding 200000000, Idle 100000000]" 100000000 200000000]
    by (simp add: max_queued_bytes_def wrap64_def)
  ultimately have r: "budget_reachable ?ns (300000000, [Holding 200000000, Rejecting 100000000])"
    by (blast intro: budget_reachable.step)
  have "sum_list ?ns < (18446744073709551616 :: nat)" by simp
  from budget_never_exceeded [OF r this] r show ?thesis by blast
qed


section \<open>Startup\<close>

text \<open>One row of the loop in \<open>resumable_tasks\<close>: the jobs table, the reserved bytes and the tasks to queue.
  \<open>update_ok\<close> says which of the row updates the database carries out.\<close>

definition failed_progress :: "retain_job \<Rightarrow> str \<Rightarrow> job_progress" where
  "failed_progress j reason =
     \<lparr>jp_status = JFailed, jp_chunks_total = j_chunks_total j, jp_chunks_done = j_chunks_done j,
      jp_chunks_skipped = j_chunks_skipped j, jp_chunks_failed = j_chunks_failed j,
      jp_facts_written = j_facts_written j, jp_error = Some reason, jp_detail = None\<rparr>"

definition pending_progress :: "retain_job \<Rightarrow> job_progress" where
  "pending_progress j =
     \<lparr>jp_status = JPending, jp_chunks_total = j_chunks_total j, jp_chunks_done = j_chunks_done j,
      jp_chunks_skipped = j_chunks_skipped j, jp_chunks_failed = j_chunks_failed j,
      jp_facts_written = j_facts_written j, jp_error = j_error j, jp_detail = None\<rparr>"

definition resume_one ::
  "(str \<Rightarrow> str + retain_task) \<Rightarrow> (str \<Rightarrow> bool) \<Rightarrow> int \<Rightarrow> retain_job \<times> str
    \<Rightarrow> jobs_table \<times> nat \<times> retain_task list \<Rightarrow> jobs_table \<times> nat \<times> retain_task list" where
  "resume_one parse update_ok now row st =
     (case (row, st) of ((j, json), (t, queued, out)) \<Rightarrow>
        (let upd = (\<lambda>p. if update_ok (j_job_id j) then job_update t (j_job_id j) p now else t) in
         case parse json of
           Inl e \<Rightarrow> (upd (failed_progress j (lit ''stored retain task unreadable after restart: '' @ e)), queued, out)
         | Inr task \<Rightarrow>
             (if max_queued_bytes < queued + byte_len (rt_transcript task)
              then (upd (failed_progress j (lit ''retain queue byte budget exhausted on resume'')), queued, out)
              else (upd (pending_progress j), queued + byte_len (rt_transcript task),
                    out @ [task\<lparr>rt_resume := Some (pending_progress j)\<rparr>]))))"

text \<open>\<open>resumable_tasks\<close>; \<open>readable\<close>: whether the query for the resumable rows succeeds.\<close>

definition resumable_tasks ::
  "(str \<Rightarrow> str + retain_task) \<Rightarrow> bool \<Rightarrow> (str \<Rightarrow> bool) \<Rightarrow> int \<Rightarrow> jobs_table \<Rightarrow> nat
    \<Rightarrow> jobs_table \<times> nat \<times> retain_task list" where
  "resumable_tasks parse readable update_ok now t queued =
     (if \<not> readable
      then (snd (fail_unfinished t (lit ''daemon restarted before the job finished'') now), queued, [])
      else fold (resume_one parse update_ok now) (resumable t) (t, queued, []))"

text \<open>The order of \<open>main.rs\<close>: the jobs without a task are closed out, then the others are resumed.\<close>

definition startup ::
  "(str \<Rightarrow> str + retain_task) \<Rightarrow> bool \<Rightarrow> (str \<Rightarrow> bool) \<Rightarrow> int \<Rightarrow> jobs_table
    \<Rightarrow> jobs_table \<times> nat \<times> retain_task list" where
  "startup parse readable update_ok now t =
     resumable_tasks parse readable update_ok now
       (snd (fail_stale t (lit ''daemon restarted before the job finished'') now)) 0"

text \<open>What a row is after startup: settled, or pending with its task in the queue.\<close>

definition handed_over :: "retain_task list \<Rightarrow> retain_job \<Rightarrow> bool" where
  "handed_over out j \<longleftrightarrow> (\<exists>s. j_status j = job_status_as_str s \<and> is_terminal s)
     \<or> j_status j = lit ''pending'' \<and> (\<exists>task\<in>set out. rt_job_id task = j_job_id j
          \<and> (\<exists>p. rt_resume task = Some p \<and> jp_chunks_done p = j_chunks_done j
               \<and> jp_chunks_failed p = j_chunks_failed j \<and> jp_chunks_skipped p = j_chunks_skipped j
               \<and> jp_facts_written p = j_facts_written j))"

lemma handed_over_mono: "set out \<subseteq> set out' \<Longrightarrow> handed_over out j \<Longrightarrow> handed_over out' j"
  unfolding handed_over_def by blast

lemma handed_over_failed: "jp_status p = JFailed \<Longrightarrow> handed_over out (update_row j p now)"
  by (auto simp: handed_over_def update_row_def is_terminal_def simp del: lit_Cons intro: exI [of _ JFailed])

lemma handed_over_pending:
  assumes "rt_job_id task = j_job_id j"
  shows "handed_over (out @ [task\<lparr>rt_resume := Some (pending_progress j)\<rparr>]) (update_row j (pending_progress j) now)"
  using assms by (auto simp: handed_over_def update_row_def pending_progress_def simp del: lit_Cons)

lemma resume_one_row:
  assumes "\<forall>x. update_ok x" and "\<forall>task. parse json = Inr task \<longrightarrow> rt_job_id task = j_job_id j"
    and "resume_one parse update_ok now (j, json) (t, queued, out) = (t', q', out')"
  shows "set out \<subseteq> set out'" and "\<exists>p. t' = job_update t (j_job_id j) p now \<and> handed_over out' (update_row j p now)"
proof -
  have "set out \<subseteq> set out' \<and> (\<exists>p. t' = job_update t (j_job_id j) p now \<and> handed_over out' (update_row j p now))"
  proof (cases "parse json")
    case (Inl e)
    with assms(1,3) show ?thesis
      by (auto simp: resume_one_def Let_def failed_progress_def intro!: handed_over_failed)
  next
    case (Inr task)
    with assms(2) have id: "rt_job_id task = j_job_id j" by simp
    show ?thesis
    proof (cases "max_queued_bytes < queued + byte_len (rt_transcript task)")
      case True
      with Inr assms(1,3) show ?thesis
        by (auto simp: resume_one_def Let_def failed_progress_def intro!: handed_over_failed)
    next
      case False
      with Inr assms(1,3) have "t' = job_update t (j_job_id j) (pending_progress j) now"
        "out' = out @ [task\<lparr>rt_resume := Some (pending_progress j)\<rparr>]" by (auto simp: resume_one_def Let_def)
      with handed_over_pending [OF id] show ?thesis by auto
    qed
  qed
  then show "set out \<subseteq> set out'" and
    "\<exists>p. t' = job_update t (j_job_id j) p now \<and> handed_over out' (update_row j p now)" by blast+
qed

lemma resume_all_rows:
  assumes "\<forall>x. update_ok x"
    and "\<forall>(j, json)\<in>set rows. job_get t (j_job_id j) = Some j
      \<and> (\<forall>task. parse json = Inr task \<longrightarrow> rt_job_id task = j_job_id j)"
    and "distinct (map (j_job_id \<circ> fst) rows)"
    and "fold (resume_one parse update_ok now) rows (t, queued, out) = (t', q', out')"
  shows "set out \<subseteq> set out' \<and> (\<forall>i. job_get t' i =
      (if i \<in> (j_job_id \<circ> fst) ` set rows then job_get t' i else job_get t i))
    \<and> (\<forall>j\<in>fst ` set rows. \<exists>j'. job_get t' (j_job_id j) = Some j' \<and> handed_over out' j')"
  using assms(2-4)
proof (induction rows arbitrary: t queued out)
  case (Cons r rows)
  obtain j json where r: "r = (j, json)" by (cases r)
  obtain t1 q1 out1 where o: "resume_one parse update_ok now r (t, queued, out) = (t1, q1, out1)"
    by (metis prod_cases3)
  from Cons.prems(1) r have jt: "job_get t (j_job_id j) = Some j"
    "\<forall>task. parse json = Inr task \<longrightarrow> rt_job_id task = j_job_id j" by auto
  from resume_one_row [OF assms(1) jt(2) o [unfolded r]] obtain p where p: "set out \<subseteq> set out1"
    "t1 = job_update t (j_job_id j) p now" "handed_over out1 (update_row j p now)" by blast
  have g1: "job_get t1 i = (if i = j_job_id j then Some (update_row j p now) else job_get t i)" for i
    using jt(1) by (simp add: p(2) job_get_update option.map_ident)
  from Cons.prems(2) r have notin: "j_job_id j \<notin> (j_job_id \<circ> fst) ` set rows" by auto
  have "\<forall>(j, json)\<in>set rows. job_get t1 (j_job_id j) = Some j
      \<and> (\<forall>task. parse json = Inr task \<longrightarrow> rt_job_id task = j_job_id j)"
    using Cons.prems(1) notin by (force simp: g1)
  moreover have "distinct (map (j_job_id \<circ> fst) rows)" using Cons.prems(2) by (simp add: comp_def)
  moreover have "fold (resume_one parse update_ok now) rows (t1, q1, out1) = (t', q', out')"
    using Cons.prems(3) o by simp
  ultimately have IH: "set out1 \<subseteq> set out'"
    "\<forall>i. job_get t' i = (if i \<in> (j_job_id \<circ> fst) ` set rows then job_get t' i else job_get t1 i)"
    "\<forall>j\<in>fst ` set rows. \<exists>j'. job_get t' (j_job_id j) = Some j' \<and> handed_over out' j'"
    using Cons.IH by blast+
  have "job_get t' (j_job_id j) = Some (update_row j p now)"
    using IH(2) [rule_format, of "j_job_id j"] notin g1 by metis
  moreover have "handed_over out' (update_row j p now)" by (rule handed_over_mono [OF IH(1) p(3)])
  moreover have "job_get t' i = job_get t i" if "i \<notin> (j_job_id \<circ> fst) ` set (r # rows)" for i
    using IH(2) [rule_format, of i] that g1 [of i] r by auto
  ultimately show ?case using IH(1,3) p(1) r by auto
qed simp

lemma resumable_ids:
  assumes "jobs_wf t"
  shows "distinct (map (j_job_id \<circ> fst) (resumable t))"
proof -
  let ?ls = "sort_key j_created_at (filter (\<lambda>j. unfinished j \<and> j_task j \<noteq> None) t)"
  have "List.map_filter (\<lambda>(i, task). map_option (\<lambda>j. (j, task)) (job_get t i))
      (map (\<lambda>j. (j_job_id j, the (j_task j))) ls) = map (\<lambda>j. (j, the (j_task j))) ls"
    if "set ls \<subseteq> set t" for ls
    using that by (induction ls) (auto simp: map_filter_simps job_get_in [OF assms])
  then have "map (j_job_id \<circ> fst) (resumable t) = map j_job_id ?ls"
    unfolding resumable_def by (subst \<open>\<And>ls. set ls \<subseteq> set t \<Longrightarrow> _ = _\<close>) (auto simp: comp_def)
  moreover have "distinct (map j_job_id ?ls)"
    using assms by (auto simp: jobs_wf_def distinct_map inj_on_def)
  ultimately show ?thesis by simp
qed

text \<open>C33: A restart strands no job. After the daemon's startup every job row is settled, or it is pending
  and its task is in the queue again, carrying the counters of the row; a job without a stored task, with
  an unreadable one or one that no longer fits the byte budget is closed as failed.\<close>

theorem restart_strands_no_job:
  assumes "jobs_wf t" and "\<forall>x. update_ok x"
    and "\<forall>j\<in>set t. \<forall>x task. j_task j = Some x \<longrightarrow> parse x = Inr task \<longrightarrow> rt_job_id task = j_job_id j"
    and "startup parse readable update_ok now t = (t', queued, out)" and "j \<in> set t'"
  shows "handed_over out j"
proof -
  let ?t = "snd (fail_stale t (lit ''daemon restarted before the job finished'') now)"
  have wf: "jobs_wf ?t" by (rule fail_stale_wf [OF assms(1)])
  have terminal: "handed_over out j" if "job_ok j" "\<not> unfinished j" for j out
    using job_ok_unfinished [OF that(1)] that(2) by (auto simp: handed_over_def)
  show ?thesis
  proof (cases readable)
    case False
    with assms(4) have t': "t' = snd (fail_unfinished ?t (lit ''daemon restarted before the job finished'') now)"
      by (simp add: startup_def resumable_tasks_def)
    then have "jobs_wf t'" using fail_unfinished_wf [OF wf] by simp
    moreover have "\<not> unfinished j" using assms(5) unfolding t'
      by (auto simp: fail_unfinished_def unfinished_def)
    ultimately show ?thesis using terminal assms(5) by (auto simp: jobs_wf_def)
  next
    case True
    with assms(4) have f: "fold (resume_one parse update_ok now) (resumable ?t) (?t, 0, []) = (t', queued, out)"
      by (simp add: startup_def resumable_tasks_def)
    have tasks: "\<forall>j\<in>set ?t. \<forall>x task. j_task j = Some x \<longrightarrow> parse x = Inr task \<longrightarrow> rt_job_id task = j_job_id j"
      using assms(3) by (auto simp: fail_stale_def)
    have rows: "\<forall>(j, json)\<in>set (resumable ?t). job_get ?t (j_job_id j) = Some j
        \<and> (\<forall>task. parse json = Inr task \<longrightarrow> rt_job_id task = j_job_id j)"
      using resumable_wf [OF wf] job_get_in [OF wf] tasks by auto
    note R = resume_all_rows [OF assms(2) rows resumable_ids [OF wf] f]
    have ids: "map j_job_id (job_update t i p now) = map j_job_id t" for t i p
      unfolding job_update_def by (rule ids_map) simp
    have "map j_job_id (fst (fold (resume_one parse update_ok now) rs (s, q, ot))) = map j_job_id s
        \<and> (jobs_wf s \<longrightarrow> jobs_wf (fst (fold (resume_one parse update_ok now) rs (s, q, ot))))" for rs s q ot
    proof (induction rs arbitrary: s q ot)
      case (Cons r rs)
      obtain s1 q1 ot1 where o: "resume_one parse update_ok now r (s, q, ot) = (s1, q1, ot1)"
        by (metis prod_cases3)
      then have "\<exists>i p. s1 = job_update s i p now"
        using assms(2) by (auto simp: resume_one_def Let_def split: prod.splits sum.splits if_splits)
      with Cons.IH [of s1 q1 ot1] o ids job_update_wf show ?case by auto
    qed simp
    from this [of "resumable ?t" ?t 0 "[]"] f wf have wf': "jobs_wf t'" by simp
    from job_get_in [OF wf' assms(5)] have g: "job_get t' (j_job_id j) = Some j" .
    show ?thesis
    proof (cases "j_job_id j \<in> (j_job_id \<circ> fst) ` set (resumable ?t)")
      case True
      then obtain r where "r \<in> set (resumable ?t)" "j_job_id j = j_job_id (fst r)"
        unfolding image_iff comp_apply by blast
      then obtain j0 where "j0 \<in> fst ` set (resumable ?t)" "j_job_id j0 = j_job_id j" by force
      with R g show ?thesis by (metis option.inject)
    next
      case False
      with R g have "job_get ?t (j_job_id j) = Some j" by metis
      then have j: "j \<in> set ?t" by (auto dest: job_get_SomeD)
      have "\<not> unfinished j"
      proof
        assume u: "unfinished j"
        have "j_task j \<noteq> None" using j u by (auto simp: fail_stale_def unfinished_def split: if_splits)
        then have "(j, the (j_task j)) \<in> set (resumable ?t)" using resumable_wf [OF wf] j u by auto
        with False show False by force
      qed
      with terminal j wf show ?thesis by (auto simp: jobs_wf_def)
    qed
  qed
qed


text \<open>Three jobs of a previous process: one without a task, one with a readable one, one finished.\<close>

definition sample_job :: "nat \<Rightarrow> str \<Rightarrow> str option \<Rightarrow> retain_job" where
  "sample_job i status task =
     \<lparr>j_job_id = [i], j_bank_id = [98], j_document_id = None, j_session_id = None, j_status = status,
      j_chunks_total = 0, j_chunks_done = 0, j_chunks_skipped = 0, j_chunks_failed = 0, j_facts_written = 0,
      j_error = None, j_detail = None, j_created_at = int i, j_updated_at = 0, j_offset_from = 0,
      j_offset_to = 0, j_task = task\<rparr>"

definition sample_jobs :: jobs_table where
  "sample_jobs = [sample_job 5 (lit ''running'') None, sample_job 106 (lit ''pending'') (Some [9]),
     sample_job 7 (lit ''done'') None]"

theorem restart_strands_no_job_witness:
  "list_all (handed_over (snd (snd (startup (\<lambda>_. Inr sample_task) True (\<lambda>_. True) 50 sample_jobs))))
     (fst (startup (\<lambda>_. Inr sample_task) True (\<lambda>_. True) 50 sample_jobs))"
proof -
  have "job_ok (sample_job i (job_status_as_str s) x)" if "is_terminal s \<longrightarrow> x = None" for i s x
    using that by (auto simp: job_ok_def sample_job_def)
  from this [of JRunning None 5] this [of JPending "Some [9]" 106] this [of JDone None 7]
  have "jobs_wf sample_jobs"
    by (simp add: jobs_wf_def sample_jobs_def is_terminal_def) (simp add: sample_job_def)
  moreover have "\<forall>j\<in>set sample_jobs. \<forall>x task. j_task j = Some x \<longrightarrow> (\<lambda>_. Inr sample_task :: str + retain_task) x = Inr task
      \<longrightarrow> rt_job_id task = j_job_id j"
    by (simp add: sample_jobs_def sample_job_def sample_task_def)
  moreover obtain t' q out where "startup (\<lambda>_. Inr sample_task) True (\<lambda>_. True) 50 sample_jobs = (t', q, out)"
    by (metis prod_cases3)
  ultimately show ?thesis
    using restart_strands_no_job [of sample_jobs "\<lambda>_. True" "\<lambda>_. Inr sample_task" True 50 t' q out]
    by (simp add: list_all_iff)
qed

end
