(* ===== verification/Transcript_Prep.thy ===== *)
theory Transcript_Prep
  imports Json_Value
begin

text \<open>
  \<open>crates/memgardend/src/retain/transcript.rs\<close>: what the daemon makes of the messages it is sent before
  anything reads them: the private marker, the memory and channel wrappers, the caps on tool calls, the
  roles, and the list of touched files. The compact JSON serializer and \<open>char::is_alphanumeric\<close> are
  parameters.
\<close>

section \<open>Wrappers\<close>

definition private_open :: str where
  "private_open = lit ''<private>''"

definition private_close :: str where
  "private_close = lit ''</private>''"

text \<open>\<open>strip_private\<close>: an unclosed marker drops the rest.\<close>

function strip_private :: "str \<Rightarrow> str" where
  "strip_private s =
     (case split_once private_open s of
        None \<Rightarrow> s
      | Some (before, after) \<Rightarrow>
          (case split_once private_close after of
             None \<Rightarrow> before
           | Some (_, rest) \<Rightarrow> before @ strip_private rest))"
  by pat_completeness auto
termination
proof (relation "measure length", goal_cases)
  case (2 s p before after q inner rest)
  then have "length after < length s" "length rest < length after"
    by (auto dest!: split_once_shorter simp: private_open_def private_close_def)
  then show ?case by simp
qed simp

declare strip_private.simps [simp del]

text \<open>\<open>remove_blocks\<close>: an unterminated block is left in place (the tags are never empty).\<close>

function remove_blocks :: "str \<Rightarrow> str \<Rightarrow> str \<Rightarrow> str" where
  "remove_blocks text_s op_tag cl_tag =
     (case split_once op_tag text_s of
        None \<Rightarrow> text_s
      | Some (before, after) \<Rightarrow>
          (case split_once cl_tag after of
             None \<Rightarrow> text_s
           | Some (_, rest) \<Rightarrow>
               if op_tag = [] then text_s else before @ remove_blocks rest op_tag cl_tag))"
  by pat_completeness auto
termination
proof (relation "measure (\<lambda>(s, _, _). length s)", goal_cases)
  case (2 s op_tag cl_tag p before after q inner rest)
  then have "length after < length s" "length rest \<le> length after"
    by (auto dest: split_once_shorter split_once_SomeD)
  then show ?case by simp
qed simp

declare remove_blocks.simps [simp del]

definition memory_tags :: "str list" where
  "memory_tags = [lit ''memgarden_memories'', lit ''hindsight_memories'', lit ''relevant_memories'']"

definition strip_memory_tags :: "str \<Rightarrow> str" where
  "strip_memory_tags s =
     fold (\<lambda>tag out. remove_blocks out (lit ''<'' @ tag @ lit ''>'') (lit ''</'' @ tag @ lit ''>'')) memory_tags s"

text \<open>\<open>find_channel_open\<close>, with the text from the position it finds.\<close>

function find_channel_open :: "(uchar \<Rightarrow> bool) \<Rightarrow> str \<Rightarrow> str option" where
  "find_channel_open alphanumeric s =
     (case split_once (lit ''<channel'') s of
        None \<Rightarrow> None
      | Some (before, after) \<Rightarrow>
          (if after \<noteq> [] \<and> (alphanumeric (hd after) \<or> hd after = 95) then find_channel_open alphanumeric after
           else Some (lit ''<channel'' @ after)))"
  by pat_completeness auto
termination
  by (relation "measure (\<lambda>(_, s). length s)") (auto dest: split_once_shorter)

declare find_channel_open.simps [simp del]

definition strip_channel_envelope :: "(uchar \<Rightarrow> bool) \<Rightarrow> str \<Rightarrow> str" where
  "strip_channel_envelope alphanumeric s =
     (case find_channel_open alphanumeric s of
        None \<Rightarrow> s
      | Some rest \<Rightarrow>
          (case split_once (lit ''>'') rest of
             None \<Rightarrow> s
           | Some (_, inner) \<Rightarrow>
               (case split_once (lit ''</channel>'') inner of
                  None \<Rightarrow> s
                | Some (body, _) \<Rightarrow> trim body)))"

definition truncate_chars :: "str \<Rightarrow> nat \<Rightarrow> str \<Rightarrow> str" where
  "truncate_chars t n suf = (if length t \<le> n then t else take n t @ suf)"

section \<open>Tool calls\<close>

record caps =
  cap_tool_input_field :: nat
  cap_tool_input_total :: nat
  cap_tool_result :: nat

definition caps_default :: caps where
  "caps_default = \<lparr>cap_tool_input_field = 300, cap_tool_input_total = 1500, cap_tool_result = 2000\<rparr>"

definition caps_none :: caps where
  "caps_none = \<lparr>cap_tool_input_field = u64_max, cap_tool_input_total = u64_max, cap_tool_result = u64_max\<rparr>"

definition priority_input_keys :: "str list" where
  "priority_input_keys = [lit ''file_path'', lit ''notebook_path'', lit ''path'', lit ''command'',
     lit ''description'', lit ''pattern'', lit ''query'', lit ''url'']"

definition operational_tool_markers :: "str list" where
  "operational_tool_markers = [lit ''recall'', lit ''retain'', lit ''reflect'', lit ''search'', lit ''extract'',
     lit ''create_'', lit ''delete_'', lit ''update_'', lit ''get_'', lit ''list_'']"

definition file_mutating_tools :: "str list" where
  "file_mutating_tools = [lit ''Write'', lit ''Edit'', lit ''MultiEdit'', lit ''NotebookEdit'']"

text \<open>\<open>s.rsplit(p).next()\<close>: the text after the last occurrence.\<close>

definition after_last :: "str \<Rightarrow> str \<Rightarrow> str" where
  "after_last p s = (case split_once (rev p) (rev s) of None \<Rightarrow> s | Some (a, _) \<Rightarrow> rev a)"

definition is_operational_mcp_tool :: "str \<Rightarrow> bool" where
  "is_operational_mcp_tool name \<longleftrightarrow> starts_with (lit ''mcp__'') name \<and>
     list_ex (\<lambda>m. contains m (to_ascii_lowercase (after_last (lit ''__'') name))) operational_tool_markers"

definition cap_field :: "caps \<Rightarrow> json \<Rightarrow> json" where
  "cap_field c v =
     (case v of
        JStr s \<Rightarrow>
          (if cap_tool_input_field c < length s
           then JStr (take (cap_tool_input_field c) s @ lit ''... (+'' @
                  nat_str (length s - cap_tool_input_field c) @ lit '' chars)'')
           else v)
      | _ \<Rightarrow> v)"

definition truncated_fields_key :: str where
  "truncated_fields_key = lit ''_truncated_fields''"

text \<open>\<open>compact_tool_input\<close>; the map's keys stay sorted under the caps, so the first tier is a map over
  its entries.\<close>

definition compact_tool_input :: "(json \<Rightarrow> str) \<Rightarrow> caps \<Rightarrow> json \<Rightarrow> json" where
  "compact_tool_input ser c input =
     (case as_object input of
        None \<Rightarrow> JObj []
      | Some m \<Rightarrow>
          (let compact = map (\<lambda>(k, v). (k, cap_field c v)) m in
           if length (ser (JObj compact)) \<le> cap_tool_input_total c then JObj compact
           else (let kept = fold (\<lambda>k acc. case map_of compact k of Some v \<Rightarrow> obj_insert k v acc | None \<Rightarrow> acc)
                              priority_input_keys [];
                     dropped = map (JStr \<circ> fst) (filter (\<lambda>(k, v). map_of kept k = None) compact)
                 in JObj (if dropped \<noteq> [] then obj_insert truncated_fields_key (JArr dropped) kept else kept))))"

section \<open>Messages\<close>

definition clean_text :: "(uchar \<Rightarrow> bool) \<Rightarrow> str \<Rightarrow> str" where
  "clean_text alphanumeric raw =
     trim (strip_channel_envelope alphanumeric (strip_memory_tags (strip_private raw)))"

definition text_block :: "str \<Rightarrow> json" where
  "text_block t = JObj [(lit ''text'', JStr t), (lit ''type'', JStr (lit ''text''))]"

text \<open>The text of the text blocks of an array, each trimmed, the empty ones left out.\<close>

definition joined_texts :: "json list \<Rightarrow> str" where
  "joined_texts items =
     join [10] (filter (\<lambda>t. t \<noteq> []) (map trim (List.map_filter
       (\<lambda>b. if get_str b (lit ''type'') = Some (lit ''text'') then get_str b (lit ''text'') else None) items)))"

fun text_content :: "json \<Rightarrow> str" where
  "text_content (JStr s) = s"
| "text_content (JArr items) = joined_texts items"
| "text_content _ = []"

definition block_of :: "(uchar \<Rightarrow> bool) \<Rightarrow> (json \<Rightarrow> str) \<Rightarrow> str \<Rightarrow> caps \<Rightarrow> json \<Rightarrow> json option" where
  "block_of alphanumeric ser role c block =
     (if \<not> is_object block then None
      else (let kind = (case get_str block (lit ''type'') of Some t \<Rightarrow> t | None \<Rightarrow> []) in
        if kind = lit ''text'' then
          (let t = clean_text alphanumeric (case get_str block (lit ''text'') of Some t \<Rightarrow> t | None \<Rightarrow> [])
           in if t = [] then None else Some (text_block t))
        else if kind = lit ''tool_use'' \<and> role = lit ''assistant'' then
          (let name = (case get_str block (lit ''name'') of Some n \<Rightarrow> n | None \<Rightarrow> lit ''unknown'') in
           if is_operational_mcp_tool name then None
           else Some (JObj [(lit ''input'', compact_tool_input ser c
                               (case jget block (lit ''input'') of Some v \<Rightarrow> v | None \<Rightarrow> JNull)),
                            (lit ''name'', JStr name), (lit ''type'', JStr (lit ''tool_use''))]))
        else if kind = lit ''tool_result'' then
          (let t = (case jget block (lit ''content'') of
                      Some (JStr s) \<Rightarrow> trim s
                    | Some (JArr items) \<Rightarrow> joined_texts items
                    | _ \<Rightarrow> []) in
           if t = [] then None
           else Some (JObj [(lit ''content'', JStr (truncate_chars t (cap_tool_result c) (lit ''... (truncated)''))),
                            (lit ''tool_use_id'', JStr (case get_str block (lit ''tool_use_id'') of Some i \<Rightarrow> i | None \<Rightarrow> [])),
                            (lit ''type'', JStr (lit ''tool_result''))]))
        else None))"

definition message_blocks :: "(uchar \<Rightarrow> bool) \<Rightarrow> (json \<Rightarrow> str) \<Rightarrow> json \<Rightarrow> str \<Rightarrow> caps \<Rightarrow> json list" where
  "message_blocks alphanumeric ser content role c =
     (case content of
        JStr s \<Rightarrow> (let t = clean_text alphanumeric s in if t = [] then [] else [text_block t])
      | JArr items \<Rightarrow> List.map_filter (block_of alphanumeric ser role c) items
      | _ \<Rightarrow> [])"

record normalize_opts =
  no_roles :: "str list"
  no_include_tool_calls :: bool
  no_caps :: caps

definition role_allowed :: "json \<Rightarrow> str list \<Rightarrow> str option" where
  "role_allowed msg roles =
     (let role = (case get_str msg (lit ''role'') of Some r \<Rightarrow> r | None \<Rightarrow> lit ''unknown'')
      in if role \<in> set roles then Some role else None)"

definition content_of :: "json \<Rightarrow> json" where
  "content_of msg = (case jget msg (lit ''content'') of Some v \<Rightarrow> v | None \<Rightarrow> JNull)"

definition structured_message ::
  "(uchar \<Rightarrow> bool) \<Rightarrow> (json \<Rightarrow> str) \<Rightarrow> normalize_opts \<Rightarrow> json \<Rightarrow> json option" where
  "structured_message alphanumeric ser opts msg =
     (case role_allowed msg (no_roles opts) of
        None \<Rightarrow> None
      | Some role \<Rightarrow>
          (let blocks = message_blocks alphanumeric ser (content_of msg) role (no_caps opts) in
           if blocks = [] then None
           else Some (JObj [(lit ''content'', JArr blocks), (lit ''role'', JStr role)])))"

definition long_enough :: "str \<Rightarrow> bool" where
  "long_enough t \<longleftrightarrow> 10 \<le> length (trim t)"

definition json_transcript ::
  "(uchar \<Rightarrow> bool) \<Rightarrow> (json \<Rightarrow> str) \<Rightarrow> json list \<Rightarrow> normalize_opts \<Rightarrow> (str \<times> nat) option" where
  "json_transcript alphanumeric ser messages opts =
     (let structured = List.map_filter (structured_message alphanumeric ser opts) messages in
      if structured = [] then None
      else (let t = ser (JArr structured) in if long_enough t then Some (t, length structured) else None))"

definition text_part :: "(uchar \<Rightarrow> bool) \<Rightarrow> normalize_opts \<Rightarrow> json \<Rightarrow> str option" where
  "text_part alphanumeric opts msg =
     (case role_allowed msg (no_roles opts) of
        None \<Rightarrow> None
      | Some role \<Rightarrow>
          (let content = clean_text alphanumeric (text_content (content_of msg)) in
           if content = [] then None
           else Some (lit ''[role: '' @ role @ lit '']'' @ [10] @ content @ [10] @ lit ''['' @ role @ lit '':end]'')))"

definition text_transcript :: "(uchar \<Rightarrow> bool) \<Rightarrow> json list \<Rightarrow> normalize_opts \<Rightarrow> (str \<times> nat) option" where
  "text_transcript alphanumeric messages opts =
     (let parts = List.map_filter (text_part alphanumeric opts) messages in
      if parts = [] then None
      else (let t = join [10, 10] parts in if long_enough t then Some (t, length parts) else None))"

definition normalize ::
  "(uchar \<Rightarrow> bool) \<Rightarrow> (json \<Rightarrow> str) \<Rightarrow> json list \<Rightarrow> normalize_opts \<Rightarrow> (str \<times> nat) option" where
  "normalize alphanumeric ser messages opts =
     (if messages = [] then None
      else if no_include_tool_calls opts then json_transcript alphanumeric ser messages opts
      else text_transcript alphanumeric messages opts)"

definition apply_backfill_cap :: "'a list \<Rightarrow> bool \<Rightarrow> nat \<Rightarrow> 'a list" where
  "apply_backfill_cap messages is_initial max_initial =
     (if \<not> is_initial \<or> max_initial = 0 \<or> length messages \<le> max_initial then messages
      else drop (length messages - max_initial) messages)"

section \<open>Touched files\<close>

definition max_file_path_chars :: nat where
  "max_file_path_chars = 512"

definition trim_end_slashes :: "str \<Rightarrow> str" where
  "trim_end_slashes s = rev (dropWhile (\<lambda>c. c = 47) (rev s))"

definition touched_path :: "str \<Rightarrow> json \<Rightarrow> str option" where
  "touched_path cwd_prefix block =
     (if get_str block (lit ''type'') \<noteq> Some (lit ''tool_use'') then None
      else (let name = (case get_str block (lit ''name'') of Some n \<Rightarrow> n | None \<Rightarrow> []) in
        if after_last (lit ''__'') name \<notin> set file_mutating_tools then None
        else (case Option.bind (jget block (lit ''input'')) as_object of
           None \<Rightarrow> None
         | Some m \<Rightarrow>
             (case coalesce (opt_filter (\<lambda>s. \<not> blank s) (get_str (JObj m) (lit ''file_path'')))
                            (opt_filter (\<lambda>s. \<not> blank s) (get_str (JObj m) (lit ''notebook_path''))) of
                None \<Rightarrow> None
              | Some raw \<Rightarrow>
                  (let path = trim raw in
                   if max_file_path_chars < length path \<or> list_ex is_control path then None
                   else if starts_with cwd_prefix path \<and> cwd_prefix \<noteq> [] then Some (drop (length cwd_prefix) path)
                   else Some path)))))"

definition extract_touched_files :: "json list \<Rightarrow> str \<Rightarrow> str list" where
  "extract_touched_files messages cwd =
     (let cwd_prefix = (if cwd = [] then [] else trim_end_slashes cwd @ [47]);
          blocks = concat (map (\<lambda>msg.
            if get_str msg (lit ''role'') = Some (lit ''assistant'')
            then (case jget msg (lit ''content'') of Some (JArr bs) \<Rightarrow> bs | _ \<Rightarrow> []) else []) messages)
      in foldl (\<lambda>files p. if p \<in> set files then files else files @ [p]) []
           (List.map_filter (touched_path cwd_prefix) blocks))"

section \<open>Private text\<close>

text \<open>A marker begins with a character it has nowhere else, so an occurrence cannot straddle the text
  before it: the first marker is where the text without one ends.\<close>

lemma split_once_at_marker:
  assumes "\<not> contains (c # p) a" and "c \<notin> set p"
  shows "split_once (c # p) (a @ (c # p) @ b) = Some (a, b)"
  using assms(1)
proof (induction a)
  case Nil
  then show ?case by (subst split_once.simps) (simp add: starts_with_def)
next
  case (Cons d a)
  have rest: "\<not> contains (c # p) a"
    using Cons.prems by (auto simp: contains_iff) (metis append_Cons)
  have "\<not> starts_with (c # p) (d # a @ (c # p) @ b)"
  proof
    assume st: "starts_with (c # p) (d # a @ (c # p) @ b)"
    then obtain t where t: "a @ (c # p) @ b = p @ t" and d: "d = c"
      by (auto simp: starts_with_iff)
    show False
    proof (cases "length p \<le> length a")
      case True
      then have "take (length p) a = p"
        using t by (metis append_eq_append_conv_if)
      then have "d # a = [] @ (c # p) @ drop (length p) a"
        using d by (metis append_Cons append_Nil append_take_drop_id)
      then have "contains (c # p) (d # a)" unfolding contains_iff by blast
      then show False using Cons.prems by simp
    next
      case False
      then have "p ! length a = c"
        using t by (metis not_le nth_append nth_append_length append_Cons)
      then show False using False assms(2) by (metis not_le nth_mem)
    qed
  qed
  then show ?case using Cons.IH [OF rest] by (simp add: split_once_Cons)
qed

lemma split_private_open:
  assumes "\<not> contains private_open a"
  shows "split_once private_open (a @ private_open @ b) = Some (a, b)"
proof -
  have "private_open = 60 # lit ''private>''" "60 \<notin> set (lit ''private>'')"
    by (simp_all add: private_open_def)
  with assms show ?thesis by (metis split_once_at_marker)
qed

lemma split_private_close:
  assumes "\<not> contains private_close a"
  shows "split_once private_close (a @ private_close @ b) = Some (a, b)"
proof -
  have "private_close = 60 # lit ''/private>''" "60 \<notin> set (lit ''/private>'')"
    by (simp_all add: private_close_def)
  with assms show ?thesis by (metis split_once_at_marker)
qed

text \<open>Two texts that read the same but for what stands between private markers, or after one that is
  never closed.\<close>

inductive private_variant :: "str \<Rightarrow> str \<Rightarrow> bool" where
  pv_public: "private_variant s s"
| pv_open: "\<lbrakk>\<not> contains private_open a; \<not> contains private_close x; \<not> contains private_close y\<rbrakk>
    \<Longrightarrow> private_variant (a @ private_open @ x) (a @ private_open @ y)"
| pv_block: "\<lbrakk>\<not> contains private_open a; \<not> contains private_close x; \<not> contains private_close y;
      private_variant s t\<rbrakk>
    \<Longrightarrow> private_variant (a @ private_open @ x @ private_close @ s) (a @ private_open @ y @ private_close @ t)"

lemma strip_private_open:
  "\<not> contains private_open a \<Longrightarrow> \<not> contains private_close x \<Longrightarrow>
   strip_private (a @ private_open @ x) = a"
  by (subst strip_private.simps) (simp add: split_private_open contains_def del: not_None_eq)

lemma strip_private_block:
  "\<not> contains private_open a \<Longrightarrow> \<not> contains private_close x \<Longrightarrow>
   strip_private (a @ private_open @ x @ private_close @ s) = a @ strip_private s"
  by (subst strip_private.simps) (simp add: split_private_open split_private_close)

lemma strip_private_variant: "private_variant s t \<Longrightarrow> strip_private s = strip_private t"
  by (induction rule: private_variant.induct) (simp_all add: strip_private_open strip_private_block)

lemma clean_text_variant:
  "private_variant s t \<Longrightarrow> clean_text alphanumeric s = clean_text alphanumeric t"
  by (simp add: clean_text_def strip_private_variant)

text \<open>The same for text blocks, message contents and messages. With tool calls kept the marker is
  read in each text block by itself, or in a content that is one string; with tool calls left out it is
  read in the whole of the message's text, its text blocks joined. Tool calls and tool results are the
  same on both sides: the marker is not read in them.\<close>

definition block_variant :: "json \<Rightarrow> json \<Rightarrow> bool" where
  "block_variant b b' \<longleftrightarrow> b = b' \<or>
     (is_object b \<and> is_object b' \<and>
      get_str b (lit ''type'') = Some (lit ''text'') \<and> get_str b' (lit ''type'') = Some (lit ''text'') \<and>
      (\<exists>s t. get_str b (lit ''text'') = Some s \<and> get_str b' (lit ''text'') = Some t \<and> private_variant s t))"

definition content_variant :: "bool \<Rightarrow> json \<Rightarrow> json \<Rightarrow> bool" where
  "content_variant blocks v v' \<longleftrightarrow>
     (if blocks
      then v = v' \<or> (\<exists>s t. v = JStr s \<and> v' = JStr t \<and> private_variant s t) \<or>
           (\<exists>xs ys. v = JArr xs \<and> v' = JArr ys \<and> list_all2 block_variant xs ys)
      else private_variant (text_content v) (text_content v'))"

definition message_variant :: "bool \<Rightarrow> json \<Rightarrow> json \<Rightarrow> bool" where
  "message_variant blocks m m' \<longleftrightarrow>
     get_str m (lit ''role'') = get_str m' (lit ''role'') \<and>
     content_variant blocks (content_of m) (content_of m')"

lemma map_filter_variant:
  assumes "\<And>x y. R x y \<Longrightarrow> f x = f y" and "list_all2 R xs ys"
  shows "List.map_filter f xs = List.map_filter f ys"
  using assms(2) by induction (use assms(1) in \<open>auto simp: map_filter_simps split: option.splits\<close>)

lemma block_of_variant:
  assumes "block_variant b b'"
  shows "block_of alphanumeric ser role c b = block_of alphanumeric ser role c b'"
proof (cases "b = b'")
  case False
  with assms obtain s t where "is_object b" "is_object b'"
    "get_str b (lit ''type'') = Some (lit ''text'')" "get_str b' (lit ''type'') = Some (lit ''text'')"
    "get_str b (lit ''text'') = Some s" "get_str b' (lit ''text'') = Some t" "private_variant s t"
    unfolding block_variant_def by blast
  then show ?thesis
    by (simp add: block_of_def Let_def clean_text_variant [of s t] del: lit_Cons)
qed simp

lemma message_blocks_variant:
  "content_variant True v v' \<Longrightarrow>
   message_blocks alphanumeric ser v role c = message_blocks alphanumeric ser v' role c"
  by (auto simp: content_variant_def message_blocks_def clean_text_variant
      intro!: map_filter_variant [OF block_of_variant])

lemma structured_message_variant:
  assumes "message_variant True m m'"
  shows "structured_message alphanumeric ser opts m = structured_message alphanumeric ser opts m'"
proof -
  have "role_allowed m (no_roles opts) = role_allowed m' (no_roles opts)"
    using assms by (simp add: message_variant_def role_allowed_def)
  moreover have "message_blocks alphanumeric ser (content_of m) role c =
      message_blocks alphanumeric ser (content_of m') role c" for role c
    using assms message_blocks_variant unfolding message_variant_def by blast
  ultimately show ?thesis by (simp add: structured_message_def split: option.split)
qed

lemma text_part_variant:
  assumes "message_variant False m m'"
  shows "text_part alphanumeric opts m = text_part alphanumeric opts m'"
proof -
  have "role_allowed m (no_roles opts) = role_allowed m' (no_roles opts)"
    using assms by (simp add: message_variant_def role_allowed_def)
  moreover have "clean_text alphanumeric (text_content (content_of m)) =
      clean_text alphanumeric (text_content (content_of m'))"
    using assms by (auto simp: message_variant_def content_variant_def clean_text_variant)
  ultimately show ?thesis by (simp add: text_part_def Let_def del: lit_Cons split: option.split)
qed

text \<open>C37: Private message text has no influence on the transcript the daemon builds: two lists of
  messages that read the same outside the markers give the same transcript, whatever the serializer,
  the roles and the caps. With tool calls kept, private text is what stands between the markers of one
  text block, or of a content that is one string, or after an opening marker of it that is never closed;
  with tool calls left out the same of the joined text of the whole message, so that there an unclosed
  marker takes the later text blocks with it. Tool calls, tool results and, with tool calls kept, the
  blocks after the one with an unclosed marker are not covered.\<close>

theorem private_message_text_never_read:
  assumes "list_all2 (message_variant (no_include_tool_calls opts)) ms ms'"
  shows "normalize alphanumeric ser ms opts = normalize alphanumeric ser ms' opts"
proof -
  have "ms = [] \<longleftrightarrow> ms' = []" using assms by auto
  moreover have "json_transcript alphanumeric ser ms opts = json_transcript alphanumeric ser ms' opts"
    if "no_include_tool_calls opts"
    using that assms unfolding json_transcript_def
    by (simp only: map_filter_variant [OF structured_message_variant])
  moreover have "text_transcript alphanumeric ms opts = text_transcript alphanumeric ms' opts"
    if "\<not> no_include_tool_calls opts"
    using that assms unfolding text_transcript_def
    by (simp only: map_filter_variant [OF text_part_variant])
  ultimately show ?thesis by (simp add: normalize_def)
qed

definition sample_message :: "json \<Rightarrow> json" where
  "sample_message content = JObj [(lit ''content'', content), (lit ''role'', JStr (lit ''user''))]"

definition sample_closed :: "string \<Rightarrow> json" where
  "sample_closed secret = sample_message (JArr [text_block
     (lit ''hello '' @ private_open @ lit secret @ private_close @ lit ''again''), text_block (lit ''after'')])"

definition sample_unclosed :: "string \<Rightarrow> json" where
  "sample_unclosed secret = sample_message (JArr [text_block
     (lit ''hello again '' @ private_open @ lit secret), text_block (lit secret)])"

definition sample_opts :: "bool \<Rightarrow> normalize_opts" where
  "sample_opts tools = \<lparr>no_roles = [lit ''user''], no_include_tool_calls = tools, no_caps = caps_default\<rparr>"

lemma sample_message_variant:
  "content_variant blocks v v' \<Longrightarrow> message_variant blocks (sample_message v) (sample_message v')"
  by (simp add: message_variant_def sample_message_def content_of_def get_str_def)

lemma sample_closed_variant:
  "message_variant True (sample_closed ''the key'') (sample_closed ''no'')"
proof -
  have a: "\<not> contains private_open (lit ''hello '')" "\<not> contains private_close (lit ''the key'')"
    "\<not> contains private_close (lit ''no'')"
    by (code_simp)+
  show ?thesis unfolding sample_closed_def
    by (rule sample_message_variant)
      (use pv_block [OF a pv_public] in \<open>simp add: content_variant_def block_variant_def text_block_def get_str_def\<close>)
qed

lemma sample_unclosed_variant:
  "message_variant False (sample_unclosed ''the key'') (sample_unclosed ''no'')"
proof -
  have a: "\<not> contains private_open (lit ''hello again '')"
    "\<not> contains private_close (lit ''the key'' @ [10] @ lit ''the key'')"
    "\<not> contains private_close (lit ''no'' @ [10] @ lit ''no'')"
    by (code_simp)+
  have t: "joined_texts [text_block (lit ''hello again '' @ private_open @ lit ''the key''), text_block (lit ''the key'')]
      = lit ''hello again '' @ private_open @ lit ''the key'' @ [10] @ lit ''the key''"
    "joined_texts [text_block (lit ''hello again '' @ private_open @ lit ''no''), text_block (lit ''no'')]
      = lit ''hello again '' @ private_open @ lit ''no'' @ [10] @ lit ''no''"
    by (code_simp)+
  show ?thesis unfolding sample_unclosed_def
    by (rule sample_message_variant)
      (use pv_open [OF a] in \<open>simp only: content_variant_def text_content.simps t if_False\<close>)
qed

theorem private_message_text_never_read_witness:
  "sample_closed ''the key'' \<noteq> sample_closed ''no'' \<and> sample_unclosed ''the key'' \<noteq> sample_unclosed ''no'' \<and>
   normalize (\<lambda>c. 97 \<le> c \<and> c \<le> 122) (\<lambda>v. replicate 20 0) [sample_closed ''the key''] (sample_opts True) =
   normalize (\<lambda>c. 97 \<le> c \<and> c \<le> 122) (\<lambda>v. replicate 20 0) [sample_closed ''no''] (sample_opts True) \<and>
   normalize (\<lambda>c. 97 \<le> c \<and> c \<le> 122) (\<lambda>v. replicate 20 0) [sample_unclosed ''the key''] (sample_opts False) =
   normalize (\<lambda>c. 97 \<le> c \<and> c \<le> 122) (\<lambda>v. replicate 20 0) [sample_unclosed ''no''] (sample_opts False)"
proof (intro conjI)
  show "sample_closed ''the key'' \<noteq> sample_closed ''no''" "sample_unclosed ''the key'' \<noteq> sample_unclosed ''no''"
    by (simp_all add: sample_closed_def sample_unclosed_def sample_message_def text_block_def)
  show "normalize (\<lambda>c. 97 \<le> c \<and> c \<le> 122) (\<lambda>v. replicate 20 0) [sample_closed ''the key''] (sample_opts True) =
    normalize (\<lambda>c. 97 \<le> c \<and> c \<le> 122) (\<lambda>v. replicate 20 0) [sample_closed ''no''] (sample_opts True)"
    by (rule private_message_text_never_read) (simp add: sample_opts_def sample_closed_variant)
  show "normalize (\<lambda>c. 97 \<le> c \<and> c \<le> 122) (\<lambda>v. replicate 20 0) [sample_unclosed ''the key''] (sample_opts False) =
    normalize (\<lambda>c. 97 \<le> c \<and> c \<le> 122) (\<lambda>v. replicate 20 0) [sample_unclosed ''no''] (sample_opts False)"
    by (rule private_message_text_never_read) (simp add: sample_opts_def sample_unclosed_variant)
qed

text \<open>\<open>strip_private\<close> says an unclosed marker drops everything to the end of the message; it is called
  once per block, so the message's later text blocks are kept. With tool calls left out the blocks are
  joined first, and the rest of the message does go.\<close>

lemma unclosed_marker_keeps_next_block:
  assumes "clean_text alphanumeric s \<noteq> []"
  shows "text_block (clean_text alphanumeric s) \<in>
    set (message_blocks alphanumeric ser (JArr [text_block private_open, text_block s]) role c)"
proof -
  have "get_str (text_block t) (lit ''type'') = Some (lit ''text'')"
    "get_str (text_block t) (lit ''text'') = Some t" "is_object (text_block t)" for t
    by (simp_all add: text_block_def get_str_def)
  then have "block_of alphanumeric ser role c (text_block s) = Some (text_block (clean_text alphanumeric s))"
    using assms by (simp add: block_of_def Let_def del: lit_Cons)
  then show ?thesis by (auto simp: message_blocks_def map_filter_simps split: option.split)
qed

section \<open>Tool calls: what the caps drop is named\<close>

definition truncated_fields :: "json \<Rightarrow> json list" where
  "truncated_fields v = (case jget v truncated_fields_key of Some (JArr ks) \<Rightarrow> ks | _ \<Rightarrow> [])"

lemma map_of_capped: "map_of (map (\<lambda>(k, v). (k, f v)) m) k = map_option f (map_of m k)"
  by (induction m) auto

lemma map_of_kept:
  "map_of (fold (\<lambda>k acc. case map_of capped k of Some v \<Rightarrow> obj_insert k v acc | None \<Rightarrow> acc) ks acc) k =
   (if k \<in> set ks \<and> map_of capped k \<noteq> None then map_of capped k else map_of acc k)"
  by (induction ks arbitrary: acc) (auto split: option.splits)

lemma truncated_fields_not_priority: "truncated_fields_key \<notin> set priority_input_keys"
  by code_simp

lemma compact_entry:
  assumes m: "map_of m k = Some v"
  shows "jget (compact_tool_input ser c (JObj m)) k = Some (cap_field c v) \<or>
    (k \<notin> set priority_input_keys \<and>
     JStr k \<in> set (truncated_fields (compact_tool_input ser c (JObj m))))"
proof -
  define capped where "capped = map (\<lambda>(k, v). (k, cap_field c v)) m"
  define kept where "kept = fold (\<lambda>k acc. case map_of capped k of Some v \<Rightarrow> obj_insert k v acc | None \<Rightarrow> acc)
    priority_input_keys []"
  define dropped where "dropped = map (JStr \<circ> fst) (filter (\<lambda>(k, v). map_of kept k = None) capped)"
  have k: "map_of capped k = Some (cap_field c v)" by (simp add: capped_def map_of_capped m)
  have kept_k: "map_of kept k = (if k \<in> set priority_input_keys then Some (cap_field c v) else None)"
    by (simp add: kept_def map_of_kept k)
  have r: "compact_tool_input ser c (JObj m) =
      (if length (ser (JObj capped)) \<le> cap_tool_input_total c then JObj capped
       else JObj (if dropped \<noteq> [] then obj_insert truncated_fields_key (JArr dropped) kept else kept))"
    unfolding compact_tool_input_def Let_def capped_def kept_def dropped_def as_object.simps option.case
    by (rule refl)
  show ?thesis
  proof (cases "k \<in> set priority_input_keys")
    case True
    then have "k \<noteq> truncated_fields_key" using truncated_fields_not_priority by blast
    with True show ?thesis by (simp add: r k kept_k)
  next
    case False
    then have "JStr k \<in> set dropped"
      using k kept_k by (force simp: dropped_def dest: map_of_SomeD)
    with False show ?thesis by (auto simp: r k truncated_fields_def)
  qed
qed

text \<open>The caps lose no field of a tool call in silence: every key of the input is in the compacted
  input, with its value under the field cap, or is listed in \<open>_truncated_fields\<close>; and a key of the
  priority list, such as the path of the file a tool changed, is never one of those listed.\<close>

lemma compact_input_loses_nothing_silently:
  assumes "jget (JObj m) k = Some v"
  shows "jget (compact_tool_input ser c (JObj m)) k = Some (cap_field c v) \<or>
    (k \<notin> set priority_input_keys \<and>
     JStr k \<in> set (truncated_fields (compact_tool_input ser c (JObj m))))"
  using compact_entry [of m k v ser c] assms by simp

section \<open>Touched files: distinct, short and printable\<close>

lemma touched_path_shape:
  assumes "touched_path pre b = Some p"
  shows "length p \<le> max_file_path_chars \<and> \<not> list_ex is_control p"
proof -
  from assms obtain raw where raw: "length (trim raw) \<le> max_file_path_chars" "\<not> list_ex is_control (trim raw)"
      and p: "p = trim raw \<or> p = drop (length pre) (trim raw)"
    unfolding touched_path_def Let_def
    by (auto split: if_splits option.splits simp: not_less simp del: lit_Cons)
  from p show ?thesis
  proof
    assume "p = drop (length pre) (trim raw)"
    with raw show ?thesis by (auto simp: list_ex_iff dest: in_set_dropD)
  qed (use raw in simp)
qed

lemma dedup_fold:
  "distinct acc \<Longrightarrow>
   distinct (foldl (\<lambda>files p. if p \<in> set files then files else files @ [p]) acc ps) \<and>
   set (foldl (\<lambda>files p. if p \<in> set files then files else files @ [p]) acc ps) = set acc \<union> set ps"
  by (induction ps arbitrary: acc) auto

lemma set_touched:
  "set (List.map_filter f xs) = {y. \<exists>x\<in>set xs. f x = Some y}"
  by (auto simp: List.map_filter_def image_iff) force

text \<open>The files a batch of messages touched are listed once each, and none is longer than 512
  characters or holds a control character: a line of the list cannot pass for two.\<close>

lemma touched_files_clean:
  "distinct (extract_touched_files messages cwd) \<and>
   list_all (\<lambda>p. length p \<le> max_file_path_chars \<and> \<not> list_ex is_control p)
     (extract_touched_files messages cwd)"
  using touched_path_shape dedup_fold [of "[]"]
  by (auto simp: extract_touched_files_def Let_def list_all_iff set_touched simp del: lit_Cons)

end
