(* ===== verification/Retain_Request.thy ===== *)
theory Retain_Request
  imports Retain_Queue Transcript_Prep
begin

text \<open>
  \<open>crates/memgardend/src/routes/retain.rs\<close> and \<open>routes/sessions.rs\<close>, with \<open>plan_ingest\<close> of \<open>retain/mod.rs\<close>:
  what the daemon does with a request before a job runs. A request is answered \<open>skipped\<close>, \<open>duplicate\<close> or
  \<open>accepted\<close>, or refused; an accepted one leaves a job row that holds its own task. What a request meets
  (the clock, its fresh job id, and for each write whether the database carried it out) is the record
  \<open>request_io\<close>; the configuration and the third-party routines are the record \<open>service\<close>.
\<close>

section \<open>The plan of an ingestion\<close>

record retain_config =
  rc_include_tool_calls :: bool
  rc_caps :: caps
  rc_max_initial_messages :: nat
  rc_file_tag_cap :: nat
  rc_chunk_size :: nat

record service =
  sv_alphanumeric :: "uchar \<Rightarrow> bool"
  sv_ser :: "json \<Rightarrow> str"
  sv_parse :: "str \<Rightarrow> json option"
  sv_render :: "json \<Rightarrow> str"
  sv_sha :: "str \<Rightarrow> str"
  sv_tokens :: "str \<Rightarrow> nat"
  sv_task_ser :: "retain_task \<Rightarrow> str option"
  sv_retain :: retain_config
  sv_profile_mission :: str

record ingest_plan =
  ip_transcript :: str
  ip_message_count :: nat
  ip_raw_tokens :: nat
  ip_capped_tokens :: nat
  ip_file_tags :: "str list"
  ip_files_modified :: "str list"
  ip_content_hash :: str

definition saved_tokens :: "ingest_plan \<Rightarrow> nat" where
  "saved_tokens p = ip_raw_tokens p - ip_capped_tokens p"

definition saving_ratio :: "ingest_plan \<Rightarrow> rat" where
  "saving_ratio p =
     (if ip_raw_tokens p = 0 then 0
      else max 0 (1 - of_nat (ip_capped_tokens p) / of_nat (ip_raw_tokens p)))"

definition plan_ingest :: "service \<Rightarrow> json list \<Rightarrow> str \<Rightarrow> bool \<Rightarrow> ingest_plan option" where
  "plan_ingest sv messages cwd is_initial =
     (let cfg = sv_retain sv;
          roles = [lit ''user'', lit ''assistant''];
          opts = (\<lambda>c. \<lparr>no_roles = roles, no_include_tool_calls = rc_include_tool_calls cfg, no_caps = c\<rparr>);
          raw = (case normalize (sv_alphanumeric sv) (sv_ser sv) messages (opts caps_none) of
                   Some (t, _) \<Rightarrow> sv_tokens sv t | None \<Rightarrow> 0);
          capped = apply_backfill_cap messages is_initial (rc_max_initial_messages cfg)
      in (case normalize (sv_alphanumeric sv) (sv_ser sv) capped (opts (rc_caps cfg)) of
            None \<Rightarrow> None
          | Some (t, count) \<Rightarrow>
              (let files = take (rc_file_tag_cap cfg) (extract_touched_files capped cwd)
               in Some \<lparr>ip_transcript = t, ip_message_count = count, ip_raw_tokens = raw,
                    ip_capped_tokens = sv_tokens sv t, ip_file_tags = map (\<lambda>p. lit ''file:'' @ p) files,
                    ip_files_modified = files, ip_content_hash = sv_sha sv t\<rparr>)))"

section \<open>The request\<close>

record retain_request =
  rr_messages :: "json list"
  rr_session_id :: "str option"
  rr_document_id :: "str option"
  rr_cwd :: "str option"
  rr_is_initial :: bool
  rr_context :: "str option"
  rr_tags :: "str list"
  rr_metadata :: "(str \<times> json) list"
  rr_event_date :: "int option"
  rr_mission :: "str option"
  rr_byte_offset :: "int option"
  rr_offset_from :: "int option"
  rr_turn :: "int option"
  rr_chunk :: "int option"
  rr_compactions :: "int option"

record request_io =
  ri_job_id :: str
  ri_now :: int
  ri_disposition :: "str option"
  ri_bank_ok :: bool
  ri_document_ok :: bool
  ri_saving_ok :: bool
  ri_job_ok :: bool
  ri_mirror_ok :: bool
  ri_task_ok :: bool
  ri_fail_ok :: bool

definition max_tags :: nat where
  "max_tags = 32"

definition max_tag_chars :: nat where
  "max_tag_chars = 128"

definition tag_ok :: "str \<Rightarrow> bool" where
  "tag_ok t \<longleftrightarrow> t \<noteq> [] \<and> length t \<le> max_tag_chars \<and> \<not> list_ex is_control t"

definition sanitize_tags :: "str list \<Rightarrow> str list" where
  "sanitize_tags raw = take max_tags (filter tag_ok (map trim raw))"

definition request_tags :: "retain_request \<Rightarrow> ingest_plan \<Rightarrow> str list" where
  "request_tags body plan =
     sanitize_tags ((case rr_session_id body of Some s \<Rightarrow> [lit ''session:'' @ s] | None \<Rightarrow> [])
       @ ip_file_tags plan @ rr_tags body)"

definition document_metadata :: "retain_request \<Rightarrow> ingest_plan \<Rightarrow> (str \<times> json) list" where
  "document_metadata body plan =
     (let m0 = obj_insert (lit ''message_count'') (JNum (NInt (int (ip_message_count plan))))
                 (obj_remove hash_key (rr_metadata body));
          m1 = (case rr_session_id body of Some s \<Rightarrow> obj_insert (lit ''session_id'') (JStr s) m0 | None \<Rightarrow> m0)
      in if ip_files_modified plan \<noteq> []
         then obj_insert (lit ''files_modified'') (JStr (join [44] (ip_files_modified plan))) m1 else m1)"

definition resolve_mission :: "service \<Rightarrow> str option \<Rightarrow> retain_request \<Rightarrow> str option" where
  "resolve_mission sv disposition body =
     (case opt_filter (\<lambda>m. m \<noteq> []) (rr_mission body) of
        Some m \<Rightarrow> Some m
      | None \<Rightarrow>
          coalesce
            (opt_filter (\<lambda>m. m \<noteq> [])
              (Option.bind (Option.bind disposition (sv_parse sv)) (\<lambda>d. get_str d (lit ''retain_mission''))))
            (opt_filter (\<lambda>m. m \<noteq> []) (Some (sv_profile_mission sv))))"

datatype confirm = IfSettled | NoConfirm

definition mirror_update :: "str \<Rightarrow> retain_request \<Rightarrow> nat \<Rightarrow> confirm \<Rightarrow> session_update" where
  "mirror_update session_id body messages_sent c =
     su_default\<lparr>su_session_id := session_id, su_cwd := opt_filter (\<lambda>s. s \<noteq> []) (rr_cwd body),
       su_turns := rr_turn body, su_chunk_index := rr_chunk body, su_byte_offset := rr_byte_offset body,
       su_confirm_if_settled := (case c of IfSettled \<Rightarrow> rr_byte_offset body | NoConfirm \<Rightarrow> None),
       su_compactions := rr_compactions body, su_retains_delta := 1,
       su_messages_sent_delta := i64_of_u64_sat messages_sent\<rparr>"

definition mirror_session ::
  "request_io \<Rightarrow> daemon_db \<Rightarrow> str \<Rightarrow> retain_request \<Rightarrow> nat \<Rightarrow> confirm \<Rightarrow> daemon_db" where
  "mirror_session io db bank body messages_sent c =
     (case opt_filter (\<lambda>s. s \<noteq> []) (rr_session_id body) of
        None \<Rightarrow> db
      | Some sid \<Rightarrow>
          (if \<not> ri_mirror_ok io then db
           else (case session_upsert (db_banks db) (db_sessions db) bank
                        (mirror_update sid body messages_sent c) (ri_now io) of
                   Inl e \<Rightarrow> db
                 | Inr (row, t) \<Rightarrow> db\<lparr>db_sessions := t\<rparr>)))"

datatype prepared =
    Skipped
  | Duplicate ingest_plan int
  | Queued ingest_plan retain_task

definition request_task ::
  "service \<Rightarrow> request_io \<Rightarrow> str \<Rightarrow> retain_request \<Rightarrow> ingest_plan \<Rightarrow> int \<Rightarrow> int \<Rightarrow> retain_task" where
  "request_task sv io bank body plan doc event_date_ms =
     \<lparr>rt_job_id = ri_job_id io, rt_bank_id = bank, rt_document_id = doc, rt_session_id = rr_session_id body,
      rt_transcript = ip_transcript plan, rt_event_date_ms = event_date_ms,
      rt_mission = resolve_mission sv (ri_disposition io) body, rt_context = rr_context body,
      rt_tags = request_tags body plan, rt_content_hash = ip_content_hash plan,
      rt_byte_offset = rr_byte_offset body, rt_offset_from = rr_offset_from body,
      rt_chunk_size = rc_chunk_size (sv_retain sv), rt_chunker = chunker_version, rt_resume = None\<rparr>"

definition job_detail :: "ingest_plan \<Rightarrow> json" where
  "job_detail plan =
     JObj [(lit ''capped_tokens'', JNum (NInt (int (ip_capped_tokens plan)))),
           (lit ''message_count'', JNum (NInt (int (ip_message_count plan)))),
           (lit ''raw_tokens'', JNum (NInt (int (ip_raw_tokens plan)))),
           (lit ''saved_tokens'', JNum (NInt (int (saved_tokens plan)))),
           (lit ''saving_ratio'', JNum (NFloat (saving_ratio plan)))]"

text \<open>\<open>prepare\<close>. The database is returned with an error too: what was written before it stays written.\<close>

definition queue_job ::
  "service \<Rightarrow> request_io \<Rightarrow> daemon_db \<Rightarrow> str \<Rightarrow> int \<Rightarrow> retain_request \<Rightarrow> ingest_plan \<Rightarrow> int
    \<Rightarrow> daemon_db \<times> (api_error + prepared)" where
  "queue_job sv io db bank event_date_ms body plan doc =
     (if saved_tokens plan > 0 \<and> \<not> ri_saving_ok io \<or> \<not> ri_job_ok io then (db, Inl (ApiStore ErrStorage))
      else (case job_insert (db_banks db) (db_jobs db) (ri_job_id io) bank (Some doc) (rr_session_id body)
                   (Some (sv_ser sv (job_detail plan))) (opt_zip (rr_offset_from body) (rr_byte_offset body))
                   (ri_now io) of
              Inl e \<Rightarrow> (db, Inl (ApiStore e))
            | Inr jobs \<Rightarrow>
                (let db1 = mirror_session io (db\<lparr>db_jobs := jobs\<rparr>) bank body (ip_message_count plan) NoConfirm;
                     task = request_task sv io bank body plan doc event_date_ms;
                     db2 = (case sv_task_ser sv task of
                              None \<Rightarrow> db1
                            | Some s \<Rightarrow> if ri_task_ok io
                                then db1\<lparr>db_jobs := set_task (db_jobs db1) (ri_job_id io) s\<rparr> else db1)
                 in (db2, Inr (Queued plan task)))))"

definition plan_of :: "service \<Rightarrow> retain_request \<Rightarrow> ingest_plan option" where
  "plan_of sv body =
     plan_ingest sv (rr_messages body) (case rr_cwd body of Some c \<Rightarrow> c | None \<Rightarrow> []) (rr_is_initial body)"

definition prepare ::
  "service \<Rightarrow> request_io \<Rightarrow> daemon_db \<Rightarrow> str \<Rightarrow> str \<Rightarrow> int \<Rightarrow> retain_request
    \<Rightarrow> daemon_db \<times> (api_error + prepared)" where
  "prepare sv io db bank doc_key event_date_ms body =
     (if \<not> ri_bank_ok io then (db, Inl (ApiStore ErrStorage))
      else if bank \<notin> set (db_banks db) then (db, Inl ApiNotFound)
      else (case plan_of sv body of
              None \<Rightarrow> (mirror_session io db bank body 0 IfSettled, Inr Skipped)
            | Some plan \<Rightarrow>
                (if \<not> ri_document_ok io then (db, Inl (ApiStore ErrStorage))
                 else (case documents_upsert (sv_render sv) (db_banks db) (db_docs db) bank doc_key
                              (rr_session_id body) (document_metadata body plan) (ip_content_hash plan)
                              (ri_now io) of
                         Inl e \<Rightarrow> (db, Inl (ApiStore e))
                       | Inr (u, docs) \<Rightarrow>
                           (let db1 = db\<lparr>db_docs := docs\<rparr> in
                            if du_unchanged u
                            then (mirror_session io db1 bank body (ip_message_count plan) IfSettled,
                                  Inr (Duplicate plan (du_id u)))
                            else queue_job sv io db1 bank event_date_ms body plan (du_id u))))))"

section \<open>The handler\<close>

datatype queue_slot = SlotFree | SlotFull | SlotClosed

datatype retain_answer =
    RefusedAnswer api_error
  | SkippedAnswer
  | DuplicateAnswer ingest_plan int
  | AcceptedAnswer ingest_plan retain_task

definition min_event_date_ms :: int where
  "min_event_date_ms = -62135596800000"

definition max_event_date_ms :: int where
  "max_event_date_ms = 253402300799000"

definition doc_key_of :: "request_io \<Rightarrow> retain_request \<Rightarrow> str" where
  "doc_key_of io body =
     (case coalesce (rr_document_id body) (rr_session_id body) of Some k \<Rightarrow> k | None \<Rightarrow> ri_job_id io)"

text \<open>\<open>retain_inner\<close>: \<open>queued\<close> is the byte counter. An accepted task goes to the queue.\<close>

definition retain_inner ::
  "service \<Rightarrow> request_io \<Rightarrow> queue_slot \<Rightarrow> nat \<Rightarrow> daemon_db \<Rightarrow> str \<Rightarrow> retain_request
    \<Rightarrow> daemon_db \<times> nat \<times> retain_answer" where
  "retain_inner sv io slot queued db bank body =
     (if rr_messages body = [] then (db, queued, RefusedAnswer (ApiStore ErrInvalid))
      else if (case rr_session_id body of Some s \<Rightarrow> max_session_id_bytes < byte_len s | None \<Rightarrow> False)
        then (db, queued, RefusedAnswer (ApiStore ErrInvalid))
      else if slot = SlotFull then (db, queued, RefusedAnswer ApiTooManyRequests)
      else if slot = SlotClosed then (db, queued, RefusedAnswer ApiUnavailable)
      else (let event_date_ms = max min_event_date_ms (min max_event_date_ms
                  (case rr_event_date body of Some d \<Rightarrow> d | None \<Rightarrow> ri_now io)) in
        (case prepare sv io db bank (doc_key_of io body) event_date_ms body of
           (db1, Inl e) \<Rightarrow> (db1, queued, RefusedAnswer e)
         | (db1, Inr Skipped) \<Rightarrow> (db1, queued, SkippedAnswer)
         | (db1, Inr (Duplicate plan doc)) \<Rightarrow> (db1, queued, DuplicateAnswer plan doc)
         | (db1, Inr (Queued plan task)) \<Rightarrow>
             (if max_queued_bytes < queued + byte_len (rt_transcript task)
              then ((if ri_fail_ok io
                     then db1\<lparr>db_jobs := job_update (db_jobs db1) (rt_job_id task)
                            (jp_default\<lparr>jp_status := JFailed,
                               jp_error := Some (lit ''retain queue byte budget exhausted'')\<rparr>) (ri_now io)\<rparr>
                     else db1), queued, RefusedAnswer ApiTooManyRequests)
              else (db1, queued + byte_len (rt_transcript task), AcceptedAnswer plan task)))))"

section \<open>Sessions over HTTP\<close>

record session_request =
  sr_session_id :: str
  sr_cwd :: "str option"
  sr_transcript_path :: "str option"
  sr_source :: "str option"
  sr_end_reason :: "str option"
  sr_ended_at :: "int option"
  sr_turns :: "int option"
  sr_chunk_index :: "int option"
  sr_byte_offset :: "int option"

definition max_path_bytes :: nat where
  "max_path_bytes = 4096"

definition max_reason_bytes :: nat where
  "max_reason_bytes = 64"

definition check_len :: "str option \<Rightarrow> nat \<Rightarrow> bool" where
  "check_len v m = (case v of Some s \<Rightarrow> byte_len s \<le> m | None \<Rightarrow> True)"

definition upsert_session ::
  "daemon_db \<Rightarrow> str \<Rightarrow> session_request \<Rightarrow> int \<Rightarrow> api_error + (session \<times> daemon_db)" where
  "upsert_session db bank body now =
     (if \<not> (check_len (sr_cwd body) max_path_bytes \<and> check_len (sr_transcript_path body) max_path_bytes \<and>
            check_len (sr_source body) max_reason_bytes \<and> check_len (sr_end_reason body) max_reason_bytes)
      then Inl (ApiStore ErrInvalid)
      else (case session_upsert (db_banks db) (db_sessions db) bank
                   (su_default\<lparr>su_session_id := sr_session_id body, su_cwd := sr_cwd body,
                      su_transcript_path := sr_transcript_path body, su_source := sr_source body,
                      su_end_reason := sr_end_reason body, su_ended_at := sr_ended_at body,
                      su_turns := sr_turns body, su_chunk_index := sr_chunk_index body,
                      su_byte_offset := sr_byte_offset body\<rparr>) now of
              Inl e \<Rightarrow> Inl (ApiStore e)
            | Inr (row, t) \<Rightarrow> Inr (row, db\<lparr>db_sessions := t\<rparr>)))"

definition max_list_limit :: nat where
  "max_list_limit = 200"

definition default_list_limit :: nat where
  "default_list_limit = 50"

definition list_sessions :: "daemon_db \<Rightarrow> str \<Rightarrow> nat option \<Rightarrow> bool option \<Rightarrow> session list" where
  "list_sessions db bank limit active =
     session_list (db_sessions db) bank
       (max 1 (min max_list_limit (case limit of Some n \<Rightarrow> n | None \<Rightarrow> default_list_limit)))
       (active = Some True)"

definition get_session :: "daemon_db \<Rightarrow> str \<Rightarrow> str \<Rightarrow> api_error + session" where
  "get_session db bank sid =
     (case session_get (db_sessions db) bank sid of Some r \<Rightarrow> Inr r | None \<Rightarrow> Inl ApiNotFound)"

section \<open>A request to try the theorems on\<close>

definition empty_db :: "str list \<Rightarrow> daemon_db" where
  "empty_db banks = \<lparr>db_banks = banks, db_sessions = [], db_jobs = [], db_docs = [], db_nodes = []\<rparr>"

definition sample_service :: service where
  "sample_service =
     \<lparr>sv_alphanumeric = \<lambda>_. True, sv_ser = \<lambda>_. [45, 45, 45, 45, 45, 45, 45, 45, 45, 45], sv_parse = \<lambda>_. None, sv_render = \<lambda>_. [],
      sv_sha = \<lambda>s. s, sv_tokens = length, sv_task_ser = \<lambda>_. Some [1],
      sv_retain = \<lparr>rc_include_tool_calls = True, rc_caps = caps_default, rc_max_initial_messages = 0,
        rc_file_tag_cap = 5, rc_chunk_size = 3000\<rparr>, sv_profile_mission = []\<rparr>"

definition sample_request :: "retain_request" where
  "sample_request =
     \<lparr>rr_messages = [JObj [(lit ''content'', JStr (lit ''x'')), (lit ''role'', JStr (lit ''user''))]],
      rr_session_id = Some (lit ''s''), rr_document_id = None, rr_cwd = None, rr_is_initial = False,
      rr_context = None, rr_tags = [], rr_metadata = [], rr_event_date = None, rr_mission = None,
      rr_byte_offset = Some 9, rr_offset_from = Some 0, rr_turn = None, rr_chunk = None, rr_compactions = None\<rparr>"

definition sample_io :: "str \<Rightarrow> request_io" where
  "sample_io job = \<lparr>ri_job_id = job, ri_now = 7, ri_disposition = None, ri_bank_ok = True, ri_document_ok = True,
     ri_saving_ok = True, ri_job_ok = True, ri_mirror_ok = True, ri_task_ok = True, ri_fail_ok = True\<rparr>"

definition sample_plan :: ingest_plan where
  "sample_plan = \<lparr>ip_transcript = [45, 45, 45, 45, 45, 45, 45, 45, 45, 45], ip_message_count = 1, ip_raw_tokens = 10, ip_capped_tokens = 10,
     ip_file_tags = [], ip_files_modified = [], ip_content_hash = [45, 45, 45, 45, 45, 45, 45, 45, 45, 45]\<rparr>"

lemma sample_clean: "clean_text a (lit ''x'') = lit ''x''"
proof -
  have n: "split_once [60, 112, 114, 105, 118, 97, 116, 101, 62] [120] = None" by (simp add: split_once_Cons split_once_Nil starts_with_def)
  have "strip_private [120] = [120]" by (subst strip_private.simps) (simp add: private_open_def n)
  moreover have "remove_blocks [120] (lit ''<'' @ t) c = [120]" for t c
    by (subst remove_blocks.simps) (simp add: split_once_Cons split_once_Nil starts_with_def)
  moreover have "find_channel_open a [120] = None"
    by (subst find_channel_open.simps) (simp add: split_once_Cons split_once_Nil starts_with_def)
  ultimately show ?thesis
    by (simp add: clean_text_def strip_memory_tags_def memory_tags_def strip_channel_envelope_def trim_def trim_start_def trim_end_def is_ws_def)
qed

lemma sample_normalized: "normalize a (\<lambda>_. [45, 45, 45, 45, 45, 45, 45, 45, 45, 45]) (rr_messages sample_request)
   \<lparr>no_roles = [lit ''user'', lit ''assistant''], no_include_tool_calls = True, no_caps = c\<rparr> = Some ([45, 45, 45, 45, 45, 45, 45, 45, 45, 45], 1)"
  by (simp add: normalize_def sample_request_def json_transcript_def structured_message_def role_allowed_def get_str_def
    content_of_def message_blocks_def sample_clean [simplified] Let_def map_filter_simps long_enough_def trim_def trim_start_def trim_end_def is_ws_def text_block_def)

lemma sample_untouched: "extract_touched_files (rr_messages sample_request) [] = []"
 by (simp add: extract_touched_files_def sample_request_def get_str_def map_filter_simps)

lemma sample_plan_of: "plan_of sample_service sample_request = Some sample_plan"
  using sample_normalized sample_untouched
  by (simp add: plan_of_def plan_ingest_def sample_service_def Let_def apply_backfill_cap_def del: lit_Cons)
     (simp add: sample_request_def sample_plan_def)


definition sample_task_of :: "retain_task" where
  "sample_task_of = request_task sample_service (sample_io [9]) [98] sample_request sample_plan 1 7"

definition accepted_db :: daemon_db where
  "accepted_db =
     \<lparr>db_banks = [[98]],
      db_sessions = [insert_row [98] (mirror_update [115] sample_request 1 NoConfirm) 7],
      db_jobs = [\<lparr>j_job_id = [9], j_bank_id = [98], j_document_id = Some 1, j_session_id = Some [115],
        j_status = lit ''pending'', j_chunks_total = 0, j_chunks_done = 0, j_chunks_skipped = 0,
        j_chunks_failed = 0, j_facts_written = 0, j_error = None, j_detail = Some [45, 45, 45, 45, 45, 45, 45, 45, 45, 45],
        j_created_at = 7, j_updated_at = 7, j_offset_from = 0, j_offset_to = 9, j_task = Some [1]\<rparr>],
      db_docs = [\<lparr>dc_id = 1, dc_bank_id = [98], dc_doc_key = [115], dc_title = Some [115],
        dc_metadata = Some (document_metadata sample_request sample_plan), dc_created_at = 7, dc_updated_at = 7\<rparr>],
      db_nodes = []\<rparr>"

lemma sample_accepted:
  "retain_inner sample_service (sample_io [9]) SlotFree 0 (empty_db [[98]]) [98] sample_request =
     (accepted_db, 10, AcceptedAnswer sample_plan sample_task_of)"
  by (simp add: retain_inner_def prepare_def sample_plan_of Let_def empty_db_def documents_upsert_def doc_find_def,
    simp add: sample_request_def sample_io_def doc_key_of_def queue_job_def sample_plan_def saved_tokens_def mirror_session_def
     job_insert_def set_task_def session_upsert_def session_get_def max_session_id_bytes_def utf8_width_def fresh_doc_id_def sample_service_def
     byte_len_def request_task_def max_queued_bytes_def  mirror_update_def su_default_def  Let_def sample_task_of_def
     max_event_date_ms_def min_event_date_ms_def accepted_db_def)

section \<open>Tags\<close>

text \<open>The tags of a job are bounded whatever the client, the session id or the transcript supplies: at
  most 32, each trimmed, not empty, at most 128 characters and without control characters; and a session
  tag that passes the same test is always among them, whatever else was sent.\<close>

lemma request_tags_bounded:
  "length (request_tags body plan) \<le> max_tags \<and>
   list_all (\<lambda>t. tag_ok t \<and> trim t = t) (request_tags body plan) \<and>
   (\<forall>sid. rr_session_id body = Some sid \<longrightarrow> tag_ok (trim (lit ''session:'' @ sid)) \<longrightarrow>
      trim (lit ''session:'' @ sid) \<in> set (request_tags body plan))"
proof -
  have "tag_ok t \<and> trim t = t" if "t \<in> set (request_tags body plan)" for t
    using that unfolding request_tags_def sanitize_tags_def by (fastforce dest: in_set_takeD simp del: lit_Cons)
  moreover have "trim (lit ''session:'' @ sid) \<in> set (request_tags body plan)"
    if "rr_session_id body = Some sid" "tag_ok (trim (lit ''session:'' @ sid))" for sid
    using that by (simp add: request_tags_def sanitize_tags_def max_tags_def del: lit_Cons)
  moreover have "length (request_tags body plan) \<le> max_tags"
    by (simp add: request_tags_def sanitize_tags_def)
  ultimately show ?thesis unfolding list_all_iff by blast
qed

text \<open>A session id the handler accepts may still be too long for its tag, which is then dropped.\<close>

lemma long_session_loses_its_tag:
  assumes "rr_session_id body = Some (replicate 121 97)" and "rr_tags body = []" and "ip_file_tags plan = []"
  shows "byte_len (replicate 121 97) \<le> max_session_id_bytes \<and> request_tags body plan = []"
proof -
  have "\<forall>c\<in>set (lit ''session:'' @ replicate 121 97). \<not> is_ws c" by (simp add: is_ws_def)
  then have "trim (lit ''session:'' @ replicate 121 97) = lit ''session:'' @ replicate 121 97"
    by (rule trim_no_ws)
  then have "\<not> tag_ok (trim (lit ''session:'' @ replicate 121 97))"
    by (simp add: tag_ok_def max_tag_chars_def)
  moreover have "byte_len (replicate 121 97) = 121"
    by (simp add: byte_len_def utf8_width_def sum_list_replicate)
  ultimately show ?thesis
    using assms by (simp add: request_tags_def sanitize_tags_def max_session_id_bytes_def del: lit_Cons)
qed

section \<open>Refusals\<close>

lemma mirror_sessions:
  "db_sessions (mirror_session io db bank body m c) = db_sessions db \<or>
   (\<exists>sid row. rr_session_id body = Some sid \<and>
      session_upsert (db_banks db) (db_sessions db) bank (mirror_update sid body m c) (ri_now io) =
        Inr (row, db_sessions (mirror_session io db bank body m c)))"
  by (auto simp: mirror_session_def split: option.splits sum.splits)

lemma mirror_frame [simp]:
  "db_docs (mirror_session io db bank body m c) = db_docs db"
  "db_jobs (mirror_session io db bank body m c) = db_jobs db"
  "db_banks (mirror_session io db bank body m c) = db_banks db"
  "db_nodes (mirror_session io db bank body m c) = db_nodes db"
  by (simp_all add: mirror_session_def split: option.splits sum.splits prod.splits)

lemma job_insert_rows:
  assumes "job_insert banks t i bank doc sid detail r now = Inr t'"
  shows "\<exists>j. t' = t @ [j] \<and> j_job_id j = i \<and> j_status j = lit ''pending'' \<and> j_task j = None \<and>
    i \<notin> j_job_id ` set t \<and> j_created_at j = now \<and>
    (j_offset_from j, j_offset_to j) = (case r of Some (f, e) \<Rightarrow> (max 0 f, max 0 e) | None \<Rightarrow> (0, 0))"
  using assms by (auto simp: job_insert_def Let_def split: if_splits option.splits prod.splits simp del: lit_Cons)

lemma queue_job_cases:
  assumes "queue_job sv io db bank ms body plan doc = (db', r)"
  obtains (failed) e where "r = Inl e" "db' = db"
  | (queued) j where "r = Inr (Queued plan (request_task sv io bank body plan doc ms))"
      "j_job_id j = ri_job_id io" "j_status j = lit ''pending''" "j_task j = None" "j_created_at j = ri_now io"
      "ri_job_id io \<notin> j_job_id ` set (db_jobs db)"
      "(j_offset_from j, j_offset_to j) = (case opt_zip (rr_offset_from body) (rr_byte_offset body) of
         Some (f, e) \<Rightarrow> (max 0 f, max 0 e) | None \<Rightarrow> (0, 0))"
      "db_jobs db' = db_jobs db @ [j\<lparr>j_task :=
         (if ri_task_ok io then sv_task_ser sv (request_task sv io bank body plan doc ms) else None)\<rparr>]"
proof -
  note d = assms [unfolded queue_job_def Let_def]
  show ?thesis
  proof (cases r)
    case (Inl e)
    with d show ?thesis by (intro failed [of e]) (auto split: if_splits sum.splits)
  next
    case (Inr x)
    with d obtain jobs where ins: "job_insert (db_banks db) (db_jobs db) (ri_job_id io) bank (Some doc) (rr_session_id body)
        (Some (sv_ser sv (job_detail plan))) (opt_zip (rr_offset_from body) (rr_byte_offset body)) (ri_now io) = Inr jobs"
      by (auto split: if_splits sum.splits)
    from job_insert_rows [OF ins] obtain j where j: "jobs = db_jobs db @ [j]" "j_job_id j = ri_job_id io"
      "j_status j = lit ''pending''" "j_task j = None" "ri_job_id io \<notin> j_job_id ` set (db_jobs db)" "j_created_at j = ri_now io"
      "(j_offset_from j, j_offset_to j) = (case opt_zip (rr_offset_from body) (rr_byte_offset body) of
         Some (f, e) \<Rightarrow> (max 0 f, max 0 e) | None \<Rightarrow> (0, 0))"
      by blast
    have st: "set_task jobs (ri_job_id io) s = db_jobs db @ [j\<lparr>j_task := Some s\<rparr>]" for s
      using j(1,2,5) by (force simp: set_task_def intro!: map_idI)
    have j0: "j\<lparr>j_task := None\<rparr> = j" using j(4) by simp
    show ?thesis
      by (rule queued [of j]) (use d Inr ins j st j0 in \<open>auto split: if_splits option.splits\<close>)
  qed
qed

lemma prepare_cases:
  assumes "prepare sv io db bank key ms body = (db', r)"
  obtains (unqueued) "db_jobs db' = db_jobs db" "\<And>plan task. r \<noteq> Inr (Queued plan task)"
  | (queued) db0 plan doc where "queue_job sv io db0 bank ms body plan doc = (db', r)" "db_jobs db0 = db_jobs db"
  using assms unfolding prepare_def Let_def
  by (auto split: if_splits option.splits sum.splits)

lemma job_get_snoc: "i \<notin> j_job_id ` set t \<Longrightarrow> j_job_id j = i \<Longrightarrow> job_get (t @ [j]) i = Some j"
  by (induction t) (auto simp: job_get_def)

text \<open>C39: A refused request leaves nothing to wait for. Whatever the reason, no byte of the budget stays
  reserved, and every job row is one that was there before or is settled as \<open>failed\<close>, if the database
  takes that last write: a hook that polls a job cannot be left waiting for one nobody will run.\<close>

theorem refused_leaves_nothing_pending:
  assumes "retain_inner sv io slot q db bank body = (db', n, RefusedAnswer e)" and "ri_fail_ok io"
  shows "n = q \<and> list_all (\<lambda>j. j \<in> set (db_jobs db) \<or> j_status j = lit ''failed'') (db_jobs db')"
proof -
  let ?ms = "max min_event_date_ms (min max_event_date_ms
                  (case rr_event_date body of Some d \<Rightarrow> d | None \<Rightarrow> ri_now io))"
  let ?fail = "jp_default\<lparr>jp_status := JFailed, jp_error := Some (lit ''retain queue byte budget exhausted'')\<rparr>"
  consider (same) "n = q" "db' = db"
    | (error) e' where "n = q" "prepare sv io db bank (doc_key_of io body) ?ms body = (db', Inl e')"
    | (budget) db1 plan task where "n = q"
        "prepare sv io db bank (doc_key_of io body) ?ms body = (db1, Inr (Queued plan task))"
        "db_jobs db' = job_update (db_jobs db1) (rt_job_id task) ?fail (ri_now io)"
    using assms unfolding retain_inner_def Let_def
    by (auto split: if_splits prod.splits sum.splits prepared.splits simp del: lit_Cons)
  then show ?thesis
  proof cases
    case same
    then show ?thesis by (simp add: list_all_iff)
  next
    case error
    from error(2) have "db_jobs db' = db_jobs db"
      by (cases rule: prepare_cases) (auto elim: queue_job_cases)
    with error(1) show ?thesis by (simp add: list_all_iff)
  next
    case budget
    from budget(2) show ?thesis
    proof (cases rule: prepare_cases)
      case (queued db0 plan' doc)
      from queued(1) show ?thesis
      proof (cases rule: queue_job_cases)
        case q: (queued j)
        then have "rt_job_id task = ri_job_id io" by (simp add: request_task_def)
        with q queued(2) budget show ?thesis
          by (auto simp: list_all_iff job_update_def update_row_def simp del: lit_Cons)
      qed simp
    next
      case unqueued
      then show ?thesis using unqueued(2) [of plan task] by simp
    qed
  qed
qed

theorem refused_leaves_nothing_pending_witness:
  "\<exists>db' n. retain_inner sample_service (sample_io [9]) SlotFree max_queued_bytes (empty_db [[98]]) [98] sample_request =
       (db', n, RefusedAnswer ApiTooManyRequests) \<and> n = max_queued_bytes \<and>
     map j_status (db_jobs db') = [lit ''failed'']"
proof -
  obtain ms where p: "prepare sample_service (sample_io [9]) (empty_db [[98]]) [98] (doc_key_of (sample_io [9]) sample_request) ms
      sample_request = (accepted_db, Inr (Queued sample_plan sample_task_of))"
    and ms: "ms = max min_event_date_ms (min max_event_date_ms
      (case rr_event_date sample_request of Some d \<Rightarrow> d | None \<Rightarrow> ri_now (sample_io [9])))"
    using sample_accepted unfolding retain_inner_def Let_def
    by (auto split: if_splits prod.splits sum.splits prepared.splits simp del: lit_Cons)
  have b: "byte_len (rt_transcript sample_task_of) = 10"
    by (simp add: sample_task_of_def request_task_def sample_plan_def byte_len_def utf8_width_def)
  have r: "rr_messages sample_request \<noteq> []" "rr_session_id sample_request = Some [115]"
    "byte_len [115] \<le> max_session_id_bytes" "ri_fail_ok (sample_io [9])"
    by (simp_all add: sample_request_def byte_len_def utf8_width_def max_session_id_bytes_def sample_io_def)
  have "\<exists>db'. retain_inner sample_service (sample_io [9]) SlotFree max_queued_bytes (empty_db [[98]]) [98] sample_request =
       (db', max_queued_bytes, RefusedAnswer ApiTooManyRequests) \<and>
     db_jobs db' = job_update (db_jobs accepted_db) (rt_job_id sample_task_of)
       (jp_default\<lparr>jp_status := JFailed, jp_error := Some (lit ''retain queue byte budget exhausted'')\<rparr>) (ri_now (sample_io [9]))"
    using p [unfolded ms] r by (simp add: retain_inner_def Let_def b del: lit_Cons)
  then obtain db' where d: "retain_inner sample_service (sample_io [9]) SlotFree max_queued_bytes (empty_db [[98]]) [98] sample_request =
       (db', max_queued_bytes, RefusedAnswer ApiTooManyRequests)"
     "length (db_jobs db') = 1" by (auto simp: job_update_def accepted_db_def simp del: lit_Cons)
  from refused_leaves_nothing_pending [OF d(1) r(4)] d show ?thesis
    by (cases "db_jobs db'") (auto simp: empty_db_def simp del: lit_Cons)
qed

text \<open>C38: An accepted job survives a restart. When a request is answered \<open>accepted\<close> and its task could be
  written, its row is among those a startup resumes: pending, under the job's own id, with the range the
  request named and with the very task that was queued.\<close>

theorem accepted_job_is_resumable:
  assumes "retain_inner sv io slot q db bank body = (db', n, AcceptedAnswer plan task)"
    and "ri_task_ok io" and "sv_task_ser sv task = Some s"
  shows "\<exists>j. (j, s) \<in> set (resumable (db_jobs db')) \<and> j_job_id j = rt_job_id task \<and>
    j_status j = lit ''pending'' \<and> n = q + byte_len (rt_transcript task) \<and> n \<le> max_queued_bytes \<and>
    (j_offset_from j, j_offset_to j) = (case opt_zip (rr_offset_from body) (rr_byte_offset body) of
       Some (f, e) \<Rightarrow> (max 0 f, max 0 e) | None \<Rightarrow> (0, 0))"
proof -
  obtain ms where p: "prepare sv io db bank (doc_key_of io body) ms body = (db', Inr (Queued plan task))"
    and n: "n = q + byte_len (rt_transcript task)" "n \<le> max_queued_bytes"
    using assms(1) unfolding retain_inner_def Let_def
    by (auto split: if_splits prod.splits sum.splits prepared.splits simp del: lit_Cons)
  from p show ?thesis
  proof (cases rule: prepare_cases)
    case (queued db0 plan' doc)
    from queued(1) show ?thesis
    proof (cases rule: queue_job_cases)
      case q: (queued j)
      let ?j = "j\<lparr>j_task := Some s\<rparr>"
      have t: "task = request_task sv io bank body plan' doc ms" using q(1) by simp
      then have jobs: "db_jobs db' = db_jobs db @ [?j]" using q(8) assms(2,3) queued(2) by simp
      have "job_get (db_jobs db') (j_job_id j) = Some ?j"
        using q(2,6) queued(2) jobs by (simp add: job_get_snoc)
      moreover have "?j \<in> set (db_jobs db')" "unfinished ?j" using jobs q(3) by (auto simp: unfinished_def)
      ultimately have "(?j, s) \<in> set (resumable (db_jobs db'))"
        unfolding resumable_def by (force simp: set_touched)
      with q(2,3,7) n t show ?thesis by (intro exI [of _ ?j]) (simp add: request_task_def)
    qed simp
  next
    case unqueued
    then show ?thesis using unqueued(2) [of plan task] by simp
  qed
qed

theorem accepted_job_is_resumable_witness:
  "\<exists>j. (j, [1]) \<in> set (resumable (db_jobs accepted_db)) \<and> j_job_id j = [9] \<and> j_offset_to j = 9"
proof -
  have o: "opt_zip (rr_offset_from sample_request) (rr_byte_offset sample_request) = Some (0, 9)"
    by (simp add: sample_request_def)
  have "ri_task_ok (sample_io [9])" "sv_task_ser sample_service sample_task_of = Some [1]" "rt_job_id sample_task_of = [9]"
    by (simp_all add: sample_io_def sample_service_def sample_task_of_def request_task_def)
  from accepted_job_is_resumable [OF sample_accepted this(1,2)] this(3) show ?thesis
    unfolding o by fastforce
qed

section \<open>The durable cursor and the endpoints\<close>

text \<open>No client moves the durable cursor through the session endpoint: whatever a \<open>POST /sessions\<close>
  carries, \<open>confirmed_offset\<close> of its row stays what it was, zero for a new row, and no other row changes.\<close>

lemma sessions_endpoint_never_confirms:
  assumes "upsert_session db bank body now = Inr (row, db')"
  shows "session_get (db_sessions db') bank (sr_session_id body) = Some row \<and>
    ms_confirmed_offset row = max 0 (case session_get (db_sessions db) bank (sr_session_id body) of
      Some r \<Rightarrow> ms_confirmed_offset r | None \<Rightarrow> 0) \<and>
    (b = bank \<and> sid = sr_session_id body \<or>
     session_get (db_sessions db') b sid = session_get (db_sessions db) b sid)"
proof -
  let ?u = "su_default\<lparr>su_session_id := sr_session_id body, su_cwd := sr_cwd body,
     su_transcript_path := sr_transcript_path body, su_source := sr_source body,
     su_end_reason := sr_end_reason body, su_ended_at := sr_ended_at body,
     su_turns := sr_turns body, su_chunk_index := sr_chunk_index body,
     su_byte_offset := sr_byte_offset body\<rparr>"
  from assms obtain t where t: "db' = db\<lparr>db_sessions := t\<rparr>"
      and up: "session_upsert (db_banks db) (db_sessions db) bank ?u now = Inr (row, t)"
    by (auto simp: upsert_session_def split: if_splits sum.splits)
  have rp: "range_params ?u = (0, 0)" "su_confirm_if_settled ?u = None" "su_session_id ?u = sr_session_id body"
    by (simp_all add: range_params_def su_default_def)
  have "ms_confirmed_offset row = max 0 (case session_get (db_sessions db) bank (sr_session_id body) of
      Some r \<Rightarrow> ms_confirmed_offset r | None \<Rightarrow> 0)"
  proof (cases "session_get (db_sessions db) bank (sr_session_id body)")
    case None
    with upsert_fresh [OF up] rp show ?thesis by (simp add: insert_row_confirmed [OF rp(1)] clamp0_def)
  next
    case (Some r)
    with upsert_existing [OF up] rp show ?thesis
      by (simp add: merge_row_confirmed [OF rp(1)] confirm_merge_def clamp0_def)
  qed
  with upsert_get [OF up] rp(3) t show ?thesis by auto
qed

text \<open>The guard of \<open>confirm_if_settled\<close> reads the row and not the request's start. On a session without a
  row, such as one collected while its hook kept its own cursor, a skipped request confirms everything
  before its own bytes too.\<close>

lemma skipped_on_new_row_confirms_all:
  assumes "retain_inner sv io SlotFree q db bank body = (db', n, SkippedAnswer)"
    and "session_get (db_sessions db) bank sid = None" and "rr_session_id body = Some sid" and "sid \<noteq> []"
    and "ri_mirror_ok io" and "rr_byte_offset body = Some t" and "rr_offset_from body = Some f"
    and "0 < f" and "f < t"
  shows "\<exists>r. session_get (db_sessions db') bank sid = Some r \<and> ms_confirmed_offset r = t"
proof -
  have len: "byte_len sid \<le> max_session_id_bytes"
    using assms(1,3) by (auto simp: retain_inner_def split: if_splits)
  obtain ms where p: "prepare sv io db bank (doc_key_of io body) ms body = (db', Inr Skipped)"
    using assms(1) unfolding retain_inner_def Let_def
    by (auto split: if_splits prod.splits sum.splits prepared.splits)
  moreover have "queue_job sv io d bank ms body p i \<noteq> (db', Inr Skipped)" for d p i
    by (auto elim: queue_job_cases)
  ultimately have m: "db' = mirror_session io db bank body 0 IfSettled" and b: "bank \<in> set (db_banks db)"
    unfolding prepare_def Let_def by (auto split: if_splits option.splits sum.splits)
  have u: "su_session_id (mirror_update sid body 0 IfSettled) = sid"
    "range_params (mirror_update sid body 0 IfSettled) = (0, 0)"
    "su_confirm_if_settled (mirror_update sid body 0 IfSettled) = Some t"
    using assms(6) by (simp_all add: mirror_update_def su_default_def range_params_def)
  have "session_upsert (db_banks db) (db_sessions db) bank (mirror_update sid body 0 IfSettled) (ri_now io) =
      Inr (insert_row bank (mirror_update sid body 0 IfSettled) (ri_now io),
           insert_row bank (mirror_update sid body 0 IfSettled) (ri_now io) # db_sessions db)"
    using assms(2,4) b u(1) len by (simp add: session_upsert_def Let_def)
  with m assms(3-5,8,9) u show ?thesis
    by (auto simp: mirror_session_def session_get_def insert_row_confirmed [OF u(2)] clamp0_def)
qed


end
