(* ===== verification/Daemon_Runs.thy ===== *)
theory Daemon_Runs
  imports Retain_Request
begin

text \<open>
  The daemon as a whole: requests, the worker, the session endpoint, the collection of old sessions and
  restarts, over one database and one queue, in any order. A log keeps what was answered and how each
  job ended, so that what the rows say can be traced to what happened.
\<close>

section \<open>What one job does to the marks of completion\<close>

definition tasks_of :: "jobs_table \<Rightarrow> str set" where
  "tasks_of t = {s. \<exists>j\<in>set t. j_task j = Some s}"

lemma tasks_of_map:
  "(\<And>j s. j_task (f j) = Some s \<Longrightarrow> j_task j = Some s) \<Longrightarrow> tasks_of (map f t) \<subseteq> tasks_of t"
  unfolding tasks_of_def set_map by blast

lemma tasks_of_update: "tasks_of (job_update t i p now) \<subseteq> tasks_of t"
  unfolding job_update_def by (rule tasks_of_map) (auto simp: update_row_def split: if_splits)

lemma tasks_of_detail: "tasks_of (set_detail_field js t i k v) \<subseteq> tasks_of t"
  unfolding set_detail_field_def by (rule tasks_of_map) (auto split: if_splits)

lemma tasks_of_fail_stale: "tasks_of (snd (fail_stale t r now)) \<subseteq> tasks_of t"
  by (simp add: fail_stale_def) (rule tasks_of_map, auto split: if_splits)

lemma tasks_of_fail_unfinished: "tasks_of (snd (fail_unfinished t r now)) \<subseteq> tasks_of t"
  by (simp add: fail_unfinished_def) (rule tasks_of_map, auto split: if_splits)

lemma tasks_of_flush: "tasks_of (db_jobs (flush env i k p db)) \<subseteq> tasks_of (db_jobs db)"
  by (simp add: flush_def tasks_of_update)

lemma write_facts_jobs: "write_facts env task i facts base db = Inr (w, db') \<Longrightarrow> db_jobs db' = db_jobs db \<and> db_banks db' = db_banks db"
  using write_facts_ok(3) [of env task i facts base db w db'] by (metis daemon_db.select_convs(1,3) daemon_db.surjective daemon_db.update_convs(5))

lemma work_chunk_jobs:
  "db_jobs (ws_db (work_chunk env task i s)) = db_jobs (ws_db s) \<and> db_banks (ws_db (work_chunk env task i s)) = db_banks (ws_db s)"
  by (auto simp: work_chunk_def fail_chunk_def split: sum.splits dest: write_facts_jobs)

definition jobs_shrink :: "daemon_db \<Rightarrow> daemon_db \<Rightarrow> bool" where
  "jobs_shrink db db' \<longleftrightarrow> tasks_of (db_jobs db') \<subseteq> tasks_of (db_jobs db) \<and> db_banks db' = db_banks db"

lemma jobs_shrink_refl [simp]: "jobs_shrink db db"
  by (simp add: jobs_shrink_def)

lemma jobs_shrink_trans: "jobs_shrink a b \<Longrightarrow> jobs_shrink b c \<Longrightarrow> jobs_shrink a c"
  by (auto simp: jobs_shrink_def)

lemma flush_shrink: "jobs_shrink db (flush env i k p db)"
  using tasks_of_flush by (auto simp: jobs_shrink_def flush_def)

lemma flush_state_shrink: "jobs_shrink (ws_db s) (ws_db (flush_state env task k s))"
  by (simp add: flush_state_def flush_shrink)

lemma work_chunk_shrink: "jobs_shrink (ws_db s) (ws_db (work_chunk env task i s))"
  using work_chunk_jobs [of env task i s] by (simp add: jobs_shrink_def)

lemma run_chunks_shrink: "jobs_shrink (ws_db s) (ws_db (fst (run_chunks env task n i cs s)))"
proof (induction env task n i cs s rule: run_chunks.induct)
  case (2 env task n i c cs s)
  have a: "jobs_shrink (ws_db s) (ws_db (flush_state env task (Suc i) (skip_chunk s)))"
    using flush_state_shrink [of "skip_chunk s"] by (simp add: skip_chunk_def)
  have b: "jobs_shrink (ws_db s) (ws_db (flush_state env task (Suc i) (work_chunk env task i s)))"
    by (rule jobs_shrink_trans [OF work_chunk_shrink flush_state_shrink])
  from 2 show ?case
    by (auto intro: jobs_shrink_trans [OF a] jobs_shrink_trans [OF b])
qed simp

lemma settle_shrink: "jobs_shrink (ws_db s) (fst (settle env task n (s, st)))"
proof -
  have c: "jobs_shrink db (complete_run env task k db)" for k db
    by (simp add: jobs_shrink_def)
  have d: "jobs_shrink a (db\<lparr>db_jobs := set_detail_field js (db_jobs db) i x y\<rparr>)"
    if "jobs_shrink a db" for a db js i x y
    using that tasks_of_detail by (fastforce simp: jobs_shrink_def)
  have e: "jobs_shrink a (flush env i k p db)" if "jobs_shrink a db" for a db i k p
    by (rule jobs_shrink_trans [OF that flush_shrink])
  show ?thesis
    by (simp add: settle_def Let_def c d e del: lit_Cons)
qed

lemma run_job_shrink:
  assumes "run_job_inner env task db = (db', p, res)"
  shows "jobs_shrink db db'"
proof (cases "we_chunking_panics env")
  case None
  let ?n = "length (task_chunks env task)" and ?a = "already_of task"
  obtain s st where r: "run_chunks env task ?n ?a (drop ?a (task_chunks env task)) (start_state env task ?n db) = (s, st)"
    by (cases "run_chunks env task ?n ?a (drop ?a (task_chunks env task)) (start_state env task ?n db)")
  have "jobs_shrink db (ws_db (start_state env task ?n db))"
    by (simp add: start_state_def Let_def flush_shrink)
  then have "jobs_shrink db (ws_db s)"
    using run_chunks_shrink [of "start_state env task ?n db" env task ?n ?a "drop ?a (task_chunks env task)"] r
    by (auto intro: jobs_shrink_trans)
  then have "jobs_shrink db (fst (settle env task ?n (s, st)))"
    by (rule jobs_shrink_trans [OF _ settle_shrink])
  then show ?thesis
    using assms None r by (auto simp: run_job_inner_def Let_def flush_shrink split: prod.splits if_splits)
next
  case (Some e)
  then show ?thesis
    using assms by (auto simp: run_job_inner_def Let_def flush_shrink)
qed

text \<open>A run leaves documents and sessions alone, or it is clean and completes.\<close>

lemma run_job_effect:
  assumes "run_job_inner env task db = (db', p, res)"
  obtains (same) "db_docs db' = db_docs db" "db_sessions db' = db_sessions db"
  | (clean) k db0 where "res = Some Finished" "jp_status p = JDone" "jp_chunks_failed p = 0"
      "db_docs db0 = db_docs db" "db_sessions db0 = db_sessions db"
      "db_docs db' = db_docs (complete_run env task k db0)"
      "db_sessions db' = db_sessions (complete_run env task k db0)"
  using assms
proof (cases rule: run_job_cases)
  case refused
  then show ?thesis by (intro same)
next
  case (ran s st k)
  from ran(6) have fr: "db_docs (ws_db s) = db_docs db" "db_sessions (ws_db s) = db_sessions db"
    by (simp_all add: advanced_defs start_state_sel)
  show ?thesis
  proof (cases "is_clean st (ws_progress s) \<and> st \<noteq> Interrupted")
    case False
    then have "db_docs db' = db_docs (ws_db s) \<and> db_sessions db' = db_sessions (ws_db s)"
      using ran(2) by (auto simp: settle_def Let_def flush_def split: if_splits)
    with fr show ?thesis by (intro same) simp_all
  next
    case True
    then have st: "st = Finished" by (cases st) (auto simp: is_clean_def)
    have "db_docs db' = db_docs (complete_run env task (Suc (length (task_chunks env task))) (ws_db s))
      \<and> db_sessions db' = db_sessions (complete_run env task (Suc (length (task_chunks env task))) (ws_db s))"
      using True ran(2) by (auto simp: settle_def Let_def flush_def split: if_splits)
    moreover have "jp_status p = JDone" "jp_chunks_failed p = 0"
      using True st settle_result(4,7) [OF ran(2)] by (auto simp: is_clean_def settle_status_def)
    ultimately show ?thesis using ran(1) st fr by (intro clean) auto
  qed
qed

lemma complete_run_docs:
  "db_docs (complete_run env task k db) = db_docs db \<or>
   (\<exists>now. db_docs (complete_run env task k db) =
      set_content_hash (db_docs db) (rt_document_id task) (rt_content_hash task) now)"
  by (auto simp: complete_run_def Let_def split: option.splits sum.splits prod.splits)

definition task_range :: "retain_task \<Rightarrow> (int \<times> int) option" where
  "task_range task = opt_zip (rt_offset_from task) (rt_byte_offset task)"

lemma complete_run_sessions:
  "db_sessions (complete_run env task k db) = db_sessions db \<or>
   (\<exists>sid r now row. rt_session_id task = Some sid \<and> task_range task = Some r \<and>
      session_upsert (db_banks db) (db_sessions db) (rt_bank_id task)
        (su_default\<lparr>su_session_id := sid, su_confirm_range := Some r\<rparr>) now =
      Inr (row, db_sessions (complete_run env task k db)))"
  by (auto simp: complete_run_def Let_def task_range_def split: option.splits sum.splits prod.splits)

section \<open>The daemon\<close>

record daemon =
  dm_db :: daemon_db
  dm_queue :: "retain_task list"
  dm_queued :: nat

text \<open>What may happen: a request, the worker taking the oldest task, a write to the session endpoint, the
  collection of old sessions, and a restart, which loses the queue and rebuilds it from the rows.\<close>

datatype daemon_op =
    DoRetain request_io queue_slot str retain_request
  | DoWork worker_env
  | DoSession str session_request int
  | DoGc int
  | DoRestart bool "str \<Rightarrow> bool" int

text \<open>The log. An answer is logged with the optimistic cursor its session had before.\<close>

datatype logged =
    Answered str retain_request retain_answer int
  | Ran retain_task job_progress "stop option"

definition sent_before :: "daemon_db \<Rightarrow> str \<Rightarrow> retain_request \<Rightarrow> int" where
  "sent_before db bank body =
     (case Option.bind (rr_session_id body) (session_get (db_sessions db) bank) of
        Some r \<Rightarrow> ms_byte_offset r | None \<Rightarrow> 0)"

fun daemon_step ::
  "service \<Rightarrow> (str \<Rightarrow> str + retain_task) \<Rightarrow> daemon_op \<Rightarrow> daemon \<times> logged list \<Rightarrow> daemon \<times> logged list" where
  "daemon_step sv parse (DoRetain io slot bank body) (d, l) =
     (let (db, n, ans) = retain_inner sv io slot (dm_queued d) (dm_db d) bank body
      in (\<lparr>dm_db = db,
           dm_queue = dm_queue d @ (case ans of AcceptedAnswer plan task \<Rightarrow> [task] | _ \<Rightarrow> []),
           dm_queued = n\<rparr>,
          l @ [Answered bank body ans (sent_before (dm_db d) bank body)]))"
| "daemon_step sv parse (DoWork env) (d, l) =
     (case dm_queue d of
        [] \<Rightarrow> (d, l)
      | task # queue \<Rightarrow>
          (let (db, p, res) = run_job_inner env task (dm_db d)
           in (\<lparr>dm_db = db, dm_queue = queue, dm_queued = dm_queued d - byte_len (rt_transcript task)\<rparr>,
               l @ [Ran task p res])))"
| "daemon_step sv parse (DoSession bank body now) (d, l) =
     (case upsert_session (dm_db d) bank body now of
        Inl e \<Rightarrow> (d, l)
      | Inr (row, db) \<Rightarrow> (d\<lparr>dm_db := db\<rparr>, l))"
| "daemon_step sv parse (DoGc cutoff) (d, l) =
     (d\<lparr>dm_db := (dm_db d)\<lparr>db_sessions := snd (session_gc (db_sessions (dm_db d)) cutoff)\<rparr>\<rparr>, l)"
| "daemon_step sv parse (DoRestart readable update_ok now) (d, l) =
     (let (jobs, n, queue) = startup parse readable update_ok now (db_jobs (dm_db d))
      in (\<lparr>dm_db = (dm_db d)\<lparr>db_jobs := jobs\<rparr>, dm_queue = queue, dm_queued = n\<rparr>, l))"

definition daemon_run ::
  "service \<Rightarrow> (str \<Rightarrow> str + retain_task) \<Rightarrow> daemon_op list \<Rightarrow> daemon \<times> logged list \<Rightarrow> daemon \<times> logged list" where
  "daemon_run sv parse ops st = fold (daemon_step sv parse) ops st"

definition daemon_empty :: "str list \<Rightarrow> daemon" where
  "daemon_empty banks =
     \<lparr>dm_db = empty_db banks,
      dm_queue = [], dm_queued = 0\<rparr>"

section \<open>The durable cursor, traced to what settled\<close>

definition confirmed_only :: "(str \<Rightarrow> str \<Rightarrow> int \<Rightarrow> bool) \<Rightarrow> sessions_table \<Rightarrow> bool" where
  "confirmed_only C t \<longleftrightarrow>
     (\<forall>r\<in>set t. \<forall>b. 0 \<le> b \<longrightarrow> b < ms_confirmed_offset r \<longrightarrow> C (ms_bank_id r) (ms_session_id r) b)"

lemma confirmed_only_mono:
  "confirmed_only C t \<Longrightarrow> (\<And>bank sid b. C bank sid b \<Longrightarrow> C' bank sid b) \<Longrightarrow> confirmed_only C' t"
  unfolding confirmed_only_def by blast

lemma upsert_rows:
  assumes "session_upsert banks t bank u now = Inr (r', t')" and "x \<in> set t'"
  shows "x \<in> set t \<or> x = r'" and "ms_bank_id r' = bank" and "ms_session_id r' = su_session_id u"
proof -
  show "x \<in> set t \<or> x = r'"
    using assms by (auto simp: session_upsert_def Let_def split: if_splits option.splits)
  have "has_key bank (su_session_id u) r'"
    using upsert_get [OF assms(1), of bank "su_session_id u"]
    by (auto simp: session_get_def dest: find_has_key)
  then show "ms_bank_id r' = bank" "ms_session_id r' = su_session_id u" by (simp_all add: has_key_def)
qed

lemma upsert_confirmed_only:
  assumes "session_upsert banks t bank u now = Inr (r', t')" and "confirmed_only C t"
    and "\<And>b. 0 \<le> b \<Longrightarrow> covered_by (claims_of (session_get t bank (su_session_id u)) u) b \<Longrightarrow> C bank (su_session_id u) b"
  shows "confirmed_only C t'"
  unfolding confirmed_only_def
proof (intro ballI allI impI)
  fix x b assume x: "x \<in> set t'" and b: "0 \<le> b" "b < ms_confirmed_offset x"
  show "C (ms_bank_id x) (ms_session_id x) b"
  proof (cases "x \<in> set t")
    case True
    with assms(2) b show ?thesis by (simp add: confirmed_only_def)
  next
    case False
    with upsert_rows [OF assms(1) x] have x': "x = r'" "ms_bank_id x = bank" "ms_session_id x = su_session_id u"
      by auto
    show ?thesis
    proof (cases "covered_by (claims_of (session_get t bank (su_session_id u)) u) b")
      case True
      with assms(3) b x' show ?thesis by simp
    next
      case nc: False
      from upsert_step_covered [OF assms(1) nc b(1)] b(2) x'(1) obtain r where
        r: "session_get t bank (su_session_id u) = Some r" "b < ms_confirmed_offset r" by blast
      then have "r \<in> set t" "has_key bank (su_session_id u) r"
        by (auto simp: session_get_def dest: find_has_key)
      with r(2) assms(2) b(1) x' show ?thesis by (fastforce simp: confirmed_only_def has_key_def)
    qed
  qed
qed

lemma gc_confirmed_only: "confirmed_only C t \<Longrightarrow> confirmed_only C (snd (session_gc t cutoff))"
  by (auto simp: confirmed_only_def session_gc_def)

definition clean_job :: "retain_task \<Rightarrow> logged list \<Rightarrow> bool" where
  "clean_job task l \<longleftrightarrow>
     (\<exists>p. Ran task p (Some Finished) \<in> set l \<and> jp_status p = JDone \<and> jp_chunks_failed p = 0)"

definition empty_accept :: "retain_answer \<Rightarrow> bool" where
  "empty_accept ans \<longleftrightarrow> (case ans of SkippedAnswer \<Rightarrow> True | DuplicateAnswer _ _ \<Rightarrow> True | _ \<Rightarrow> False)"

text \<open>A byte of a session is settled: in the range of a job that ran clean, or in what a request that
  needed no job added to the optimistic cursor.\<close>

definition settled :: "logged list \<Rightarrow> str \<Rightarrow> str \<Rightarrow> int \<Rightarrow> bool" where
  "settled l bank sid b \<longleftrightarrow>
     (\<exists>task f t. clean_job task l \<and> rt_bank_id task = bank \<and> rt_session_id task = Some sid \<and>
        task_range task = Some (f, t) \<and> f \<le> b \<and> b < t) \<or>
     (\<exists>body ans sent t. Answered bank body ans sent \<in> set l \<and> empty_accept ans \<and>
        rr_session_id body = Some sid \<and> rr_byte_offset body = Some t \<and> sent \<le> b \<and> b < t)"

lemma clean_job_append: "clean_job task l \<Longrightarrow> clean_job task (l @ l')"
  by (auto simp: clean_job_def)

lemma settled_append: "settled l bank sid b \<Longrightarrow> settled (l @ l') bank sid b"
  unfolding settled_def by (metis clean_job_append Un_iff set_append)

lemma mirror_confirmed_only:
  assumes "confirmed_only C (db_sessions db)"
    and "\<And>sid b t. c = IfSettled \<Longrightarrow> rr_session_id body = Some sid \<Longrightarrow> rr_byte_offset body = Some t \<Longrightarrow>
      sent_before db bank body \<le> b \<Longrightarrow> b < t \<Longrightarrow> 0 \<le> b \<Longrightarrow> C bank sid b"
  shows "confirmed_only C (db_sessions (mirror_session io db bank body m c))"
  using mirror_sessions [of io db bank body m c]
proof
  assume "\<exists>sid row. rr_session_id body = Some sid \<and>
      session_upsert (db_banks db) (db_sessions db) bank (mirror_update sid body m c) (ri_now io) =
        Inr (row, db_sessions (mirror_session io db bank body m c))"
  then obtain sid row where sid: "rr_session_id body = Some sid"
    and up: "session_upsert (db_banks db) (db_sessions db) bank (mirror_update sid body m c) (ri_now io) =
        Inr (row, db_sessions (mirror_session io db bank body m c))" by blast
  show ?thesis
  proof (rule upsert_confirmed_only [OF up assms(1)])
    fix b :: int
    assume b: "0 \<le> b"
      and cov: "covered_by (claims_of (session_get (db_sessions db) bank (su_session_id (mirror_update sid body m c)))
        (mirror_update sid body m c)) b"
    from cov b have "c = IfSettled" "\<exists>t. rr_byte_offset body = Some t \<and> b < t" "sent_before db bank body \<le> b"
      using sid by (auto simp: covered_by_def claims_of_def mirror_update_def su_default_def range_params_def
          clamp0_def sent_before_def split: option.splits confirm.splits)
    with assms(2) sid b show "C bank (su_session_id (mirror_update sid body m c)) b"
      by (auto simp: mirror_update_def)
  qed
qed (use assms(1) in simp)

text \<open>What a request does to each table, by its answer.\<close>

lemma queue_job_effect:
  assumes "queue_job sv io db bank ms body plan doc = (db', r)"
  shows "db_docs db' = db_docs db" and "r \<noteq> Inr Skipped" and "r \<noteq> Inr (Duplicate plan' doc')"
    and "\<exists>db0 m. db_sessions db0 = db_sessions db \<and>
      (db_sessions db' = db_sessions db \<or> db_sessions db' = db_sessions (mirror_session io db0 bank body m NoConfirm))"
    and "r = Inr (Queued plan' task) \<Longrightarrow> task = request_task sv io bank body plan doc ms"
    and "tasks_of (db_jobs db') \<subseteq> tasks_of (db_jobs db) \<union>
      {s. sv_task_ser sv (request_task sv io bank body plan doc ms) = Some s}"
proof -
  have set_task: "x \<in> tasks_of t \<or> x = s" if "x \<in> tasks_of (set_task t i s)" for t i s x
    using that by (auto simp: tasks_of_def set_task_def split: if_splits)
  have ins: "tasks_of t' \<subseteq> tasks_of t" if "job_insert b t i bk d s dt r n = Inr t'" for b t i bk d s dt r n t'
    using that by (auto simp: job_insert_def tasks_of_def Let_def split: prod.splits if_splits)
  note d = assms [unfolded queue_job_def Let_def]
  show "db_docs db' = db_docs db" "r \<noteq> Inr Skipped" "r \<noteq> Inr (Duplicate plan' doc')"
    "r = Inr (Queued plan' task) \<Longrightarrow> task = request_task sv io bank body plan doc ms"
    using d by (auto split: if_splits sum.splits option.splits)
  show "\<exists>db0 m. db_sessions db0 = db_sessions db \<and>
      (db_sessions db' = db_sessions db \<or> db_sessions db' = db_sessions (mirror_session io db0 bank body m NoConfirm))"
  proof (cases "db_sessions db' = db_sessions db")
    case False
    with d obtain jobs where "db_sessions db' =
        db_sessions (mirror_session io (db\<lparr>db_jobs := jobs\<rparr>) bank body (ip_message_count plan) NoConfirm)"
      by (auto split: if_splits sum.splits option.splits)
    then show ?thesis by (intro exI [of _ "db\<lparr>db_jobs := jobs\<rparr>"]) auto
  qed blast
  show "tasks_of (db_jobs db') \<subseteq> tasks_of (db_jobs db) \<union>
      {s. sv_task_ser sv (request_task sv io bank body plan doc ms) = Some s}"
    using d by (auto split: if_splits sum.splits option.splits dest!: ins set_task)
qed

definition hash_ok :: "service \<Rightarrow> retain_task \<Rightarrow> bool" where
  "hash_ok sv task \<longleftrightarrow> rt_content_hash task = sv_sha sv (rt_transcript task)"

lemma plan_hash: "plan_of sv body = Some plan \<Longrightarrow> ip_content_hash plan = sv_sha sv (ip_transcript plan)"
  by (auto simp: plan_of_def plan_ingest_def Let_def split: option.splits)

lemma prepare_effect:
  assumes "prepare sv io db bank key ms body = (db', r)"
  shows "\<exists>db0 m c. db_sessions db0 = db_sessions db \<and> (c = IfSettled \<longrightarrow> r = Inr Skipped \<or> (\<exists>plan doc. r = Inr (Duplicate plan doc))) \<and>
      (db_sessions db' = db_sessions db \<or> db_sessions db' = db_sessions (mirror_session io db0 bank body m c))"
    and "db_docs db' = db_docs db \<or> (\<exists>plan u. documents_upsert (sv_render sv) (db_banks db) (db_docs db) bank key
        (rr_session_id body) (document_metadata body plan) (ip_content_hash plan) (ri_now io) = Inr (u, db_docs db'))"
    and "r = Inr (Duplicate plan doc) \<Longrightarrow> \<exists>u. du_unchanged u \<and> du_id u = doc \<and>
      documents_upsert (sv_render sv) (db_banks db) (db_docs db) bank key
        (rr_session_id body) (document_metadata body plan) (ip_content_hash plan) (ri_now io) = Inr (u, db_docs db')"
    and "r = Inr (Queued plan' task) \<Longrightarrow> hash_ok sv task"
    and "s \<in> tasks_of (db_jobs db') \<Longrightarrow> s \<in> tasks_of (db_jobs db) \<or> (\<exists>t. hash_ok sv t \<and> sv_task_ser sv t = Some s)"
proof -
  let ?C1 = "\<exists>db0 m c. db_sessions db0 = db_sessions db \<and> (c = IfSettled \<longrightarrow> r = Inr Skipped \<or> (\<exists>plan doc. r = Inr (Duplicate plan doc))) \<and>
      (db_sessions db' = db_sessions db \<or> db_sessions db' = db_sessions (mirror_session io db0 bank body m c))"
  let ?up = "\<lambda>plan u. documents_upsert (sv_render sv) (db_banks db) (db_docs db) bank key
        (rr_session_id body) (document_metadata body plan) (ip_content_hash plan) (ri_now io) = Inr (u, db_docs db')"
  have hash: "hash_ok sv (request_task sv io bank body plan d ms)"
    if "plan_of sv body = Some plan" for plan d
    using plan_hash [OF that] by (simp add: hash_ok_def request_task_def)
  consider (refused) e where "db' = db" "r = Inl e"
    | (skipped) "r = Inr Skipped" "db' = mirror_session io db bank body 0 IfSettled"
    | (dup) plan u where "?up plan u" "du_unchanged u" "r = Inr (Duplicate plan (du_id u))"
        "db' = mirror_session io (db\<lparr>db_docs := db_docs db'\<rparr>) bank body (ip_message_count plan) IfSettled"
    | (queued) plan u docs where "documents_upsert (sv_render sv) (db_banks db) (db_docs db) bank key
        (rr_session_id body) (document_metadata body plan) (ip_content_hash plan) (ri_now io) = Inr (u, docs)"
        "plan_of sv body = Some plan"
        "queue_job sv io (db\<lparr>db_docs := docs\<rparr>) bank ms body plan (du_id u) = (db', r)"
    using assms unfolding prepare_def Let_def
    by (auto split: if_splits option.splits sum.splits)
  then have "?C1 \<and> (db_docs db' = db_docs db \<or> (\<exists>plan u. ?up plan u))
    \<and> (r = Inr (Duplicate plan doc) \<longrightarrow> (\<exists>u. du_unchanged u \<and> du_id u = doc \<and> ?up plan u))
    \<and> (r = Inr (Queued plan' task) \<longrightarrow> hash_ok sv task)
    \<and> (s \<in> tasks_of (db_jobs db') \<longrightarrow> s \<in> tasks_of (db_jobs db) \<or> (\<exists>t. hash_ok sv t \<and> sv_task_ser sv t = Some s))"
  proof cases
    case refused
    then show ?thesis by auto
  next
    case skipped
    then show ?thesis by auto
  next
    case dup
    have "db_jobs db' = db_jobs db" by (subst dup(4)) simp
    moreover have ?C1
      using dup(3,4) by (intro exI [of _ "db\<lparr>db_docs := db_docs db'\<rparr>"]) (metis daemon_db.select_convs(2) daemon_db.surjective daemon_db.update_convs(4))
    ultimately show ?thesis using dup(1-3) by auto
  next
    case queued
    note q = queue_job_effect [OF queued(3)]
    from q(4) have ?C1 by simp (metis confirm.distinct(1))
    moreover have "?up plan u" using q(1) queued(1) by simp
    moreover have "r = Inr (Queued plan' task) \<longrightarrow> hash_ok sv task"
      using q(5) [of plan' task] hash [OF queued(2)] by blast
    moreover have "s \<in> tasks_of (db_jobs db') \<longrightarrow> s \<in> tasks_of (db_jobs db) \<or> (\<exists>t. hash_ok sv t \<and> sv_task_ser sv t = Some s)"
      using q(6) hash [OF queued(2)] by auto
    ultimately show ?thesis using q(3) by blast
  qed
  then show ?C1 "db_docs db' = db_docs db \<or> (\<exists>plan u. ?up plan u)"
    "r = Inr (Duplicate plan doc) \<Longrightarrow> \<exists>u. du_unchanged u \<and> du_id u = doc \<and> ?up plan u"
    "r = Inr (Queued plan' task) \<Longrightarrow> hash_ok sv task"
    "s \<in> tasks_of (db_jobs db') \<Longrightarrow> s \<in> tasks_of (db_jobs db) \<or> (\<exists>t. hash_ok sv t \<and> sv_task_ser sv t = Some s)"
    by blast+
qed

section \<open>Every mark in the database was earned\<close>

definition ingested_as :: "service \<Rightarrow> logged list \<Rightarrow> int \<Rightarrow> str \<Rightarrow> bool" where
  "ingested_as sv l doc h \<longleftrightarrow>
     (\<exists>task. clean_job task l \<and> rt_document_id task = doc \<and> rt_content_hash task = h \<and> hash_ok sv task)"

definition docs_earned :: "service \<Rightarrow> logged list \<Rightarrow> documents_table \<Rightarrow> bool" where
  "docs_earned sv l t \<longleftrightarrow>
     (\<forall>x\<in>set t. \<forall>v. doc_hash x = Some v \<longrightarrow> (\<exists>h. v = JStr h \<and> ingested_as sv l (dc_id x) h))"

definition daemon_inv :: "service \<Rightarrow> daemon \<times> logged list \<Rightarrow> bool" where
  "daemon_inv sv st \<longleftrightarrow>
     docs_earned sv (snd st) (db_docs (dm_db (fst st))) \<and>
     (\<forall>task\<in>set (dm_queue (fst st)). hash_ok sv task) \<and>
     (\<forall>s\<in>tasks_of (db_jobs (dm_db (fst st))). \<exists>t. hash_ok sv t \<and> sv_task_ser sv t = Some s) \<and>
     confirmed_only (settled (snd st)) (db_sessions (dm_db (fst st)))"

lemma docs_earned_append: "docs_earned sv l t \<Longrightarrow> docs_earned sv (l @ l') t"
  unfolding docs_earned_def ingested_as_def using clean_job_append by blast

lemma confirmed_only_append: "confirmed_only (settled l) t \<Longrightarrow> confirmed_only (settled (l @ l')) t"
  by (erule confirmed_only_mono) (rule settled_append)

lemma metadata_has_no_hash: "map_of (document_metadata body plan) hash_key = None"
proof -
  have "hash_key \<noteq> lit ''message_count''" "hash_key \<noteq> lit ''session_id''" "hash_key \<noteq> lit ''files_modified''"
    by (simp_all add: hash_key_def)
  then show ?thesis by (simp add: document_metadata_def Let_def del: lit_Cons split: option.splits)
qed

lemma docs_earned_upsert:
  assumes "docs_earned sv l t"
    and "documents_upsert render banks t bank key title (document_metadata body plan) h now = Inr (u, t')"
  shows "docs_earned sv l t'"
  unfolding docs_earned_def
proof (intro ballI allI impI)
  fix x v assume x: "x \<in> set t'" and v: "doc_hash x = Some v"
  from documents_upsert_rows [OF assms(2) x] v metadata_has_no_hash have "x \<in> set t" by auto
  with assms(1) v show "\<exists>h. v = JStr h \<and> ingested_as sv l (dc_id x) h" by (auto simp: docs_earned_def)
qed

lemma docs_earned_stamp:
  assumes "docs_earned sv l t" and "clean_job task l" and "hash_ok sv task"
  shows "docs_earned sv l (set_content_hash t (rt_document_id task) (rt_content_hash task) now)"
  unfolding docs_earned_def
proof (intro ballI allI impI)
  fix x v assume "x \<in> set (set_content_hash t (rt_document_id task) (rt_content_hash task) now)" "doc_hash x = Some v"
  with set_content_hash_rows [of x t "rt_document_id task" "rt_content_hash task" now]
  obtain d where d: "d \<in> set t" "dc_id x = dc_id d"
    "doc_hash x = (if dc_id d = rt_document_id task then Some (JStr (rt_content_hash task)) else doc_hash d)" by blast
  with \<open>doc_hash x = Some v\<close> assms show "\<exists>h. v = JStr h \<and> ingested_as sv l (dc_id x) h"
    by (cases "dc_id d = rt_document_id task") (auto simp: docs_earned_def ingested_as_def)
qed

lemma duplicate_earned:
  assumes "docs_earned sv l t"
    and "documents_upsert render banks t bank key title m h now = Inr (u, t')" and "du_unchanged u"
  shows "ingested_as sv l (du_id u) h"
proof -
  from documents_upsert_unchanged [OF assms(2,3)] obtain d where d: "doc_find t bank key = Some d"
    "dc_id d = du_id u" "stored_hash render d = Inr (Some h)" by blast
  then obtain v where v: "doc_hash d = Some v" by (auto simp: stored_hash_def doc_hash_def split: option.splits)
  with assms(1) doc_find_in [OF d(1)] obtain h' where "v = JStr h'" "ingested_as sv l (dc_id d) h'"
    by (auto simp: docs_earned_def)
  with d v stored_hash_str [of d h' render] show ?thesis by simp
qed

section \<open>Each step keeps the marks\<close>

lemma retain_effect:
  assumes "retain_inner sv io slot q db bank body = (db', n, ans)"
  shows "\<exists>db0 m c. db_sessions db0 = db_sessions db \<and> (c = IfSettled \<longrightarrow> empty_accept ans) \<and>
      (db_sessions db' = db_sessions db \<or> db_sessions db' = db_sessions (mirror_session io db0 bank body m c))"
    and "db_docs db' = db_docs db \<or> (\<exists>key plan u. documents_upsert (sv_render sv) (db_banks db) (db_docs db) bank key
        (rr_session_id body) (document_metadata body plan) (ip_content_hash plan) (ri_now io) = Inr (u, db_docs db'))"
    and "ans = DuplicateAnswer plan doc \<Longrightarrow> \<exists>key u. du_unchanged u \<and> du_id u = doc \<and>
      documents_upsert (sv_render sv) (db_banks db) (db_docs db) bank key
        (rr_session_id body) (document_metadata body plan) (ip_content_hash plan) (ri_now io) = Inr (u, db_docs db')"
    and "ans = AcceptedAnswer plan' task \<Longrightarrow> hash_ok sv task"
    and "s \<in> tasks_of (db_jobs db') \<Longrightarrow> s \<in> tasks_of (db_jobs db) \<or> (\<exists>t. hash_ok sv t \<and> sv_task_ser sv t = Some s)"
proof -
  let ?ms = "max min_event_date_ms (min max_event_date_ms
                  (case rr_event_date body of Some d \<Rightarrow> d | None \<Rightarrow> ri_now io))"
  consider (refused) e where "db' = db" "ans = RefusedAnswer e"
    | (prepared) db1 r where "prepare sv io db bank (doc_key_of io body) ?ms body = (db1, r)"
        "db_docs db' = db_docs db1" "db_sessions db' = db_sessions db1" "tasks_of (db_jobs db') \<subseteq> tasks_of (db_jobs db1)"
        "r = Inr Skipped \<Longrightarrow> ans = SkippedAnswer"
        "\<And>plan doc. r = Inr (Duplicate plan doc) \<longleftrightarrow> ans = DuplicateAnswer plan doc"
        "\<And>plan task. ans = AcceptedAnswer plan task \<Longrightarrow> r = Inr (Queued plan task)"
    using assms tasks_of_update unfolding retain_inner_def Let_def
    by (auto split: if_splits option.splits sum.splits prod.splits prepared.splits)
  then have "(\<exists>db0 m c. db_sessions db0 = db_sessions db \<and> (c = IfSettled \<longrightarrow> empty_accept ans) \<and>
      (db_sessions db' = db_sessions db \<or> db_sessions db' = db_sessions (mirror_session io db0 bank body m c)))
    \<and> (db_docs db' = db_docs db \<or> (\<exists>key plan u. documents_upsert (sv_render sv) (db_banks db) (db_docs db) bank key
        (rr_session_id body) (document_metadata body plan) (ip_content_hash plan) (ri_now io) = Inr (u, db_docs db')))
    \<and> (ans = DuplicateAnswer plan doc \<longrightarrow> (\<exists>key u. du_unchanged u \<and> du_id u = doc \<and>
      documents_upsert (sv_render sv) (db_banks db) (db_docs db) bank key
        (rr_session_id body) (document_metadata body plan) (ip_content_hash plan) (ri_now io) = Inr (u, db_docs db')))
    \<and> (ans = AcceptedAnswer plan' task \<longrightarrow> hash_ok sv task)
    \<and> (s \<in> tasks_of (db_jobs db') \<longrightarrow> s \<in> tasks_of (db_jobs db) \<or> (\<exists>t. hash_ok sv t \<and> sv_task_ser sv t = Some s))"
  proof cases
    case refused
    then show ?thesis by (auto intro: exI [of _ NoConfirm])
  next
    case prepared
    note p = prepare_effect [OF prepared(1)]
    have "empty_accept ans" if "r = Inr Skipped \<or> (\<exists>plan doc. r = Inr (Duplicate plan doc))"
      using that prepared(5,6) by (auto simp: empty_accept_def)
    with p(1) have "\<exists>db0 m c. db_sessions db0 = db_sessions db \<and> (c = IfSettled \<longrightarrow> empty_accept ans) \<and>
      (db_sessions db' = db_sessions db \<or> db_sessions db' = db_sessions (mirror_session io db0 bank body m c))"
      unfolding prepared(3) by blast
    moreover have "db_docs db' = db_docs db \<or> (\<exists>key plan u. documents_upsert (sv_render sv) (db_banks db) (db_docs db) bank key
        (rr_session_id body) (document_metadata body plan) (ip_content_hash plan) (ri_now io) = Inr (u, db_docs db'))"
      using p(2) unfolding prepared(2) by blast
    moreover have "ans = DuplicateAnswer plan doc \<longrightarrow> (\<exists>key u. du_unchanged u \<and> du_id u = doc \<and>
      documents_upsert (sv_render sv) (db_banks db) (db_docs db) bank key
        (rr_session_id body) (document_metadata body plan) (ip_content_hash plan) (ri_now io) = Inr (u, db_docs db'))"
      using p(3) prepared(6) unfolding prepared(2) by blast
    moreover have "ans = AcceptedAnswer plan' task \<longrightarrow> hash_ok sv task"
      using p(4) prepared(7) by blast
    moreover have "s \<in> tasks_of (db_jobs db') \<longrightarrow> s \<in> tasks_of (db_jobs db) \<or> (\<exists>t. hash_ok sv t \<and> sv_task_ser sv t = Some s)"
      using p(5) prepared(4) by blast
    ultimately show ?thesis by blast
  qed
  then show "\<exists>db0 m c. db_sessions db0 = db_sessions db \<and> (c = IfSettled \<longrightarrow> empty_accept ans) \<and>
      (db_sessions db' = db_sessions db \<or> db_sessions db' = db_sessions (mirror_session io db0 bank body m c))"
    "db_docs db' = db_docs db \<or> (\<exists>key plan u. documents_upsert (sv_render sv) (db_banks db) (db_docs db) bank key
        (rr_session_id body) (document_metadata body plan) (ip_content_hash plan) (ri_now io) = Inr (u, db_docs db'))"
    "ans = DuplicateAnswer plan doc \<Longrightarrow> \<exists>key u. du_unchanged u \<and> du_id u = doc \<and>
      documents_upsert (sv_render sv) (db_banks db) (db_docs db) bank key
        (rr_session_id body) (document_metadata body plan) (ip_content_hash plan) (ri_now io) = Inr (u, db_docs db')"
    "ans = AcceptedAnswer plan' task \<Longrightarrow> hash_ok sv task"
    "s \<in> tasks_of (db_jobs db') \<Longrightarrow> s \<in> tasks_of (db_jobs db) \<or> (\<exists>t. hash_ok sv t \<and> sv_task_ser sv t = Some s)"
    by blast+
qed

lemma retain_step_inv:
  assumes "daemon_inv sv (d, l)"
  shows "daemon_inv sv (daemon_step sv parse (DoRetain io slot bank body) (d, l))"
proof -
  obtain db n ans where r: "retain_inner sv io slot (dm_queued d) (dm_db d) bank body = (db, n, ans)"
    by (metis prod_cases3)
  let ?a = "[Answered bank body ans (sent_before (dm_db d) bank body)]"
  note e = retain_effect [OF r]
  have docs: "docs_earned sv (l @ ?a) (db_docs db)"
    using e(2) assms by (auto simp: daemon_inv_def intro: docs_earned_append docs_earned_upsert)
  have conf: "confirmed_only (settled (l @ ?a)) (db_sessions (dm_db d))"
    using assms by (simp add: daemon_inv_def confirmed_only_append)
  from e(1) obtain db0 m c where m: "db_sessions db0 = db_sessions (dm_db d)" "c = IfSettled \<longrightarrow> empty_accept ans"
    "db_sessions db = db_sessions (dm_db d) \<or> db_sessions db = db_sessions (mirror_session io db0 bank body m c)" by blast
  have "confirmed_only (settled (l @ ?a)) (db_sessions (mirror_session io db0 bank body m c))"
  proof (rule mirror_confirmed_only)
    show "confirmed_only (settled (l @ ?a)) (db_sessions db0)" using conf m(1) by simp
    show "settled (l @ ?a) bank sid b" if "c = IfSettled" "rr_session_id body = Some sid"
      "rr_byte_offset body = Some t" "sent_before db0 bank body \<le> b" "b < t" for sid b t
      using that m(1,2) unfolding settled_def
      by (intro disjI2 exI [of _ body] exI [of _ ans]) (auto simp: sent_before_def)
  qed
  with m(3) conf have "confirmed_only (settled (l @ ?a)) (db_sessions db)" by auto
  moreover have "\<forall>task\<in>set (dm_queue d @ (case ans of AcceptedAnswer plan task \<Rightarrow> [task] | _ \<Rightarrow> [])). hash_ok sv task"
    using assms e(4) by (auto simp: daemon_inv_def split: retain_answer.splits)
  moreover have "\<forall>s\<in>tasks_of (db_jobs db). \<exists>t. hash_ok sv t \<and> sv_task_ser sv t = Some s"
    using assms e(5) by (auto simp: daemon_inv_def)
  ultimately show ?thesis using docs by (simp add: daemon_inv_def r)
qed

lemma work_step_inv:
  assumes inv: "daemon_inv sv (d, l)"
  shows "daemon_inv sv (daemon_step sv parse (DoWork env) (d, l))"
proof (cases "dm_queue d")
  case Nil
  with inv show ?thesis by simp
next
  case (Cons task queue)
  obtain db p res where r: "run_job_inner env task (dm_db d) = (db, p, res)" by (metis prod_cases3)
  let ?l = "l @ [Ran task p res]"
  have ok: "hash_ok sv task" using inv Cons by (simp add: daemon_inv_def)
  have docs: "docs_earned sv ?l (db_docs (dm_db d))" and conf: "confirmed_only (settled ?l) (db_sessions (dm_db d))"
    using inv by (simp_all add: daemon_inv_def docs_earned_append confirmed_only_append)
  from r have "docs_earned sv ?l (db_docs db) \<and> confirmed_only (settled ?l) (db_sessions db)"
  proof (cases rule: run_job_effect)
    case same
    with docs conf show ?thesis by simp
  next
    case (clean k db0)
    then have cj: "clean_job task ?l" by (auto simp: clean_job_def)
    have "docs_earned sv ?l (db_docs db)"
      using complete_run_docs [of env task k db0] docs docs_earned_stamp [OF docs cj ok] clean(4,6) by auto
    moreover have "confirmed_only (settled ?l) (db_sessions db)"
      using complete_run_sessions [of env task k db0]
    proof
      assume "\<exists>sid r now row. rt_session_id task = Some sid \<and> task_range task = Some r \<and>
        session_upsert (db_banks db0) (db_sessions db0) (rt_bank_id task)
          (su_default\<lparr>su_session_id := sid, su_confirm_range := Some r\<rparr>) now =
        Inr (row, db_sessions (complete_run env task k db0))"
      then obtain sid f t now row where sid: "rt_session_id task = Some sid" "task_range task = Some (f, t)"
        and up: "session_upsert (db_banks db0) (db_sessions db0) (rt_bank_id task)
          (su_default\<lparr>su_session_id := sid, su_confirm_range := Some (f, t)\<rparr>) now = Inr (row, db_sessions db)"
        unfolding clean(7) by auto
      show ?thesis
      proof (rule upsert_confirmed_only [OF up])
        show "confirmed_only (settled ?l) (db_sessions db0)" using conf clean(5) by simp
        fix b :: int
        assume b: "0 \<le> b" and cov: "covered_by (claims_of (session_get (db_sessions db0) (rt_bank_id task)
            (su_session_id (su_default\<lparr>su_session_id := sid, su_confirm_range := Some (f, t)\<rparr>)))
            (su_default\<lparr>su_session_id := sid, su_confirm_range := Some (f, t)\<rparr>)) b"
        then have "f \<le> b \<and> b < t"
          by (auto simp: covered_by_def claims_of_def su_default_def range_params_def clamp0_def split: option.splits)
        with cj sid show "settled ?l (rt_bank_id task)
            (su_session_id (su_default\<lparr>su_session_id := sid, su_confirm_range := Some (f, t)\<rparr>)) b"
          by (auto simp: settled_def)
      qed
    qed (use conf clean(5,7) in simp)
    ultimately show ?thesis by simp
  qed
  moreover have "\<forall>s\<in>tasks_of (db_jobs db). \<exists>t. hash_ok sv t \<and> sv_task_ser sv t = Some s"
    using inv run_job_shrink [OF r] by (auto simp: daemon_inv_def jobs_shrink_def)
  ultimately show ?thesis using inv Cons by (simp add: daemon_inv_def r)
qed

lemma session_step_inv:
  assumes "daemon_inv sv (d, l)"
  shows "daemon_inv sv (daemon_step sv parse (DoSession bank body now) (d, l))"
proof (cases "upsert_session (dm_db d) bank body now")
  case (Inr rd)
  then obtain row t where rd: "rd = (row, (dm_db d)\<lparr>db_sessions := t\<rparr>)"
    and up: "session_upsert (db_banks (dm_db d)) (db_sessions (dm_db d)) bank
      (su_default\<lparr>su_session_id := sr_session_id body, su_cwd := sr_cwd body,
         su_transcript_path := sr_transcript_path body, su_source := sr_source body,
         su_end_reason := sr_end_reason body, su_ended_at := sr_ended_at body,
         su_turns := sr_turns body, su_chunk_index := sr_chunk_index body,
         su_byte_offset := sr_byte_offset body\<rparr>) now = Inr (row, t)"
    by (auto simp: upsert_session_def split: if_splits sum.splits)
  have "confirmed_only (settled l) t"
    using assms by (intro upsert_confirmed_only [OF up])
      (auto simp: daemon_inv_def covered_by_def claims_of_def su_default_def range_params_def clamp0_def
        split: option.splits)
  with assms show ?thesis by (simp add: Inr rd daemon_inv_def)
qed (use assms in simp)

lemma resumable_from_rows: "(j, s) \<in> set (resumable t) \<Longrightarrow> s \<in> tasks_of t"
  by (auto simp: resumable_def set_touched tasks_of_def)

definition task_codec :: "service \<Rightarrow> (str \<Rightarrow> str + retain_task) \<Rightarrow> bool" where
  "task_codec sv parse \<longleftrightarrow>
     (\<forall>t s u. sv_task_ser sv t = Some s \<longrightarrow> parse s = Inr u \<longrightarrow> u = t\<lparr>rt_resume := None\<rparr>)"

definition restored :: "(str \<Rightarrow> str + retain_task) \<Rightarrow> str set \<Rightarrow> retain_task \<Rightarrow> bool" where
  "restored parse S task \<longleftrightarrow> (\<exists>s\<in>S. \<exists>u p. parse s = Inr u \<and> task = u\<lparr>rt_resume := Some p\<rparr>)"

lemma restoredI: "s \<in> S \<Longrightarrow> parse s = Inr u \<Longrightarrow> restored parse S (u\<lparr>rt_resume := Some p\<rparr>)"
  unfolding restored_def by blast

lemma resume_fold:
  assumes "fold (resume_one parse update_ok now) rows (t, q, out) = (t', q', out')"
    and "\<forall>(j, s)\<in>set rows. s \<in> S" and "\<forall>task\<in>set out. restored parse S task"
  shows "tasks_of t' \<subseteq> tasks_of t \<and> (\<forall>task\<in>set out'. restored parse S task)"
  using assms
proof (induction rows arbitrary: t q out)
  case (Cons r rows)
  obtain j s where r: "r = (j, s)" by (cases r)
  obtain t1 q1 out1 where o: "resume_one parse update_ok now r (t, q, out) = (t1, q1, out1)"
    by (metis prod_cases3)
  have "tasks_of t1 \<subseteq> tasks_of t"
    using o r by (auto simp: resume_one_def Let_def split: sum.splits if_splits simp del: lit_Cons
        dest: tasks_of_update [THEN subsetD])
  moreover have "\<forall>task\<in>set out1. restored parse S task"
    using o r Cons.prems(2,3) 
    by (auto simp: resume_one_def Let_def split: sum.splits if_splits simp del: lit_Cons intro: restoredI)
  moreover have "fold (resume_one parse update_ok now) rows (t1, q1, out1) = (t', q', out')"
    using Cons.prems(1) o by simp
  ultimately show ?case using Cons.IH [of t1 q1 out1] Cons.prems(2) by auto
qed simp

lemma startup_restores:
  assumes "startup parse readable update_ok now t = (t', n, queue)"
  shows "tasks_of t' \<subseteq> tasks_of t" and "\<forall>task\<in>set queue. restored parse (tasks_of t) task"
proof -
  let ?t1 = "snd (fail_stale t (lit ''daemon restarted before the job finished'') now)"
  have "tasks_of t' \<subseteq> tasks_of ?t1 \<and> (\<forall>task\<in>set queue. restored parse (tasks_of ?t1) task)"
  proof (cases readable)
    case True
    with assms have "fold (resume_one parse update_ok now) (resumable ?t1) (?t1, 0, []) = (t', n, queue)"
      by (simp add: startup_def resumable_tasks_def del: lit_Cons)
    then show ?thesis by (rule resume_fold) (auto dest: resumable_from_rows)
  next
    case False
    with assms tasks_of_fail_unfinished show ?thesis
      by (auto simp: startup_def resumable_tasks_def simp del: lit_Cons)
  qed
  then show "tasks_of t' \<subseteq> tasks_of t" "\<forall>task\<in>set queue. restored parse (tasks_of t) task"
    using tasks_of_fail_stale unfolding restored_def by blast+
qed

lemma restart_step_inv:
  assumes "daemon_inv sv (d, l)" and "task_codec sv parse"
  shows "daemon_inv sv (daemon_step sv parse (DoRestart readable update_ok now) (d, l))"
proof -
  obtain t' n queue where s: "startup parse readable update_ok now (db_jobs (dm_db d)) = (t', n, queue)"
    by (metis prod_cases3)
  note st = startup_restores [OF s]
  have "hash_ok sv task" if "task \<in> set queue" for task
  proof -
    from st(2) that obtain x u p where x: "x \<in> tasks_of (db_jobs (dm_db d))" "parse x = Inr u"
      "task = u\<lparr>rt_resume := Some p\<rparr>" by (auto simp: restored_def)
    with assms obtain t where "hash_ok sv t" "u = t\<lparr>rt_resume := None\<rparr>"
      by (auto simp: daemon_inv_def task_codec_def)
    with x(3) show ?thesis by (simp add: hash_ok_def)
  qed
  with assms(1) st(1) show ?thesis by (auto simp: daemon_inv_def s)
qed

lemma daemon_step_inv:
  assumes "daemon_inv sv st" and "task_codec sv parse"
  shows "daemon_inv sv (daemon_step sv parse op st)"
proof -
  obtain d l where st: "st = (d, l)" by (cases st)
  show ?thesis
  proof (cases op)
    case (DoGc cutoff)
    with assms st show ?thesis by (simp add: daemon_inv_def gc_confirmed_only)
  qed (use assms st in \<open>simp_all only: retain_step_inv work_step_inv session_step_inv restart_step_inv\<close>)
qed

lemma daemon_run_inv:
  "daemon_inv sv st \<Longrightarrow> task_codec sv parse \<Longrightarrow> daemon_inv sv (daemon_run sv parse ops st)"
  unfolding daemon_run_def by (induction ops arbitrary: st) (simp_all add: daemon_step_inv)

lemma daemon_empty_inv: "daemon_inv sv (daemon_empty banks, [])"
  by (simp add: daemon_inv_def daemon_empty_def empty_db_def docs_earned_def tasks_of_def confirmed_only_def)

section \<open>Duplicates\<close>

lemma duplicate_plan:
  assumes "retain_inner sv io slot q db bank body = (db', n, DuplicateAnswer plan doc)"
  shows "plan_of sv body = Some plan"
proof -
  obtain ms where "prepare sv io db bank (doc_key_of io body) ms body = (db', Inr (Duplicate plan doc))"
    using assms unfolding retain_inner_def Let_def
    by (auto split: if_splits prod.splits sum.splits prepared.splits)
  moreover have "queue_job sv io d bank ms body p i \<noteq> (db', Inr (Duplicate plan doc))" for d p i
    using queue_job_effect(3) by blast
  ultimately show ?thesis
    unfolding prepare_def Let_def by (auto split: if_splits option.splits sum.splits)
qed

definition duplicates_earned :: "service \<Rightarrow> logged list \<Rightarrow> bool" where
  "duplicates_earned sv l \<longleftrightarrow>
     (\<forall>pre post bank body plan doc sent. l = pre @ Answered bank body (DuplicateAnswer plan doc) sent # post \<longrightarrow>
        ingested_as sv pre doc (ip_content_hash plan) \<and>
        plan_of sv body = Some plan)"

lemma duplicates_earned_snoc:
  assumes "duplicates_earned sv l"
    and "\<And>bank body plan doc sent. e = Answered bank body (DuplicateAnswer plan doc) sent \<Longrightarrow>
      ingested_as sv l doc (ip_content_hash plan) \<and>
      plan_of sv body = Some plan"
  shows "duplicates_earned sv (l @ [e])"
  unfolding duplicates_earned_def
proof (intro allI impI)
  fix pre post bank body plan doc sent
  assume split: "l @ [e] = pre @ Answered bank body (DuplicateAnswer plan doc) sent # post"
  show "ingested_as sv pre doc (ip_content_hash plan) \<and>
      plan_of sv body = Some plan"
  proof (cases post rule: rev_cases)
    case Nil
    with split assms(2) show ?thesis by simp
  next
    case (snoc post' x)
    with split have "l = pre @ Answered bank body (DuplicateAnswer plan doc) sent # post'" by simp
    with assms(1) show ?thesis unfolding duplicates_earned_def by blast
  qed
qed

lemma daemon_step_duplicates:
  assumes "daemon_inv sv (d, l)" and "duplicates_earned sv l"
  shows "duplicates_earned sv (snd (daemon_step sv parse op (d, l)))"
proof (cases op)
  case (DoRetain io slot bank body)
  obtain db n ans where r: "retain_inner sv io slot (dm_queued d) (dm_db d) bank body = (db, n, ans)"
    by (metis prod_cases3)
  have "duplicates_earned sv (l @ [Answered bank body ans (sent_before (dm_db d) bank body)])"
  proof (rule duplicates_earned_snoc [OF assms(2)])
    fix bank' body' plan doc sent
    assume "Answered bank body ans (sent_before (dm_db d) bank body) =
      Answered bank' body' (DuplicateAnswer plan doc) sent"
    then have a: "ans = DuplicateAnswer plan doc" "body' = body" by simp_all
    from retain_effect(3) [OF r a(1)] obtain key u where u: "du_unchanged u" "du_id u = doc"
      "documents_upsert (sv_render sv) (db_banks (dm_db d)) (db_docs (dm_db d)) bank key
        (rr_session_id body) (document_metadata body plan) (ip_content_hash plan) (ri_now io) = Inr (u, db_docs db)"
      by blast
    from assms(1) have "docs_earned sv l (db_docs (dm_db d))" by (simp add: daemon_inv_def)
    from duplicate_earned [OF this u(3,1)] u(2) duplicate_plan [OF r [unfolded a]] a
    show "ingested_as sv l doc (ip_content_hash plan) \<and>
      plan_of sv body' = Some plan"
      by simp
  qed
  then show ?thesis by (simp add: DoRetain r)
next
  case (DoWork env)
  have "duplicates_earned sv (l @ [Ran task p res])" for task p res
    by (rule duplicates_earned_snoc [OF assms(2)]) simp
  then show ?thesis using assms(2) by (simp add: DoWork split: list.split prod.split)
qed (use assms(2) in \<open>auto split: sum.split prod.split\<close>)

lemma daemon_run_duplicates:
  assumes "task_codec sv parse" and "daemon_inv sv st" and "duplicates_earned sv (snd st)"
  shows "duplicates_earned sv (snd (daemon_run sv parse ops st))"
  using assms(2,3)
proof (induction ops arbitrary: st)
  case (Cons op ops)
  obtain d l where st: "st = (d, l)" by (cases st)
  have "daemon_inv sv (daemon_step sv parse op st)" by (rule daemon_step_inv [OF Cons.prems(1) assms(1)])
  moreover have "duplicates_earned sv (snd (daemon_step sv parse op st))"
    using daemon_step_duplicates [of sv d l] Cons.prems st by simp
  ultimately show ?case using Cons.IH by (simp add: daemon_run_def)
qed (simp add: daemon_run_def)

text \<open>C2: A request is dismissed as a duplicate only for a transcript that was ingested. In any run of the
  daemon from an empty database, with requests, jobs, session writes, collections and restarts in any
  order and any of the writes failing, when a request is answered \<open>duplicate\<close> there was, before it, a job
  of the same document that ended \<open>done\<close> with no failed chunk and whose transcript has the hash of the
  request's own. A client cannot bring this about with metadata of its own.\<close>

theorem duplicate_was_ingested:
  assumes "task_codec sv parse"
    and "daemon_run sv parse ops (daemon_empty banks, []) =
      (d, pre @ Answered bank body (DuplicateAnswer plan doc) sent # post)"
  shows "\<exists>task. clean_job task pre \<and> rt_document_id task = doc \<and>
      sv_sha sv (rt_transcript task) = sv_sha sv (ip_transcript plan) \<and>
      plan_of sv body = Some plan"
proof -
  have "duplicates_earned sv []" by (simp add: duplicates_earned_def)
  then have "duplicates_earned sv (snd (daemon_run sv parse ops (daemon_empty banks, [])))"
    by (intro daemon_run_duplicates assms(1) daemon_empty_inv) simp
  with assms(2) have "duplicates_earned sv (pre @ Answered bank body (DuplicateAnswer plan doc) sent # post)"
    by simp
  then have e: "ingested_as sv pre doc (ip_content_hash plan)" and p: "plan_of sv body = Some plan"
    unfolding duplicates_earned_def by blast+
  from e p show ?thesis using plan_hash [OF p] by (auto simp: ingested_as_def hash_ok_def)
qed

text \<open>C3: A session's durable cursor covers only settled bytes. In any such run, each byte below the
  \<open>confirmed_offset\<close> of a session lies in the range of a job of that session that ended \<open>done\<close> with no
  failed chunk, or in what a \<open>skipped\<close> or \<open>duplicate\<close> request of that session added to its optimistic
  cursor.\<close>

theorem confirmed_bytes_settled:
  assumes "task_codec sv parse"
    and "daemon_run sv parse ops (daemon_empty banks, []) = (d, l)"
    and "session_get (db_sessions (dm_db d)) bank sid = Some r"
    and "0 \<le> b" and "b < ms_confirmed_offset r"
  shows "settled l bank sid b"
proof -
  have "daemon_inv sv (d, l)"
    using daemon_run_inv [OF daemon_empty_inv assms(1), of ops banks] assms(2) by simp
  moreover have "r \<in> set (db_sessions (dm_db d))" "has_key bank sid r"
    using assms(3) by (auto simp: session_get_def dest: find_has_key)
  ultimately show ?thesis using assms(4,5) by (fastforce simp: daemon_inv_def confirmed_only_def has_key_def)
qed

section \<open>The theorems on a concrete run\<close>

text \<open>A request is accepted, its job runs, and the same request comes again.\<close>

definition silent_env :: worker_env where
  "silent_env =
     \<lparr>we_parse = \<lambda>_. None, we_ser = \<lambda>_. [], we_alphanumeric = \<lambda>_. True, we_iso_ms = \<lambda>_. None,
      we_uuid = \<lambda>_. [], we_show = \<lambda>_. [], we_cfg_chunk_size = 3000, we_wall_timeout_secs = 600,
      we_chunking_panics = None, we_timed_out = \<lambda>_. False, we_stop_before = \<lambda>_. False,
      we_stop_mid = \<lambda>_. False, we_known = \<lambda>_. [],
      we_extract = \<lambda>i _. Inr [], we_now = int,
      we_insert_ok = \<lambda>_. True, we_supersede_ok = \<lambda>_. True, we_flush_ok = \<lambda>_. True, we_hash_ok = True,
      we_confirm_ok = True, we_inference = [], we_json_set = \<lambda>d _ _. d, we_detail_ok = False\<rparr>"


lemma sample_task_sel:
  "rt_resume sample_task_of = None" "rt_document_id sample_task_of = 1" "rt_bank_id sample_task_of = [98]"
  "rt_content_hash sample_task_of = [45, 45, 45, 45, 45, 45, 45, 45, 45, 45]"
  "rt_transcript sample_task_of = [45, 45, 45, 45, 45, 45, 45, 45, 45, 45]"
  "rt_session_id sample_task_of = Some [115]" "rt_offset_from sample_task_of = Some 0"
  "rt_byte_offset sample_task_of = Some 9"
  by (simp_all add: sample_task_of_def request_task_def sample_plan_def sample_request_def)

lemma sample_complete:
  assumes "db_banks db = [[98]]" "db_docs db = db_docs accepted_db" "db_sessions db = db_sessions accepted_db"
  shows "db_docs (complete_run silent_env sample_task_of 2 db) =
      set_content_hash (db_docs accepted_db) 1 [45, 45, 45, 45, 45, 45, 45, 45, 45, 45] 2
    \<and> (\<exists>r. session_get (db_sessions (complete_run silent_env sample_task_of 2 db)) [98] [115] = Some r
          \<and> ms_confirmed_offset r = 9)"
  using assms
  by (auto simp: complete_run_def silent_env_def sample_task_sel session_upsert_def session_get_def su_default_def
      max_session_id_bytes_def utf8_width_def accepted_db_def mirror_update_def merge_row_def insert_row_def range_params_def
      clamp0_def Let_def sample_request_def has_key_def)

lemma sample_worked:
  assumes "run_job_inner silent_env sample_task_of accepted_db = (db', p, res)"
  shows "res = Some Finished \<and> jp_status p = JDone \<and> jp_chunks_failed p = 0 \<and> db_banks db' = [[98]]
    \<and> db_docs db' = set_content_hash (db_docs accepted_db) 1 [45, 45, 45, 45, 45, 45, 45, 45, 45, 45] 2
    \<and> (\<exists>r. session_get (db_sessions db') [98] [115] = Some r \<and> ms_confirmed_offset r = 9)"
proof -
  have c: "task_chunks silent_env sample_task_of = [[45, 45, 45, 45, 45, 45, 45, 45, 45, 45]]"
    by (simp add: task_chunks_def silent_env_def sample_task_of_def request_task_def sample_service_def sample_plan_def
      chunk_text_def split_oversized_unit_def split_recursive.simps emit_def trim_def trim_start_def trim_end_def
      is_ws_def blank_iff starts_with_def Let_def)
  have d: "is_degenerate_text a [45, 45, 45, 45, 45, 45, 45, 45, 45, 45]" for a
    by (simp add: is_degenerate_text_def Let_def trim_def trim_start_def trim_end_def is_ws_def punct_only_def)
  have q: "we_chunking_panics silent_env = None" "\<not> we_timed_out silent_env i" "\<not> we_stop_before silent_env i"
    "\<not> we_detail_ok silent_env" for i
    by (simp_all add: silent_env_def)
  have b: "db_banks (flush e i k p db) = db_banks db" for e i k p db by (simp add: flush_def)
  have a: "db_banks accepted_db = [[98]]" by (simp add: accepted_db_def)
  show ?thesis using assms sample_complete
    by (auto simp: run_job_inner_def c d sample_task_sel q b a Let_def already_of_def resumed_of_def jp_default_def
        start_state_def settle_def is_clean_def settle_status_def flush_state_def skip_chunk_def numeral_2_eq_2)
qed

lemma sample_duplicate:
  assumes "db_banks db = [[98]]"
    and "db_docs db = set_content_hash (db_docs accepted_db) 1 [45, 45, 45, 45, 45, 45, 45, 45, 45, 45] 2"
  shows "\<exists>db'. retain_inner sample_service (sample_io [8]) SlotFree q db [98] sample_request =
     (db', q, DuplicateAnswer sample_plan 1)"
  using assms
  by (simp add: retain_inner_def prepare_def sample_plan_of Let_def documents_upsert_def,
    simp add: sample_io_def doc_key_of_def sample_request_def accepted_db_def set_content_hash_def doc_find_def stored_hash_def sample_plan_def
     max_session_id_bytes_def utf8_width_def)

definition sample_ops :: "daemon_op list" where
  "sample_ops = [DoRetain (sample_io [9]) SlotFree [98] sample_request, DoWork silent_env,
     DoRetain (sample_io [8]) SlotFree [98] sample_request]"

lemma sample_daemon_run:
  obtains d p sent where "daemon_run sample_service (\<lambda>_. Inl []) sample_ops (daemon_empty [[98]], []) =
      (d, [Answered [98] sample_request (AcceptedAnswer sample_plan sample_task_of) 0,
           Ran sample_task_of p (Some Finished)] @
          Answered [98] sample_request (DuplicateAnswer sample_plan 1) sent # [])"
proof -
  obtain db p res where w: "run_job_inner silent_env sample_task_of accepted_db = (db, p, res)" by (metis prod_cases3)
  note w' = sample_worked [OF w]
  from w' obtain db' where d: "retain_inner sample_service (sample_io [8]) SlotFree 0 db [98] sample_request =
     (db', 0, DuplicateAnswer sample_plan 1)" using sample_duplicate [of db 0] by blast
  have b: "byte_len (rt_transcript sample_task_of) = 10"
    by (simp add: sample_task_of_def request_task_def sample_plan_def byte_len_def utf8_width_def)
  have s: "sent_before (empty_db [[98]]) [98] sample_request = 0"
    by (simp add: sent_before_def empty_db_def session_get_def sample_request_def)
  have e: "dm_queued (daemon_empty [[98]]) = 0" "dm_queue (daemon_empty [[98]]) = []" "dm_db (daemon_empty [[98]]) = empty_db [[98]]"
    by (simp_all add: daemon_empty_def)
  show ?thesis
    by (rule that) (simp add: daemon_run_def sample_ops_def sample_accepted e w w' b d s)
qed

theorem duplicate_was_ingested_witness:
  "\<exists>p task. clean_job task [Answered [98] sample_request (AcceptedAnswer sample_plan sample_task_of) 0,
      Ran sample_task_of p (Some Finished)] \<and> rt_document_id task = 1"
proof -
  have c: "task_codec sample_service (\<lambda>_. Inl [])" by (simp add: task_codec_def)
  obtain d p sent where "daemon_run sample_service (\<lambda>_. Inl []) sample_ops (daemon_empty [[98]], []) =
      (d, [Answered [98] sample_request (AcceptedAnswer sample_plan sample_task_of) 0,
           Ran sample_task_of p (Some Finished)] @
          Answered [98] sample_request (DuplicateAnswer sample_plan 1) sent # [])"
    by (rule sample_daemon_run)
  from duplicate_was_ingested [OF c this] show ?thesis by blast
qed

theorem confirmed_bytes_settled_witness:
  "\<exists>p. settled [Answered [98] sample_request (AcceptedAnswer sample_plan sample_task_of) 0,
      Ran sample_task_of p (Some Finished)] [98] [115] 5"
proof -
  have c: "task_codec sample_service (\<lambda>_. Inl [])" by (simp add: task_codec_def)
  obtain db p res where w: "run_job_inner silent_env sample_task_of accepted_db = (db, p, res)" by (metis prod_cases3)
  from sample_worked [OF w] obtain r where w': "res = Some Finished"
    "session_get (db_sessions db) [98] [115] = Some r" "ms_confirmed_offset r = 9" by blast
  have s: "sent_before (empty_db [[98]]) [98] sample_request = 0"
    by (simp add: sent_before_def empty_db_def session_get_def sample_request_def)
  have e: "dm_queued (daemon_empty [[98]]) = 0" "dm_queue (daemon_empty [[98]]) = []" "dm_db (daemon_empty [[98]]) = empty_db [[98]]"
    by (simp_all add: daemon_empty_def)
  have "\<exists>d. daemon_run sample_service (\<lambda>_. Inl []) (take 2 sample_ops) (daemon_empty [[98]], []) =
      (d, [Answered [98] sample_request (AcceptedAnswer sample_plan sample_task_of) 0,
           Ran sample_task_of p (Some Finished)]) \<and> dm_db d = db"
    by (simp add: daemon_run_def sample_ops_def sample_accepted e w w' s)
  then obtain d where d: "daemon_run sample_service (\<lambda>_. Inl []) (take 2 sample_ops) (daemon_empty [[98]], []) =
      (d, [Answered [98] sample_request (AcceptedAnswer sample_plan sample_task_of) 0,
           Ran sample_task_of p (Some Finished)])" "dm_db d = db" by blast
  from confirmed_bytes_settled [OF c d(1), of "[98]" "[115]" r 5] w' d(2) show ?thesis by auto
qed

end
