(* ===== verification/Task_Ledger.thy ===== *)
theory Task_Ledger
  imports Core_Types
begin

text \<open>
  \<open>crates/memgarden-store/src/task_ledger.rs\<close> and the pure parts of
  \<open>crates/memgardend/src/retain/ledger.rs\<close>: the working state of a bank, one row each. SQLite's
  \<open>json_valid\<close>, the serializer of the anchors and the language model's reply are parameters.
\<close>

definition max_field_chars :: nat where
  "max_field_chars = 2000"

definition max_anchors_chars :: nat where
  "max_anchors_chars = 4000"

definition tail_chars :: nat where
  "tail_chars = 9000"

record task_ledger =
  tl_bank_id :: str
  tl_goal :: str
  tl_open :: str
  tl_next_action :: str
  tl_anchors :: str
  tl_session_id :: "str option"
  tl_job_id :: "str option"
  tl_created_at :: int
  tl_updated_at :: int

record ledger_update =
  lu_goal :: str
  lu_open :: str
  lu_next_action :: str
  lu_anchors :: str
  lu_session_id :: "str option"
  lu_job_id :: "str option"

type_synonym ledger_table = "task_ledger list"

text \<open>\<open>cap\<close> walks back from the byte bound to a character boundary.\<close>

definition cap_bytes :: "str \<Rightarrow> nat \<Rightarrow> str" where
  "cap_bytes s n = (if byte_len s \<le> n then s else take_bytes (floor_boundary s n) s)"

definition ledger_get :: "ledger_table \<Rightarrow> str \<Rightarrow> task_ledger option" where
  "ledger_get t bank = find (\<lambda>r. tl_bank_id r = bank) t"

definition ledger_row :: "str \<Rightarrow> ledger_update \<Rightarrow> str \<Rightarrow> int \<Rightarrow> int \<Rightarrow> task_ledger" where
  "ledger_row bank u anchors created now =
     \<lparr>tl_bank_id = bank, tl_goal = cap_bytes (lu_goal u) max_field_chars,
      tl_open = cap_bytes (lu_open u) max_field_chars,
      tl_next_action = cap_bytes (lu_next_action u) max_field_chars, tl_anchors = anchors,
      tl_session_id = lu_session_id u, tl_job_id = lu_job_id u,
      tl_created_at = created, tl_updated_at = now\<rparr>"

definition ledger_upsert ::
  "(str \<Rightarrow> bool) \<Rightarrow> str list \<Rightarrow> ledger_table \<Rightarrow> str \<Rightarrow> ledger_update \<Rightarrow> int \<Rightarrow> mg_error + (task_ledger \<times> ledger_table)"
where
  "ledger_upsert json_valid banks t bank u now =
     (if blank (lu_goal u) then Inl ErrInvalid
      else (let anchors = (if blank (lu_anchors u) then lit ''{}''
                           else cap_bytes (lu_anchors u) max_anchors_chars) in
        if \<not> json_valid anchors then Inl ErrInvalid
        else (case ledger_get t bank of
                Some r \<Rightarrow> (let r' = ledger_row bank u anchors (tl_created_at r) now in
                  Inr (r', map (\<lambda>x. if tl_bank_id x = bank then r' else x) t))
              | None \<Rightarrow> (if bank \<in> set banks
                         then (let r' = ledger_row bank u anchors now now in Inr (r', t @ [r']))
                         else Inl ErrStorage))))"

text \<open>\<open>tail_of\<close>: the tail from the first character boundary at or after the byte position \<open>len - max\<close>.\<close>

definition tail_of :: "str \<Rightarrow> nat \<Rightarrow> str" where
  "tail_of s n = (if byte_len s \<le> n then s else rev (take_bytes n (rev s)))"

section \<open>Caps\<close>

lemma byte_len_floor: "byte_len (take_bytes (floor_boundary s n) s) \<le> n"
  by (metis byte_len_take_bytes take_floor_boundary)

lemma cap_bytes_le: "byte_len (cap_bytes s n) \<le> n"
  by (simp add: cap_bytes_def byte_len_floor)

lemma cap_bytes_prefix: "prefix (cap_bytes s n) s"
  by (simp add: cap_bytes_def take_bytes_prefix)


lemma find_ledger_map:
  assumes "tl_bank_id r' = bank"
  shows "find (\<lambda>r. tl_bank_id r = b) (map (\<lambda>x. if tl_bank_id x = bank then r' else x) t)
    = (if b = bank then map_option (\<lambda>_. r') (find (\<lambda>r. tl_bank_id r = b) t) else find (\<lambda>r. tl_bank_id r = b) t)"
  using assms by (induction t) auto

lemma find_ledger_append:
  "find P (t @ [x]) = (case find P t of Some y \<Rightarrow> Some y | None \<Rightarrow> if P x then Some x else None)"
  by (induction t) auto

lemma ledger_row_sel [simp]:
  "tl_bank_id (ledger_row bank u a c n) = bank" "tl_created_at (ledger_row bank u a c n) = c"
  "tl_anchors (ledger_row bank u a c n) = a" "tl_updated_at (ledger_row bank u a c n) = n"
  "tl_goal (ledger_row bank u a c n) = cap_bytes (lu_goal u) max_field_chars"
  "tl_open (ledger_row bank u a c n) = cap_bytes (lu_open u) max_field_chars"
  "tl_next_action (ledger_row bank u a c n) = cap_bytes (lu_next_action u) max_field_chars"
  by (simp_all add: ledger_row_def)

text \<open>A ledger write replaces the bank's row and nothing else. The row afterwards is the one returned:
  every text is the longest prefix of what was given within its cap, the anchors are valid JSON, and only
  the time of creation survives from the row before; the rows of other banks are untouched.\<close>

lemma ledger_upsert_replaces:
  assumes "ledger_upsert json_valid banks t bank u now = Inr (r, t')"
  shows "ledger_get t' bank = Some r \<and> (\<forall>b. b \<noteq> bank \<longrightarrow> ledger_get t' b = ledger_get t b)
    \<and> tl_created_at r = (case ledger_get t bank of Some old \<Rightarrow> tl_created_at old | None \<Rightarrow> now)
    \<and> tl_updated_at r = now \<and> json_valid (tl_anchors r)
    \<and> (\<forall>(given, kept)\<in>{(lu_goal u, tl_goal r), (lu_open u, tl_open r), (lu_next_action u, tl_next_action r)}.
         prefix kept given \<and> byte_len kept \<le> max_field_chars)"
proof -
  obtain a c where r: "r = ledger_row bank u a c now" "json_valid a"
      "c = (case ledger_get t bank of Some old \<Rightarrow> tl_created_at old | None \<Rightarrow> now)"
      "t' = (case ledger_get t bank of Some old \<Rightarrow> map (\<lambda>x. if tl_bank_id x = bank then r else x) t
         | None \<Rightarrow> t @ [r])"
    using assms by (auto simp: ledger_upsert_def Let_def split: if_splits option.splits)
  have b: "tl_bank_id r = bank" by (simp add: r(1))
  have "ledger_get t' bank = Some r \<and> (\<forall>b. b \<noteq> bank \<longrightarrow> ledger_get t' b = ledger_get t b)"
    using r(4) b find_ledger_map [OF b]
    by (auto simp: ledger_get_def find_ledger_append split: option.splits)
  then show ?thesis using r(2,3) by (simp add: r(1) cap_bytes_prefix cap_bytes_le)
qed

definition sample_update :: ledger_update where
  "sample_update = \<lparr>lu_goal = [103], lu_open = [], lu_next_action = [], lu_anchors = [], lu_session_id = None,
     lu_job_id = None\<rparr>"

text \<open>Anchors longer than their cap lose the whole ledger. The cap cuts the JSON text of the anchors in
  the middle, what is left of an object is no JSON value, and the table refuses the row: a ledger with a
  goal and valid anchors is not stored at all, where the cap was there to store a shortened one.\<close>

lemma long_anchors_lose_the_ledger:
  assumes "json_valid (lu_anchors u)" and "\<forall>p. strict_prefix p (lu_anchors u) \<longrightarrow> \<not> json_valid p"
    and "max_anchors_chars < byte_len (lu_anchors u)" and "\<not> blank (lu_anchors u)" and "\<not> blank (lu_goal u)"
  shows "ledger_upsert json_valid banks t bank u now = Inl ErrInvalid"
proof -
  have "cap_bytes (lu_anchors u) max_anchors_chars \<noteq> lu_anchors u"
    using cap_bytes_le [of "lu_anchors u" max_anchors_chars] assms(3) by (metis not_le)
  then have "strict_prefix (cap_bytes (lu_anchors u) max_anchors_chars) (lu_anchors u)"
    by (simp add: strict_prefix_def cap_bytes_prefix)
  with assms show ?thesis by (simp add: ledger_upsert_def)
qed

text \<open>An object of 4002 bytes, under a reader for which a value ends with its closing brace.\<close>

end
