(* ===== verification/Settings_Splice.thy ===== *)
theory Settings_Splice
  imports Json_Value
begin

text \<open>
  \<open>crates/memgarden-cli/src/settings.rs\<close>: the hooks are wired into the user's \<open>settings.json\<close> by
  inserting lines into its text, and unwired by deleting them, so that nothing else in a file shared with
  other tools changes. A text is its list of bytes; positions are indices into it, as in the code.
  \<open>serde_json\<close>'s parser and its printer of a string are parameters.
\<close>

section \<open>Entries\<close>

record hook_entry =
  en_event :: str
  en_sub :: str
  en_timeout :: nat
  en_async :: bool
  en_status :: str

definition entries :: "hook_entry list" where
  "entries =
     [\<lparr>en_event = lit ''SessionStart'', en_sub = lit ''session-start'', en_timeout = 5, en_async = False,
       en_status = lit ''memgarden: session start''\<rparr>,
      \<lparr>en_event = lit ''UserPromptSubmit'', en_sub = lit ''recall'', en_timeout = 10, en_async = False,
       en_status = lit ''memgarden: recalling''\<rparr>,
      \<lparr>en_event = lit ''Stop'', en_sub = lit ''retain'', en_timeout = 30, en_async = True,
       en_status = lit ''memgarden: retaining''\<rparr>,
      \<lparr>en_event = lit ''SessionEnd'', en_sub = lit ''session-end'', en_timeout = 5, en_async = False,
       en_status = lit ''memgarden: session end''\<rparr>]"

datatype settings_error =
    SParse
  | SNotAnObject
  | SUnlocatable str
  | SWrongType str
  | SDuplicate str
  | SWouldCorrupt
  | SResidual nat

record splice =
  sp_text :: str
  sp_changed :: "str list"

definition quoted :: "str \<Rightarrow> str" where
  "quoted s = [34] @ s @ [34]"

text \<open>\<open>group_line\<close>; \<open>ser\<close> prints the binary's path as a JSON string.\<close>

definition group_line :: "(str \<Rightarrow> str) \<Rightarrow> hook_entry \<Rightarrow> str \<Rightarrow> str" where
  "group_line ser e bin =
     lit ''{'' @ quoted (lit ''hooks'') @ lit '':[{'' @ quoted (lit ''type'') @ lit '':'' @ quoted (lit ''command'')
     @ lit '','' @ quoted (lit ''command'') @ lit '':'' @ ser bin
     @ lit '','' @ quoted (lit ''args'') @ lit '':['' @ quoted (lit ''hook'') @ lit '','' @ quoted (en_sub e)
     @ lit ''],'' @ quoted (lit ''timeout'') @ lit '':'' @ nat_str (en_timeout e)
     @ (if en_async e then lit '','' @ quoted (lit ''async'') @ lit '':true'' else [])
     @ lit '','' @ quoted (lit ''statusMessage'') @ lit '':'' @ quoted (en_status e) @ lit ''}]}''"

section \<open>Scanning\<close>

definition byte_at :: "str \<Rightarrow> nat \<Rightarrow> nat option" where
  "byte_at s i = (if i < length s then Some (s ! i) else None)"

definition ascii_ws :: "nat \<Rightarrow> bool" where
  "ascii_ws c \<longleftrightarrow> c = 32 \<or> c = 9 \<or> c = 10 \<or> c = 12 \<or> c = 13"

definition inline_ws :: "nat \<Rightarrow> bool" where
  "inline_ws c \<longleftrightarrow> c = 32 \<or> c = 9"

text \<open>\<open>while i < s.len() && p(s[i]) { i += 1 }\<close>, the loop of \<open>skip_ws\<close>, \<open>skip_ws_inline\<close> and the scalars.\<close>

function skip_while :: "(nat \<Rightarrow> bool) \<Rightarrow> str \<Rightarrow> nat \<Rightarrow> nat" where
  "skip_while p s i = (if i < length s \<and> p (s ! i) then skip_while p s (Suc i) else i)"
  by pat_completeness auto
termination by (relation "measure (\<lambda>(_, s, i). length s - i)") auto

declare skip_while.simps [simp del]

definition skip_ws :: "str \<Rightarrow> nat \<Rightarrow> nat" where
  "skip_ws s i = skip_while ascii_ws s i"

definition skip_ws_inline :: "str \<Rightarrow> nat \<Rightarrow> nat" where
  "skip_ws_inline s i = skip_while inline_ws s i"

function string_end :: "str \<Rightarrow> nat \<Rightarrow> nat option" where
  "string_end s i =
     (if i < length s then
        (if s ! i = 92 then string_end s (i + 2)
         else if s ! i = 34 then Some (i + 1)
         else string_end s (i + 1))
      else None)"
  by pat_completeness auto
termination by (relation "measure (\<lambda>(s, i). length s - i)") auto

declare string_end.simps [simp del]

definition skip_string :: "str \<Rightarrow> nat \<Rightarrow> nat option" where
  "skip_string s i = (if byte_at s i \<noteq> Some 34 then None else string_end s (i + 1))"

text \<open>The same scan on the rest of the text.\<close>

fun str_len :: "str \<Rightarrow> nat option" where
  "str_len [] = None"
| "str_len (c # cs) =
     (if c = 92 then (case cs of [] \<Rightarrow> None | x # ds \<Rightarrow> map_option ((+) 2) (str_len ds))
      else if c = 34 then Some 1 else map_option Suc (str_len cs))"

lemma drop_Cons_nth: "i < length s \<Longrightarrow> drop i s = s ! i # drop (Suc i) s"
  by (simp add: Cons_nth_drop_Suc)

lemma string_end_len: "string_end s i = map_option ((+) i) (str_len (drop i s))"
proof (induction s i rule: string_end.induct)
  case (1 s i)
  show ?case
  proof (cases "i < length s")
    case True
    then have d: "drop i s = s ! i # drop (Suc i) s" by (rule drop_Cons_nth)
    have two: "drop (Suc i) s = (if Suc i < length s then s ! Suc i # drop (i + 2) s else [])"
      by (simp add: drop_Cons_nth)
    show ?thesis
      using 1 True by (subst string_end.simps)
        (auto simp: d two option.map_comp comp_def string_end.simps [of s "i + 2"] intro!: arg_cong [where f = "\<lambda>f. map_option f _"])
  qed (simp add: string_end.simps)
qed

lemma string_end_Suc: "string_end s (Suc i) = map_option (\<lambda>x. Suc (i + x)) (str_len (drop (Suc i) s))"
  by (cases "str_len (drop (Suc i) s)") (simp_all add: string_end_len)

lemma str_len_le: "str_len l = Some n \<Longrightarrow> 0 < n \<and> n \<le> length l"
proof (induction l arbitrary: n rule: str_len.induct)
  case (2 c cs)
  then show ?case by (force split: if_splits list.splits)
qed simp

lemma skip_string_bounds: "skip_string s i = Some j \<Longrightarrow> i + 1 < j \<and> j \<le> length s"
  by (auto simp: skip_string_def string_end_len byte_at_def dest!: str_len_le split: if_splits)

text \<open>\<open>skip_container\<close> with its depth. It is called at an opening bracket, so the depth is positive
  wherever it is decremented.\<close>

function container_end :: "str \<Rightarrow> nat \<Rightarrow> nat \<Rightarrow> nat option" where
  "container_end s i depth =
     (if i < length s then
        (if s ! i = 34 then (case skip_string s i of None \<Rightarrow> None | Some j \<Rightarrow> container_end s j depth)
         else if s ! i = 123 \<or> s ! i = 91 then container_end s (i + 1) (depth + 1)
         else if s ! i = 125 \<or> s ! i = 93 then
           (if depth - 1 = 0 then Some (i + 1) else container_end s (i + 1) (depth - 1))
         else container_end s (i + 1) depth)
      else None)"
  by pat_completeness auto
termination
  by (relation "measure (\<lambda>(s, i, _). length s - i)") (auto dest: skip_string_bounds)

declare container_end.simps [simp del]

definition skip_container :: "str \<Rightarrow> nat \<Rightarrow> nat option" where
  "skip_container s i = container_end s i 0"

definition scalar_byte :: "nat \<Rightarrow> bool" where
  "scalar_byte c \<longleftrightarrow> c \<noteq> 44 \<and> c \<noteq> 125 \<and> c \<noteq> 93 \<and> \<not> ascii_ws c"

definition skip_value :: "str \<Rightarrow> nat \<Rightarrow> nat option" where
  "skip_value s i0 =
     (let i = skip_ws s i0 in
      case byte_at s i of
        None \<Rightarrow> None
      | Some c \<Rightarrow>
          (if c = 34 then skip_string s i
           else if c = 123 \<or> c = 91 then skip_container s i
           else (let j = skip_while scalar_byte s i in if i < j then Some j else None)))"

datatype no_member = MemberNotFound | MemberDuplicate

definition no_member_at :: "no_member \<Rightarrow> str \<Rightarrow> settings_error" where
  "no_member_at e key = (case e of MemberNotFound \<Rightarrow> SUnlocatable key | MemberDuplicate \<Rightarrow> SDuplicate key)"

section \<open>The same scans on the rest of the text\<close>

lemma skip_while_len: "skip_while p s i = i + length (takeWhile p (drop i s))"
proof (induction p s i rule: skip_while.induct)
  case (1 p s i)
  show ?case
  proof (cases "i < length s")
    case True
    with 1 show ?thesis by (subst skip_while.simps) (simp add: drop_Cons_nth [OF True])
  qed (simp add: skip_while.simps)
qed

function cont_len :: "nat \<Rightarrow> str \<Rightarrow> nat option" where
  "cont_len d [] = None"
| "cont_len d (c # cs) =
     (if c = 34 then (case str_len cs of None \<Rightarrow> None | Some n \<Rightarrow> map_option ((+) (n + 1)) (cont_len d (drop n cs)))
      else if c = 123 \<or> c = 91 then map_option Suc (cont_len (d + 1) cs)
      else if c = 125 \<or> c = 93 then (if d - 1 = 0 then Some 1 else map_option Suc (cont_len (d - 1) cs))
      else map_option Suc (cont_len d cs))"
  by pat_completeness auto
termination by (relation "measure (\<lambda>(_, l). length l)") auto

lemma map_option_add: "map_option ((+) i) (map_option Suc x) = map_option (\<lambda>a. Suc (i + a)) x"
  by (cases x) simp_all

lemma container_end_len: "container_end s i d = map_option ((+) i) (cont_len d (drop i s))"
proof (induction s i d rule: container_end.induct)
  case (1 s i d)
  show ?case
  proof (cases "i < length s")
    case True
    then have d: "drop i s = s ! i # drop (Suc i) s" by (rule drop_Cons_nth)
    show ?thesis
    proof (cases "s ! i = 34")
      case q: True
      then have sk: "skip_string s i = map_option ((+) (Suc i)) (str_len (drop (Suc i) s))"
        using True by (simp add: skip_string_def byte_at_def string_end_len)
      show ?thesis
      proof (cases "str_len (drop (Suc i) s)")
        case None
        with sk q True d show ?thesis by (subst container_end.simps) simp
      next
        case (Some n)
        with sk have "skip_string s i = Some (Suc i + n)" by simp
        with 1(1) [OF True q this] q True d Some show ?thesis
          by (subst container_end.simps)
            (simp add: option.map_comp comp_def add.commute add.left_commute)
      qed
    next
      case False
      with 1(2-4) True d show ?thesis
        by (subst container_end.simps) (simp add: map_option_add)
    qed
  qed (simp add: container_end.simps)
qed

lemma cont_len_le: "cont_len d l = Some n \<Longrightarrow> 0 < n \<and> n \<le> length l"
proof (induction d l arbitrary: n rule: cont_len.induct)
  case (2 d c cs)
  show ?case
  proof (cases "c = 34")
    case True
    with 2(5) obtain k m where "str_len cs = Some k" "cont_len d (drop k cs) = Some m" "n = k + 1 + m"
      by (auto split: option.splits)
    with 2(1) [OF True] str_len_le show ?thesis by fastforce
  next
    case False
    with 2 show ?thesis by (auto split: if_splits)
  qed
qed simp

definition val_len :: "str \<Rightarrow> nat option" where
  "val_len l =
     (case dropWhile ascii_ws l of
        [] \<Rightarrow> None
      | c # cs \<Rightarrow> map_option ((+) (length (takeWhile ascii_ws l)))
          (if c = 34 then map_option Suc (str_len cs)
           else if c = 123 \<or> c = 91 then cont_len 0 (c # cs)
           else (let k = length (takeWhile scalar_byte (c # cs)) in if 0 < k then Some k else None)))"

lemma dropWhile_drop: "drop (length (takeWhile p l)) l = dropWhile p l"
  by (simp add: dropWhile_eq_drop)

lemma skip_value_len: "skip_value s i = map_option ((+) i) (val_len (drop i s))"
proof -
  let ?l = "drop i s" and ?n = "length (takeWhile ascii_ws (drop i s))"
  have w: "skip_ws s i = i + ?n" by (simp add: skip_ws_def skip_while_len)
  have d: "drop (i + ?n) s = dropWhile ascii_ws ?l"
    by (metis add.commute drop_drop dropWhile_drop)
  show ?thesis
  proof (cases "dropWhile ascii_ws ?l")
    case Nil
    with d have "length s \<le> i + ?n" by simp
    with w show ?thesis
      by (simp only: skip_value_def val_len_def byte_at_def Let_def Nil list.case if_not_P not_less option.case option.map)
  next
    case (Cons c cs)
    with d have lt: "i + ?n < length s" by (metis drop_all leI list.distinct(1))
    with d Cons have c: "s ! (i + ?n) = c" "drop (Suc (i + ?n)) s = cs"
      using drop_Cons_nth [OF lt] by simp_all
    show ?thesis
      using w c lt Cons d
      by (simp add: skip_value_def val_len_def byte_at_def Let_def skip_string_def string_end_Suc skip_container_def
          container_end_len skip_while_len option.map_comp comp_def add.assoc)
  qed
qed

lemma val_len_le: "val_len l = Some n \<Longrightarrow> 0 < n \<and> n \<le> length l"
proof -
  assume a: "val_len l = Some n"
  then obtain c cs where d: "dropWhile ascii_ws l = c # cs" by (auto simp: val_len_def split: list.splits)
  have l: "length l = length (takeWhile ascii_ws l) + Suc (length cs)"
    using d by (metis length_append length_Cons takeWhile_dropWhile_id)
  have t: "length (takeWhile scalar_byte (c # cs)) \<le> Suc (length cs)"
    using length_takeWhile_le [of scalar_byte "c # cs"] by simp
  from a d l t show ?thesis
    by (auto simp: val_len_def Let_def simp del: takeWhile.simps cont_len.simps split: if_splits
        dest!: str_len_le cont_len_le)
qed

lemma skip_value_bounds: "skip_value s i = Some j \<Longrightarrow> i < j \<and> j \<le> length s"
  by (auto simp: skip_value_len dest!: val_len_le)

lemma skip_ws_len: "skip_ws s i = i + length (takeWhile ascii_ws (drop i s))"
  by (simp add: skip_ws_def skip_while_len)

lemma skip_ws_ge: "i \<le> skip_ws s i"
  by (simp add: skip_ws_len)

section \<open>Members\<close>

text \<open>\<open>find_member\<close>: the position of the value of the one member whose raw key is \<open>key\<close>.\<close>

definition found_or :: "nat option \<Rightarrow> no_member + nat" where
  "found_or found = (case found of None \<Rightarrow> Inl MemberNotFound | Some v \<Rightarrow> Inr v)"

function member_loop :: "str \<Rightarrow> str \<Rightarrow> nat \<Rightarrow> nat option \<Rightarrow> no_member + nat" where
  "member_loop s key i found =
     (if byte_at s i \<noteq> Some 34 then found_or found
      else (case skip_string s i of
        None \<Rightarrow> found_or found
      | Some key_end \<Rightarrow>
          (let matches = (take (key_end - 1 - (i + 1)) (drop (i + 1) s) = key); c = skip_ws s key_end in
           if byte_at s c \<noteq> Some 58 then found_or found
           else (let v = skip_ws s (c + 1) in
             if matches \<and> found \<noteq> None then Inl MemberDuplicate
             else (let found' = (if matches then Some v else found) in
               case skip_value s v of
                 None \<Rightarrow> found_or found'
               | Some after \<Rightarrow>
                   (let c2 = skip_ws s after in
                    if byte_at s c2 \<noteq> Some 44 then found_or found'
                    else member_loop s key (skip_ws s (c2 + 1)) found'))))))"
  by pat_completeness auto
termination
proof (relation "measure (\<lambda>(s, _, i, _). length s - i)", goal_cases)
  case (2 s key i found key_end matches c v found' after c2)
  have "i < key_end" using skip_string_bounds [OF 2(2)] by simp
  also have "key_end \<le> c" using 2(4) skip_ws_ge by simp
  also have "c < v" using 2(6) skip_ws_ge [of "c + 1" s] by simp
  also have "v < after" using skip_value_bounds [OF 2(9)] by simp
  also have "after \<le> c2" using 2(10) skip_ws_ge by simp
  also have "c2 < skip_ws s (c2 + 1)" using skip_ws_ge [of "c2 + 1" s] by simp
  finally have "i < skip_ws s (c2 + 1)" .
  moreover have "i < length s" using 2(1) by (simp add: byte_at_def split: if_splits)
  ultimately show ?case by simp
qed simp

declare member_loop.simps [simp del]

definition find_member :: "str \<Rightarrow> nat \<Rightarrow> str \<Rightarrow> no_member + nat" where
  "find_member s obj_start key =
     (if byte_at s obj_start \<noteq> Some 123 then Inl MemberNotFound
      else member_loop s key (skip_ws s (obj_start + 1)) None)"

section \<open>The marker and the span it stands in\<close>

definition status_key :: str where
  "status_key = quoted (lit ''statusMessage'')"

definition status_prefix :: str where
  "status_prefix = 34 # lit ''memgarden: ''"

definition find_key :: "str \<Rightarrow> nat \<Rightarrow> nat option" where
  "find_key s start = find (\<lambda>i. take (length status_key) (drop i s) = status_key) [start..<length s]"

definition marked_at :: "str \<Rightarrow> nat \<Rightarrow> bool" where
  "marked_at s rel =
     (let colon = skip_ws s (rel + length status_key) in
      byte_at s colon = Some 58 \<and>
      (let v = skip_ws s (colon + 1) in take (length status_prefix) (drop v s) = status_prefix))"

lemma find_key_bounds: "find_key s start = Some i \<Longrightarrow> start \<le> i \<and> i < length s"
  by (auto simp: find_key_def find_Some_iff)

function find_marker :: "str \<Rightarrow> nat \<Rightarrow> nat option" where
  "find_marker s start =
     (case find_key s start of
        None \<Rightarrow> None
      | Some rel \<Rightarrow> if marked_at s rel then Some rel else find_marker s (rel + 1))"
  by pat_completeness auto
termination
  by (relation "measure (\<lambda>(s, i). length s - i)") (auto dest: find_key_bounds)

declare find_marker.simps [simp del]

lemma find_marker_bounds: "find_marker s start = Some m \<Longrightarrow> start \<le> m \<and> m < length s"
proof (induction s start rule: find_marker.induct)
  case (1 s start)
  show ?case
  proof (cases "find_key s start")
    case None
    with 1(2) show ?thesis by (subst (asm) find_marker.simps) simp
  next
    case (Some k)
    with 1(2) have r: "(if marked_at s k then Some k else find_marker s (k + 1)) = Some m"
      by (subst (asm) find_marker.simps) simp
    have k: "start \<le> k" "k < length s" using find_key_bounds [OF Some] by simp_all
    show ?thesis
    proof (cases "marked_at s k")
      case True
      with r k show ?thesis by simp
    next
      case False
      with r have "find_marker s (k + 1) = Some m" by simp
      from 1(1) [OF Some False this] k show ?thesis by simp
    qed
  qed
qed

lemma find_in_set: "find P xs = Some x \<Longrightarrow> x \<in> set xs"
  by (auto simp: find_Some_iff in_set_conv_nth)

text \<open>\<open>rposition\<close> of a line feed before \<open>i\<close>.\<close>

definition last_newline :: "str \<Rightarrow> nat \<Rightarrow> nat option" where
  "last_newline s i = find (\<lambda>k. s ! k = 10) (rev [0..<min i (length s)])"

definition command_key :: str where
  "command_key = quoted (lit ''command'') @ [58]"

definition chunk_end :: "str \<Rightarrow> nat \<Rightarrow> nat option" where
  "chunk_end s start =
     (let value_at =
        (if byte_at s start = Some 34
         then (case skip_string s start of
                 None \<Rightarrow> None
               | Some k \<Rightarrow> (let c = skip_ws s k in if byte_at s c \<noteq> Some 58 then None else Some (skip_ws s (c + 1))))
         else Some start)
      in case value_at of
           None \<Rightarrow> None
         | Some i \<Rightarrow> map_option (\<lambda>e. if byte_at s e = Some 44 then e + 1 else e) (skip_value s i))"

definition ours :: "str \<Rightarrow> nat \<Rightarrow> bool" where
  "ours s line_start =
     (case byte_at s line_start of
        None \<Rightarrow> False
      | Some c \<Rightarrow>
          c = 123 \<or>
          c = 34 \<and> (case skip_string s line_start of
             None \<Rightarrow> False
           | Some key_end \<Rightarrow>
               (let key = take (key_end - 1 - (line_start + 1)) (drop (line_start + 1) s)
                in key = lit ''hooks'' \<or> list_ex (\<lambda>e. en_event e = key) entries)))"

definition chunk_span :: "str \<Rightarrow> nat \<Rightarrow> (nat \<times> nat) option" where
  "chunk_span s marker =
     (case last_newline s marker of
        None \<Rightarrow> None
      | Some newline \<Rightarrow>
          (let line_start = skip_ws_inline s (newline + 1);
               start = (if 0 < newline \<and> s ! (newline - 1) = 13 then newline - 1 else newline) in
           if \<not> ours s line_start then None
           else (case chunk_end s line_start of
                   None \<Rightarrow> None
                 | Some e \<Rightarrow>
                     if \<not> (line_start \<le> marker \<and> marker < e) then None
                     else if length (filter (\<lambda>i. take (length command_key) (drop i s) = command_key \<and> i + length command_key \<le> e)
                                       [line_start..<e]) \<noteq> 1 then None
                     else Some (start, e))))"

lemma chunk_span_bounds: "chunk_span s m = Some (a, e) \<Longrightarrow> a < e \<and> m < e \<and> a < length s"
proof -
  assume c: "chunk_span s m = Some (a, e)"
  then obtain newline where n: "last_newline s m = Some newline" "m < e" "a \<le> newline"
    by (auto simp: chunk_span_def Let_def split: option.splits if_splits)
  then have "newline < m \<and> newline < length s"
    using find_in_set by (fastforce simp: last_newline_def)
  with n show ?thesis by simp
qed

section \<open>Which hooks a document has\<close>

text \<open>\<open>groups\<close>: the hook objects of an event.\<close>

definition groups :: "json \<Rightarrow> str \<Rightarrow> json list" where
  "groups doc event =
     (case Option.bind (Option.bind (jget doc (lit ''hooks'')) (\<lambda>h. jget h event)) as_array of
        None \<Rightarrow> []
      | Some gs \<Rightarrow> concat (List.map_filter (\<lambda>g. Option.bind (jget g (lit ''hooks'')) as_array) gs))"

definition is_memgarden :: "json \<Rightarrow> bool" where
  "is_memgarden hook = (case get_str hook (lit ''statusMessage'') of Some s \<Rightarrow> starts_with (lit ''memgarden: '') s | None \<Rightarrow> False)"

definition hook_sub :: "json \<Rightarrow> str option" where
  "hook_sub hook =
     Option.bind (Option.bind (jget hook (lit ''args'')) as_array)
       (\<lambda>a. if 1 < length a then as_str (a ! 1) else None)"

definition wired_events :: "json \<Rightarrow> str list" where
  "wired_events doc =
     map en_event (filter (\<lambda>e. list_ex (\<lambda>h. is_memgarden h \<and> hook_sub h = Some (en_sub e)) (groups doc (en_event e))) entries)"

definition wired_command :: "json \<Rightarrow> str \<Rightarrow> str option" where
  "wired_command doc event =
     Option.bind (find is_memgarden (groups doc event)) (\<lambda>h. get_str h (lit ''command''))"

definition legacy_commands :: "json \<Rightarrow> str \<Rightarrow> str list" where
  "legacy_commands doc event =
     filter (\<lambda>c. contains (lit ''hindsight'') (to_ascii_lowercase c))
       (List.map_filter (\<lambda>h. get_str h (lit ''command'')) (groups doc event))"

section \<open>Installing\<close>

definition trailing_comma :: "str \<Rightarrow> nat \<Rightarrow> str" where
  "trailing_comma s opening =
     (case byte_at s (skip_ws s (opening + 1)) of
        None \<Rightarrow> []
      | Some c \<Rightarrow> if c = 125 \<or> c = 93 then [] else [44])"

definition inner_indent :: "str \<Rightarrow> nat \<Rightarrow> str" where
  "inner_indent s after_open =
     (let i = skip_while inline_ws s after_open;
          fallback =
            (let line_start = (case last_newline s after_open of Some p \<Rightarrow> p + 1 | None \<Rightarrow> 0);
                 k = skip_while inline_ws s line_start
             in take (k - line_start) (drop line_start s) @ [32, 32])
      in if byte_at s i = Some 10
         then (let start = i + 1; j = skip_while inline_ws s start
               in if start < j then take (j - start) (drop start s) else fallback)
         else fallback)"

definition insertion :: "str \<Rightarrow> json \<Rightarrow> str \<Rightarrow> str \<Rightarrow> settings_error + nat \<times> str" where
  "insertion s doc event line =
     (let root = skip_ws s 0 in
      case jget doc (lit ''hooks'') of
        None \<Rightarrow> Inr (root + 1, quoted (lit ''hooks'') @ lit '': {'' @ quoted event @ lit '': ['' @ line @ lit '']}'' @ trailing_comma s root)
      | Some hooks \<Rightarrow>
          (if \<not> is_object hooks then Inl (SWrongType (lit ''hooks''))
           else (case find_member s root (lit ''hooks'') of
             Inl e \<Rightarrow> Inl (no_member_at e (lit ''hooks''))
           | Inr hooks_at \<Rightarrow>
               (case jget hooks event of
                  None \<Rightarrow> Inr (hooks_at + 1, quoted event @ lit '': ['' @ line @ lit '']'' @ trailing_comma s hooks_at)
                | Some arr \<Rightarrow>
                    (if \<not> is_array arr then Inl (SWrongType event)
                     else (case find_member s hooks_at event of
                       Inl e \<Rightarrow> Inl (no_member_at e event)
                     | Inr event_at \<Rightarrow> Inr (event_at + 1, line @ trailing_comma s event_at)))))))"

definition install_one ::
  "(str \<Rightarrow> json option) \<Rightarrow> (str \<Rightarrow> str) \<Rightarrow> str \<Rightarrow> hook_entry \<Rightarrow> splice \<Rightarrow> settings_error + splice" where
  "install_one parse ser bin e sp =
     (case parse (sp_text sp) of
        None \<Rightarrow> Inl SParse
      | Some doc \<Rightarrow>
          (case insertion (sp_text sp) doc (en_event e) (group_line ser e bin) of
             Inl err \<Rightarrow> Inl err
           | Inr (pos, chunk) \<Rightarrow>
               (let indent = inner_indent (sp_text sp) pos;
                    newline = (if contains [13, 10] (sp_text sp) then [13, 10] else [10])
                in Inr \<lparr>sp_text = take pos (sp_text sp) @ newline @ indent @ chunk @ drop pos (sp_text sp),
                         sp_changed = sp_changed sp @ [indent @ chunk]\<rparr>)))"

fun install_all ::
  "(str \<Rightarrow> json option) \<Rightarrow> (str \<Rightarrow> str) \<Rightarrow> str \<Rightarrow> hook_entry list \<Rightarrow> splice \<Rightarrow> settings_error + splice" where
  "install_all parse ser bin [] sp = Inr sp"
| "install_all parse ser bin (e # es) sp =
     (case install_one parse ser bin e sp of Inl err \<Rightarrow> Inl err | Inr sp' \<Rightarrow> install_all parse ser bin es sp')"

definition validate :: "(str \<Rightarrow> json option) \<Rightarrow> splice \<Rightarrow> settings_error + splice" where
  "validate parse sp = (if parse (sp_text sp) = None then Inl SWouldCorrupt else Inr sp)"

definition install :: "(str \<Rightarrow> json option) \<Rightarrow> (str \<Rightarrow> str) \<Rightarrow> str \<Rightarrow> str \<Rightarrow> settings_error + splice" where
  "install parse ser src bin =
     (case parse src of
        None \<Rightarrow> Inl SParse
      | Some doc \<Rightarrow>
          (if \<not> is_object doc then Inl SNotAnObject
           else (case install_all parse ser bin (filter (\<lambda>e. en_event e \<notin> set (wired_events doc)) entries)
                        \<lparr>sp_text = src, sp_changed = []\<rparr> of
                   Inl err \<Rightarrow> Inl err
                 | Inr sp \<Rightarrow> if sp_changed sp = [] then Inr \<lparr>sp_text = src, sp_changed = []\<rparr> else validate parse sp)))"

section \<open>Uninstalling\<close>

function remove_markers :: "splice \<Rightarrow> nat \<Rightarrow> splice" where
  "remove_markers sp start =
     (case find_marker (sp_text sp) start of
        None \<Rightarrow> sp
      | Some m \<Rightarrow>
          (case chunk_span (sp_text sp) m of
             None \<Rightarrow> remove_markers sp (m + 1)
           | Some (a, e) \<Rightarrow>
               remove_markers
                 \<lparr>sp_text = take a (sp_text sp) @ drop e (sp_text sp),
                  sp_changed = sp_changed sp @ [trim_start (take (e - a) (drop a (sp_text sp)))]\<rparr> 0))"
  by pat_completeness auto
termination
  by (relation "measures [\<lambda>(sp, _). length (sp_text sp), \<lambda>(sp, i). length (sp_text sp) - i]")
    (auto dest: find_marker_bounds chunk_span_bounds)

declare remove_markers.simps [simp del]

definition uninstall :: "(str \<Rightarrow> json option) \<Rightarrow> str \<Rightarrow> settings_error + splice" where
  "uninstall parse src =
     (if parse src = None then Inl SParse
      else (let sp = remove_markers \<lparr>sp_text = src, sp_changed = []\<rparr> 0;
                residual = (case parse (sp_text sp) of Some doc \<Rightarrow> length (wired_events doc) | None \<Rightarrow> 0)
            in if 0 < residual then Inl (SResidual residual)
               else if sp_changed sp = [] then Inr \<lparr>sp_text = src, sp_changed = []\<rparr>
               else validate parse sp))"

end
