(* ===== verification/Json_Text.thy ===== *)
theory Json_Text
  imports Settings_Splice
begin

text \<open>
  JSON as RFC 8259 writes it, by concrete syntax trees: a tree has a text and a value. It is what the
  results of \<open>crates/memgarden-cli/src/settings.rs\<close> are stated against, whose own code only scans bytes. What an escaped
  string body and a number denote is left to the parameters \<open>un\<close> and \<open>num\<close>. The lemmas show that the
  byte scanners of Settings_Splice skip exactly the texts of the grammar, and that the grammar is
  unambiguous.
\<close>

section \<open>Syntax trees\<close>

datatype cst =
    CStr str
  | CScal str
  | CArr str "celem list"
  | CObj str "cmem list"
and celem = Elem str cst str
and cmem = Mem str str str str cst str

fun commas :: "str list \<Rightarrow> str" where
  "commas [] = []"
| "commas [t] = t"
| "commas (t # u # ts) = t @ 44 # commas (u # ts)"

primrec cst_text :: "cst \<Rightarrow> str" and elem_text :: "celem \<Rightarrow> str" and mem_text :: "cmem \<Rightarrow> str" where
  "cst_text (CStr b) = 34 # b @ [34]"
| "cst_text (CScal t) = t"
| "cst_text (CArr w es) = 91 # (if es = [] then w else commas (map elem_text es)) @ [93]"
| "cst_text (CObj w ms) = 123 # (if ms = [] then w else commas (map mem_text ms)) @ [125]"
| "elem_text (Elem w1 c w2) = w1 @ cst_text c @ w2"
| "mem_text (Mem w1 k w2 w3 c w4) = w1 @ 34 # k @ 34 # w2 @ 58 # w3 @ cst_text c @ w4"

text \<open>The last of several members with one key counts in \<open>serde_json\<close>; texts of the grammar have none such.\<close>

definition obj_of :: "(str \<times> json) list \<Rightarrow> (str \<times> json) list" where
  "obj_of kvs = foldr (\<lambda>(k, v). obj_insert k v) kvs []"

definition scalar_val :: "(str \<Rightarrow> jnum option) \<Rightarrow> str \<Rightarrow> json option" where
  "scalar_val num t =
     (if t = lit ''null'' then Some JNull
      else if t = lit ''true'' then Some (JBool True)
      else if t = lit ''false'' then Some (JBool False)
      else map_option JNum (num t))"

primrec cst_val :: "(str \<Rightarrow> str option) \<Rightarrow> (str \<Rightarrow> jnum option) \<Rightarrow> cst \<Rightarrow> json"
  and elem_val :: "(str \<Rightarrow> str option) \<Rightarrow> (str \<Rightarrow> jnum option) \<Rightarrow> celem \<Rightarrow> json"
  and mem_val :: "(str \<Rightarrow> str option) \<Rightarrow> (str \<Rightarrow> jnum option) \<Rightarrow> cmem \<Rightarrow> str \<times> json" where
  "cst_val un num (CStr b) = JStr (the (un b))"
| "cst_val un num (CScal t) = the (scalar_val num t)"
| "cst_val un num (CArr w es) = JArr (map (elem_val un num) es)"
| "cst_val un num (CObj w ms) = JObj (obj_of (map (mem_val un num) ms))"
| "elem_val un num (Elem w1 c w2) = cst_val un num c"
| "mem_val un num (Mem w1 k w2 w3 c w4) = (the (un k), cst_val un num c)"

fun mem_key :: "cmem \<Rightarrow> str" where
  "mem_key (Mem w1 k w2 w3 c w4) = k"

definition json_ws :: "str \<Rightarrow> bool" where
  "json_ws w \<longleftrightarrow> list_all (\<lambda>c. c = 32 \<or> c = 9 \<or> c = 10 \<or> c = 13) w"

primrec cst_ok :: "(str \<Rightarrow> str option) \<Rightarrow> (str \<Rightarrow> jnum option) \<Rightarrow> cst \<Rightarrow> bool"
  and elem_ok :: "(str \<Rightarrow> str option) \<Rightarrow> (str \<Rightarrow> jnum option) \<Rightarrow> celem \<Rightarrow> bool"
  and mem_ok :: "(str \<Rightarrow> str option) \<Rightarrow> (str \<Rightarrow> jnum option) \<Rightarrow> cmem \<Rightarrow> bool" where
  "cst_ok un num (CStr b) = (un b \<noteq> None)"
| "cst_ok un num (CScal t) = (scalar_val num t \<noteq> None)"
| "cst_ok un num (CArr w es) = (json_ws w \<and> list_all (elem_ok un num) es)"
| "cst_ok un num (CObj w ms) =
     (json_ws w \<and> list_all (mem_ok un num) ms \<and> distinct (map (\<lambda>m. the (un (mem_key m))) ms))"
| "elem_ok un num (Elem w1 c w2) = (json_ws w1 \<and> cst_ok un num c \<and> json_ws w2)"
| "mem_ok un num (Mem w1 k w2 w3 c w4) =
     (json_ws w1 \<and> un k \<noteq> None \<and> json_ws w2 \<and> json_ws w3 \<and> cst_ok un num c \<and> json_ws w4)"

text \<open>\<open>serde_json\<close> refuses a text nested more than 127 deep.\<close>

primrec cst_depth :: "cst \<Rightarrow> nat" and elem_depth :: "celem \<Rightarrow> nat" and mem_depth :: "cmem \<Rightarrow> nat" where
  "cst_depth (CStr b) = 0"
| "cst_depth (CScal t) = 0"
| "cst_depth (CArr w es) = Suc (foldr max (map elem_depth es) 0)"
| "cst_depth (CObj w ms) = Suc (foldr max (map mem_depth ms) 0)"
| "elem_depth (Elem w1 c w2) = cst_depth c"
| "mem_depth (Mem w1 k w2 w3 c w4) = cst_depth c"

definition json_doc :: "(str \<Rightarrow> str option) \<Rightarrow> (str \<Rightarrow> jnum option) \<Rightarrow> str \<Rightarrow> json \<Rightarrow> bool" where
  "json_doc un num t v \<longleftrightarrow>
     (\<exists>w1 c w2. t = w1 @ cst_text c @ w2 \<and> json_ws w1 \<and> json_ws w2 \<and> cst_ok un num c \<and> cst_depth c \<le> 127
        \<and> v = cst_val un num c)"

section \<open>What the parameters satisfy\<close>

text \<open>A string body as the grammar has it: no bare quote, no control byte, no lone backslash at the end.\<close>

fun str_body :: "str \<Rightarrow> bool" where
  "str_body [] = True"
| "str_body (c # cs) =
     (if c = 92 then (case cs of [] \<Rightarrow> False | x # ds \<Rightarrow> 32 \<le> x \<and> str_body ds)
      else 32 \<le> c \<and> c \<noteq> 34 \<and> str_body cs)"

definition plain :: "str \<Rightarrow> bool" where
  "plain b \<longleftrightarrow> list_all (\<lambda>c. 32 \<le> c \<and> c < 127 \<and> c \<noteq> 34 \<and> c \<noteq> 92) b"

definition number_byte :: "nat \<Rightarrow> bool" where
  "number_byte c \<longleftrightarrow> is_ascii_digit c \<or> c = 45 \<or> c = 43 \<or> c = 46 \<or> c = 101 \<or> c = 69"

definition syntax_laws :: "(str \<Rightarrow> str option) \<Rightarrow> (str \<Rightarrow> jnum option) \<Rightarrow> bool" where
  "syntax_laws un num \<longleftrightarrow>
     (\<forall>b s. un b = Some s \<longrightarrow> str_body b) \<and> (\<forall>b. plain b \<longrightarrow> un b = Some b)
     \<and> (\<forall>t n. num t = Some n \<longrightarrow> t \<noteq> [] \<and> list_all number_byte t) \<and> (\<forall>n. num (nat_str n) = Some (NInt (int n)))"

lemma syntax_lawsD:
  assumes "syntax_laws un num"
  shows "un b \<noteq> None \<Longrightarrow> str_body b" "plain b \<Longrightarrow> un b = Some b"
    "num t = Some n \<Longrightarrow> t \<noteq> [] \<and> list_all number_byte t" "num (nat_str k) = Some (NInt (int k))"
  using assms by (auto simp: syntax_laws_def)

section \<open>The scanners on texts of the grammar\<close>

lemma str_len_body: "str_body b \<Longrightarrow> str_len (b @ 34 # r) = Some (length b + 1)"
  by (induction b rule: str_body.induct) (auto split: if_splits list.splits)

lemma plain_body: "plain b \<Longrightarrow> str_body b"
  by (induction b) (auto simp: plain_def)

lemma json_ws_Nil [simp]: "json_ws []"
  by (simp add: json_ws_def)

lemma json_ws_append [simp]: "json_ws (a @ b) \<longleftrightarrow> json_ws a \<and> json_ws b"
  by (simp add: json_ws_def)

lemma json_ws_ascii: "json_ws w \<Longrightarrow> c \<in> set w \<Longrightarrow> ascii_ws c"
  by (auto simp: json_ws_def list_all_iff ascii_ws_def)

text \<open>A byte that starts a value, a key or a separator is no white space.\<close>

definition solid :: "str \<Rightarrow> bool" where
  "solid t \<longleftrightarrow> t \<noteq> [] \<and> \<not> ascii_ws (hd t)"

lemma solid_Cons [simp]: "solid (c # t) \<longleftrightarrow> \<not> ascii_ws c"
  by (simp add: solid_def)

lemma solid_append: "solid t \<Longrightarrow> solid (t @ r)"
  by (simp add: solid_def)

lemma ws_take: "json_ws w \<Longrightarrow> \<not> ascii_ws c \<Longrightarrow> takeWhile ascii_ws (w @ c # r) = w \<and> dropWhile ascii_ws (w @ c # r) = c # r"
  by (simp add: json_ws_ascii takeWhile_append2 dropWhile_append2)

lemma scalar_word:
  assumes "syntax_laws un num" "scalar_val num t = Some v"
  shows "t \<noteq> [] \<and> list_all (\<lambda>c. scalar_byte c \<and> c \<noteq> 34 \<and> c \<noteq> 123 \<and> c \<noteq> 91 \<and> c \<noteq> 58) t"
proof -
  have "list_all number_byte t \<and> t \<noteq> []" if "num t = Some n" for n
    using syntax_lawsD(3) [OF assms(1) that] by simp
  moreover have "number_byte c \<Longrightarrow> scalar_byte c \<and> c \<noteq> 34 \<and> c \<noteq> 123 \<and> c \<noteq> 91 \<and> c \<noteq> 58" for c
    by (auto simp: number_byte_def scalar_byte_def ascii_ws_def is_ascii_digit_def)
  ultimately show ?thesis
    using assms(2) by (auto simp: scalar_val_def scalar_byte_def ascii_ws_def list_all_iff split: if_splits)
qed

text \<open>\<open>passes t\<close>: \<open>skip_container\<close> crosses \<open>t\<close> and is at the same depth behind it.\<close>

definition passes :: "str \<Rightarrow> bool" where
  "passes t \<longleftrightarrow> (\<forall>d r. 0 < d \<longrightarrow> cont_len d (t @ r) = map_option ((+) (length t)) (cont_len d r))"

lemma passesD: "passes t \<Longrightarrow> 0 < d \<Longrightarrow> cont_len d (t @ r) = map_option ((+) (length t)) (cont_len d r)"
  by (simp add: passes_def)

lemma plus_fun [simp]:
  "(\<lambda>x. a + (b + x)) = (+) (a + b)" "(\<lambda>x. Suc (a + x)) = (+) (Suc a)" "(\<lambda>x. Suc (Suc (a + x))) = (+) (Suc (Suc a))"
  for a b :: nat
  by (simp_all add: fun_eq_iff)

lemma map_option_plus_0 [simp]: "map_option ((+) (0::nat)) x = x"
  by (cases x) simp_all

lemma passes_Nil [simp]: "passes []"
  by (simp add: passes_def)

lemma passes_append: "passes a \<Longrightarrow> passes b \<Longrightarrow> passes (a @ b)"
  by (simp add: passes_def option.map_comp comp_def add.assoc)

definition inert :: "nat \<Rightarrow> bool" where
  "inert c \<longleftrightarrow> c \<noteq> 34 \<and> c \<noteq> 123 \<and> c \<noteq> 91 \<and> c \<noteq> 125 \<and> c \<noteq> 93"

lemma passes_inert: "list_all inert t \<Longrightarrow> passes t"
proof (induction t)
  case (Cons c t)
  then have "passes t" "inert c" by simp_all
  then show ?case by (simp add: passes_def inert_def option.map_comp comp_def)
qed simp

lemma passes_byte: "inert c \<Longrightarrow> passes t \<Longrightarrow> passes (c # t)"
  using passes_append [of "[c]" t] passes_inert [of "[c]"] by simp

lemma passes_string: "str_body b \<Longrightarrow> passes (34 # b @ [34])"
  by (simp add: passes_def str_len_body option.map_comp comp_def)

lemma passes_string_then: "str_body b \<Longrightarrow> passes t \<Longrightarrow> passes (34 # b @ 34 # t)"
  using passes_append [OF passes_string] by simp

lemma passes_container:
  "passes t \<Longrightarrow> a = 123 \<and> z = 125 \<or> a = 91 \<and> z = 93 \<Longrightarrow> passes (a # t @ [z])"
  by (auto simp: passes_def option.map_comp comp_def)

lemma passes_ws: "json_ws w \<Longrightarrow> passes w"
  by (rule passes_inert) (auto simp: json_ws_def inert_def list_all_iff)

lemma passes_commas: "(\<And>t. t \<in> set ts \<Longrightarrow> passes t) \<Longrightarrow> passes (commas ts)"
proof (induction ts rule: commas.induct)
  case (3 t u ts)
  then have "passes (44 # commas (u # ts))" by (simp add: passes_byte inert_def)
  with 3 show ?case by (simp add: passes_append)
qed auto

lemma text_passes:
  assumes "syntax_laws un num"
  shows "cst_ok un num c \<Longrightarrow> passes (cst_text c)"
    and "elem_ok un num e \<Longrightarrow> passes (elem_text e)"
    and "mem_ok un num m \<Longrightarrow> passes (mem_text m)"
proof (induction c and e and m)
  case (CStr b)
  then show ?case using syntax_lawsD(1) [OF assms] by (simp add: passes_string)
next
  case (CScal t)
  then have "list_all inert t"
    using scalar_word [OF assms] by (auto simp: list_all_iff inert_def scalar_byte_def)
  then show ?case by (simp add: passes_inert)
next
  case (CArr w es)
  then have "passes (if es = [] then w else commas (map elem_text es))"
    by (auto simp: passes_ws list_all_iff intro!: passes_commas)
  then show ?case by (simp add: passes_container)
next
  case (CObj w ms)
  then have "passes (if ms = [] then w else commas (map mem_text ms))"
    by (auto simp: passes_ws list_all_iff intro!: passes_commas)
  then show ?case by (simp add: passes_container)
next
  case (Mem w1 k w2 w3 c w4)
  then have "str_body k" using syntax_lawsD(1) [OF assms] by simp
  with Mem show ?case
    by (simp add: passes_append passes_ws passes_string_then passes_byte inert_def)
qed (simp_all add: passes_append passes_ws)

text \<open>What may follow a value: nothing, white space, a comma or a closing bracket.\<close>

definition ends_value :: "str \<Rightarrow> bool" where
  "ends_value r \<longleftrightarrow> r = [] \<or> \<not> scalar_byte (hd r)"

lemma cont_len_closed:
  "passes t \<Longrightarrow> a = 123 \<and> z = 125 \<or> a = 91 \<and> z = 93 \<Longrightarrow> cont_len 0 (a # t @ z # r) = Some (length t + 2)"
  using passesD [of t 1 "z # r"] by auto

lemma text_solid:
  assumes "syntax_laws un num" "cst_ok un num c"
  shows "solid (cst_text c)"
proof (cases c)
  case (CScal t)
  then obtain v where "scalar_val num t = Some v" using assms(2) by auto
  with CScal scalar_word [OF assms(1)] show ?thesis
    by (cases t) (fastforce simp: scalar_byte_def)+
qed (simp_all add: ascii_ws_def)

lemma val_len_text:
  assumes "syntax_laws un num" "cst_ok un num c" "ends_value r"
  shows "val_len (cst_text c @ r) = Some (length (cst_text c))"
proof -
  obtain a l where "cst_text c = a # l" "\<not> ascii_ws a"
    using text_solid [OF assms(1,2)] by (metis solid_def list.collapse)
  then have ws: "dropWhile ascii_ws (cst_text c @ r) = cst_text c @ r" "takeWhile ascii_ws (cst_text c @ r) = []"
    by simp_all
  show ?thesis
  proof (cases c)
    case (CStr b)
    then have "str_body b" using assms(2) syntax_lawsD(1) [OF assms(1)] by simp
    with CStr ws show ?thesis by (simp add: val_len_def str_len_body)
  next
    case (CScal t)
    then obtain v where v: "scalar_val num t = Some v" using assms(2) by auto
    note w = scalar_word [OF assms(1) v]
    obtain a b where t: "t = a # b" using w by (cases t) auto
    have k: "takeWhile scalar_byte (t @ r) = t"
      using w assms(3) by (cases r) (auto simp: ends_value_def list_all_iff takeWhile_append)
    have a: "a \<noteq> 34" "a \<noteq> 123" "a \<noteq> 91" using w t by simp_all
    have ws': "dropWhile ascii_ws (t @ r) = a # b @ r" "takeWhile ascii_ws (t @ r) = []"
      using ws CScal t by simp_all
    have k': "takeWhile scalar_byte (a # b @ r) = t" using k t by simp
    from a show ?thesis
      by (simp only: CScal cst_text.simps val_len_def ws' list.case if_False k' Let_def)
        (use t in simp)
  next
    case (CArr w es)
    then have "passes (if es = [] then w else commas (map elem_text es))"
      using assms(2) text_passes(2) [OF assms(1)] by (auto simp: passes_ws list_all_iff intro!: passes_commas)
    from cont_len_closed [OF this, of 91 93 r] CArr ws show ?thesis by (simp add: val_len_def)
  next
    case (CObj w ms)
    then have "passes (if ms = [] then w else commas (map mem_text ms))"
      using assms(2) text_passes(3) [OF assms(1)] by (auto simp: passes_ws list_all_iff intro!: passes_commas)
    from cont_len_closed [OF this, of 123 125 r] CObj ws show ?thesis by (simp add: val_len_def)
  qed
qed

section \<open>Members\<close>

lemma drop_step: "drop i s = a @ b \<Longrightarrow> drop (i + length a) s = b"
  by (metis add.commute append_eq_conv_conj drop_drop)

lemma drop_byte: "drop i s = c # r \<Longrightarrow> drop (i + 1) s = r"
  using drop_step [of i s "[c]" r] by simp

lemma byte_at_drop: "drop i s = c # r \<Longrightarrow> byte_at s i = Some c"
  by (metis byte_at_def drop_all leI list.distinct(1) nth_via_drop)

lemma skip_ws_drop: "drop i s = w @ c # r \<Longrightarrow> json_ws w \<Longrightarrow> \<not> ascii_ws c \<Longrightarrow> skip_ws s i = i + length w"
  by (simp add: skip_ws_len ws_take)

lemma skip_ws_drop_solid: "drop i s = w @ t @ r \<Longrightarrow> json_ws w \<Longrightarrow> solid t \<Longrightarrow> skip_ws s i = i + length w"
  by (cases t) (simp_all add: solid_def skip_ws_drop)

lemma skip_string_drop:
  "drop i s = 34 # b @ 34 # r \<Longrightarrow> str_body b \<Longrightarrow> skip_string s i = Some (i + length b + 2)"
  using byte_at_drop [of i s] drop_byte [of i s] by (simp add: skip_string_def string_end_len str_len_body)

lemma skip_value_drop:
  assumes "syntax_laws un num" "cst_ok un num c" "drop i s = cst_text c @ r" "ends_value r"
  shows "skip_value s i = Some (i + length (cst_text c))"
  using assms val_len_text [OF assms(1,2,4)] by (simp add: skip_value_len)

lemma ends_value_ws: "json_ws w \<Longrightarrow> ends_value r \<Longrightarrow> ends_value (w @ r)"
  by (cases w) (auto simp: ends_value_def json_ws_def scalar_byte_def ascii_ws_def)

lemma ends_value_byte [simp]: "c = 44 \<or> c = 125 \<or> c = 93 \<Longrightarrow> ends_value (c # r)"
  by (auto simp: ends_value_def scalar_byte_def)

text \<open>One turn of the loop of \<open>find_member\<close>.\<close>

lemma member_step:
  assumes "syntax_laws un num" "mem_ok un num (Mem w1 k w2 w3 c w4)"
    and d: "drop i s = 34 # k @ 34 # w2 @ 58 # w3 @ cst_text c @ w4 @ x # r" and x: "x = 44 \<or> x = 125"
    and v: "v = i + length k + 2 + length w2 + 1 + length w3"
  shows "member_loop s key i found =
     (if k = key \<and> found \<noteq> None then Inl MemberDuplicate
      else if x = 44 then member_loop s key (skip_ws s (v + length (cst_text c) + length w4 + 1)) (if k = key then Some v else found)
      else found_or (if k = key then Some v else found))"
proof -
  have ok: "un k \<noteq> None" "json_ws w2" "json_ws w3" "cst_ok un num c" "json_ws w4"
    using assms(2) by simp_all
  have k: "str_body k" using ok(1) syntax_lawsD(1) [OF assms(1)] by simp
  have s0: "byte_at s i = Some 34" using byte_at_drop [OF d] .
  have s1: "skip_string s i = Some (i + length k + 2)" using skip_string_drop [OF d k] .
  have t1: "take (i + length k + 2 - 1 - (i + 1)) (drop (i + 1) s) = k" using drop_byte [OF d] by simp
  have d2: "drop (i + length k + 2) s = w2 @ 58 # w3 @ cst_text c @ w4 @ x # r"
    using drop_step [of i s "34 # k @ [34]"] d by simp
  have s2: "skip_ws s (i + length k + 2) = i + length k + 2 + length w2"
    using skip_ws_drop [OF d2 ok(2)] by (simp add: ascii_ws_def)
  have d3: "drop (i + length k + 2 + length w2) s = 58 # w3 @ cst_text c @ w4 @ x # r" by (rule drop_step [OF d2])
  have s3: "byte_at s (i + length k + 2 + length w2) = Some 58" by (rule byte_at_drop [OF d3])
  have s4: "skip_ws s (i + length k + 2 + length w2 + 1) = v"
    using skip_ws_drop_solid [OF drop_byte [OF d3] ok(3) text_solid [OF assms(1) ok(4)]] v by simp
  have d4: "drop v s = cst_text c @ w4 @ x # r" using drop_step [OF drop_byte [OF d3]] v by simp
  have s5: "skip_value s v = Some (v + length (cst_text c))"
    by (rule skip_value_drop [OF assms(1) ok(4) d4 ends_value_ws [OF ok(5)]]) (use x in auto)
  have nx: "\<not> ascii_ws x" using x by (auto simp: ascii_ws_def)
  have s6: "skip_ws s (v + length (cst_text c)) = v + length (cst_text c) + length w4"
    by (rule skip_ws_drop [OF drop_step [OF d4] ok(5) nx])
  have s7: "byte_at s (v + length (cst_text c) + length w4) = Some x"
    by (rule byte_at_drop [OF drop_step [OF drop_step [OF d4]]])
  show ?thesis
    by (subst member_loop.simps) (simp only: s0 s1 t1 s2 s3 s4 s5 s6 s7 Let_def option.case, use x in auto)
qed

text \<open>What the loop computes, on the tree: the position of the value of the one member with the raw key.\<close>

fun locate :: "str \<Rightarrow> nat \<Rightarrow> nat option \<Rightarrow> cmem list \<Rightarrow> no_member + nat" where
  "locate key p found [] = found_or found"
| "locate key p found (Mem w1 k w2 w3 c w4 # ms) =
     (if k = key \<and> found \<noteq> None then Inl MemberDuplicate
      else locate key (p + length (mem_text (Mem w1 k w2 w3 c w4)) + 1)
             (if k = key then Some (p + length w1 + length k + 2 + length w2 + 1 + length w3) else found) ms)"

lemma member_loop_locate:
  assumes "syntax_laws un num"
  shows "list_all (mem_ok un num) ms \<Longrightarrow> ms \<noteq> [] \<Longrightarrow> drop p s = commas (map mem_text ms) @ 125 # r
    \<Longrightarrow> member_loop s key (skip_ws s p) found = locate key p found ms"
proof (induction ms arbitrary: p found)
  case (Cons m ms)
  obtain w1 k w2 w3 c w4 where m: "m = Mem w1 k w2 w3 c w4" by (cases m)
  have ok: "mem_ok un num (Mem w1 k w2 w3 c w4)" "json_ws w1" using Cons.prems(1) m by simp_all
  define rest where "rest = (if ms = [] then 125 # r else 44 # commas (map mem_text ms) @ 125 # r)"
  obtain x y where x: "rest = x # y" "x = 44 \<or> x = 125" by (cases "ms = []") (auto simp: rest_def)
  have d: "drop p s = w1 @ 34 # k @ 34 # w2 @ 58 # w3 @ cst_text c @ w4 @ rest"
    using Cons.prems(3) m by (cases ms) (simp_all add: rest_def)
  have i: "skip_ws s p = p + length w1" using skip_ws_drop [OF d ok(2)] by (simp add: ascii_ws_def)
  define v where "v = p + length w1 + length k + 2 + length w2 + 1 + length w3"
  note step = member_step [OF assms ok(1) drop_step [OF d, unfolded x(1)] x(2) v_def, of key found]
  show ?case
  proof (cases ms)
    case Nil
    then have "x = 125" using x by (simp add: rest_def)
    with step Nil show ?thesis by (cases found) (simp_all add: m i v_def)
  next
    case (Cons m' ms')
    then have x44: "x = 44" "y = commas (map mem_text ms) @ 125 # r" using x by (simp_all add: rest_def)
    let ?q = "p + length (mem_text m) + 1"
    have q: "?q = v + length (cst_text c) + length w4 + 1" by (simp add: m v_def)
    have "drop ?q s = commas (map mem_text ms) @ 125 # r"
      using drop_step [of p s "mem_text m @ [44]" y] d x x44 m by simp
    then have "member_loop s key (skip_ws s ?q) f = locate key ?q f ms" for f
      using Cons.IH [of ?q f] Cons.prems(1) Cons by simp
    with step x44(1) have "member_loop s key (skip_ws s p) found =
        (if k = key \<and> found \<noteq> None then Inl MemberDuplicate
         else locate key ?q (if k = key then Some v else found) ms)"
      by (simp only: i q if_True refl)
    then show ?thesis by (simp only: m locate.simps v_def)
  qed
qed simp

lemma commas_split: "commas (xs @ t # ys) = concat (map (\<lambda>u. u @ [44]) xs) @ t @ concat (map ((#) 44) ys)"
proof (induction xs)
  case Nil
  show ?case by (induction ys arbitrary: t) simp_all
next
  case (Cons x xs)
  then show ?case by (cases "xs @ t # ys") simp_all
qed

definition before :: "cmem list \<Rightarrow> str" where
  "before xs = concat (map (\<lambda>m. mem_text m @ [44]) xs)"

definition after :: "cmem list \<Rightarrow> str" where
  "after ys = concat (map (\<lambda>m. 44 # mem_text m) ys)"

lemma members_text: "commas (map mem_text (xs @ m # ys)) = before xs @ mem_text m @ after ys"
  using commas_split [of "map mem_text xs" "mem_text m" "map mem_text ys"]
  by (simp add: before_def after_def comp_def)

lemma before_Cons [simp]: "before (m # xs) = mem_text m @ 44 # before xs"
  by (simp add: before_def)

lemma before_Nil [simp]: "before [] = []"
  by (simp add: before_def)

lemma locate_Inr:
  assumes "locate key p found ms = Inr q"
  shows "found = Some q \<and> key \<notin> set (map mem_key ms) \<or>
    found = None \<and> (\<exists>xs w1 w2 w3 c w4 ys. ms = xs @ Mem w1 key w2 w3 c w4 # ys \<and>
      q = p + length (before xs) + length w1 + length key + 2 + length w2 + 1 + length w3)"
  using assms
proof (induction key p found ms rule: locate.induct)
  case (1 key p found)
  then show ?case by (cases found) (simp_all add: found_or_def)
next
  case (2 key p found w1 k w2 w3 c w4 ms)
  let ?m = "Mem w1 k w2 w3 c w4"
  show ?case
  proof (cases "k = key")
    case True
    with 2(2) have n: "found = None" by (simp split: if_splits)
    with 2 True have "q = p + length w1 + length k + 2 + length w2 + 1 + length w3" by auto
    with n True have "?m # ms = [] @ Mem w1 key w2 w3 c w4 # ms \<and>
      q = p + length (before []) + length w1 + length key + 2 + length w2 + 1 + length w3" by simp
    with n show ?thesis by blast
  next
    case False
    with 2(2) have l: "locate key (p + length (mem_text ?m) + 1) found ms = Inr q" by simp
    from 2(1) False l consider (f) "found = Some q" "key \<notin> set (map mem_key ms)"
      | (n) xs u1 u2 u3 d u4 ys where "found = None" "ms = xs @ Mem u1 key u2 u3 d u4 # ys"
          "q = p + length (mem_text ?m) + 1 + length (before xs) + length u1 + length key + 2 + length u2 + 1 + length u3"
      by fastforce
    then show ?thesis
    proof cases
      case f
      with False show ?thesis by simp
    next
      case n
      then have "?m # ms = (?m # xs) @ Mem u1 key u2 u3 d u4 # ys \<and>
        q = p + length (before (?m # xs)) + length u1 + length key + 2 + length u2 + 1 + length u3" by simp
      with n(1) show ?thesis by blast
    qed
  qed
qed

lemma locate_Inl:
  assumes "locate key p found ms = Inl e" "distinct (map mem_key ms)"
  shows "(e = MemberDuplicate \<longrightarrow> found \<noteq> None) \<and> (found = None \<longrightarrow> key \<notin> set (map mem_key ms))"
  using assms
proof (induction key p found ms rule: locate.induct)
  case (1 key p found)
  then show ?case by (cases found) (auto simp: found_or_def)
next
  case (2 key p found w1 k w2 w3 c w4 ms)
  show ?case
  proof (cases "k = key")
    case True
    show ?thesis
    proof (cases found)
      case None
      with 2(2) True have l: "locate key (p + length (mem_text (Mem w1 k w2 w3 c w4)) + 1)
          (Some (p + length w1 + length k + 2 + length w2 + 1 + length w3)) ms = Inl e" by simp
      have "locate key p' (Some q) ms' = Inl e' \<Longrightarrow> key \<in> set (map mem_key ms')" for p' q ms' e'
      proof (induction ms' arbitrary: p')
        case (Cons m ms')
        then show ?case by (cases m) (auto split: if_splits)
      qed (simp add: found_or_def)
      from this [OF l] 2(3) True show ?thesis by simp
    qed simp
  next
    case False
    with 2 show ?thesis by auto
  qed
qed

text \<open>\<open>find_member\<close> on the text of an object: the tree around the value it points at.\<close>

lemma find_member_locate:
  assumes "syntax_laws un num" "cst_ok un num (CObj w ms)" "drop i s = cst_text (CObj w ms) @ r"
  shows "find_member s i key = locate key (i + 1) None ms"
proof -
  have b: "byte_at s i = Some 123" "drop (i + 1) s = (if ms = [] then w else commas (map mem_text ms)) @ 125 # r"
    using byte_at_drop [of i s 123] drop_byte [of i s 123] assms(3) by simp_all
  show ?thesis
  proof (cases ms)
    case Nil
    with b have d: "drop (i + 1) s = w @ 125 # r" by simp
    have "json_ws w" using assms(2) by simp
    with skip_ws_drop [OF d] have k: "skip_ws s (i + 1) = i + 1 + length w" by (simp add: ascii_ws_def)
    have "byte_at s (i + 1 + length w) = Some 125" by (rule byte_at_drop [OF drop_step [OF d]])
    with Nil b(1) k show ?thesis by (simp add: find_member_def member_loop.simps [of s key "Suc (i + length w)"])
  next
    case (Cons m ms')
    with b have "drop (i + 1) s = commas (map mem_text ms) @ 125 # r" by simp
    from member_loop_locate [OF assms(1) _ _ this] assms(2) Cons b(1) show ?thesis by (simp add: find_member_def)
  qed
qed

lemma find_member_value:
  assumes "syntax_laws un num" "cst_ok un num (CObj w ms)" "drop i s = cst_text (CObj w ms) @ r"
    and "find_member s i key = Inr q"
  obtains xs w1 w2 w3 c w4 ys A B where "ms = xs @ Mem w1 key w2 w3 c w4 # ys" "q = i + length A"
    "\<And>c'. cst_text (CObj w (xs @ Mem w1 key w2 w3 c' w4 # ys)) = A @ cst_text c' @ B"
proof -
  have "locate key (i + 1) None ms = Inr q" using assms(4) find_member_locate [OF assms(1-3), of key] by simp
  from locate_Inr [OF this] obtain xs w1 w2 w3 c w4 ys where m: "ms = xs @ Mem w1 key w2 w3 c w4 # ys"
    "q = i + 1 + length (before xs) + length w1 + length key + 2 + length w2 + 1 + length w3" by blast
  let ?A = "123 # before xs @ w1 @ 34 # key @ 34 # w2 @ 58 # w3"
  have "q = i + length ?A" using m(2) by simp
  moreover have "cst_text (CObj w (xs @ Mem w1 key w2 w3 c' w4 # ys)) = ?A @ cst_text c' @ w4 @ after ys @ [125]" for c'
    using members_text [of xs "Mem w1 key w2 w3 c' w4" ys] by simp
  ultimately show ?thesis using that m(1) by blast
qed

section \<open>The grammar is unambiguous\<close>

definition sep :: "str \<Rightarrow> bool" where
  "sep r \<longleftrightarrow> r \<noteq> [] \<and> (hd r = 44 \<or> hd r = 93 \<or> hd r = 125)"

lemma sep_Cons [simp]: "sep (c # r) \<longleftrightarrow> c = 44 \<or> c = 93 \<or> c = 125"
  by (simp add: sep_def)

lemma sep_Nil [simp]: "\<not> sep []"
  by (simp add: sep_def)

lemma sep_ends: "sep r \<Longrightarrow> json_ws w \<Longrightarrow> ends_value (w @ r)"
  by (cases r) (auto simp: intro!: ends_value_ws)

lemma sep_solid: "sep r \<Longrightarrow> solid r"
  by (cases r) (auto simp: ascii_ws_def)

lemma ws_cut:
  assumes "w @ t = w' @ t'" "json_ws w" "json_ws w'" "solid t" "solid t'"
  shows "w = w' \<and> t = t'"
proof -
  obtain a b a' b' where t: "t = a # b" "t' = a' # b'" "\<not> ascii_ws a" "\<not> ascii_ws a'"
    using assms(4,5) by (metis list.collapse solid_def)
  with ws_take [OF assms(2)] ws_take [OF assms(3)] assms(1) show ?thesis by metis
qed

lemma commas_unique:
  assumes step: "\<And>x y r r'. x \<in> set xs \<Longrightarrow> Q y \<Longrightarrow> sep r \<Longrightarrow> sep r' \<Longrightarrow> tx x @ r = tx y @ r' \<Longrightarrow> r = r' \<and> f x = f y"
    and "list_all Q ys" "commas (map tx xs) @ z # r = commas (map tx ys) @ z # r'" "z = 93 \<or> z = 125" "xs \<noteq> []" "ys \<noteq> []"
  shows "map f xs = map f ys"
  using assms
proof (induction xs arbitrary: ys)
  case (Cons x xs)
  obtain y ys' where y: "ys = y # ys'" using Cons.prems(6) by (cases ys) auto
  define R where "R xs r = (if xs = [] then z # r else 44 # commas (map tx xs) @ z # r)" for xs r
  have R: "sep (R xs r)" for xs r using Cons.prems(4) by (auto simp: R_def)
  have c: "commas (map tx (x # xs)) @ z # r = tx x @ R xs r" for x xs r
    by (cases xs) (simp_all add: R_def)
  have "R xs r = R ys' r' \<and> f x = f y"
    using Cons.prems(1) [of x y "R xs r" "R ys' r'"] Cons.prems(2,3) R y by (simp only: c) simp
  moreover have "map f xs = map f ys'" if "R xs r = R ys' r'"
  proof (cases "xs = []")
    case True
    with that Cons.prems(4) show ?thesis by (auto simp: R_def split: if_splits)
  next
    case False
    with that Cons.prems(4) have "ys' \<noteq> []" "commas (map tx xs) @ z # r = commas (map tx ys') @ z # r'"
      by (auto simp: R_def split: if_splits)
    moreover have "list_all Q ys'" using Cons.prems(2) y by simp
    ultimately show ?thesis using Cons.prems(1,4) False by (intro Cons.IH) (auto simp del: append.simps)
  qed
  ultimately show ?case using y by simp
qed simp

lemma text_cut:
  assumes "syntax_laws un num" "cst_ok un num c" "cst_ok un num c'" "cst_text c @ r = cst_text c' @ r'"
    and "ends_value r" "ends_value r'"
  shows "cst_text c = cst_text c' \<and> r = r'"
proof -
  have "length (cst_text c) = length (cst_text c')"
    using val_len_text [OF assms(1,2,5)] val_len_text [OF assms(1,3,6)] assms(4) by simp
  with assms(4) show ?thesis by simp
qed

lemma body_cut:
  assumes "str_body b" "str_body b'" "b @ 34 # r = b' @ 34 # r'"
  shows "b = b' \<and> r = r'"
proof -
  have "length b = length b'"
    using str_len_body [OF assms(1), of r] str_len_body [OF assms(2), of r'] assms(3) by simp
  with assms(3) show ?thesis by simp
qed

lemma empty_or_items:
  assumes "json_ws w" "z = 93 \<or> z = 125" "t \<noteq> []" "w' @ t @ y = w @ z # r" "json_ws w'" "solid t" "hd t \<noteq> z"
  shows False
  using ws_cut [of w' "t @ y" w "z # r"] assms by (cases t) (auto simp: ascii_ws_def solid_append)

lemma elem_text_solid:
  assumes "syntax_laws un num" "list_all (elem_ok un num) es" "es \<noteq> []" "json_ws w"
  shows "commas (map elem_text es) @ 93 # r \<noteq> w @ 93 # r'"
proof
  assume e: "commas (map elem_text es) @ 93 # r = w @ 93 # r'"
  obtain w1 c w2 es' where es: "es = Elem w1 c w2 # es'" using assms(3) by (metis celem.exhaust neq_Nil_conv)
  with assms(2) have ok: "json_ws w1" "cst_ok un num c" by simp_all
  have ex: "\<exists>y. commas (map elem_text es) @ 93 # r = w1 @ cst_text c @ y"
    using es by (cases es') simp_all
  have h: "hd (cst_text c) \<noteq> 93"
  proof (cases c)
    case (CScal t)
    with ok obtain v where "scalar_val num t = Some v" by auto
    from scalar_word [OF assms(1) this] CScal show ?thesis by (cases t) (auto simp: scalar_byte_def)
  qed simp_all
  from ex e obtain y where "w1 @ cst_text c @ y = w @ 93 # r'" by auto
  from empty_or_items [OF assms(4) _ _ this ok(1) text_solid [OF assms(1) ok(2)] h] text_solid [OF assms(1) ok(2)]
  show False by (simp add: solid_def)
qed

lemma mem_text_solid:
  assumes "list_all (mem_ok un num) ms" "ms \<noteq> []" "json_ws w"
  shows "commas (map mem_text ms) @ 125 # r \<noteq> w @ 125 # r'"
proof
  assume e: "commas (map mem_text ms) @ 125 # r = w @ 125 # r'"
  obtain w1 k w2 w3 c w4 ms' where ms: "ms = Mem w1 k w2 w3 c w4 # ms'" using assms(2) by (metis cmem.exhaust neq_Nil_conv)
  have "\<exists>y. commas (map mem_text ms) @ 125 # r = w1 @ [34] @ y" using ms by (cases ms') simp_all
  with e obtain y where y: "w1 @ [34] @ y = w @ 125 # r'" by auto
  have "json_ws w1" using ms assms(1) by simp
  from empty_or_items [OF assms(3) _ _ y this] show False by (simp add: ascii_ws_def)
qed

lemma scalar_head:
  assumes "syntax_laws un num" "cst_ok un num (CScal t)"
  shows "hd t \<noteq> 34 \<and> hd t \<noteq> 91 \<and> hd t \<noteq> 123 \<and> t \<noteq> []"
proof -
  obtain v where "scalar_val num t = Some v" using assms(2) by auto
  from scalar_word [OF assms(1) this] show ?thesis by (cases t) auto
qed

lemma same_kind:
  assumes "syntax_laws un num" "cst_ok un num c" "cst_ok un num c'" "cst_text c = cst_text c'"
  shows "(\<exists>b b'. c = CStr b \<and> c' = CStr b') \<or> (\<exists>t. c = CScal t \<and> c' = CScal t)
    \<or> (\<exists>w es w' es'. c = CArr w es \<and> c' = CArr w' es') \<or> (\<exists>w ms w' ms'. c = CObj w ms \<and> c' = CObj w' ms')"
proof -
  have s: "\<And>t. c = CScal t \<Longrightarrow> hd t \<noteq> 34 \<and> hd t \<noteq> 91 \<and> hd t \<noteq> 123 \<and> t \<noteq> []"
    "\<And>t. c' = CScal t \<Longrightarrow> hd t \<noteq> 34 \<and> hd t \<noteq> 91 \<and> hd t \<noteq> 123 \<and> t \<noteq> []"
    using scalar_head [OF assms(1)] assms(2,3) by blast+
  show ?thesis
  proof (cases c)
    case (CStr b) with s assms(4) show ?thesis by (cases c') (auto simp: Cons_eq_append_conv)
  next
    case (CScal t) with s assms(4) show ?thesis by (cases c') auto
  next
    case (CArr w es) with s assms(4) show ?thesis by (cases c') (auto simp del: map_is_Nil_conv)
  next
    case (CObj w ms) with s assms(4) show ?thesis by (cases c') (auto simp del: map_is_Nil_conv)
  qed
qed

lemma value_unique:
  assumes L: "syntax_laws un num"
  shows "cst_ok un num c \<Longrightarrow> cst_ok un num c' \<Longrightarrow> cst_text c = cst_text c' \<Longrightarrow> cst_val un num c = cst_val un num c'"
    and "elem_ok un num e \<Longrightarrow> elem_ok un num e' \<Longrightarrow> sep r \<Longrightarrow> sep r' \<Longrightarrow> elem_text e @ r = elem_text e' @ r'
      \<Longrightarrow> r = r' \<and> elem_val un num e = elem_val un num e'"
    and "mem_ok un num m \<Longrightarrow> mem_ok un num m' \<Longrightarrow> sep r \<Longrightarrow> sep r' \<Longrightarrow> mem_text m @ r = mem_text m' @ r'
      \<Longrightarrow> r = r' \<and> mem_val un num m = mem_val un num m'"
proof (induction c and e and m arbitrary: c' and e' r r' and m' r r')
  case (CStr b)
  with same_kind [OF L CStr] show ?case by auto
next
  case (CScal t)
  with same_kind [OF L CScal] show ?case by auto
next
  case (CArr w es)
  from same_kind [OF L CArr(2-4)] obtain w' es' where c': "c' = CArr w' es'" by auto
  have ok: "list_all (elem_ok un num) es" "list_all (elem_ok un num) es'" "json_ws w" "json_ws w'"
    using CArr.prems c' by simp_all
  note e = CArr.prems(3) [unfolded c', simplified]
  consider "es = []" "es' = []" | "es \<noteq> []" "es' \<noteq> []" | "es = []" "es' \<noteq> []" | "es \<noteq> []" "es' = []" by blast
  then show ?case
  proof cases
    case 2
    with e have t: "commas (map elem_text es) @ 93 # [] = commas (map elem_text es') @ 93 # []" by simp
    have "map (elem_val un num) es = map (elem_val un num) es'"
      by (rule commas_unique [where Q = "elem_ok un num", OF _ ok(2) t _ 2])
        (use CArr.IH ok(1) in \<open>auto simp: list_all_iff\<close>)
    then show ?thesis by (simp add: c')
  next
    case 3
    with e have "commas (map elem_text es') @ 93 # [] = w @ 93 # []" by simp
    with elem_text_solid [OF L ok(2) 3(2) ok(3)] show ?thesis by blast
  next
    case 4
    with e have "commas (map elem_text es) @ 93 # [] = w' @ 93 # []" by simp
    with elem_text_solid [OF L ok(1) 4(1) ok(4)] show ?thesis by blast
  qed (simp add: c')
next
  case (CObj w ms)
  from same_kind [OF L CObj(2-4)] obtain w' ms' where c': "c' = CObj w' ms'" by auto
  have ok: "list_all (mem_ok un num) ms" "list_all (mem_ok un num) ms'" "json_ws w" "json_ws w'"
    using CObj.prems c' by simp_all
  note e = CObj.prems(3) [unfolded c', simplified]
  consider "ms = []" "ms' = []" | "ms \<noteq> []" "ms' \<noteq> []" | "ms = []" "ms' \<noteq> []" | "ms \<noteq> []" "ms' = []" by blast
  then show ?case
  proof cases
    case 2
    with e have t: "commas (map mem_text ms) @ 125 # [] = commas (map mem_text ms') @ 125 # []" by simp
    have "map (mem_val un num) ms = map (mem_val un num) ms'"
      by (rule commas_unique [where Q = "mem_ok un num", OF _ ok(2) t _ 2])
        (use CObj.IH ok(1) in \<open>auto simp: list_all_iff\<close>)
    then show ?thesis by (simp add: c')
  next
    case 3
    with e have "commas (map mem_text ms') @ 125 # [] = w @ 125 # []" by simp
    with mem_text_solid [OF ok(2) 3(2) ok(3)] show ?thesis by blast
  next
    case 4
    with e have "commas (map mem_text ms) @ 125 # [] = w' @ 125 # []" by simp
    with mem_text_solid [OF ok(1) 4(1) ok(4)] show ?thesis by blast
  qed (simp add: c')
next
  case (Elem w1 c w2)
  obtain v1 d v2 where e': "e' = Elem v1 d v2" by (cases e')
  have ok: "json_ws w1" "cst_ok un num c" "json_ws w2" "json_ws v1" "cst_ok un num d" "json_ws v2"
    using Elem.prems(1,2) e' by simp_all
  have "w1 @ (cst_text c @ w2 @ r) = v1 @ (cst_text d @ v2 @ r')" using Elem.prems(5) e' by simp
  from ws_cut [OF this ok(1,4) solid_append [OF text_solid [OF L ok(2)]] solid_append [OF text_solid [OF L ok(5)]]]
  have "cst_text c @ w2 @ r = cst_text d @ v2 @ r'" by simp
  from text_cut [OF L ok(2,5) this sep_ends [OF Elem.prems(3) ok(3)] sep_ends [OF Elem.prems(4) ok(6)]]
  have t: "cst_text c = cst_text d" "w2 @ r = v2 @ r'" by simp_all
  from ws_cut [OF t(2) ok(3,6) sep_solid [OF Elem.prems(3)] sep_solid [OF Elem.prems(4)]] Elem.IH [OF ok(2,5) t(1)] e'
  show ?case by simp
next
  case (Mem w1 k w2 w3 c w4)
  obtain v1 l v2 v3 d v4 where m': "m' = Mem v1 l v2 v3 d v4" by (cases m')
  have ok: "json_ws w1" "un k \<noteq> None" "json_ws w2" "json_ws w3" "cst_ok un num c" "json_ws w4"
    "json_ws v1" "un l \<noteq> None" "json_ws v2" "json_ws v3" "cst_ok un num d" "json_ws v4"
    using Mem.prems(1,2) m' by simp_all
  have "w1 @ (34 # k @ 34 # w2 @ 58 # w3 @ cst_text c @ w4 @ r) = v1 @ (34 # l @ 34 # v2 @ 58 # v3 @ cst_text d @ v4 @ r')"
    using Mem.prems(5) m' by simp
  from ws_cut [OF this ok(1,7)] have "k @ 34 # w2 @ 58 # w3 @ cst_text c @ w4 @ r = l @ 34 # v2 @ 58 # v3 @ cst_text d @ v4 @ r'"
    by (simp add: ascii_ws_def)
  from body_cut [OF _ _ this] ok(2,8) syntax_lawsD(1) [OF L]
  have k: "k = l" "w2 @ 58 # w3 @ cst_text c @ w4 @ r = v2 @ 58 # v3 @ cst_text d @ v4 @ r'" by simp_all
  from ws_cut [OF k(2) ok(3,9)] have "w3 @ cst_text c @ w4 @ r = v3 @ cst_text d @ v4 @ r'" by (simp add: ascii_ws_def)
  from ws_cut [OF this ok(4,10) solid_append [OF text_solid [OF L ok(5)]] solid_append [OF text_solid [OF L ok(11)]]]
  have "cst_text c @ w4 @ r = cst_text d @ v4 @ r'" by simp
  from text_cut [OF L ok(5,11) this sep_ends [OF Mem.prems(3) ok(6)] sep_ends [OF Mem.prems(4) ok(12)]]
  have t: "cst_text c = cst_text d" "w4 @ r = v4 @ r'" by simp_all
  from ws_cut [OF t(2) ok(6,12) sep_solid [OF Mem.prems(3)] sep_solid [OF Mem.prems(4)]] Mem.IH [OF ok(5,11) t(1)] k(1) m'
  show ?case by simp
qed

lemma json_doc_unique:
  assumes "syntax_laws un num" "json_doc un num t v" "json_doc un num t v'"
  shows "v = v'"
proof -
  obtain w1 c w2 where c: "t = w1 @ cst_text c @ w2" "json_ws w1" "json_ws w2" "cst_ok un num c" "v = cst_val un num c"
    using assms(2) by (auto simp: json_doc_def)
  obtain u1 d u2 where d: "t = u1 @ cst_text d @ u2" "json_ws u1" "json_ws u2" "cst_ok un num d" "v' = cst_val un num d"
    using assms(3) by (auto simp: json_doc_def)
  note s = text_solid [OF assms(1) c(4)] text_solid [OF assms(1) d(4)]
  have "w1 @ (cst_text c @ w2) = u1 @ (cst_text d @ u2)" using c(1) d(1) by simp
  from ws_cut [OF this c(2) d(2) solid_append [OF s(1)] solid_append [OF s(2)]]
  have e: "cst_text c @ w2 = cst_text d @ u2" by simp
  have "ends_value w" if "json_ws w" for w
    using ends_value_ws [OF that, of "[]"] by (simp add: ends_value_def)
  from text_cut [OF assms(1) c(4) d(4) e this [OF c(3)] this [OF d(3)]] value_unique(1) [OF assms(1) c(4) d(4)] c(5) d(5)
  show ?thesis by simp
qed

end
