(* ===== verification/Settings_Install.thy ===== *)
theory Settings_Install
  imports Json_Text
begin

text \<open>
  What \<open>settings::install\<close> does to the document its text denotes: the splice of bytes refines the
  insertion of one hook group at the front of an event's array, with the arrays and objects missing on
  the way created.
\<close>

section \<open>Objects\<close>

lemma obj_ext:
  assumes "obj_wf m" "obj_wf m'" "map_of m = map_of m'"
  shows "m = m'"
proof -
  have "set (map fst m) = dom (map_of m)" "set (map fst m') = dom (map_of m')" by (simp_all add: dom_map_of_conv_image_fst)
  with assms have k: "map fst m = map fst m'"
    using strict_sorted_equal [of "map fst m" "map fst m'"] by (simp add: obj_wf_def)
  have "m = map (\<lambda>k. (k, the (map_of m k))) (map fst m)" if "distinct (map fst m)" for m :: "(str \<times> json) list"
    using map_of_is_SomeI [OF that] by (force simp: comp_def intro!: map_idI [symmetric])
  moreover have "distinct (map fst m)" "distinct (map fst m')"
    using assms(1,2) strict_sorted_iff by (auto simp: obj_wf_def)
  ultimately show ?thesis using k assms(3) by metis
qed

lemma obj_of_wf: "obj_wf (obj_of kvs)"
  by (induction kvs) (auto simp: obj_of_def obj_insert_wf, simp add: obj_wf_def)

lemma obj_of_Cons [simp]: "obj_of ((k, v) # kvs) = obj_insert k v (obj_of kvs)"
  by (simp add: obj_of_def)

lemma map_of_obj_of [simp]: "map_of (obj_of kvs) = map_of kvs"
proof (induction kvs)
  case (Cons p kvs)
  then show ?case by (cases p) simp
qed (simp add: obj_of_def)

lemma obj_of_replace:
  assumes "k \<notin> fst ` set xs"
  shows "obj_of (xs @ (k, v') # ys) = obj_insert k v' (obj_of (xs @ (k, v) # ys))"
proof (rule obj_ext)
  have "k \<notin> dom (map_of xs)" using assms by (simp add: dom_map_of_conv_image_fst)
  then show "map_of (obj_of (xs @ (k, v') # ys)) = map_of (obj_insert k v' (obj_of (xs @ (k, v) # ys)))"
    by (auto simp: fun_eq_iff map_add_def split: option.splits)
qed (simp_all add: obj_of_wf obj_insert_wf)

section \<open>The document after an installation\<close>

definition hook_json :: "str \<Rightarrow> hook_entry \<Rightarrow> json" where
  "hook_json cmd e =
     JObj (obj_of ([(lit ''type'', JStr (lit ''command'')), (lit ''command'', JStr cmd),
       (lit ''args'', JArr [JStr (lit ''hook''), JStr (en_sub e)]), (lit ''timeout'', JNum (NInt (int (en_timeout e))))]
       @ (if en_async e then [(lit ''async'', JBool True)] else [])
       @ [(lit ''statusMessage'', JStr (en_status e))]))"

definition group_json :: "str \<Rightarrow> hook_entry \<Rightarrow> json" where
  "group_json cmd e = JObj [(lit ''hooks'', JArr [hook_json cmd e])]"

definition members_or_none :: "json option \<Rightarrow> (str \<times> json) list" where
  "members_or_none v = (case Option.bind v as_object of Some m \<Rightarrow> m | None \<Rightarrow> [])"

definition elements_or_none :: "json option \<Rightarrow> json list" where
  "elements_or_none v = (case Option.bind v as_array of Some xs \<Rightarrow> xs | None \<Rightarrow> [])"

definition wire_event :: "str \<Rightarrow> json \<Rightarrow> json \<Rightarrow> json" where
  "wire_event event grp doc =
     (let m = members_or_none (Some doc); hooks = members_or_none (map_of m (lit ''hooks''))
      in JObj (obj_insert (lit ''hooks'') (JObj (obj_insert event (JArr (grp # elements_or_none (map_of hooks event))) hooks)) m))"

definition wire_doc :: "str \<Rightarrow> hook_entry list \<Rightarrow> json \<Rightarrow> json" where
  "wire_doc cmd es doc = fold (\<lambda>e. wire_event (en_event e) (group_json cmd e)) es doc"

definition missing :: "json \<Rightarrow> hook_entry list" where
  "missing doc = filter (\<lambda>e. en_event e \<notin> set (wired_events doc)) entries"

section \<open>The inserted text as a tree\<close>

definition field :: "string \<Rightarrow> cst \<Rightarrow> cmem" where
  "field k c = Mem [] (lit k) [] [] c []"

definition hook_cst :: "str \<Rightarrow> hook_entry \<Rightarrow> cst" where
  "hook_cst body e =
     CObj [] ([field ''type'' (CStr (lit ''command'')), field ''command'' (CStr body),
       field ''args'' (CArr [] [Elem [] (CStr (lit ''hook'')) [], Elem [] (CStr (en_sub e)) []]),
       field ''timeout'' (CScal (nat_str (en_timeout e)))]
       @ (if en_async e then [field ''async'' (CScal (lit ''true''))] else [])
       @ [field ''statusMessage'' (CStr (en_status e))])"

definition group_cst :: "str \<Rightarrow> hook_entry \<Rightarrow> cst" where
  "group_cst body e = CObj [] [field ''hooks'' (CArr [] [Elem [] (hook_cst body e) []])]"

definition entry_ok :: "hook_entry \<Rightarrow> bool" where
  "entry_ok e \<longleftrightarrow> plain (en_event e) \<and> plain (en_sub e) \<and> plain (en_status e)"

lemma entries_ok: "list_all entry_ok entries"
  by (simp add: entries_def entry_ok_def plain_def)

lemma group_line_text: "ser bin = quoted body \<Longrightarrow> group_line ser e bin = cst_text (group_cst body e)"
  by (simp add: group_line_def group_cst_def hook_cst_def field_def quoted_def)

lemma scalar_true: "scalar_val num (lit ''true'') = Some (JBool True)"
  by (simp add: scalar_val_def)

lemma scalar_nat:
  assumes "syntax_laws un num"
  shows "scalar_val num (nat_str n) = Some (JNum (NInt (int n)))"
proof -
  have "list_all (\<lambda>c. c \<le> 57) (nat_str n)" using nat_str_digits by (auto simp: list_all_iff)
  then have "nat_str n \<noteq> lit ''null''" "nat_str n \<noteq> lit ''true''" "nat_str n \<noteq> lit ''false''"
    by auto
  then show ?thesis using syntax_lawsD(4) [OF assms] by (simp add: scalar_val_def del: lit_Cons)
qed

lemma group_cst_ok:
  assumes L: "syntax_laws un num" and b: "un body = Some cmd" and e: "entry_ok e"
  shows "cst_ok un num (group_cst body e)" "cst_val un num (group_cst body e) = group_json cmd e"
    "cst_depth (group_cst body e) \<le> 4"
proof -
  have p: "un (lit k) = Some (lit k)" if "plain (lit k)" for k using syntax_lawsD(2) [OF L that] .
  have k: "un (lit ''type'') = Some (lit ''type'')" "un (lit ''command'') = Some (lit ''command'')"
    "un (lit ''args'') = Some (lit ''args'')" "un (lit ''hook'') = Some (lit ''hook'')" "un (lit ''hooks'') = Some (lit ''hooks'')"
    "un (lit ''timeout'') = Some (lit ''timeout'')" "un (lit ''async'') = Some (lit ''async'')"
    "un (lit ''statusMessage'') = Some (lit ''statusMessage'')"
    by (rule p, simp add: plain_def)+
  have s: "un (en_sub e) = Some (en_sub e)" "un (en_status e) = Some (en_status e)"
    using syntax_lawsD(2) [OF L] e by (auto simp: entry_ok_def)
  have n: "scalar_val num (nat_str t) = Some (JNum (NInt (int t)))" for t by (rule scalar_nat [OF L])
  have d: "distinct [lit ''type'', lit ''command'', lit ''args'', lit ''timeout'', lit ''async'', lit ''statusMessage'']"
    "lit ''statusMessage'' \<noteq> lit ''async''"
    by simp_all
  show "cst_ok un num (group_cst body e)"
    using d by (simp add: group_cst_def hook_cst_def field_def k s n b scalar_true del: lit_Cons)
  show "cst_val un num (group_cst body e) = group_json cmd e"
    by (simp add: group_cst_def hook_cst_def field_def group_json_def hook_json_def k s n b scalar_true del: lit_Cons)
      (simp add: obj_of_def del: lit_Cons)
  show "cst_depth (group_cst body e) \<le> 4"
    by (simp add: group_cst_def hook_cst_def field_def)
qed

section \<open>Inserting into a tree\<close>

definition trail :: "bool \<Rightarrow> str" where
  "trail fresh = (if fresh then [] else [44])"

text \<open>A member at the front of an object, an element at the front of an array.\<close>

definition put_mem :: "str \<Rightarrow> str \<Rightarrow> cst \<Rightarrow> str \<Rightarrow> cmem list \<Rightarrow> cst" where
  "put_mem ind k c w ms = CObj w (Mem ind k [] [32] c (if ms = [] then w else []) # ms)"

definition put_elem :: "str \<Rightarrow> cst \<Rightarrow> str \<Rightarrow> celem list \<Rightarrow> cst" where
  "put_elem ind c w es = CArr w (Elem ind c (if es = [] then w else []) # es)"

lemma put_mem_text:
  assumes "cst_text (CObj w ms) = 123 # t"
  shows "cst_text (put_mem ind k c w ms) = 123 # ind @ quoted k @ lit '': '' @ cst_text c @ trail (ms = []) @ t"
  using assms by (cases ms) (auto simp: put_mem_def quoted_def trail_def)

lemma put_elem_text:
  assumes "cst_text (CArr w es) = 91 # t"
  shows "cst_text (put_elem ind c w es) = 91 # ind @ cst_text c @ trail (es = []) @ t"
  using assms by (cases es) (auto simp: put_elem_def trail_def)

lemma trailing_comma_obj:
  assumes "syntax_laws un num" "cst_ok un num (CObj w ms)" "drop i s = cst_text (CObj w ms) @ r"
  shows "trailing_comma s i = trail (ms = [])"
proof -
  obtain w' c y where d: "drop (i + 1) s = w' @ c # y" "json_ws w'" "\<not> ascii_ws c" "(c = 125 \<or> c = 93) \<longleftrightarrow> ms = []"
  proof (cases ms)
    case Nil
    then show thesis using that [of w 125] assms(2) drop_byte [of i s] assms(3) by (simp add: ascii_ws_def)
  next
    case (Cons m ms')
    obtain w1 k w2 w3 c w4 where m: "m = Mem w1 k w2 w3 c w4" by (cases m)
    obtain y where "commas (map mem_text ms) = w1 @ 34 # y" using Cons m by (cases ms') auto
    with Cons m assms(2) show thesis
      using that [of w1 34] drop_byte [of i s] assms(3) by (simp add: ascii_ws_def)
  qed
  have "byte_at s (skip_ws s (i + 1)) = Some c"
    using skip_ws_drop [OF d(1-3)] byte_at_drop [OF drop_step [OF d(1)]] by simp
  with d(4) show ?thesis by (simp add: trailing_comma_def trail_def)
qed

lemma trailing_comma_arr:
  assumes "syntax_laws un num" "cst_ok un num (CArr w es)" "drop i s = cst_text (CArr w es) @ r"
  shows "trailing_comma s i = trail (es = [])"
proof -
  obtain w' c y where d: "drop (i + 1) s = w' @ c # y" "json_ws w'" "\<not> ascii_ws c" "(c = 125 \<or> c = 93) \<longleftrightarrow> es = []"
  proof (cases es)
    case Nil
    then show thesis using that [of w 93] assms(2) drop_byte [of i s] assms(3) by (simp add: ascii_ws_def)
  next
    case (Cons e es')
    obtain w1 x w2 where e: "e = Elem w1 x w2" by (cases e)
    have ok: "json_ws w1" "cst_ok un num x" using assms(2) Cons e by simp_all
    obtain a b where a: "cst_text x = a # b" "\<not> ascii_ws a"
      using text_solid [OF assms(1) ok(2)] by (metis list.collapse solid_def)
    have "a \<noteq> 125 \<and> a \<noteq> 93"
    proof (cases x)
      case (CScal t)
      with ok obtain v where "scalar_val num t = Some v" by auto
      from scalar_word [OF assms(1) this] CScal a show ?thesis by (auto simp: scalar_byte_def)
    qed (use a in auto)
    moreover obtain y where "commas (map elem_text es) = w1 @ a # y" using Cons e a by (cases es') auto
    ultimately show thesis
      using that [of w1 a] Cons ok a drop_byte [of i s] assms(3) by simp
  qed
  have "byte_at s (skip_ws s (i + 1)) = Some c"
    using skip_ws_drop [OF d(1-3)] byte_at_drop [OF drop_step [OF d(1)]] by simp
  with d(4) show ?thesis by (simp add: trailing_comma_def trail_def)
qed

lemma mem_val_fst [simp]: "fst (mem_val un num m) = the (un (mem_key m))"
  by (cases m) simp

lemma foldr_max_le: "foldr max xs 0 \<le> n \<longleftrightarrow> list_all (\<lambda>x. x \<le> n) xs" for n :: nat
  by (induction xs) auto

lemma depth_obj: "0 < n \<Longrightarrow> cst_depth (CObj w ms) \<le> n \<longleftrightarrow> list_all (\<lambda>m. mem_depth m \<le> n - 1) ms"
  by (cases n) (auto simp: foldr_max_le list_all_iff)

lemma depth_arr: "0 < n \<Longrightarrow> cst_depth (CArr w es) \<le> n \<longleftrightarrow> list_all (\<lambda>e. elem_depth e \<le> n - 1) es"
  by (cases n) (auto simp: foldr_max_le list_all_iff)

lemma obj_keys_None: "map_of (map (mem_val un num) ms) k = None \<longleftrightarrow> k \<notin> set (map (\<lambda>m. the (un (mem_key m))) ms)"
  by (simp add: map_of_eq_None_iff image_image)

lemma put_mem_ok:
  assumes "cst_ok un num (CObj w ms)" "cst_val un num (CObj w ms) = JObj m" "json_ws ind" "cst_ok un num c"
    and "un k = Some k" "map_of m k = None"
  shows "cst_ok un num (put_mem ind k c w ms) \<and> cst_val un num (put_mem ind k c w ms) = JObj (obj_insert k (cst_val un num c) m)"
proof -
  have "map_of (map (mem_val un num) ms) k = None" using assms(2,6) by auto
  then have "k \<notin> set (map (\<lambda>m. the (un (mem_key m))) ms)" by (simp only: obj_keys_None not_False_eq_True)
  with assms show ?thesis by (auto simp: put_mem_def json_ws_def)
qed

lemma put_mem_depth:
  "0 < n \<Longrightarrow> cst_depth (CObj w ms) \<le> n \<Longrightarrow> cst_depth c \<le> n - 1 \<Longrightarrow> cst_depth (put_mem ind k c w ms) \<le> n"
  by (simp only: put_mem_def depth_obj list.pred_inject(2) mem_depth.simps)

lemma put_elem_ok:
  assumes "cst_ok un num (CArr w es)" "json_ws ind" "cst_ok un num c"
  shows "cst_ok un num (put_elem ind c w es) \<and>
    cst_val un num (put_elem ind c w es) = JArr (cst_val un num c # map (elem_val un num) es)"
  using assms by (auto simp: put_elem_def)

lemma put_elem_depth:
  "0 < n \<Longrightarrow> cst_depth (CArr w es) \<le> n \<Longrightarrow> cst_depth c \<le> n - 1 \<Longrightarrow> cst_depth (put_elem ind c w es) \<le> n"
  by (simp only: put_elem_def depth_arr list.pred_inject(2) elem_depth.simps)

lemma replace_ok:
  assumes "cst_ok un num (CObj w (xs @ Mem w1 k w2 w3 c w4 # ys))" "cst_ok un num c'" "un k = Some k"
    and "cst_val un num (CObj w (xs @ Mem w1 k w2 w3 c w4 # ys)) = JObj m"
  shows "cst_ok un num (CObj w (xs @ Mem w1 k w2 w3 c' w4 # ys)) \<and> map_of m k = Some (cst_val un num c) \<and>
    cst_val un num (CObj w (xs @ Mem w1 k w2 w3 c' w4 # ys)) = JObj (obj_insert k (cst_val un num c') m)"
proof -
  have k: "k \<notin> fst ` set (map (mem_val un num) xs)" using assms(1,3) by (auto simp: image_image)
  have m: "m = obj_of (map (mem_val un num) xs @ (k, cst_val un num c) # map (mem_val un num) ys)"
    using assms(3,4) by simp
  have "map_of (map (mem_val un num) xs) k = None" using k by (simp add: map_of_eq_None_iff)
  then have "map_of m k = Some (cst_val un num c)" by (simp add: m map_add_def)
  moreover have "cst_ok un num (CObj w (xs @ Mem w1 k w2 w3 c' w4 # ys))" using assms(1,2) by simp
  moreover have "cst_val un num (CObj w (xs @ Mem w1 k w2 w3 c' w4 # ys)) = JObj (obj_insert k (cst_val un num c') m)"
    using obj_of_replace [OF k, of "cst_val un num c'" "map (mem_val un num) ys" "cst_val un num c"] assms(3)
    by (simp add: m)
  ultimately show ?thesis by blast
qed

lemma replace_depth:
  "0 < n \<Longrightarrow> cst_depth (CObj w (xs @ Mem w1 k w2 w3 c w4 # ys)) \<le> n \<Longrightarrow>
    cst_depth c \<le> n - 1 \<and> (cst_depth c' \<le> n - 1 \<longrightarrow> cst_depth (CObj w (xs @ Mem w1 k w2 w3 c' w4 # ys)) \<le> n)"
  by (simp only: depth_obj) simp

text \<open>The arrays and objects an insertion creates around a group.\<close>

definition event_arr :: "cst \<Rightarrow> cst" where
  "event_arr g = CArr [] [Elem [] g []]"

definition hooks_obj :: "str \<Rightarrow> cst \<Rightarrow> cst" where
  "hooks_obj event g = CObj [] [Mem [] event [] [32] (event_arr g) []]"

lemma event_arr_props [simp]:
  "cst_text (event_arr g) = 91 # cst_text g @ [93]" "cst_ok un num (event_arr g) = cst_ok un num g"
  "cst_val un num (event_arr g) = JArr [cst_val un num g]" "cst_depth (event_arr g) = Suc (cst_depth g)"
  by (simp_all add: event_arr_def)

lemma hooks_obj_props:
  "cst_text (hooks_obj ev g) = 123 # quoted ev @ lit '': ['' @ cst_text g @ lit '']}''"
  "un ev = Some ev \<Longrightarrow> cst_ok un num (hooks_obj ev g) = cst_ok un num g"
  "un ev = Some ev \<Longrightarrow> cst_val un num (hooks_obj ev g) = JObj [(ev, JArr [cst_val un num g])]"
  "cst_depth (hooks_obj ev g) = Suc (Suc (cst_depth g))"
  by (simp_all add: hooks_obj_def quoted_def obj_of_def json_ws_def)

lemma scalar_val_kind: "scalar_val num t = Some v \<Longrightarrow> \<not> is_object v \<and> \<not> is_array v"
  by (auto simp: scalar_val_def split: if_splits)

lemma value_obj: "cst_ok un num c \<Longrightarrow> is_object (cst_val un num c) \<Longrightarrow> \<exists>w ms. c = CObj w ms"
  by (cases c) (auto dest: scalar_val_kind)

lemma value_arr: "cst_ok un num c \<Longrightarrow> is_array (cst_val un num c) \<Longrightarrow> \<exists>w es. c = CArr w es"
  by (cases c) (auto dest: scalar_val_kind)

lemma splice_at: "s = P @ b # t \<Longrightarrow> take (length P + 1) s @ x @ drop (length P + 1) s = P @ b # x @ t"
  by simp

definition bracket_before :: "str \<Rightarrow> nat \<Rightarrow> bool" where
  "bracket_before s pos \<longleftrightarrow> (\<exists>P b t. s = P @ b # t \<and> pos = length P + 1 \<and> (b = 123 \<or> b = 91))"

lemma put_mem_splice:
  assumes L: "syntax_laws un num" and ok: "cst_ok un num (CObj w ms)" and s: "s = P @ cst_text (CObj w ms) @ R"
  shows "bracket_before s (length P + 1) \<and>
    take (length P + 1) s @ ind @ (quoted k @ lit '': '' @ cst_text c @ trailing_comma s (length P)) @ drop (length P + 1) s
      = P @ cst_text (put_mem ind k c w ms) @ R"
proof -
  obtain t where t: "cst_text (CObj w ms) = 123 # t" by simp
  have d: "drop (length P) s = cst_text (CObj w ms) @ R" using s by simp
  have e: "s = P @ 123 # (t @ R)" using s t by simp
  then have "bracket_before s (length P + 1)" unfolding bracket_before_def by blast
  with splice_at [OF e, of "ind @ quoted k @ lit '': '' @ cst_text c @ trail (ms = [])"] put_mem_text [OF t] trailing_comma_obj [OF L ok d] show ?thesis by simp
qed

lemma put_elem_splice:
  assumes L: "syntax_laws un num" and ok: "cst_ok un num (CArr w es)" and s: "s = P @ cst_text (CArr w es) @ R"
  shows "bracket_before s (length P + 1) \<and>
    take (length P + 1) s @ ind @ (cst_text c @ trailing_comma s (length P)) @ drop (length P + 1) s
      = P @ cst_text (put_elem ind c w es) @ R"
proof -
  obtain t where t: "cst_text (CArr w es) = 91 # t" by simp
  have d: "drop (length P) s = cst_text (CArr w es) @ R" using s by simp
  have e: "s = P @ 91 # (t @ R)" using s t by simp
  then have "bracket_before s (length P + 1)" unfolding bracket_before_def by blast
  with splice_at [OF e, of "ind @ cst_text c @ trail (es = [])"] put_elem_text [OF t] trailing_comma_arr [OF L ok d] show ?thesis by simp
qed

text \<open>
  The shapes the editor can work on: a member that decodes to \<open>hooks\<close> is spelled so and holds an object,
  and in it a member that decodes to one of the events is spelled so and holds an array.
\<close>

fun is_carr :: "cst \<Rightarrow> bool" where
  "is_carr (CArr w es) = True"
| "is_carr _ = False"

fun mem_cst :: "cmem \<Rightarrow> cst" where
  "mem_cst (Mem w1 k w2 w3 c w4) = c"

fun hooks_editable :: "(str \<Rightarrow> str option) \<Rightarrow> cst \<Rightarrow> bool" where
  "hooks_editable un (CObj w ms) =
     list_all (\<lambda>m. the (un (mem_key m)) \<in> set (map en_event entries) \<longrightarrow> mem_key m = the (un (mem_key m)) \<and> is_carr (mem_cst m)) ms"
| "hooks_editable un _ = False"

fun editable :: "(str \<Rightarrow> str option) \<Rightarrow> cst \<Rightarrow> bool" where
  "editable un (CObj w ms) =
     list_all (\<lambda>m. the (un (mem_key m)) = lit ''hooks'' \<longrightarrow> mem_key m = lit ''hooks'' \<and> hooks_editable un (mem_cst m)) ms"
| "editable un _ = False"

text \<open>A tree that replaces the document's: its text stands in place of the old one.\<close>

definition spliced ::
  "(str \<Rightarrow> str option) \<Rightarrow> (str \<Rightarrow> jnum option) \<Rightarrow> cst \<Rightarrow> str \<Rightarrow> str \<Rightarrow> str \<Rightarrow> str \<Rightarrow> nat \<Rightarrow> str \<Rightarrow> json \<Rightarrow> bool" where
  "spliced un num c W1 W2 s ind pos chunk v \<longleftrightarrow>
     bracket_before s pos \<and>
     (\<exists>c'. cst_ok un num c' \<and> cst_depth c' \<le> 127 \<and> take pos s @ ind @ chunk @ drop pos s = W1 @ cst_text c' @ W2
        \<and> cst_val un num c' = v \<and> (editable un c \<longrightarrow> editable un c'))"

lemma insertion_no_hooks:
  assumes L: "syntax_laws un num" and s: "s = W1 @ cst_text c @ W2" "json_ws W1" "cst_ok un num c" "cst_depth c \<le> 127"
    and v: "cst_val un num c = JObj m" "map_of m (lit ''hooks'') = None"
    and g: "plain ev" "cst_ok un num g" "cst_depth g \<le> 4" and ind: "json_ws ind"
  shows "spliced un num c W1 W2 s ind (skip_ws s 0 + 1)
    (quoted (lit ''hooks'') @ lit '': {'' @ quoted ev @ lit '': ['' @ cst_text g @ lit '']}'' @ trailing_comma s (skip_ws s 0))
    (wire_event ev (cst_val un num g) (cst_val un num c))"
proof -
  obtain w ms where c: "c = CObj w ms" using value_obj [OF s(3)] v(1) by auto
  have root: "skip_ws s 0 = length W1"
    using skip_ws_drop_solid [of 0 s W1 "cst_text c" W2] s text_solid [OF L s(3)] by simp
  have ev: "un ev = Some ev" "un (lit ''hooks'') = Some (lit ''hooks'')"
    using syntax_lawsD(2) [OF L] g(1) by (simp_all add: plain_def)
  let ?c' = "put_mem ind (lit ''hooks'') (hooks_obj ev g) w ms"
  have p: "bracket_before s (length W1 + 1) \<and>
    take (length W1 + 1) s @ ind @ (quoted (lit ''hooks'') @ lit '': '' @ cst_text (hooks_obj ev g) @ trailing_comma s (length W1))
      @ drop (length W1 + 1) s = W1 @ cst_text ?c' @ W2"
    using put_mem_splice [OF L s(3) [unfolded c]] s(1) c by blast
  have k: "cst_ok un num ?c'" "cst_val un num ?c' = JObj (obj_insert (lit ''hooks'') (cst_val un num (hooks_obj ev g)) m)"
    using put_mem_ok [OF s(3) [unfolded c] v(1) [unfolded c] ind _ ev(2) v(2)] hooks_obj_props(2) [where un = un and ev = ev, OF ev(1)] g(2) by blast+
  have d: "cst_depth ?c' \<le> 127"
    using put_mem_depth [of 127] s(4) c g(3) by (simp only: hooks_obj_props)
  have "cst_val un num ?c' = wire_event ev (cst_val un num g) (cst_val un num c)"
    using k(2) v hooks_obj_props(3) [where un = un and ev = ev, OF ev(1)] by (simp add: wire_event_def members_or_none_def elements_or_none_def del: lit_Cons)
  moreover have "editable un c \<longrightarrow> editable un ?c'"
    using ev by (simp add: c put_mem_def hooks_obj_def event_arr_def del: lit_Cons)
  ultimately show ?thesis using k(1) d p
    unfolding spliced_def root by (auto simp: hooks_obj_props(1) intro!: exI [of _ ?c'])
qed

text \<open>The value \<open>find_member\<close> points at, and the document with another tree in its place.\<close>

lemma descend:
  assumes L: "syntax_laws un num" and s: "s = P @ cst_text c @ R" "cst_ok un num c" "cst_depth c \<le> n" "0 < n"
    and v: "cst_val un num c = JObj m" "un key = Some key" and f: "find_member s (length P) key = Inr pos"
  obtains A h B K where "pos = length (P @ A)" "s = (P @ A) @ cst_text h @ (B @ R)" "cst_ok un num h"
    "map_of m key = Some (cst_val un num h)" "cst_depth h \<le> n - 1"
    "\<And>h'. cst_ok un num h' \<Longrightarrow> cst_depth h' \<le> n - 1 \<Longrightarrow> cst_ok un num (K h') \<and> cst_depth (K h') \<le> n
       \<and> cst_text (K h') = A @ cst_text h' @ B \<and> cst_val un num (K h') = JObj (obj_insert key (cst_val un num h') m)"
    "\<And>h'. key = lit ''hooks'' \<Longrightarrow> editable un c \<Longrightarrow> hooks_editable un h \<and> (hooks_editable un h' \<longrightarrow> editable un (K h'))"
    "\<And>h'. hooks_editable un c \<Longrightarrow> is_carr h' \<Longrightarrow> hooks_editable un (K h')"
proof -
  obtain w ms where c: "c = CObj w ms" using value_obj [OF s(2)] v(1) by auto
  have d0: "drop (length P) s = cst_text (CObj w ms) @ R" using s(1) c by simp
  obtain xs w1 w2 w3 h w4 ys A B where ms: "ms = xs @ Mem w1 key w2 w3 h w4 # ys" "pos = length P + length A"
    "\<And>c'. cst_text (CObj w (xs @ Mem w1 key w2 w3 c' w4 # ys)) = A @ cst_text c' @ B"
    using find_member_value [OF L s(2) [unfolded c] d0 f] by metis
  note cm = c [unfolded ms(1)]
  note r = replace_ok [OF s(2) [unfolded cm] _ v(2) v(1) [unfolded cm]]
  have h: "cst_ok un num h" using s(2) cm by simp
  have dh: "cst_depth h \<le> n - 1" using replace_depth [OF s(4) s(3) [unfolded cm]] by blast
  show thesis
  proof (rule that [of A h B "\<lambda>h'. CObj w (xs @ Mem w1 key w2 w3 h' w4 # ys)"])
    show "pos = length (P @ A)" using ms(2) by simp
    show "s = (P @ A) @ cst_text h @ (B @ R)" using s(1) cm ms(3) [of h] by simp
    show "map_of m key = Some (cst_val un num h)" using r [OF h] by blast
    fix h' assume h': "cst_ok un num h'" "cst_depth h' \<le> n - 1"
    let ?c' = "CObj w (xs @ Mem w1 key w2 w3 h' w4 # ys)"
    show "cst_ok un num ?c' \<and> cst_depth ?c' \<le> n \<and> cst_text ?c' = A @ cst_text h' @ B
        \<and> cst_val un num ?c' = JObj (obj_insert key (cst_val un num h') m)"
      using r [OF h'(1)] replace_depth [OF s(4) s(3) [unfolded cm], of h'] h'(2) ms(3) [of h'] by blast
  next
    fix h'
    let ?c' = "CObj w (xs @ Mem w1 key w2 w3 h' w4 # ys)"
    show "hooks_editable un h \<and> (hooks_editable un h' \<longrightarrow> editable un ?c')" if "key = lit ''hooks''" "editable un c"
      using that v(2) by (simp add: cm del: lit_Cons)
    show "hooks_editable un ?c'" if "hooks_editable un c" "is_carr h'"
      using that v(2) by (simp add: cm)
  qed (fact h dh)+
qed

lemma insertion_no_event:
  assumes L: "syntax_laws un num" and s: "s = W1 @ cst_text c @ W2" "json_ws W1" "cst_ok un num c" "cst_depth c \<le> 127"
    and v: "cst_val un num c = JObj m" "map_of m (lit ''hooks'') = Some (JObj hm)" "map_of hm ev = None"
    and g: "plain ev" "cst_ok un num g" "cst_depth g \<le> 4" and ind: "json_ws ind"
    and f: "find_member s (skip_ws s 0) (lit ''hooks'') = Inr pos"
  shows "spliced un num c W1 W2 s ind (pos + 1)
    (quoted ev @ lit '': ['' @ cst_text g @ lit '']'' @ trailing_comma s pos)
    (wire_event ev (cst_val un num g) (cst_val un num c))"
proof -
  have root: "skip_ws s 0 = length W1"
    using skip_ws_drop_solid [of 0 s W1 "cst_text c" W2] s text_solid [OF L s(3)] by simp
  have ev: "un ev = Some ev" "un (lit ''hooks'') = Some (lit ''hooks'')"
    using syntax_lawsD(2) [OF L] g(1) by (simp_all add: plain_def)
  obtain A h B K where a: "pos = length (W1 @ A)" "s = (W1 @ A) @ cst_text h @ (B @ W2)" "cst_ok un num h"
      "map_of m (lit ''hooks'') = Some (cst_val un num h)" "cst_depth h \<le> 127 - 1"
      "\<And>h'. cst_ok un num h' \<Longrightarrow> cst_depth h' \<le> 127 - 1 \<Longrightarrow> cst_ok un num (K h') \<and> cst_depth (K h') \<le> 127
       \<and> cst_text (K h') = A @ cst_text h' @ B \<and> cst_val un num (K h') = JObj (obj_insert (lit ''hooks'') (cst_val un num h') m)"
      "\<And>h'. editable un c \<Longrightarrow> hooks_editable un h \<and> (hooks_editable un h' \<longrightarrow> editable un (K h'))"
    using descend [OF L s(1,3,4) _ v(1) ev(2) f [unfolded root]] by (metis zero_less_numeral)
  have h: "cst_val un num h = JObj hm" using a(4) v(2) by simp
  obtain hw hms where hc: "h = CObj hw hms" using value_obj [OF a(3)] h by auto
  let ?h' = "put_mem ind ev (event_arr g) hw hms"
  have p: "bracket_before s (pos + 1) \<and>
    take (pos + 1) s @ ind @ (quoted ev @ lit '': '' @ cst_text (event_arr g) @ trailing_comma s pos) @ drop (pos + 1) s
      = (W1 @ A) @ cst_text ?h' @ (B @ W2)"
    using put_mem_splice [OF L a(3) [unfolded hc] a(2) [unfolded hc], of ind ev "event_arr g"] a(1) by blast
  have k: "cst_ok un num ?h'" "cst_val un num ?h' = JObj (obj_insert ev (JArr [cst_val un num g]) hm)"
    using put_mem_ok [OF a(3) [unfolded hc] h [unfolded hc] ind _ ev(1) v(3), of "event_arr g"] g(2) by simp_all
  have "cst_depth ?h' \<le> 127 - 1" using put_mem_depth [of 126 hw hms "event_arr g"] a(5) hc g(3) by simp
  with a(6) [OF k(1)] obtain c' where c': "cst_ok un num c'" "cst_depth c' \<le> 127" "cst_text c' = A @ cst_text ?h' @ B"
    "cst_val un num c' = JObj (obj_insert (lit ''hooks'') (cst_val un num ?h') m)" "c' = K ?h'" by blast
  have "hooks_editable un h \<longrightarrow> hooks_editable un ?h'" using ev(1) by (simp add: hc put_mem_def event_arr_def)
  then have ed: "editable un c \<longrightarrow> editable un c'" using a(7) c'(5) by blast
  have "cst_val un num c' = wire_event ev (cst_val un num g) (cst_val un num c)"
    using c'(4) k(2) v by (simp add: wire_event_def members_or_none_def elements_or_none_def del: lit_Cons)
  moreover have "take (pos + 1) s @ ind @ (quoted ev @ lit '': ['' @ cst_text g @ lit '']'' @ trailing_comma s pos) @ drop (pos + 1) s
      = W1 @ cst_text c' @ W2"
    using p c'(3) by simp
  ultimately show ?thesis using c'(1,2) p ed unfolding spliced_def by blast
qed

lemma insertion_event:
  assumes L: "syntax_laws un num" and s: "s = W1 @ cst_text c @ W2" "json_ws W1" "cst_ok un num c" "cst_depth c \<le> 127"
    and v: "cst_val un num c = JObj m" "map_of m (lit ''hooks'') = Some (JObj hm)" "map_of hm ev = Some (JArr gs)"
    and g: "plain ev" "cst_ok un num g" "cst_depth g \<le> 4" and ind: "json_ws ind"
    and f: "find_member s (skip_ws s 0) (lit ''hooks'') = Inr pos" "find_member s pos ev = Inr pos2"
  shows "spliced un num c W1 W2 s ind (pos2 + 1) (cst_text g @ trailing_comma s pos2)
    (wire_event ev (cst_val un num g) (cst_val un num c))"
proof -
  have root: "skip_ws s 0 = length W1"
    using skip_ws_drop_solid [of 0 s W1 "cst_text c" W2] s text_solid [OF L s(3)] by simp
  have ev: "un ev = Some ev" "un (lit ''hooks'') = Some (lit ''hooks'')"
    using syntax_lawsD(2) [OF L] g(1) by (simp_all add: plain_def)
  obtain A h B K where a: "pos = length (W1 @ A)" "s = (W1 @ A) @ cst_text h @ (B @ W2)" "cst_ok un num h"
      "map_of m (lit ''hooks'') = Some (cst_val un num h)" "cst_depth h \<le> 127 - 1"
      "\<And>h'. cst_ok un num h' \<Longrightarrow> cst_depth h' \<le> 127 - 1 \<Longrightarrow> cst_ok un num (K h') \<and> cst_depth (K h') \<le> 127
       \<and> cst_text (K h') = A @ cst_text h' @ B \<and> cst_val un num (K h') = JObj (obj_insert (lit ''hooks'') (cst_val un num h') m)"
      "\<And>h'. editable un c \<Longrightarrow> hooks_editable un h \<and> (hooks_editable un h' \<longrightarrow> editable un (K h'))"
    using descend [OF L s(1,3,4) _ v(1) ev(2) f(1) [unfolded root]] by (metis zero_less_numeral)
  have h: "cst_val un num h = JObj hm" using a(4) v(2) by simp
  have d126: "cst_depth h \<le> 126" using a(5) by simp
  obtain A' x B' K' where b: "pos2 = length ((W1 @ A) @ A')" "s = ((W1 @ A) @ A') @ cst_text x @ (B' @ B @ W2)" "cst_ok un num x"
      "map_of hm ev = Some (cst_val un num x)" "cst_depth x \<le> 126 - 1"
      "\<And>h'. cst_ok un num h' \<Longrightarrow> cst_depth h' \<le> 126 - 1 \<Longrightarrow> cst_ok un num (K' h') \<and> cst_depth (K' h') \<le> 126
       \<and> cst_text (K' h') = A' @ cst_text h' @ B' \<and> cst_val un num (K' h') = JObj (obj_insert ev (cst_val un num h') hm)"
      "\<And>h'. hooks_editable un h \<Longrightarrow> is_carr h' \<Longrightarrow> hooks_editable un (K' h')"
    using descend [OF L a(2,3) d126 _ h ev(1) f(2) [unfolded a(1)]] by (metis zero_less_numeral)
  have x: "cst_val un num x = JArr gs" using b(4) v(3) by simp
  obtain xw es where xc: "x = CArr xw es" using value_arr [OF b(3)] x by auto
  let ?x' = "put_elem ind g xw es"
  have p: "bracket_before s (pos2 + 1) \<and>
    take (pos2 + 1) s @ ind @ (cst_text g @ trailing_comma s pos2) @ drop (pos2 + 1) s
      = ((W1 @ A) @ A') @ cst_text ?x' @ (B' @ B @ W2)"
    using put_elem_splice [OF L b(3) [unfolded xc] b(2) [unfolded xc], of ind g] b(1) by blast
  have k: "cst_ok un num ?x'" "cst_val un num ?x' = JArr (cst_val un num g # gs)"
    using put_elem_ok [OF b(3) [unfolded xc] ind g(2)] x xc by simp_all
  have "cst_depth ?x' \<le> 126 - 1" using put_elem_depth [of 125 xw es g] b(5) xc g(3) by simp
  with b(6) [OF k(1)] obtain h' where h': "cst_ok un num h'" "cst_depth h' \<le> 126" "cst_text h' = A' @ cst_text ?x' @ B'"
    "cst_val un num h' = JObj (obj_insert ev (cst_val un num ?x') hm)" "h' = K' ?x'" by blast
  have "cst_depth h' \<le> 127 - 1" using h'(2) by simp
  with a(6) [OF h'(1)] obtain c' where c': "cst_ok un num c'" "cst_depth c' \<le> 127" "cst_text c' = A @ cst_text h' @ B"
    "cst_val un num c' = JObj (obj_insert (lit ''hooks'') (cst_val un num h') m)" "c' = K h'" by blast
  have "is_carr ?x'" by (simp add: put_elem_def)
  then have ed: "editable un c \<longrightarrow> editable un c'" using a(7) b(7) c'(5) h'(5) by blast
  have "cst_val un num c' = wire_event ev (cst_val un num g) (cst_val un num c)"
    using c'(4) h'(4) k(2) v by (simp add: wire_event_def members_or_none_def elements_or_none_def del: lit_Cons)
  moreover have "take (pos2 + 1) s @ ind @ (cst_text g @ trailing_comma s pos2) @ drop (pos2 + 1) s = W1 @ cst_text c' @ W2"
    using p c'(3) h'(3) by simp
  ultimately show ?thesis using c'(1,2) p ed unfolding spliced_def by blast
qed

section \<open>One insertion\<close>

lemma take_skipped: "take (skip_while p s i - i) (drop i s) = takeWhile p (drop i s)"
  using takeWhile_eq_take [of p "drop i s"] by (simp add: skip_while_len)

lemma inline_json_ws: "json_ws (takeWhile inline_ws l)"
  by (induction l) (auto simp: json_ws_def inline_ws_def)

lemma inner_indent_inline: "list_all inline_ws (inner_indent s pos)"
proof -
  have "list_all inline_ws (takeWhile inline_ws l)" for l by (induction l) auto
  then show ?thesis by (simp add: inner_indent_def Let_def take_skipped inline_ws_def del: One_nat_def)
qed

lemma inline_ws_json: "list_all inline_ws l \<Longrightarrow> json_ws l"
  by (auto simp: json_ws_def inline_ws_def list_all_iff)

text \<open>The errors a user can cause; \<open>install\<close> has no other on a document of the grammar.\<close>

definition shape_error :: "settings_error \<Rightarrow> bool" where
  "shape_error e \<longleftrightarrow> (\<exists>k. e = SWrongType k \<or> e = SUnlocatable k)"

lemma find_member_not_found:
  assumes L: "syntax_laws un num" and s: "s = P @ cst_text c @ R" "cst_ok un num c"
    and f: "find_member s (length P) key = Inl e"
  shows "e = MemberNotFound \<and> (\<forall>w ms. c = CObj w ms \<longrightarrow> key \<notin> set (map mem_key ms))"
proof (cases "\<exists>w ms. c = CObj w ms")
  case True
  then obtain w ms where c: "c = CObj w ms" by blast
  have d: "drop (length P) s = cst_text (CObj w ms) @ R" using s(1) c by simp
  have "distinct (map mem_key ms)" using s(2) c by (auto simp: distinct_map inj_on_def)
  with locate_Inl [of key "length P + 1" None ms e] f find_member_locate [OF L s(2) [unfolded c] d] c show ?thesis
    by (cases e) auto
next
  case False
  obtain a l where "cst_text c = a # l" "a \<noteq> 123"
  proof (cases c)
    case (CScal t)
    have "hd t \<noteq> 123 \<and> t \<noteq> []" using scalar_head [OF L s(2) [unfolded CScal]] by simp
    then show ?thesis using that CScal by (cases t) auto
  qed (use False that in auto)
  then have "byte_at s (length P) \<noteq> Some 123" using s(1) by (simp add: byte_at_def)
  with f False show ?thesis by (auto simp: find_member_def)
qed

lemma member_of_value:
  assumes "map_of (map (mem_val un num) ms) k = Some v"
  obtains mm where "mm \<in> set ms" "the (un (mem_key mm)) = k" "v = cst_val un num (mem_cst mm)"
proof -
  from map_of_SomeD [OF assms] obtain mm where mm: "mm \<in> set ms" "mem_val un num mm = (k, v)" by auto
  with that show thesis by (cases mm) auto
qed

lemma editable_hooks:
  assumes "editable un (CObj w ms)" "cst_val un num (CObj w ms) = JObj m" "map_of m (lit ''hooks'') = Some v"
  shows "lit ''hooks'' \<in> set (map mem_key ms) \<and> is_object v"
proof -
  have "map_of (map (mem_val un num) ms) (lit ''hooks'') = Some v" using assms(2,3) by auto
  then obtain mm where mm: "mm \<in> set ms" "the (un (mem_key mm)) = lit ''hooks''" "v = cst_val un num (mem_cst mm)"
    by (rule member_of_value)
  with assms(1) have "mem_key mm = lit ''hooks''" "hooks_editable un (mem_cst mm)"
    by (auto simp: list_all_iff simp del: lit_Cons)
  with mm show ?thesis by (cases "mem_cst mm") force+
qed

lemma editable_event:
  assumes "hooks_editable un (CObj w ms)" "cst_val un num (CObj w ms) = JObj m" "map_of m ev = Some v"
    and "ev \<in> set (map en_event entries)"
  shows "ev \<in> set (map mem_key ms) \<and> is_array v"
proof -
  have "map_of (map (mem_val un num) ms) ev = Some v" using assms(2,3) by auto
  then obtain mm where mm: "mm \<in> set ms" "the (un (mem_key mm)) = ev" "v = cst_val un num (mem_cst mm)"
    by (rule member_of_value)
  with assms(1,4) have "mem_key mm = ev" "is_carr (mem_cst mm)" by (auto simp: list_all_iff)
  with mm show ?thesis by (cases "mem_cst mm") force+
qed

lemma insertion_cases:
  assumes L: "syntax_laws un num" and s: "s = W1 @ cst_text c @ W2" "json_ws W1" "cst_ok un num c" "cst_depth c \<le> 127"
    and o: "is_object (cst_val un num c)" and mem: "ev \<in> set (map en_event entries)" and g: "plain ev" "cst_ok un num g" "cst_depth g \<le> 4" and ind: "json_ws ind"
  shows "case insertion s (cst_val un num c) ev (cst_text g) of
      Inl e \<Rightarrow> shape_error e \<and> \<not> editable un c
    | Inr (pos, chunk) \<Rightarrow> spliced un num c W1 W2 s ind pos chunk (wire_event ev (cst_val un num g) (cst_val un num c))"
proof -
  obtain m where m: "cst_val un num c = JObj m" using o by (cases "cst_val un num c") auto
  obtain w ms where c: "c = CObj w ms" using value_obj [OF s(3) o] by blast
  have root: "skip_ws s 0 = length W1"
    using skip_ws_drop_solid [of 0 s W1 "cst_text c" W2] s text_solid [OF L s(3)] by simp
  have ev: "un (lit ''hooks'') = Some (lit ''hooks'')" using syntax_lawsD(2) [OF L] by (simp add: plain_def)
  show ?thesis
  proof (cases "map_of m (lit ''hooks'')")
    case None
    with insertion_no_hooks [OF L s m None g ind] m show ?thesis
      by (simp only: insertion_def Let_def jget.simps option.case sum.case prod.case)
  next
    case (Some hooks)
    note eh = editable_hooks [OF _ m [unfolded c] Some, folded c]
    show ?thesis
    proof (cases "is_object hooks")
      case False
      with Some m eh show ?thesis by (auto simp: insertion_def shape_error_def simp del: lit_Cons)
    next
      case True
      then obtain hm where hm: "hooks = JObj hm" by (cases hooks) auto
      show ?thesis
      proof (cases "find_member s (skip_ws s 0) (lit ''hooks'')")
        case (Inl e)
        then have "e = MemberNotFound \<and> lit ''hooks'' \<notin> set (map mem_key ms)"
          using find_member_not_found [OF L s(1,3)] root c by simp
        with Inl Some m True eh show ?thesis by (auto simp: insertion_def shape_error_def no_member_at_def simp del: lit_Cons)
      next
        case (Inr pos)
        show ?thesis
        proof (cases "map_of hm ev")
          case None
          with insertion_no_event [OF L s m _ None g ind Inr] Some Inr m hm show ?thesis
            by (simp only: insertion_def Let_def jget.simps option.case sum.case prod.case is_object.simps not_True_eq_False if_False)
        next
          case (Some arr)
          obtain A h B K where a: "pos = length (W1 @ A)" "s = (W1 @ A) @ cst_text h @ (B @ W2)" "cst_ok un num h"
            "map_of m (lit ''hooks'') = Some (cst_val un num h)" "\<And>h'. editable un c \<Longrightarrow> hooks_editable un h"
            using descend [OF L s(1,3,4) _ m ev Inr [unfolded root]] by (metis zero_less_numeral)
          have hv: "cst_val un num h = JObj hm" using a(4) \<open>map_of m (lit ''hooks'') = Some hooks\<close> hm by simp
          obtain hw hms where h: "h = CObj hw hms" using value_obj [OF a(3)] hv by auto
          have ee: "editable un c \<Longrightarrow> ev \<in> set (map mem_key hms) \<and> is_array arr"
            using editable_event [OF _ hv [unfolded h] Some mem] a(5) h by blast
          show ?thesis
          proof (cases "is_array arr")
            case False
            with Some \<open>map_of m (lit ''hooks'') = Some hooks\<close> m hm Inr ee show ?thesis
              by (simp add: insertion_def shape_error_def del: lit_Cons) blast
          next
            case True
            then obtain gs where gs: "arr = JArr gs" by (cases arr) auto
            show ?thesis
            proof (cases "find_member s pos ev")
              case (Inl e)
              then have "e = MemberNotFound \<and> ev \<notin> set (map mem_key hms)"
                using find_member_not_found [OF L a(2,3)] a(1) h by simp
              with Inl Some \<open>map_of m (lit ''hooks'') = Some hooks\<close> m hm Inr True ee show ?thesis
                by (simp add: insertion_def shape_error_def no_member_at_def del: lit_Cons) blast
            next
              case (Inr pos2)
              with insertion_event [OF L s m _ _ g ind \<open>find_member s (skip_ws s 0) (lit ''hooks'') = Inr pos\<close> Inr] Some
                \<open>map_of m (lit ''hooks'') = Some hooks\<close> m hm gs \<open>find_member s (skip_ws s 0) (lit ''hooks'') = Inr pos\<close>
              show ?thesis
                by (simp only: insertion_def Let_def jget.simps option.case sum.case prod.case is_object.simps is_array.simps
                    not_True_eq_False if_False)
            qed
          qed
        qed
      qed
    qed
  qed
qed

section \<open>The whole installation\<close>

definition accepts :: "(str \<Rightarrow> str option) \<Rightarrow> (str \<Rightarrow> jnum option) \<Rightarrow> (str \<Rightarrow> json option) \<Rightarrow> bool" where
  "accepts un num parse \<longleftrightarrow> (\<forall>t v. json_doc un num t v \<longrightarrow> parse t = Some v)"

lemma acceptsD: "accepts un num parse \<Longrightarrow> json_doc un num t v \<Longrightarrow> parse t = Some v"
  by (simp add: accepts_def)

definition line_break :: "str \<Rightarrow> str" where
  "line_break s = (if contains [13, 10] s then [13, 10] else [10])"

text \<open>What one turn of the loop leaves: a line spliced in behind an opening bracket.\<close>

text \<open>A text with its document, and, if \<open>E\<close> is set, of a shape the editor can work on.\<close>

definition doc_text :: "(str \<Rightarrow> str option) \<Rightarrow> (str \<Rightarrow> jnum option) \<Rightarrow> bool \<Rightarrow> str \<Rightarrow> json \<Rightarrow> bool" where
  "doc_text un num E t v \<longleftrightarrow>
     (\<exists>w1 c w2. t = w1 @ cst_text c @ w2 \<and> json_ws w1 \<and> json_ws w2 \<and> cst_ok un num c \<and> cst_depth c \<le> 127
        \<and> v = cst_val un num c \<and> (E \<longrightarrow> editable un c))"

lemma doc_text_doc: "doc_text un num E t v \<Longrightarrow> json_doc un num t v"
  unfolding doc_text_def json_doc_def by blast

lemma doc_text_weaken: "json_doc un num t v \<Longrightarrow> doc_text un num False t v"
  unfolding doc_text_def json_doc_def by blast

lemma install_one_cases:
  assumes L: "syntax_laws un num" and P: "accepts un num parse" and d: "doc_text un num E (sp_text sp) doc" "is_object doc"
    and b: "ser bin = quoted body" "un body = Some cmd" and e: "entry_ok e" "e \<in> set entries"
  obtains err where "install_one parse ser bin e sp = Inl err" "shape_error err" "\<not> E"
  | pos chunk where "insertion (sp_text sp) doc (en_event e) (group_line ser e bin) = Inr (pos, chunk)"
      "bracket_before (sp_text sp) pos"
      "install_one parse ser bin e sp =
         Inr \<lparr>sp_text = take pos (sp_text sp) @ line_break (sp_text sp) @ inner_indent (sp_text sp) pos @ chunk @ drop pos (sp_text sp),
              sp_changed = sp_changed sp @ [inner_indent (sp_text sp) pos @ chunk]\<rparr>"
      "doc_text un num E (take pos (sp_text sp) @ line_break (sp_text sp) @ inner_indent (sp_text sp) pos @ chunk @ drop pos (sp_text sp))
         (wire_event (en_event e) (group_json cmd e) doc)"
proof -
  let ?s = "sp_text sp"
  obtain w1 c w2 where c: "?s = w1 @ cst_text c @ w2" "json_ws w1" "json_ws w2" "cst_ok un num c" "cst_depth c \<le> 127"
    "doc = cst_val un num c" "E \<longrightarrow> editable un c" using d(1) unfolding doc_text_def by blast
  have mem: "en_event e \<in> set (map en_event entries)" using e(2) by simp
  note g = group_cst_ok [OF L b(2) e(1)]
  have line: "group_line ser e bin = cst_text (group_cst body e)" using group_line_text b(1) by simp
  have ev: "plain (en_event e)" using e(1) by (simp add: entry_ok_def)
  have p: "parse ?s = Some doc" using acceptsD [OF P doc_text_doc [OF d(1)]] .
  show thesis
  proof (cases "insertion ?s doc (en_event e) (group_line ser e bin)")
    case (Inl err)
    with insertion_cases [OF L c(1,2,4,5) d(2) [unfolded c(6)] mem ev g(1,3), of "[]"] line c(6)
    have "shape_error err \<and> \<not> E" using c(7) by auto
    with Inl p show thesis by (intro that(1)) (simp_all add: install_one_def, simp)
  next
    case (Inr r)
    obtain pos chunk where r: "r = (pos, chunk)" by (cases r)
    let ?ind = "line_break ?s @ inner_indent ?s pos"
    have "json_ws ?ind"
      using inline_ws_json [OF inner_indent_inline] by (simp add: line_break_def json_ws_def)
    from insertion_cases [OF L c(1,2,4,5) d(2) [unfolded c(6)] mem ev g(1,3) this] line c(6) Inr r g(2)
    have sp: "spliced un num c w1 w2 ?s ?ind pos chunk (wire_event (en_event e) (group_json cmd e) doc)" by simp
    show thesis
    proof (rule that(2))
      show "insertion ?s doc (en_event e) (group_line ser e bin) = Inr (pos, chunk)" using Inr r by simp
      show "bracket_before ?s pos" using sp by (simp add: spliced_def)
      show "install_one parse ser bin e sp =
         Inr \<lparr>sp_text = take pos ?s @ line_break ?s @ inner_indent ?s pos @ chunk @ drop pos ?s,
              sp_changed = sp_changed sp @ [inner_indent ?s pos @ chunk]\<rparr>"
        using Inr r p by (simp add: install_one_def line_break_def Let_def)
      from sp obtain c' where "cst_ok un num c'" "cst_depth c' \<le> 127"
          "take pos ?s @ ?ind @ chunk @ drop pos ?s = w1 @ cst_text c' @ w2"
          "cst_val un num c' = wire_event (en_event e) (group_json cmd e) doc" "E \<longrightarrow> editable un c'"
        unfolding spliced_def using c(7) by blast
      with c(2,3) show "doc_text un num E (take pos ?s @ line_break ?s @ inner_indent ?s pos @ chunk @ drop pos ?s)
         (wire_event (en_event e) (group_json cmd e) doc)"
        unfolding doc_text_def by (metis append.assoc)
    qed
  qed
qed

lemma wire_event_object: "is_object (wire_event ev g doc)"
  by (simp add: wire_event_def Let_def)

lemma wire_doc_object: "is_object doc \<Longrightarrow> is_object (wire_doc cmd es doc)"
  by (induction es arbitrary: doc) (simp_all add: wire_doc_def wire_event_object)

lemma install_all_cases:
  assumes L: "syntax_laws un num" and P: "accepts un num parse" and b: "ser bin = quoted body" "un body = Some cmd"
  shows "list_all entry_ok es \<Longrightarrow> set es \<subseteq> set entries \<Longrightarrow> doc_text un num E (sp_text sp) doc \<Longrightarrow> is_object doc \<Longrightarrow>
    (case install_all parse ser bin es sp of
       Inl err \<Rightarrow> shape_error err \<and> \<not> E
     | Inr sp' \<Rightarrow> doc_text un num E (sp_text sp') (wire_doc cmd es doc) \<and> length (sp_changed sp') = length (sp_changed sp) + length es)"
proof (induction es arbitrary: sp doc)
  case (Cons e es)
  have e: "entry_ok e" "list_all entry_ok es" "e \<in> set entries" "set es \<subseteq> set entries" using Cons.prems(1,2) by simp_all
  from install_one_cases [where un = un and ser = ser and bin = bin and body = body and cmd = cmd, OF L P Cons.prems(3,4) b e(1,3)]
  show ?case
  proof cases
    case 1
    then show ?thesis by simp
  next
    case (2 pos chunk)
    define sp' where "sp' = \<lparr>sp_text = take pos (sp_text sp) @ line_break (sp_text sp) @ inner_indent (sp_text sp) pos @ chunk
        @ drop pos (sp_text sp), sp_changed = sp_changed sp @ [inner_indent (sp_text sp) pos @ chunk]\<rparr>"
    have j: "doc_text un num E (sp_text sp') (wire_event (en_event e) (group_json cmd e) doc)" using 2(4) by (simp add: sp'_def)
    have l: "length (sp_changed sp') = Suc (length (sp_changed sp))" by (simp add: sp'_def)
    have o: "install_one parse ser bin e sp = Inr sp'" using 2(3) by (simp add: sp'_def)
    from Cons.IH [OF e(2,4) j wire_event_object] l show ?thesis
      by (simp add: o wire_doc_def split: sum.splits)
  qed
qed (simp add: wire_doc_def)

lemma install_cases:
  assumes L: "syntax_laws un num" and P: "accepts un num parse" and b: "ser bin = quoted body" "un body = Some cmd"
    and d: "doc_text un num E src doc"
  shows "case install parse ser src bin of
      Inl err \<Rightarrow> err = SNotAnObject \<and> \<not> is_object doc \<or> is_object doc \<and> shape_error err \<and> \<not> E
    | Inr sp \<Rightarrow> is_object doc \<and> doc_text un num E (sp_text sp) (wire_doc cmd (missing doc) doc)
        \<and> length (sp_changed sp) = length (missing doc) \<and>
        (missing doc = [] \<longrightarrow> sp_text sp = src) \<and>
        (missing doc \<noteq> [] \<longrightarrow> install_all parse ser bin (missing doc) \<lparr>sp_text = src, sp_changed = []\<rparr> = Inr sp)"
proof -
  have p: "parse src = Some doc" using acceptsD [OF P doc_text_doc [OF d]] .
  show ?thesis
  proof (cases "is_object doc")
    case False
    with p show ?thesis by (simp add: install_def)
  next
    case True
    have ok: "list_all entry_ok (missing doc)" "set (missing doc) \<subseteq> set entries"
      using entries_ok by (auto simp: missing_def list_all_iff)
    from d have d': "doc_text un num E (sp_text \<lparr>sp_text = src, sp_changed = []\<rparr>) doc" by simp
    note a = install_all_cases [where un = un and ser = ser and bin = bin and body = body and cmd = cmd, OF L P b ok d' True]
    show ?thesis
    proof (cases "install_all parse ser bin (missing doc) \<lparr>sp_text = src, sp_changed = []\<rparr>")
      case (Inl err)
      with a p True show ?thesis by (simp add: install_def missing_def)
    next
      case (Inr sp)
      with a have sp: "doc_text un num E (sp_text sp) (wire_doc cmd (missing doc) doc)" "length (sp_changed sp) = length (missing doc)"
        by simp_all
      from acceptsD [OF P doc_text_doc [OF sp(1)]] have v: "validate parse sp = Inr sp" by (simp add: validate_def)
      show ?thesis
      proof (cases "missing doc = []")
        case m: True
        then have "sp_changed sp = []" using sp(2) by simp
        with Inr p True m d show ?thesis
          by (auto simp: install_def missing_def [symmetric] wire_doc_def)
      next
        case False
        with sp(2) have "sp_changed sp \<noteq> []" by auto
        with Inr p True v sp False show ?thesis by (simp add: install_def missing_def [symmetric])
      qed
    qed
  qed
qed

section \<open>Every event is wired afterwards\<close>

lemma groups_alt:
  "groups doc ev = concat (List.map_filter (\<lambda>g. Option.bind (jget g (lit ''hooks'')) as_array)
     (elements_or_none (map_of (members_or_none (map_of (members_or_none (Some doc)) (lit ''hooks''))) ev)))"
proof -
  have a: "jget v k = map_of (members_or_none (Some v)) k" for v k
    by (cases v) (simp_all add: members_or_none_def)
  have b: "members_or_none (Some v) = members_or_none (if is_object v then Some v else None)" for v
    by (cases v) (simp_all add: members_or_none_def)
  show ?thesis
    by (cases "map_of (members_or_none (Some doc)) (lit ''hooks'')")
      (simp_all add: groups_def a elements_or_none_def members_or_none_def split: option.split)
qed

lemma map_filter_Cons: "List.map_filter f (x # xs) = (case f x of None \<Rightarrow> List.map_filter f xs | Some y \<Rightarrow> y # List.map_filter f xs)"
  by (simp add: List.map_filter_def split: option.split)

lemma groups_wire:
  "groups (wire_event ev (group_json cmd e) doc) ev' =
     (if ev' = ev then hook_json cmd e # groups doc ev else groups doc ev')"
proof -
  have h: "Option.bind (jget (group_json cmd e) (lit ''hooks'')) as_array = Some [hook_json cmd e]"
    by (simp add: group_json_def)
  have m: "members_or_none (Some (JObj m)) = m" "elements_or_none (Some (JArr xs)) = xs" for m xs
    by (simp_all add: members_or_none_def elements_or_none_def)
  show ?thesis
    by (simp add: groups_alt wire_event_def Let_def m map_filter_Cons h del: lit_Cons)
qed

lemma hook_json_fields:
  "get_str (hook_json cmd e) (lit ''statusMessage'') = Some (en_status e)" "hook_sub (hook_json cmd e) = Some (en_sub e)"
  "get_str (hook_json cmd e) (lit ''command'') = Some cmd"
  by (simp_all add: hook_json_def get_str_def hook_sub_def)

lemma entries_status: "list_all (\<lambda>e. starts_with (lit ''memgarden: '') (en_status e)) entries"
  by (simp add: entries_def starts_with_def)

lemma hook_json_memgarden: "e \<in> set entries \<Longrightarrow> is_memgarden (hook_json cmd e)"
  using entries_status by (simp add: is_memgarden_def hook_json_fields list_all_iff del: lit_Cons)

definition wired_at :: "json \<Rightarrow> hook_entry \<Rightarrow> bool" where
  "wired_at doc e \<longleftrightarrow> list_ex (\<lambda>h. is_memgarden h \<and> hook_sub h = Some (en_sub e)) (groups doc (en_event e))"

lemma wired_events_at: "wired_events doc = map en_event (filter (wired_at doc) entries)"
  by (simp add: wired_events_def wired_at_def [abs_def])

lemma wired_wire:
  "e \<in> set entries \<Longrightarrow> e' = e \<or> wired_at doc e' \<Longrightarrow> wired_at (wire_event (en_event e) (group_json cmd e) doc) e'"
  by (auto simp: wired_at_def groups_wire hook_json_memgarden hook_json_fields)

lemma wired_wire_doc:
  "set es \<subseteq> set entries \<Longrightarrow> e' \<in> set es \<or> wired_at doc e' \<Longrightarrow> wired_at (wire_doc cmd es doc) e'"
proof (induction es arbitrary: doc)
  case (Cons e es)
  then show ?case using wired_wire [of e e' doc cmd] by (simp add: wire_doc_def) blast
qed (simp add: wire_doc_def)

lemma entries_events: "distinct (map en_event entries)"
  by (simp add: entries_def)

lemma wired_all: "wired_events (wire_doc cmd (missing doc) doc) = map en_event entries"
proof -
  have m: "set (missing doc) \<subseteq> set entries" by (auto simp: missing_def)
  have "wired_at (wire_doc cmd (missing doc) doc) e" if "e \<in> set entries" for e
  proof -
    have "e \<in> set (missing doc) \<or> wired_at doc e"
    proof (cases "wired_at doc e")
      case False
      have "e' = e" if "e' \<in> set entries" "en_event e' = en_event e" for e'
        using that \<open>e \<in> set entries\<close> entries_events by (simp add: distinct_map inj_on_def)
      then have "en_event e \<notin> set (wired_events doc)" using False by (auto simp: wired_events_at)
      with that show ?thesis by (simp add: missing_def)
    qed simp
    then show ?thesis by (rule wired_wire_doc [OF m])
  qed
  then have "filter (wired_at (wire_doc cmd (missing doc) doc)) entries = entries" by (simp add: filter_id_conv)
  then show ?thesis by (simp add: wired_events_at)
qed

lemma missing_nothing: "missing (wire_doc cmd (missing doc) doc) = []"
  by (simp add: missing_def [of "wire_doc cmd (missing doc) doc"] wired_all filter_empty_conv)

lemma wired_command_wire: "e \<in> set entries \<Longrightarrow> wired_command (wire_event (en_event e) (group_json cmd e) doc) (en_event e) = Some cmd"
  by (simp add: wired_command_def groups_wire hook_json_memgarden hook_json_fields(3) del: lit_Cons)

end
