(* ===== verification/Settings_Uninstall.thy ===== *)
theory Settings_Uninstall
  imports Settings_Install
begin

text \<open>
  \<open>settings::uninstall\<close> after \<open>settings::install\<close>: the lines one inserted are the lines the other finds
  and deletes, so the text comes back byte by byte. The first part restates the marker search on the rest
  of a text, the second describes an inserted line, the third follows the two loops.
\<close>

section \<open>Markers\<close>

fun starts :: "str \<Rightarrow> str \<Rightarrow> bool" where
  "starts [] l = True"
| "starts (a # k) [] = False"
| "starts (a # k) (b # l) = (a = b \<and> starts k l)"

lemma starts_iff: "starts k l \<longleftrightarrow> take (length k) l = k"
  by (induction k l rule: starts.induct) auto

lemma starts_append: "starts k l \<longleftrightarrow> (\<exists>r. l = k @ r)"
  by (metis append_eq_conv_conj starts_iff append_take_drop_id)

definition marked_tail :: "str \<Rightarrow> bool" where
  "marked_tail r = (case dropWhile ascii_ws r of [] \<Rightarrow> False | c # r2 \<Rightarrow> c = 58 \<and> starts status_prefix (dropWhile ascii_ws r2))"

definition mark :: "str \<Rightarrow> bool" where
  "mark l \<longleftrightarrow> starts status_key l \<and> marked_tail (drop (length status_key) l)"

lemma mark_no_quote [simp]: "c \<noteq> 34 \<Longrightarrow> \<not> mark (c # l)" "\<not> mark []"
  by (simp_all add: mark_def status_key_def quoted_def)

lemma mark_iff:
  "mark l \<longleftrightarrow> (\<exists>w1 w2 r. list_all ascii_ws w1 \<and> list_all ascii_ws w2 \<and> l = status_key @ w1 @ 58 # w2 @ status_prefix @ r)"
proof
  assume "mark l"
  then obtain r where r: "l = status_key @ r" "marked_tail r" by (auto simp: mark_def starts_append)
  then obtain r2 where r2: "dropWhile ascii_ws r = 58 # r2" "starts status_prefix (dropWhile ascii_ws r2)"
    by (auto simp: marked_tail_def split: list.splits)
  then obtain r3 where "dropWhile ascii_ws r2 = status_prefix @ r3" by (auto simp: starts_append)
  with r2 have "r = takeWhile ascii_ws r @ 58 # takeWhile ascii_ws r2 @ status_prefix @ r3"
    by (metis takeWhile_dropWhile_id)
  moreover have "list_all ascii_ws (takeWhile ascii_ws x)" for x by (induction x) auto
  ultimately show "\<exists>w1 w2 r. list_all ascii_ws w1 \<and> list_all ascii_ws w2 \<and> l = status_key @ w1 @ 58 # w2 @ status_prefix @ r"
    using r(1) by blast
next
  assume "\<exists>w1 w2 r. list_all ascii_ws w1 \<and> list_all ascii_ws w2 \<and> l = status_key @ w1 @ 58 # w2 @ status_prefix @ r"
  then obtain w1 w2 r where w: "list_all ascii_ws w1" "list_all ascii_ws w2" "l = status_key @ w1 @ 58 # w2 @ status_prefix @ r"
    by blast
  have d: "dropWhile ascii_ws (w @ x) = dropWhile ascii_ws x" if "list_all ascii_ws w" for w x
    using that by (induction w) auto
  have n: "\<not> ascii_ws 58" "\<not> ascii_ws 34" by (simp_all add: ascii_ws_def)
  have p: "dropWhile ascii_ws (status_prefix @ r) = status_prefix @ r" using n by (simp add: status_prefix_def)
  from w n p show "mark l" by (simp add: mark_def starts_append marked_tail_def d)
qed

lemma mark_mono: "mark a \<Longrightarrow> mark (a @ x)"
  unfolding mark_iff by (metis append.assoc append_Cons)

text \<open>No marker reaches across a bracket.\<close>

lemma mark_cut:
  assumes "b = 123 \<or> b = 91"
  shows "mark (a @ b # x) \<longleftrightarrow> mark a"
proof
  assume "mark (a @ b # x)"
  then obtain w1 w2 r where w: "list_all ascii_ws w1" "list_all ascii_ws w2"
      "a @ b # x = (status_key @ w1 @ 58 # w2 @ status_prefix) @ r"
    unfolding mark_iff by fastforce
  let ?M = "status_key @ w1 @ 58 # w2 @ status_prefix"
  have b: "b \<notin> set ?M"
    using w(1,2) assms by (auto simp: status_key_def quoted_def status_prefix_def list_all_iff ascii_ws_def)
  from w(3) obtain us where "a = ?M @ us \<and> us @ b # x = r \<or> a @ us = ?M \<and> b # x = us @ r"
    using append_eq_append_conv2 [of a "b # x" ?M r] by blast
  then show "mark a"
  proof
    assume "a = ?M @ us \<and> us @ b # x = r"
    then show ?thesis using w(1,2) unfolding mark_iff by fastforce
  next
    assume u: "a @ us = ?M \<and> b # x = us @ r"
    have "us = []" using u b by (metis append_Cons in_set_conv_decomp list.exhaust nth_Cons_0)
    then show ?thesis using u w(1,2) unfolding mark_iff by (metis append_Nil2)
  qed
qed (rule mark_mono)

text \<open>The number of positions in \<open>a\<close> at which \<open>P\<close> holds of the rest, and the first marker.\<close>

fun hits :: "(str \<Rightarrow> bool) \<Rightarrow> str \<Rightarrow> str \<Rightarrow> nat" where
  "hits P [] l = 0"
| "hits P (x # a) l = (if P ((x # a) @ l) then 1 else 0) + hits P a l"

lemma hits_append: "hits P (a @ b) l = hits P a (b @ l) + hits P b l"
  by (induction a) auto

fun first_mark :: "str \<Rightarrow> nat option" where
  "first_mark [] = None"
| "first_mark (x # xs) = (if mark (x # xs) then Some 0 else map_option Suc (first_mark xs))"

lemma first_mark_quiet: "hits mark a l = 0 \<Longrightarrow> first_mark (a @ l) = map_option ((+) (length a)) (first_mark l)"
  by (induction a) (auto split: if_splits simp: option.map_comp comp_def)

lemma first_mark_hits: "first_mark a = None \<longleftrightarrow> hits mark a [] = 0"
  by (induction a) auto

lemma hits_mono: "hits mark a (l @ x) = 0 \<Longrightarrow> hits mark a l = 0"
  by (induction a) (auto split: if_splits dest: mark_mono)

lemma hits_cut: "b = 123 \<or> b = 91 \<Longrightarrow> hits mark a (b # x) = hits mark a []"
  using mark_cut by (induction a) (auto simp del: append.simps simp: append_Cons [symmetric])

lemma first_mark_before:
  assumes "first_mark (a @ x) = Some m" "length a \<le> m"
  shows "first_mark a = None"
proof -
  have "hits mark a x = 0" using assms
  proof (induction a arbitrary: m)
    case (Cons c a)
    then show ?case by (auto split: if_splits)
  qed simp
  with hits_mono [of a "[]" x] show ?thesis by (simp add: first_mark_hits)
qed

lemma drop_skip_ws: "drop (skip_ws s i) s = dropWhile ascii_ws (drop i s)"
  by (metis add.commute drop_drop dropWhile_drop skip_ws_len)

lemma byte_at_hd: "byte_at s i = Some c \<longleftrightarrow> (\<exists>r. drop i s = c # r)"
proof
  assume "byte_at s i = Some c"
  then have "i < length s" "s ! i = c" by (auto simp: byte_at_def split: if_splits)
  then show "\<exists>r. drop i s = c # r" by (metis drop_Cons_nth)
qed (auto dest: byte_at_drop)

lemma marked_at_tail: "marked_at s i \<longleftrightarrow> marked_tail (drop (i + length status_key) s)"
proof (cases "dropWhile ascii_ws (drop (i + length status_key) s)")
  case Nil
  let ?k = "skip_ws s (i + length status_key)"
  have "drop ?k s = []" using Nil by (simp only: drop_skip_ws)
  then have "byte_at s ?k \<noteq> Some 58" by (simp add: byte_at_hd)
  then have "\<not> marked_at s i" by (simp add: marked_at_def Let_def)
  with Nil show ?thesis by (simp only: marked_tail_def list.case)
next
  case (Cons c r)
  let ?k = "skip_ws s (i + length status_key)"
  have k: "drop ?k s = c # r" using Cons by (simp only: drop_skip_ws)
  then have "drop (?k + 1) s = r" by (rule drop_byte)
  then have "drop (skip_ws s (?k + 1)) s = dropWhile ascii_ws r" by (simp only: drop_skip_ws)
  with k Cons show ?thesis
    by (auto simp: marked_at_def Let_def byte_at_hd marked_tail_def starts_iff)
qed

lemma find_key_step:
  "i < length s \<Longrightarrow> find_key s i = (if starts status_key (drop i s) then Some i else find_key s (i + 1))"
  by (simp add: find_key_def starts_iff upt_conv_Cons)

lemma find_marker_step:
  assumes "i < length s"
  shows "find_marker s i = (if mark (drop i s) then Some i else find_marker s (i + 1))"
proof (cases "starts status_key (drop i s)")
  case True
  with assms have "find_key s i = Some i" by (simp add: find_key_step)
  with True show ?thesis
    by (subst find_marker.simps) (simp add: mark_def marked_at_tail add.commute)
next
  case False
  with assms have "find_key s i = find_key s (i + 1)" by (simp add: find_key_step)
  then have "find_marker s i = find_marker s (i + 1)"
    by (subst (1 2) find_marker.simps) simp
  with False show ?thesis by (simp add: mark_def)
qed

lemma find_marker_first: "find_marker s i = map_option ((+) i) (first_mark (drop i s))"
proof (induction "length s - i" arbitrary: i)
  case 0
  then have "find_key s i = None" by (simp add: find_key_def)
  with 0 show ?case by (simp add: find_marker.simps)
next
  case (Suc n)
  then have i: "i < length s" by simp
  then have d: "drop i s = s ! i # drop (Suc i) s" by (rule drop_Cons_nth)
  have "n = length s - (i + 1)" using Suc(2) by simp
  from Suc(1) [OF this] show ?case
    by (simp add: find_marker_step [OF i] d option.map_comp comp_def)
qed

section \<open>The bytes of a string body\<close>

lemma body_quote: "str_body (u @ c # 34 # v) \<Longrightarrow> c = 92"
proof (induction u rule: str_body.induct)
  case (2 x xs)
  show ?case
  proof (cases "x = 92")
    case True
    show ?thesis
    proof (cases xs)
      case Nil
      with 2(3) True show ?thesis by simp
    next
      case (Cons y ys)
      with 2 True show ?thesis by simp
    qed
  next
    case False
    with 2 show ?thesis by simp
  qed
qed (simp split: if_splits)

lemma body_no_break: "str_body b \<Longrightarrow> list_all (\<lambda>c. c \<noteq> 10 \<and> c \<noteq> 13) b"
  by (induction b rule: str_body.induct) (auto split: if_splits list.splits)

lemma take_unquoted: "34 \<notin> set x \<Longrightarrow> takeWhile (\<lambda>c. c \<noteq> 34) (x @ 34 # y) = x" for x y :: str
  by (induction x) auto

text \<open>A quoted word that starts at or inside a string body ends with the body's own quote.\<close>

lemma body_word:
  assumes b: "str_body (u @ v)" and w: "w \<noteq> []" "34 \<notin> set w" "last w \<noteq> 92" and e: "v @ 34 # r = w @ 34 # z"
  shows "z = r"
proof -
  have "34 \<notin> set v"
  proof
    assume "34 \<in> set v"
    then obtain p q where pq: "v = p @ 34 # q" "34 \<notin> set p" by (meson split_list_first)
    have "p = w" using take_unquoted [OF pq(2), of "q @ 34 # r"] take_unquoted [OF w(2), of z] e pq(1) by simp
    then have "u @ v = (u @ butlast w) @ last w # 34 # q" using pq(1) w(1) by simp
    with b have "str_body ((u @ butlast w) @ last w # 34 # q)" by (simp only:)
    from body_quote [OF this] w(3) show False by simp
  qed
  from take_unquoted [OF this, of r] take_unquoted [OF w(2), of z] e have "v = w" by simp
  with e show ?thesis by simp
qed

text \<open>What the two searches look for: a bare quoted word that no comma follows.\<close>

definition quoted_word :: "str \<Rightarrow> (str \<Rightarrow> bool) \<Rightarrow> bool" where
  "quoted_word w P \<longleftrightarrow> w \<noteq> [] \<and> 34 \<notin> set w \<and> last w \<noteq> 92
     \<and> (\<forall>l. P l \<longrightarrow> (\<exists>z. l = 34 # w @ 34 # z \<and> (\<forall>y. z \<noteq> 44 # y)))"

lemma body_hits:
  assumes q: "quoted_word w P" and b: "str_body b"
  shows "hits P (34 # b) (34 # 44 # r) = 0"
proof -
  have no: "\<not> P (34 # v @ 34 # 44 # r)" if v: "str_body (u @ v)" for u v
  proof
    assume "P (34 # v @ 34 # 44 # r)"
    then obtain z where z: "v @ 34 # 44 # r = w @ 34 # z" "\<forall>y. z \<noteq> 44 # y" using q by (auto simp: quoted_word_def)
    from body_word [OF v _ _ _ z(1)] q z(2) show False by (auto simp: quoted_word_def)
  qed
  have rest: "hits P v (34 # 44 # r) = 0" if "str_body (u @ v)" for u v using that
  proof (induction v arbitrary: u)
    case (Cons c v)
    have "\<not> P ((c # v) @ 34 # 44 # r)"
    proof (cases "c = 34")
      case True
      with no [of "u @ [34]" v] Cons.prems show ?thesis by simp
    next
      case False
      with q show ?thesis by (fastforce simp: quoted_word_def)
    qed
    with Cons.IH [of "u @ [c]"] Cons.prems show ?case by simp
  qed simp
  have "\<not> P ((34 # b) @ 34 # 44 # r)" using no [of "[]" b] b by simp
  moreover have "hits P b (34 # 44 # r) = 0" using rest [of "[]" b] b by simp
  ultimately show ?thesis by simp
qed

definition command_at :: "str \<Rightarrow> bool" where
  "command_at l \<longleftrightarrow> starts command_key l"

lemma quoted_word_mark: "quoted_word (lit ''statusMessage'') mark"
proof -
  have "\<exists>z. l = 34 # lit ''statusMessage'' @ 34 # z \<and> (\<forall>y. z \<noteq> 44 # y)" if "mark l" for l
  proof -
    from that obtain r where "l = status_key @ r" "marked_tail r" by (auto simp: mark_def starts_append)
    moreover have "\<not> marked_tail (44 # y)" for y by (simp add: marked_tail_def ascii_ws_def)
    ultimately show ?thesis by (auto simp: status_key_def quoted_def simp del: lit_Cons)
  qed
  then show ?thesis by (simp add: quoted_word_def)
qed

lemma quoted_word_command: "quoted_word (lit ''command'') command_at"
proof -
  have "\<exists>z. l = 34 # lit ''command'' @ 34 # z \<and> (\<forall>y. z \<noteq> 44 # y)" if "command_at l" for l
    using that by (auto simp: command_at_def starts_append command_key_def quoted_def simp del: lit_Cons)
  then show ?thesis by (simp add: quoted_word_def)
qed

lemma mark_simps [simp]: "c \<noteq> 115 \<Longrightarrow> \<not> mark (34 # c # l)" "c \<noteq> 116 \<Longrightarrow> \<not> mark (34 # 115 # c # l)"
  by (simp_all add: mark_def status_key_def quoted_def)

lemma command_simps [simp]: "c \<noteq> 34 \<Longrightarrow> \<not> command_at (c # l)" "c \<noteq> 99 \<Longrightarrow> \<not> command_at (34 # c # l)" "\<not> command_at []"
  by (simp_all add: command_at_def command_key_def quoted_def)

section \<open>An inserted line\<close>

definition group_open :: str where
  "group_open = lit ''{'' @ quoted (lit ''hooks'') @ lit '':[{'' @ quoted (lit ''type'') @ lit '':'' @ quoted (lit ''command'')
     @ lit '','' @ quoted (lit ''command'') @ lit '':''"

definition group_mid :: "hook_entry \<Rightarrow> str" where
  "group_mid e = lit '','' @ quoted (lit ''args'') @ lit '':['' @ quoted (lit ''hook'') @ lit '','' @ quoted (en_sub e)
     @ lit ''],'' @ quoted (lit ''timeout'') @ lit '':'' @ nat_str (en_timeout e)
     @ (if en_async e then lit '','' @ quoted (lit ''async'') @ lit '':true'' else []) @ lit '',''"

definition group_close :: "hook_entry \<Rightarrow> str" where
  "group_close e = quoted (lit ''statusMessage'') @ lit '':'' @ quoted (en_status e) @ lit ''}]}''"

lemma group_line_parts:
  "ser bin = quoted body \<Longrightarrow> group_line ser e bin = group_open @ 34 # body @ 34 # group_mid e @ group_close e"
  by (simp add: group_line_def group_open_def group_mid_def group_close_def quoted_def)

lemma nat_str_timeouts: "nat_str 5 = [53]" "nat_str 10 = [49, 48]" "nat_str 30 = [51, 48]"
proof -
  have "nat_str n = [48 + n]" if "n < 10" for n using that by (subst nat_str.simps) simp
  then have "nat_str 5 = [53]" "nat_str 1 = [49]" "nat_str 3 = [51]" by simp_all
  then show "nat_str 5 = [53]" "nat_str 10 = [49, 48]" "nat_str 30 = [51, 48]"
    by (simp, (subst nat_str.simps, simp)+)
qed

lemma group_close_facts:
  assumes "e \<in> set entries"
  shows "mark (group_close e @ r)" "hits command_at (group_close e) r = 0" "list_all (\<lambda>c. c \<noteq> 123 \<and> c \<noteq> 91) (group_close e)"
  using assms
  by (auto simp: entries_def group_close_def quoted_def mark_def status_key_def marked_tail_def ascii_ws_def status_prefix_def
      command_at_def command_key_def)

lemma group_mid_facts:
  assumes "e \<in> set entries"
  shows "hits mark (34 # group_mid e) (group_close e @ r) = 0" "hits command_at (34 # group_mid e) (group_close e @ r) = 0"
    "list_all (\<lambda>c. c \<noteq> 10 \<and> c \<noteq> 13) (group_mid e)" "\<exists>y. group_mid e = 44 # y"
  using assms by (auto simp: entries_def group_mid_def group_close_def quoted_def nat_str_timeouts)

text \<open>What an insertion puts before and behind the group: nothing, an event's array, the whole \<open>hooks\<close> object.\<close>

definition chunk_pre :: "nat \<Rightarrow> str \<Rightarrow> str" where
  "chunk_pre k ev =
     (if k = 0 then []
      else if k = 1 then quoted ev @ lit '': [''
      else quoted (lit ''hooks'') @ lit '': {'' @ quoted ev @ lit '': ['')"

definition chunk_post :: "nat \<Rightarrow> str" where
  "chunk_post k = (if k = 0 then [] else if k = 1 then lit '']'' else lit '']}'')"

lemma chunk_pre_facts:
  assumes "e \<in> set entries"
  shows "hits mark (chunk_pre k (en_event e)) (123 # l) = 0" "hits command_at (chunk_pre k (en_event e)) (123 # l) = 0"
    "list_all (\<lambda>c. c \<noteq> 10 \<and> c \<noteq> 13) (chunk_pre k (en_event e))"
  using assms by (auto simp: entries_def chunk_pre_def quoted_def)

lemma chunk_post_facts: "hits command_at (chunk_post k) l = 0" "list_all (\<lambda>c. c \<noteq> 123 \<and> c \<noteq> 91) (chunk_post k)"
  by (simp_all add: chunk_post_def)

lemma group_open_facts:
  "hits mark group_open (34 # l) = 0" "hits command_at group_open (34 # l) = 1" "\<exists>y. group_open = 123 # y"
  "list_all (\<lambda>c. c \<noteq> 10 \<and> c \<noteq> 13) group_open"
  by (simp_all add: group_open_def quoted_def command_at_def command_key_def)

text \<open>The part of a line between its line break and its marker.\<close>

definition line_head :: "str \<Rightarrow> str \<Rightarrow> nat \<Rightarrow> hook_entry \<Rightarrow> str" where
  "line_head body ind k e = ind @ chunk_pre k (en_event e) @ group_open @ 34 # body @ 34 # group_mid e"

definition line_tail :: "nat \<Rightarrow> hook_entry \<Rightarrow> str \<Rightarrow> str" where
  "line_tail k e comma = group_close e @ chunk_post k @ comma"

text \<open>A comma follows the inserted value, or what follows needs none.\<close>

definition closes :: "str \<Rightarrow> str \<Rightarrow> bool" where
  "closes comma post \<longleftrightarrow> comma = [44] \<or> comma = [] \<and> ends_value post \<and> (\<forall>y. post \<noteq> 44 # y)"

definition is_line :: "str \<Rightarrow> str \<Rightarrow> str \<Rightarrow> bool" where
  "is_line body L post \<longleftrightarrow>
     (\<exists>nl ind k e comma. L = nl @ line_head body ind k e @ line_tail k e comma
        \<and> (nl = [10] \<or> nl = [13, 10]) \<and> list_all inline_ws ind \<and> e \<in> set entries
        \<and> closes comma post)"

lemma hits_skip: "list_all (\<lambda>c. c \<noteq> 34) a \<Longrightarrow> hits mark a l = 0 \<and> hits command_at a l = 0"
  by (induction a) auto

lemma inline_no_quote: "list_all inline_ws ind \<Longrightarrow> list_all (\<lambda>c. c \<noteq> 34) ind"
  by (auto simp: list_all_iff inline_ws_def)

lemma line_head_hits:
  assumes e: "e \<in> set entries" and b: "str_body body" and i: "list_all inline_ws ind"
  shows "hits mark (line_head body ind k e) (group_close e @ r) = 0"
    "hits command_at (line_head body ind k e) (group_close e @ r) = 1"
proof -
  obtain y where y: "group_mid e = 44 # y" using group_mid_facts(4) [OF e] by blast
  obtain z where z: "group_open = 123 # z" using group_open_facts(3) by blast
  have h: "line_head body ind k e = ind @ chunk_pre k (en_event e) @ group_open @ (34 # body) @ (34 # group_mid e)"
    by (simp add: line_head_def)
  note i' = hits_skip [OF inline_no_quote [OF i]]
  have p: "hits mark (chunk_pre k (en_event e)) (group_open @ l) = 0" "hits command_at (chunk_pre k (en_event e)) (group_open @ l) = 0" for l
    by (simp_all only: z append_Cons chunk_pre_facts [OF e])
  have o: "hits mark group_open ((34 # body) @ l) = 0" "hits command_at group_open ((34 # body) @ l) = 1" for l
    using group_open_facts by simp_all
  have b': "hits mark (34 # body) ((34 # group_mid e) @ l) = 0" "hits command_at (34 # body) ((34 # group_mid e) @ l) = 0" for l
    using body_hits [OF quoted_word_mark b] body_hits [OF quoted_word_command b] y by simp_all
  show "hits mark (line_head body ind k e) (group_close e @ r) = 0"
    by (simp only: h hits_append append_assoc i' p o b' group_mid_facts [OF e] add_0_left add_0_right)
  show "hits command_at (line_head body ind k e) (group_close e @ r) = 1"
    by (simp only: h hits_append append_assoc i' p o b' group_mid_facts [OF e] add_0_left add_0_right)
qed

lemma line_head_no_break:
  assumes e: "e \<in> set entries" and b: "str_body body" and i: "list_all inline_ws ind"
  shows "10 \<notin> set (line_head body ind k e)"
proof -
  have "list_all (\<lambda>c. c \<noteq> 10 \<and> c \<noteq> 13) ind" using i by (auto simp: list_all_iff inline_ws_def)
  with chunk_pre_facts(3) [OF e] group_open_facts(4) body_no_break [OF b] group_mid_facts(3) [OF e] show ?thesis
    by (auto simp: line_head_def list_all_iff)
qed

lemma line_tail_no_bracket: "e \<in> set entries \<Longrightarrow> comma = [] \<or> comma = [44] \<Longrightarrow> list_all (\<lambda>c. c \<noteq> 123 \<and> c \<noteq> 91) (line_tail k e comma)"
  using group_close_facts(3) chunk_post_facts(2) by (auto simp: line_tail_def)

section \<open>What one turn of the removal finds\<close>

lemma find_first: "list_all (\<lambda>x. \<not> P x) xs \<Longrightarrow> P x \<Longrightarrow> find P (xs @ x # ys) = Some x"
  by (induction xs) auto

lemma last_newline_at:
  assumes "s = X @ 10 # Y @ Z" "10 \<notin> set Y" "m = length X + 1 + length Y"
  shows "last_newline s m = Some (length X)"
proof -
  have m: "min m (length s) = length X + 1 + length Y" using assms by simp
  have "[0..<length X + 1 + length Y] = [0..<length X] @ length X # [length X + 1..<length X + 1 + length Y]"
    using upt_add_eq_append [of 0 "length X" "1 + length Y"] upt_conv_Cons [of "length X" "length X + (1 + length Y)"]
    by (simp only: add.assoc Suc_eq_plus1)
  then have r: "rev [0..<length X + 1 + length Y] = rev [length X + 1..<length X + 1 + length Y] @ length X # rev [0..<length X]"
    by simp
  have n: "s ! i \<noteq> 10" if "length X + 1 \<le> i" "i < length X + 1 + length Y" for i
  proof -
    define j where "j = i - (length X + 1)"
    have j: "i = length X + Suc j" "j < length Y" using that by (simp_all add: j_def)
    have "s ! i = Y ! j" using j assms(1) by (simp only: nth_append_length_plus nth_Cons_Suc) (simp add: nth_append)
    then show ?thesis using assms(2) nth_mem [OF j(2)] by metis
  qed
  have "list_all (\<lambda>k. \<not> s ! k = 10) (rev [length X + 1..<length X + 1 + length Y])"
    unfolding list_all_iff using n by (metis set_rev atLeastLessThan_iff set_upt)
  moreover have "s ! length X = 10" using assms(1) by simp
  ultimately show ?thesis unfolding last_newline_def m r by (rule find_first)
qed

text \<open>\<open>chunk_end\<close> stops behind the value and its comma.\<close>

lemma after_value:
  assumes L: "syntax_laws un num" and c: "cst_ok un num c" and d: "drop i s = cst_text c @ comma @ post" and k: "closes comma post"
  shows "map_option (\<lambda>e. if byte_at s e = Some 44 then e + 1 else e) (skip_value s i) = Some (i + length (cst_text c) + length comma)"
proof -
  have e: "ends_value (comma @ post)" using k by (auto simp: closes_def)
  have v: "skip_value s i = Some (i + length (cst_text c))" by (rule skip_value_drop [OF L c d e])
  have "drop (i + length (cst_text c)) s = comma @ post" using drop_step d by blast
  then have "byte_at s (i + length (cst_text c)) = Some 44 \<longleftrightarrow> comma = [44]"
    using k by (auto simp: byte_at_hd closes_def)
  with v k show ?thesis by (auto simp: closes_def)
qed

lemma chunk_end_value:
  assumes L: "syntax_laws un num" and c: "cst_ok un num c" "cst_text c = 123 # y" and d: "drop i s = cst_text c @ comma @ post"
    and k: "closes comma post"
  shows "chunk_end s i = Some (i + length (cst_text c) + length comma)"
proof -
  have "byte_at s i = Some 123" using d c(2) by (simp add: byte_at_hd)
  with after_value [OF L c(1) d k] show ?thesis by (simp add: chunk_end_def)
qed

lemma chunk_end_member:
  assumes L: "syntax_laws un num" and c: "cst_ok un num c" and p: "plain key"
    and d: "drop i s = quoted key @ lit '': '' @ cst_text c @ comma @ post" and k: "closes comma post"
  shows "chunk_end s i = Some (i + length (quoted key) + 2 + length (cst_text c) + length comma)"
    "skip_string s i = Some (i + length (quoted key))"
proof -
  have d': "drop i s = 34 # key @ 34 # 58 # 32 # cst_text c @ comma @ post" using d by (simp add: quoted_def)
  have b: "byte_at s i = Some 34" using d' by (simp add: byte_at_hd)
  have s: "skip_string s i = Some (i + length key + 2)" by (rule skip_string_drop [OF d' plain_body [OF p]])
  then show "skip_string s i = Some (i + length (quoted key))" by (simp add: quoted_def)
  let ?j = "i + length key + 2"
  have dj: "drop ?j s = 58 # 32 # cst_text c @ comma @ post"
    using drop_step [of i s "34 # key @ [34]"] d' by simp
  have w: "skip_ws s ?j = ?j" using skip_ws_drop [of ?j s "[]" 58] dj by (simp add: ascii_ws_def)
  have bj: "byte_at s ?j = Some 58" using dj by (simp add: byte_at_hd)
  have dj1: "drop (?j + 1) s = [32] @ cst_text c @ comma @ post" using drop_byte [OF dj] by simp
  have v: "skip_ws s (?j + 1) = ?j + 2"
    using skip_ws_drop_solid [OF dj1 _ text_solid [OF L c]] by (simp add: json_ws_def)
  have dv: "drop (?j + 2) s = cst_text c @ comma @ post" using drop_step [OF dj1] by simp
  from after_value [OF L c dv k] show "chunk_end s i = Some (i + length (quoted key) + 2 + length (cst_text c) + length comma)"
    by (simp only: chunk_end_def Let_def b s w bj v option.case if_True simp_thms) (simp add: quoted_def)
qed

lemma chunk_end_line:
  assumes L: "syntax_laws un num" and b: "un body = Some cmd" and e: "e \<in> set entries" and k: "closes comma post"
    and d: "drop i s = chunk_pre k (en_event e) @ cst_text (group_cst body e) @ chunk_post k @ comma @ post"
  shows "chunk_end s i = Some (i + length (chunk_pre k (en_event e) @ cst_text (group_cst body e) @ chunk_post k @ comma))"
    "ours s i"
proof -
  have eok: "entry_ok e" using e entries_ok by (simp add: list_all_iff)
  then have ev: "plain (en_event e)" "un (en_event e) = Some (en_event e)" using syntax_lawsD(2) [OF L] by (simp_all add: entry_ok_def)
  note g = group_cst_ok [OF L b eok]
  let ?g = "group_cst body e"
  have key: "ours s i" if "skip_string s i = Some (i + length (quoted key))" "drop i s = quoted key @ r"
    "key = lit ''hooks'' \<or> (\<exists>e\<in>set entries. en_event e = key)" for key r
  proof -
    have "byte_at s i = Some 34" using that(2) by (simp add: byte_at_hd quoted_def)
    moreover have "take (length key) (drop (i + 1) s) = key"
      using drop_byte [of i s 34 "key @ 34 # r"] that(2) by (simp add: quoted_def)
    ultimately show ?thesis using that(1,3) by (auto simp: ours_def quoted_def list_ex_iff simp del: lit_Cons)
  qed
  consider "k = 0" | "k = 1" | "1 < k" by linarith
  then have "chunk_end s i = Some (i + length (chunk_pre k (en_event e) @ cst_text ?g @ chunk_post k @ comma)) \<and> ours s i"
  proof cases
    case 1
    obtain y where y: "cst_text ?g = 123 # y" by (simp add: group_cst_def)
    have d1: "drop i s = cst_text ?g @ comma @ post" using d 1 by (simp add: chunk_pre_def chunk_post_def)
    have "ours s i" using d1 y by (simp add: ours_def byte_at_drop [of i s 123])
    with chunk_end_value [OF L g(1) y d1 k] 1 show ?thesis by (simp add: chunk_pre_def chunk_post_def)
  next
    case 2
    have d2: "drop i s = quoted (en_event e) @ lit '': '' @ cst_text (event_arr ?g) @ comma @ post"
      using d 2 by (simp add: chunk_pre_def chunk_post_def)
    have "cst_ok un num (event_arr ?g)" using g(1) by simp
    note m = chunk_end_member [OF L this ev(1) d2 k]
    have "ours s i" by (rule key [OF m(2) d2]) (use e in blast)
    with m(1) 2 show ?thesis by (simp add: chunk_pre_def chunk_post_def)
  next
    case 3
    have d3: "drop i s = quoted (lit ''hooks'') @ lit '': '' @ cst_text (hooks_obj (en_event e) ?g) @ comma @ post"
      using d 3 by (simp add: chunk_pre_def chunk_post_def hooks_obj_props(1))
    have "cst_ok un num (hooks_obj (en_event e) ?g)"
      using g(1) hooks_obj_props(2) [where un = un and ev = "en_event e", OF ev(2)] by simp
    note m = chunk_end_member [OF L this _ d3 k]
    have pl: "plain (lit ''hooks'')" by (simp add: plain_def)
    have "ours s i" by (rule key [OF m(2) [OF pl] d3]) blast
    with m(1) [OF pl] 3 show ?thesis by (simp add: chunk_pre_def chunk_post_def hooks_obj_props(1))
  qed
  then show "chunk_end s i = Some (i + length (chunk_pre k (en_event e) @ cst_text ?g @ chunk_post k @ comma))" "ours s i"
    by blast+
qed

lemma starts_within: "starts k (a @ r) \<and> length k \<le> length a \<longleftrightarrow> starts k a"
  by (auto simp: starts_append append_eq_append_conv2)

lemma count_hits:
  "drop a s = chunk @ r \<Longrightarrow>
   length (filter (\<lambda>i. take (length k) (drop i s) = k \<and> i + length k \<le> a + length chunk) [a..<a + length chunk]) = hits (starts k) chunk []"
proof (induction chunk arbitrary: a)
  case (Cons c chunk)
  have d: "drop (a + 1) s = chunk @ r" using Cons.prems drop_byte by (metis append_Cons)
  have u: "[a..<a + length (c # chunk)] = a # [a + 1..<a + 1 + length chunk]" 
    using upt_conv_Cons [of a "a + length (c # chunk)"] by simp
  have h: "take (length k) (drop a s) = k \<and> a + length k \<le> a + length (c # chunk) \<longleftrightarrow> starts k (c # chunk)"
    using starts_within [of k "c # chunk" r] Cons.prems by (auto simp: starts_iff)
  have l: "a + length (c # chunk) = a + 1 + length chunk" by simp
  let ?P = "\<lambda>i. take (length k) (drop i s) = k \<and> i + length k \<le> a + length (c # chunk)"
  have "length (filter ?P [a..<a + length (c # chunk)]) = (if ?P a then 1 else 0) + length (filter ?P [a + 1..<a + 1 + length chunk])"
    unfolding u by simp
  also have "length (filter ?P [a + 1..<a + 1 + length chunk]) = hits (starts k) chunk []"
    using Cons.IH [OF d] unfolding l .
  finally show ?case unfolding h by simp
qed simp

lemma line_chunk: "group_line ser e bin = cst_text (group_cst body e)" if "ser bin = quoted body"
  using group_line_text that by simp

lemma group_text_parts: "cst_text (group_cst body e) = group_open @ 34 # body @ 34 # group_mid e @ group_close e"
  using group_line_parts [of "\<lambda>_. quoted body" undefined body e] group_line_text [of "\<lambda>_. quoted body" undefined body e] by simp

definition line_chunk_text :: "str \<Rightarrow> nat \<Rightarrow> hook_entry \<Rightarrow> str \<Rightarrow> str" where
  "line_chunk_text body k e comma = chunk_pre k (en_event e) @ cst_text (group_cst body e) @ chunk_post k @ comma"

lemma line_chunk_split: "line_head body ind k e @ line_tail k e comma = ind @ line_chunk_text body k e comma"
  by (simp add: line_head_def line_tail_def line_chunk_text_def group_text_parts)

lemma line_chunk_start: "\<exists>c y. line_chunk_text body k e comma = c # y \<and> \<not> inline_ws c"
proof -
  obtain y where y: "group_open = 123 # y" using group_open_facts(3) by blast
  show ?thesis unfolding line_chunk_text_def group_text_parts y by (simp add: chunk_pre_def quoted_def inline_ws_def)
qed

lemma line_commands:
  assumes "e \<in> set entries" "str_body body" "comma = [] \<or> comma = [44]"
  shows "hits command_at (line_chunk_text body k e comma) [] = 1"
proof -
  have "hits command_at (line_head body [] k e @ line_tail k e comma) [] = 1"
    using line_head_hits(2) [OF assms(1,2)] group_close_facts(2) [OF assms(1)] chunk_post_facts(1) assms(3)
    by (auto simp: hits_append line_tail_def)
  then show ?thesis using line_chunk_split [of body "[]" k e comma] by simp
qed

lemma line_span:
  assumes L: "syntax_laws un num" and b: "un body = Some cmd"
    and s: "s = pre @ b # (nl @ line_head body ind k e @ line_tail k e comma) @ post" and bb: "b = 123 \<or> b = 91"
    and pre: "first_mark pre = None" and nl: "nl = [10] \<or> nl = [13, 10]" and ind: "list_all inline_ws ind"
    and e: "e \<in> set entries" and c: "closes comma post"
  shows "find_marker s 0 = Some (length pre + 1 + length nl + length (line_head body ind k e))"
    "chunk_span s (length pre + 1 + length nl + length (line_head body ind k e))
       = Some (length pre + 1, length pre + 1 + length (nl @ line_head body ind k e @ line_tail k e comma))"
proof -
  let ?h = "line_head body ind k e" and ?m = "length pre + 1 + length nl + length (line_head body ind k e)"
  have sb: "str_body body" using syntax_lawsD(1) [OF L] b by simp
  have cc: "comma = [] \<or> comma = [44]" using c by (auto simp: closes_def)
  let ?r = "chunk_post k @ comma @ post"
  have h0: "hits mark pre (b # x) = 0" for x using hits_cut [OF bb] pre by (simp add: first_mark_hits)
  have h0': "hits mark pre (((b # nl) @ x) @ y) = 0" for x y using h0 by simp
  have n0: "hits mark (b # nl) x = 0" for x using nl bb by auto
  have q: "hits mark (pre @ (b # nl) @ ?h) (group_close e @ ?r) = 0"
    by (simp only: hits_append h0' n0 line_head_hits(1) [OF e sb ind] add_0_left)
  have g: "first_mark (group_close e @ ?r) = Some 0"
  proof -
    have "mark (group_close e @ ?r)" by (rule group_close_facts(1) [OF e])
    then show ?thesis by (cases "group_close e @ ?r") auto
  qed
  have s': "s = (pre @ (b # nl) @ ?h) @ group_close e @ ?r" using s by (simp add: line_tail_def)
  show "find_marker s 0 = Some ?m"
    unfolding find_marker_first drop_0 by (subst s', subst first_mark_quiet [OF q], subst g) simp
  have ln: "last_newline s ?m = Some (length (pre @ b # butlast nl))"
    by (rule last_newline_at [OF _ line_head_no_break [OF e sb ind], of _ _ k "line_tail k e comma @ post"])
      (use s nl in auto)
  let ?n = "length (pre @ b # butlast nl)" and ?t = "line_chunk_text body k e comma"
  have n: "?n + 1 = length pre + 1 + length nl" using nl by auto
  have dn: "drop (?n + 1) s = ind @ ?t @ post"
    using s line_chunk_split [of body ind k e comma] nl by auto
  obtain x y where xy: "?t = x # y" "\<not> inline_ws x" using line_chunk_start by blast
  have ls: "skip_ws_inline s (?n + 1) = ?n + 1 + length ind"
    using ind xy unfolding skip_ws_inline_def skip_while_len dn
    by (simp add: takeWhile_append2 list_all_iff)
  have dt: "drop (?n + 1 + length ind) s = ?t @ post" by (rule drop_step [OF dn])
  let ?a = "?n + 1 + length ind"
  have ce: "chunk_end s ?a = Some (?a + length ?t)" "ours s ?a"
    using chunk_end_line [OF L b e c, of ?a s k] dt by (simp_all add: line_chunk_text_def)
  have st: "(if 0 < ?n \<and> s ! (?n - 1) = 13 then ?n - 1 else ?n) = length pre + 1"
    using nl bb s by (auto simp: nth_append)
  have mk: "?a \<le> ?m \<and> ?m < ?a + length ?t"
  proof -
    have "length ?h + length (line_tail k e comma) = length ind + length ?t"
      using line_chunk_split [of body ind k e comma] by (metis length_append)
    moreover have "0 < length (line_tail k e comma)" by (simp add: line_tail_def group_close_def quoted_def)
    moreover have "length ind \<le> length ?h" by (simp add: line_head_def)
    ultimately show ?thesis using n by linarith
  qed
  have cnt: "length (filter (\<lambda>i. take (length command_key) (drop i s) = command_key \<and> i + length command_key \<le> ?a + length ?t)
      [?a..<?a + length ?t]) = 1"
    using count_hits [OF dt, of command_key] line_commands [OF e sb cc] by (simp add: command_at_def [abs_def])
  have en: "?a + length ?t = length pre + 1 + length (nl @ ?h @ line_tail k e comma)"
    using n line_chunk_split [of body ind k e comma] by simp
  show "chunk_span s ?m = Some (length pre + 1, length pre + 1 + length (nl @ ?h @ line_tail k e comma))"
    unfolding chunk_span_def ln option.case Let_def ls ce(1) st cnt
    using ce(2) mk en by (simp only: if_False not_True_eq_False simp_thms)
qed

section \<open>The two loops\<close>

text \<open>\<open>wired body src t\<close>: \<open>t\<close> is \<open>src\<close> with lines inserted behind brackets, and deleting the first marked
  line of \<open>t\<close> again and again leads back to \<open>src\<close>.\<close>

inductive wired :: "str \<Rightarrow> str \<Rightarrow> str \<Rightarrow> bool" for body src where
  wired_src: "first_mark src = None \<Longrightarrow> wired body src src"
| wired_line: "wired body src (pre @ b # post) \<Longrightarrow> b = 123 \<or> b = 91 \<Longrightarrow> first_mark pre = None \<Longrightarrow> is_line body L post
    \<Longrightarrow> wired body src (pre @ b # L @ post)"

lemma first_mark_prefix: "first_mark (a @ x) = None \<Longrightarrow> first_mark a = None"
proof -
  assume "first_mark (a @ x) = None"
  then have "hits mark a (x @ []) = 0" by (simp add: first_mark_hits hits_append)
  then have "hits mark a ([] @ x) = 0" by simp
  then show ?thesis using hits_mono by (simp add: first_mark_hits)
qed

lemma is_line_after: "is_line body L (P @ b' # Q) \<Longrightarrow> b' = 123 \<or> b' = 91 \<Longrightarrow> is_line body L (P @ b' # Q')"
proof -
  assume l: "is_line body L (P @ b' # Q)" and b: "b' = 123 \<or> b' = 91"
  have "closes comma (P @ b' # Q')" if "closes comma (P @ b' # Q)" for comma
    using that b by (cases P) (auto simp: closes_def ends_value_def scalar_byte_def ascii_ws_def)
  with l show ?thesis unfolding is_line_def by blast
qed

text \<open>Another line, inserted behind any bracket, goes in front of the first marker or behind its line.\<close>

lemma wired_insert:
  assumes L: "syntax_laws un num" and b: "un body = Some cmd"
  shows "wired body src T \<Longrightarrow> T = P @ b' # Q \<Longrightarrow> b' = 123 \<or> b' = 91 \<Longrightarrow> is_line body N Q \<Longrightarrow> wired body src (P @ b' # N @ Q)"
proof (induction arbitrary: P Q rule: wired.induct)
  case wired_src
  then have "first_mark P = None" using first_mark_prefix by metis
  with wired_src show ?case by (metis wired.wired_line wired.wired_src)
next
  case (wired_line pre c post L0)
  have T: "wired body src (pre @ c # L0 @ post)" using wired_line.hyps by (rule wired.wired_line)
  obtain nl ind k e comma where l: "L0 = nl @ line_head body ind k e @ line_tail k e comma"
    "nl = [10] \<or> nl = [13, 10]" "list_all inline_ws ind" "e \<in> set entries" "closes comma post"
    using wired_line.hyps(4) unfolding is_line_def by blast
  let ?m = "length pre + 1 + length nl + length (line_head body ind k e)"
  have "find_marker (pre @ c # L0 @ post) 0 = Some ?m"
    by (rule line_span(1) [OF L b _ wired_line.hyps(2,3) l(2-5)]) (simp add: l(1))
  then have m: "first_mark (P @ b' # Q) = Some ?m" using wired_line.prems(1) by (simp add: find_marker_first)
  show ?case
  proof (cases "length P \<le> ?m")
    case True
    from first_mark_before [OF m True] T wired_line.prems show ?thesis by (metis wired.wired_line)
  next
    case False
    let ?h = "pre @ c # nl @ line_head body ind k e" and ?t = "line_tail k e comma"
    have split: "?h @ ?t @ post = P @ b' # Q" using wired_line.prems(1) l(1) by simp
    have len: "length ?h = ?m" by simp
    have "length (?h @ ?t) \<le> length P"
    proof (rule ccontr)
      assume "\<not> length (?h @ ?t) \<le> length P"
      then have lt: "length P < length (?h @ ?t)" by simp
      have "b' = (P @ b' # Q) ! length P" by simp
      also have "\<dots> = ((?h @ ?t) @ post) ! length P" using split by simp
      also have "\<dots> = (?h @ ?t) ! length P" by (rule nth_append_left [OF lt])
      also have "\<dots> = ?t ! (length P - length ?h)" using False len by (simp only: nth_append) simp
      finally have e: "b' = ?t ! (length P - length ?h)" .
      have "length P - length ?h < length ?t" using lt False len by simp
      then have "b' \<in> set ?t" using nth_mem e by metis
      with line_tail_no_bracket [OF l(4), of comma k] l(5) wired_line.prems(2) show False
        by (auto simp: list_all_iff closes_def)
    qed
    moreover have "(?h @ ?t) @ post = P @ b' # Q" using split by simp
    ultimately obtain P2 where P2: "P = ?h @ ?t @ P2" "post = P2 @ b' # Q"
      unfolding append_eq_append_conv_if by (metis append.assoc append_take_drop_id)
    have p: "wired body src ((pre @ c # P2) @ b' # N @ Q)"
      by (rule wired_line.IH) (use P2(2) wired_line.prems in simp_all)
    have "wired body src (pre @ c # L0 @ P2 @ b' # N @ Q)"
    proof (rule wired.wired_line)
      show "wired body src (pre @ c # P2 @ b' # N @ Q)" using p by simp
      show "is_line body L0 (P2 @ b' # N @ Q)"
        using is_line_after [of body L0 P2 b' Q "N @ Q"] wired_line.hyps(4) P2(2) wired_line.prems(2) by simp
    qed (use wired_line.hyps in simp_all)
    then show ?thesis using P2(1) l(1) by simp
  qed
qed

text \<open>The removal loop takes the lines out again.\<close>

lemma wired_removed:
  assumes L: "syntax_laws un num" and b: "un body = Some cmd"
  shows "wired body src T \<Longrightarrow> \<exists>ch'. remove_markers \<lparr>sp_text = T, sp_changed = ch\<rparr> 0 = \<lparr>sp_text = src, sp_changed = ch @ ch'\<rparr>
     \<and> (T \<noteq> src \<longrightarrow> ch' \<noteq> [])"
proof (induction arbitrary: ch rule: wired.induct)
  case wired_src
  then have "find_marker src 0 = None" by (simp add: find_marker_first)
  then show ?case by (subst remove_markers.simps) simp
next
  case (wired_line pre c post L0)
  obtain nl ind k e comma where l: "L0 = nl @ line_head body ind k e @ line_tail k e comma"
    "nl = [10] \<or> nl = [13, 10]" "list_all inline_ws ind" "e \<in> set entries" "closes comma post"
    using wired_line.hyps(4) unfolding is_line_def by blast
  let ?T = "pre @ c # L0 @ post"
  note sp = line_span [OF L b _ wired_line.hyps(2,3) l(2-5), of ?T k, folded l(1)]
  let ?m = "length pre + 1 + length nl + length (line_head body ind k e)"
  let ?x = "trim_start (take (length pre + 1 + length L0 - (length pre + 1)) (drop (length pre + 1) ?T))"
  have cut: "take (length pre + 1) ?T @ drop (length pre + 1 + length L0) ?T = pre @ c # post" by simp
  have "remove_markers \<lparr>sp_text = ?T, sp_changed = ch\<rparr> 0 = remove_markers \<lparr>sp_text = pre @ c # post, sp_changed = ch @ [?x]\<rparr> 0"
    using sp cut by (subst remove_markers.simps) simp
  moreover obtain ch' where "remove_markers \<lparr>sp_text = pre @ c # post, sp_changed = ch @ [?x]\<rparr> 0
      = \<lparr>sp_text = src, sp_changed = (ch @ [?x]) @ ch'\<rparr>" using wired_line.IH by blast
  ultimately show ?case by (intro exI [of _ "?x # ch'"]) simp
qed

lemma insertion_shape:
  assumes "insertion s doc ev line = Inr (pos, chunk)"
  obtains k i where "pos = i + 1" "chunk = chunk_pre k ev @ line @ chunk_post k @ trailing_comma s i"
proof -
  let ?C = "\<lambda>k i. chunk_pre k ev @ line @ chunk_post k @ trailing_comma s i"
  have c: "chunk_pre 0 ev = []" "chunk_pre 1 ev = quoted ev @ lit '': [''"
    "chunk_pre 2 ev = quoted (lit ''hooks'') @ lit '': {'' @ quoted ev @ lit '': [''"
    "chunk_post 0 = []" "chunk_post 1 = lit '']''" "chunk_post 2 = lit '']}''"
    by (simp_all add: chunk_pre_def chunk_post_def)
  have "\<exists>k i. pos = i + 1 \<and> chunk = ?C k i"
  proof (cases "jget doc (lit ''hooks'')")
    case None
    with assms have "pos = skip_ws s 0 + 1 \<and> chunk = ?C 2 (skip_ws s 0)"
      unfolding c insertion_def by (simp add: Let_def)
    then show ?thesis by blast
  next
    case (Some hooks)
    with assms obtain h where h: "is_object hooks" "find_member s (skip_ws s 0) (lit ''hooks'') = Inr h"
      unfolding insertion_def by (auto simp: Let_def simp del: lit_Cons split: if_splits sum.splits)
    show ?thesis
    proof (cases "jget hooks ev")
      case None
      with assms Some h have "pos = h + 1 \<and> chunk = ?C 1 h"
        unfolding c insertion_def by (simp add: Let_def del: lit_Cons)
      then show ?thesis by blast
    next
      case arr: (Some arr)
      with assms Some h obtain q where "is_array arr" "find_member s h ev = Inr q"
        unfolding insertion_def by (auto simp: Let_def simp del: lit_Cons split: if_splits sum.splits)
      with assms Some h arr have "pos = q + 1 \<and> chunk = ?C 0 q"
        unfolding c insertion_def by (simp add: Let_def del: lit_Cons)
      then show ?thesis by blast
    qed
  qed
  with that show thesis by blast
qed

lemma trailing_closes: "s = P @ b # Q \<Longrightarrow> closes (trailing_comma s (length P)) Q"
proof -
  assume s: "s = P @ b # Q"
  have "drop (length P + 1) s = Q" using s by simp
  then have d: "drop (skip_ws s (length P + 1)) s = dropWhile ascii_ws Q" by (simp only: drop_skip_ws)
  have e: "ends_value Q" "\<forall>y. Q \<noteq> 44 # y" if "dropWhile ascii_ws Q = [] \<or> (\<exists>c r. dropWhile ascii_ws Q = c # r \<and> (c = 125 \<or> c = 93))"
    using that by (cases Q; auto simp: ends_value_def scalar_byte_def ascii_ws_def split: if_splits)+
  show ?thesis
  proof (cases "dropWhile ascii_ws Q")
    case Nil
    with d have "drop (skip_ws s (length P + 1)) s = []" by (simp only:)
    then have "byte_at s (skip_ws s (length P + 1)) = None" by (simp add: byte_at_def)
    with e Nil show ?thesis by (simp add: trailing_comma_def closes_def)
  next
    case (Cons c r)
    then have "byte_at s (skip_ws s (length P + 1)) = Some c" using d by (simp add: byte_at_hd)
    with e Cons show ?thesis by (auto simp: trailing_comma_def closes_def)
  qed
qed

lemma install_all_wired:
  assumes L: "syntax_laws un num" and P: "accepts un num parse" and b: "ser bin = quoted body" "un body = Some cmd"
  shows "set es \<subseteq> set entries \<Longrightarrow> doc_text un num False (sp_text sp) doc \<Longrightarrow> is_object doc \<Longrightarrow> wired body src (sp_text sp)
    \<Longrightarrow> install_all parse ser bin es sp = Inr sp' \<Longrightarrow> wired body src (sp_text sp')"
proof (induction es arbitrary: sp doc)
  case (Cons e es)
  let ?s = "sp_text sp"
  have e: "e \<in> set entries" "set es \<subseteq> set entries" "entry_ok e" using Cons.prems(1) entries_ok by (auto simp: list_all_iff)
  from install_one_cases [where un = un and ser = ser and bin = bin and body = body and cmd = cmd, OF L P Cons.prems(2,3) b e(3,1)]
  show ?case
  proof cases
    case 1
    with Cons.prems(5) show ?thesis by simp
  next
    case (2 pos chunk)
    from insertion_shape [OF 2(1)] obtain k i where ki: "pos = i + 1"
      "chunk = chunk_pre k (en_event e) @ group_line ser e bin @ chunk_post k @ trailing_comma ?s i" .
    from 2(2) obtain X c Q where q: "?s = X @ c # Q" "pos = length X + 1" "c = 123 \<or> c = 91"
      unfolding bracket_before_def by blast
    have i: "i = length X" using ki(1) q(2) by simp
    let ?N = "line_break ?s @ inner_indent ?s pos @ chunk"
    have "?N = line_break ?s @ line_head body (inner_indent ?s pos) k e @ line_tail k e (trailing_comma ?s i)"
      using ki(2) line_chunk_split [of body "inner_indent ?s pos" k e "trailing_comma ?s i"] group_line_text [where ser = ser and bin = bin and body = body, OF b(1), of e]
      by (simp add: line_chunk_text_def)
    moreover have "line_break ?s = [10] \<or> line_break ?s = [13, 10]" by (simp add: line_break_def)
    ultimately have n: "is_line body ?N Q"
      using inner_indent_inline e(1) trailing_closes [OF q(1)] unfolding is_line_def i by blast
    let ?sp = "\<lparr>sp_text = take pos ?s @ line_break ?s @ inner_indent ?s pos @ chunk @ drop pos ?s,
        sp_changed = sp_changed sp @ [inner_indent ?s pos @ chunk]\<rparr>"
    have "sp_text ?sp = X @ c # ?N @ Q" using q(1,2) by simp
    then have w: "wired body src (sp_text ?sp)"
      using wired_insert [OF L b(2) Cons.prems(4) q(1,3) n] by simp
    have d: "doc_text un num False (sp_text ?sp) (wire_event (en_event e) (group_json cmd e) doc)" using 2(4) by simp
    have r: "install_all parse ser bin es ?sp = Inr sp'" using Cons.prems(5) 2(3) by simp
    from Cons.IH [OF e(2) d wire_event_object w r] show ?thesis .
  qed
qed simp

lemma uninstall_after_install:
  assumes L: "syntax_laws un num" and P: "accepts un num parse" and b: "ser bin = quoted body" "un body = Some cmd"
    and d: "json_doc un num src doc" and f: "find_marker src 0 = None" "wired_events doc = []"
    and i: "install parse ser src bin = Inr sp"
  shows "\<exists>ch. uninstall parse (sp_text sp) = Inr \<lparr>sp_text = src, sp_changed = ch\<rparr>"
proof -
  have d': "doc_text un num False src doc" by (rule doc_text_weaken [OF d])
  have ne: "missing doc \<noteq> []" using f(2) by (simp add: missing_def entries_def)
  from install_cases [where un = un and ser = ser and bin = bin and body = body and cmd = cmd, OF L P b d'] i ne
  have o: "is_object doc" and r: "doc_text un num False (sp_text sp) (wire_doc cmd (missing doc) doc)"
    and a: "install_all parse ser bin (missing doc) \<lparr>sp_text = src, sp_changed = []\<rparr> = Inr sp" by simp_all
  have "first_mark src = None" using f(1) by (simp add: find_marker_first)
  then have w0: "wired body src (sp_text \<lparr>sp_text = src, sp_changed = []\<rparr>)" by (simp add: wired.wired_src)
  have m: "set (missing doc) \<subseteq> set entries" by (auto simp: missing_def)
  have d0: "doc_text un num False (sp_text \<lparr>sp_text = src, sp_changed = []\<rparr>) doc" using d' by simp
  have "wired body src (sp_text sp)"
    by (rule install_all_wired [where un = un and ser = ser and bin = bin and cmd = cmd, OF L P b m d0 o w0 a])
  from wired_removed [OF L b(2) this, of "[]"] obtain ch
    where ch: "remove_markers \<lparr>sp_text = sp_text sp, sp_changed = []\<rparr> 0 = \<lparr>sp_text = src, sp_changed = ch\<rparr>" "sp_text sp \<noteq> src \<longrightarrow> ch \<noteq> []"
    by auto
  have p: "parse src = Some doc" "parse (sp_text sp) \<noteq> None"
    using acceptsD [OF P d] acceptsD [OF P doc_text_doc [OF r]] by simp_all
  show ?thesis
  proof (cases "ch = []")
    case True
    with ch p f(2) show ?thesis by (intro exI [of _ "[]"]) (simp add: uninstall_def)
  next
    case False
    with ch(1) p f(2) show ?thesis by (intro exI [of _ ch]) (simp add: uninstall_def validate_def Let_def)
  qed
qed

section \<open>An instance of the parameters\<close>

text \<open>Strings that denote their bytes, numbers in digits, and the parser the grammar determines.\<close>

definition bytes_of_body :: "str \<Rightarrow> str option" where
  "bytes_of_body b = (if str_body b then Some b else None)"

definition digits_num :: "str \<Rightarrow> jnum option" where
  "digits_num t = (if t \<noteq> [] \<and> list_all is_ascii_digit t then Some (NInt (int (foldl (\<lambda>n c. 10 * n + (c - 48)) 0 t))) else None)"

definition reader :: "(str \<Rightarrow> str option) \<Rightarrow> (str \<Rightarrow> jnum option) \<Rightarrow> str \<Rightarrow> json option" where
  "reader un num t = (if \<exists>v. json_doc un num t v then Some (THE v. json_doc un num t v) else None)"

lemma digits_nat_str: "nat_str n \<noteq> [] \<and> foldl (\<lambda>n c. 10 * n + (c - 48)) 0 (nat_str n) = n"
proof (induction n rule: nat_str.induct)
  case (1 n)
  then show ?case by (subst (1 2) nat_str.simps) simp
qed

lemma instance_laws: "syntax_laws bytes_of_body digits_num"
proof -
  have "list_all is_ascii_digit (nat_str n)" for n
    using nat_str_digits by (auto simp: list_all_iff is_ascii_digit_def)
  then show ?thesis
    using digits_nat_str by (auto simp: syntax_laws_def bytes_of_body_def digits_num_def plain_body number_byte_def list_all_iff)
qed

lemma reader_accepts: "syntax_laws un num \<Longrightarrow> accepts un num (reader un num)"
proof -
  assume L: "syntax_laws un num"
  have "reader un num t = Some v" if d: "json_doc un num t v" for t v
  proof -
    have "(THE v. json_doc un num t v) = v"
      by (rule the_equality, rule d, rule json_doc_unique [OF L _ d])
    with d show ?thesis unfolding reader_def by auto
  qed
  then show ?thesis by (simp add: accepts_def)
qed

definition sample_bin :: str where
  "sample_bin = lit ''/opt/memgarden''"

abbreviation "sample_reader \<equiv> reader bytes_of_body digits_num"

lemma sample_bin_body: "bytes_of_body sample_bin = Some sample_bin"
  by (simp add: bytes_of_body_def sample_bin_def)

definition sample_src :: str where
  "sample_src = [123, 10, 32, 32] @ quoted (lit ''model'') @ [58, 32] @ quoted (lit ''opus'') @ [10, 125, 10]"

definition sample_doc :: json where
  "sample_doc = JObj [(lit ''model'', JStr (lit ''opus''))]"

lemma sample_text: "doc_text bytes_of_body digits_num True sample_src sample_doc"
  unfolding doc_text_def
  by (rule exI [of _ "[]"], rule exI [of _ "CObj [] [Mem [10, 32, 32] (lit ''model'') [] [32] (CStr (lit ''opus'')) [10]]"],
      rule exI [of _ "[10]"])
    (simp add: obj_of_def sample_src_def sample_doc_def quoted_def json_ws_def bytes_of_body_def)

lemma sample_unwired: "wired_events sample_doc = []" "missing sample_doc = entries"
  by (simp_all add: missing_def wired_events_def groups_def sample_doc_def)

lemma sample_unmarked: "find_marker sample_src 0 = None"
  by (simp add: find_marker_first sample_src_def quoted_def)

section \<open>The properties\<close>

text \<open>C7: on a text of the JSON grammar, installing refines adding one group per missing event to the
  document: the edited text denotes exactly that document, in which all four events are wired and nothing
  else has changed. A document whose \<open>hooks\<close> member the editor can work on is never refused, and otherwise
  the only errors are the ones that name the misshapen member.\<close>

theorem install_refines:
  assumes "syntax_laws un num" "accepts un num parse" "ser bin = quoted body" "un body = Some cmd" "doc_text un num E src doc"
  shows "case install parse ser src bin of
      Inl err \<Rightarrow> \<not> E \<and> (err = SNotAnObject \<and> \<not> is_object doc \<or> is_object doc \<and> shape_error err)
    | Inr sp \<Rightarrow> json_doc un num (sp_text sp) (wire_doc cmd (missing doc) doc)
        \<and> wired_events (wire_doc cmd (missing doc) doc) = map en_event entries"
proof -
  have o: "is_object doc" if E
  proof -
    from assms(5) that obtain c where "doc = cst_val un num c" "editable un c" unfolding doc_text_def by blast
    then show ?thesis by (cases c) simp_all
  qed
  from install_cases [where un = un and ser = ser and bin = bin and body = body and cmd = cmd, OF assms] o
  show ?thesis by (cases "install parse ser src bin") (auto simp: wired_all doc_text_doc)
qed

theorem install_refines_witness:
  "\<exists>sp. install sample_reader quoted sample_src sample_bin = Inr sp
     \<and> json_doc bytes_of_body digits_num (sp_text sp) (wire_doc sample_bin entries sample_doc)"
proof -
  have q: "quoted sample_bin = quoted sample_bin" ..
  from install_refines [where ser = quoted and bin = sample_bin and body = sample_bin, OF instance_laws reader_accepts [OF instance_laws] q
      sample_bin_body sample_text] show ?thesis
    by (cases "install sample_reader quoted sample_src sample_bin") (auto simp: sample_unwired simp del: lit_Cons)
qed

text \<open>installing is idempotent: on its own result \<open>install\<close> changes nothing, whatever binary it is given.\<close>

lemma install_idempotent:
  assumes "syntax_laws un num" "accepts un num parse" "ser bin = quoted body" "un body = Some cmd" "json_doc un num src doc"
    and "install parse ser src bin = Inr sp"
  shows "install parse ser' (sp_text sp) bin' = Inr \<lparr>sp_text = sp_text sp, sp_changed = []\<rparr>"
proof -
  from install_cases [where un = un and ser = ser and bin = bin and body = body and cmd = cmd, OF assms(1-4) doc_text_weaken [OF assms(5)]] assms(6)
  have r: "doc_text un num False (sp_text sp) (wire_doc cmd (missing doc) doc)" and o: "is_object doc" by simp_all
  have "is_object (wire_doc cmd (missing doc) doc)" by (rule wire_doc_object [OF o])
  with acceptsD [OF assms(2) doc_text_doc [OF r]] missing_nothing [of cmd doc] show ?thesis
    by (simp add: install_def missing_def [symmetric])
qed

text \<open>C8: uninstalling after installing restores the text byte by byte: a document with no trace of memgarden,
  installed into and uninstalled from, is the text it was, whatever its layout and line ends.\<close>

theorem uninstall_undoes_install:
  assumes "syntax_laws un num" "accepts un num parse" "ser bin = quoted body" "un body = Some cmd" "json_doc un num src doc"
    and "find_marker src 0 = None" "wired_events doc = []" "install parse ser src bin = Inr sp"
  shows "\<exists>ch. uninstall parse (sp_text sp) = Inr \<lparr>sp_text = src, sp_changed = ch\<rparr>"
  by (rule uninstall_after_install [where un = un and ser = ser and bin = bin and body = body and cmd = cmd, OF assms])

theorem uninstall_undoes_install_witness:
  "\<exists>sp ch. install sample_reader quoted sample_src sample_bin = Inr sp
     \<and> uninstall sample_reader (sp_text sp) = Inr \<lparr>sp_text = sample_src, sp_changed = ch\<rparr>"
proof -
  have q: "quoted sample_bin = quoted sample_bin" ..
  from install_cases [where ser = quoted and bin = sample_bin and body = sample_bin, OF instance_laws reader_accepts [OF instance_laws] q
      sample_bin_body sample_text]
  obtain sp where sp: "install sample_reader quoted sample_src sample_bin = Inr sp"
    by (cases "install sample_reader quoted sample_src sample_bin") (auto simp: sample_doc_def simp del: lit_Cons)
  from uninstall_undoes_install [where ser = quoted and bin = sample_bin and body = sample_bin, OF instance_laws reader_accepts [OF instance_laws] q
      sample_bin_body doc_text_doc [OF sample_text] sample_unmarked sample_unwired(1) sp]
  show ?thesis using sp by blast
qed

end
