(* ===== verification/Mental_Cron.thy ===== *)
theory Mental_Cron
  imports Rust_Text
begin

text \<open>
  \<open>crates/memgardend/src/mental/cron.rs\<close>: five-field cron expressions in UTC, the last time one fired
  and whether a mental model is due. The calendar (\<open>jiff\<close>) is a parameter: for a number of days since
  1970 it gives month, day of month and day of week, or nothing outside its range.
\<close>

section \<open>Numbers and fields\<close>

datatype cron_error =
    FieldCount nat
  | BadStep str
  | StepTooSmall str
  | NotANumber str
  | OutOfRange int int int
  | Inverted str

text \<open>\<open>str::parse::<i8>\<close>: an optional sign, then digits, within eight bits.\<close>

definition digits_value :: "str \<Rightarrow> int option" where
  "digits_value s =
     (if s \<noteq> [] \<and> list_all is_ascii_digit s then Some (foldl (\<lambda>n c. 10 * n + (int c - 48)) 0 s) else None)"

definition parse_i8 :: "str \<Rightarrow> int option" where
  "parse_i8 s =
     opt_filter (\<lambda>v. -128 \<le> v \<and> v \<le> 127)
       (case s of
          [] \<Rightarrow> None
        | c # cs \<Rightarrow> if c = 45 then map_option uminus (digits_value cs) else if c = 43 then digits_value cs else digits_value s)"

definition num :: "str \<Rightarrow> int \<Rightarrow> int \<Rightarrow> cron_error + int" where
  "num s lo hi =
     (case parse_i8 (trim s) of
        None \<Rightarrow> Inl (NotANumber s)
      | Some v \<Rightarrow> if v < lo \<or> v > hi then Inl (OutOfRange v lo hi) else Inr v)"

text \<open>\<open>(lo..=hi).step_by(step)\<close>.\<close>

definition stepped :: "int \<Rightarrow> int \<Rightarrow> int \<Rightarrow> int list" where
  "stepped lo hi step = filter (\<lambda>v. (v - lo) mod step = 0) [lo..hi]"

text \<open>The part of a field before the first \<open>'/'\<close>, and its step.\<close>

definition part_step :: "str \<Rightarrow> cron_error + str \<times> int" where
  "part_step part =
     (case split_once [47] part of
        None \<Rightarrow> Inr (part, 1)
      | Some (r, s) \<Rightarrow> (case parse_i8 s of None \<Rightarrow> Inl (BadStep part) | Some n \<Rightarrow> Inr (r, n)))"

definition part_bounds :: "str \<Rightarrow> str \<Rightarrow> int \<Rightarrow> int \<Rightarrow> cron_error + int \<times> int" where
  "part_bounds part rng lo hi =
     (if rng = [42] then Inr (lo, hi)
      else (case split_once [45] rng of
        Some (a, b) \<Rightarrow>
          (case num a lo hi of Inl e \<Rightarrow> Inl e | Inr x \<Rightarrow> (case num b lo hi of Inl e \<Rightarrow> Inl e | Inr y \<Rightarrow> Inr (x, y)))
      | None \<Rightarrow>
          (case num rng lo hi of Inl e \<Rightarrow> Inl e | Inr v \<Rightarrow> if contains [47] part then Inr (v, hi) else Inr (v, v))))"

definition parse_part :: "int \<Rightarrow> int \<Rightarrow> str \<Rightarrow> cron_error + int list" where
  "parse_part lo hi part =
     (case part_step part of
        Inl e \<Rightarrow> Inl e
      | Inr (rng, step) \<Rightarrow>
          (if step < 1 then Inl (StepTooSmall part)
           else (case part_bounds part rng lo hi of
             Inl e \<Rightarrow> Inl e
           | Inr (a, b) \<Rightarrow> if a > b then Inl (Inverted part) else Inr (stepped a b step))))"

fun parse_parts :: "int \<Rightarrow> int \<Rightarrow> str list \<Rightarrow> int list \<Rightarrow> cron_error + int list" where
  "parse_parts lo hi [] out = Inr out"
| "parse_parts lo hi (p # ps) out =
     (case parse_part lo hi p of Inl e \<Rightarrow> Inl e | Inr vs \<Rightarrow> parse_parts lo hi ps (out @ vs))"

definition parse_field :: "str \<Rightarrow> int \<Rightarrow> int \<Rightarrow> cron_error + int list" where
  "parse_field field lo hi =
     (case parse_parts lo hi (str_split [44] field) [] of Inl e \<Rightarrow> Inl e | Inr out \<Rightarrow> Inr (remdups_adj (sort out)))"

section \<open>Expressions\<close>

record cron =
  cr_minute :: "int list"
  cr_hour :: "int list"
  cr_dom :: "int list"
  cr_month :: "int list"
  cr_dow :: "int list"
  cr_dom_restricted :: bool
  cr_dow_restricted :: bool

definition cron_parse :: "str \<Rightarrow> cron_error + cron" where
  "cron_parse expr =
     (let fields = split_ws expr in
      if length fields \<noteq> 5 then Inl (FieldCount (length fields))
      else (case parse_field (fields ! 0) 0 59 of Inl e \<Rightarrow> Inl e | Inr mi \<Rightarrow>
           (case parse_field (fields ! 1) 0 23 of Inl e \<Rightarrow> Inl e | Inr ho \<Rightarrow>
           (case parse_field (fields ! 2) 1 31 of Inl e \<Rightarrow> Inl e | Inr dm \<Rightarrow>
           (case parse_field (fields ! 3) 1 12 of Inl e \<Rightarrow> Inl e | Inr mo \<Rightarrow>
           (case parse_field (fields ! 4) 0 7 of Inl e \<Rightarrow> Inl e | Inr dw \<Rightarrow>
             Inr \<lparr>cr_minute = mi, cr_hour = ho, cr_dom = dm, cr_month = mo, cr_dow = map (\<lambda>d. if d = 7 then 0 else d) dw,
                  cr_dom_restricted = (fields ! 2 \<noteq> [42]), cr_dow_restricted = (fields ! 4 \<noteq> [42])\<rparr>))))))"

section \<open>The last fire time\<close>

record civil_day =
  cd_month :: int
  cd_day :: int
  cd_weekday :: int

definition max_lookback_days :: nat where
  "max_lookback_days = 366 * 4"

definition ms_per_day :: int where
  "ms_per_day = 86400000"

definition matches_date :: "cron \<Rightarrow> civil_day \<Rightarrow> bool" where
  "matches_date c d \<longleftrightarrow>
     cd_month d \<in> set (cr_month c) \<and>
     (let dom_hit = cd_day d \<in> set (cr_dom c); dow_hit = cd_weekday d \<in> set (cr_dow c)
      in if cr_dom_restricted c \<and> cr_dow_restricted c then dom_hit \<or> dow_hit else dom_hit \<and> dow_hit)"

fun find_map :: "('a \<Rightarrow> 'b option) \<Rightarrow> 'a list \<Rightarrow> 'b option" where
  "find_map f [] = None"
| "find_map f (x # xs) = (case f x of Some y \<Rightarrow> Some y | None \<Rightarrow> find_map f xs)"

definition latest_minute_at_or_before :: "cron \<Rightarrow> int \<Rightarrow> int option" where
  "latest_minute_at_or_before c cutoff =
     find_map
       (\<lambda>h. let base = h * 60; room = cutoff - base
            in if room < 0 then None else map_option (\<lambda>m. base + m) (find (\<lambda>m. m \<le> room) (rev (cr_minute c))))
       (rev (cr_hour c))"

fun walk_back :: "(int \<Rightarrow> civil_day option) \<Rightarrow> cron \<Rightarrow> nat \<Rightarrow> int \<Rightarrow> int \<Rightarrow> int option" where
  "walk_back civil c 0 date cutoff = None"
| "walk_back civil c (Suc n) date cutoff =
     (case civil date of
        None \<Rightarrow> None
      | Some d \<Rightarrow>
          (case (if matches_date c d then latest_minute_at_or_before c cutoff else None) of
             Some mins \<Rightarrow> Some (date * ms_per_day + mins * 60000)
           | None \<Rightarrow> walk_back civil c n (date - 1) (23 * 60 + 59)))"

definition prev_fire :: "(int \<Rightarrow> civil_day option) \<Rightarrow> cron \<Rightarrow> int \<Rightarrow> int option" where
  "prev_fire civil c now_ms =
     walk_back civil c max_lookback_days (now_ms div ms_per_day) (now_ms mod ms_per_day div 60000)"

definition after_consolidation :: str where
  "after_consolidation = lit ''@after-consolidation''"

definition is_due :: "(int \<Rightarrow> civil_day option) \<Rightarrow> str \<Rightarrow> int option \<Rightarrow> int \<Rightarrow> bool" where
  "is_due civil expr last_refreshed_at now_ms =
     (if expr = after_consolidation then False
      else (case cron_parse expr of
              Inl e \<Rightarrow> False
            | Inr c \<Rightarrow>
                (case (last_refreshed_at, prev_fire civil c now_ms) of
                   (None, _) \<Rightarrow> True
                 | (Some l, Some prev) \<Rightarrow> prev > l
                 | (Some _, None) \<Rightarrow> False)))"

section \<open>Well-formed schedules\<close>

definition field_wf :: "int \<Rightarrow> int \<Rightarrow> int list \<Rightarrow> bool" where
  "field_wf lo hi xs \<longleftrightarrow> xs \<noteq> [] \<and> sorted_wrt (<) xs \<and> list_all (\<lambda>x. lo \<le> x \<and> x \<le> hi) xs"

definition cron_wf :: "cron \<Rightarrow> bool" where
  "cron_wf c \<longleftrightarrow>
     field_wf 0 59 (cr_minute c) \<and> field_wf 0 23 (cr_hour c) \<and> field_wf 1 31 (cr_dom c) \<and> field_wf 1 12 (cr_month c)
     \<and> cr_dow c \<noteq> [] \<and> list_all (\<lambda>x. 0 \<le> x \<and> x \<le> 6) (cr_dow c)"

lemma num_bounds: "num s lo hi = Inr v \<Longrightarrow> lo \<le> v \<and> v \<le> hi"
  by (auto simp: num_def split: option.splits if_splits)

lemma part_bounds_in: "part_bounds part rng lo hi = Inr (a, b) \<Longrightarrow> lo \<le> hi \<Longrightarrow> lo \<le> a \<and> b \<le> hi"
  by (auto simp: part_bounds_def split: if_splits option.splits sum.splits dest!: num_bounds)

lemma stepped_in: "set (stepped a b s) \<subseteq> {a..b}" and stepped_ne: "a \<le> b \<Longrightarrow> stepped a b s \<noteq> []"
  by (auto simp: stepped_def filter_empty_conv intro!: bexI [of _ a])

lemma parse_part_in:
  assumes "parse_part lo hi p = Inr vs" "lo \<le> hi"
  shows "vs \<noteq> [] \<and> set vs \<subseteq> {lo..hi}"
proof -
  obtain rng step a b where "part_bounds p rng lo hi = Inr (a, b)" "a \<le> b" "vs = stepped a b step"
    using assms(1) by (auto simp: parse_part_def split: sum.splits prod.splits if_splits)
  with part_bounds_in [OF this(1) assms(2)] stepped_in [of a b step] stepped_ne [of a b step] show ?thesis by fastforce
qed

lemma parse_parts_in:
  "parse_parts lo hi ps out = Inr vs \<Longrightarrow> lo \<le> hi \<Longrightarrow> set out \<subseteq> {lo..hi} \<Longrightarrow> ps \<noteq> [] \<or> out \<noteq> [] \<Longrightarrow> vs \<noteq> [] \<and> set vs \<subseteq> {lo..hi}"
proof (induction ps arbitrary: out)
  case (Cons p ps)
  then obtain xs where xs: "parse_part lo hi p = Inr xs" "parse_parts lo hi ps (out @ xs) = Inr vs"
    by (auto split: sum.splits)
  from parse_part_in [OF xs(1) Cons.prems(2)] Cons.IH [OF xs(2) Cons.prems(2)] Cons.prems(3) show ?case by simp
qed simp

lemma parse_field_wf: "parse_field f lo hi = Inr xs \<Longrightarrow> lo \<le> hi \<Longrightarrow> field_wf lo hi xs"
proof -
  assume a: "parse_field f lo hi = Inr xs" "lo \<le> hi"
  then obtain out where o: "parse_parts lo hi (str_split [44] f) [] = Inr out" "xs = remdups_adj (sort out)"
    by (auto simp: parse_field_def split: sum.splits)
  from parse_parts_in [OF o(1) a(2)] str_split_nonempty have "out \<noteq> []" "set out \<subseteq> {lo..hi}" by auto
  moreover have "sorted_wrt (<) (remdups_adj (sort out))" by (simp add: strict_remdups_adj)
  moreover have "sort out \<noteq> []" using \<open>out \<noteq> []\<close> by (metis set_empty set_sort)
  ultimately show ?thesis by (auto simp: field_wf_def o(2) list_all_iff)
qed

lemma cron_parse_wf: "cron_parse expr = Inr c \<Longrightarrow> cron_wf c"
  unfolding cron_parse_def Let_def cron_wf_def
  by (auto split: if_splits sum.splits dest!: parse_field_wf) (fastforce simp: field_wf_def list_all_iff)+

section \<open>The last fire time is the last\<close>

text \<open>The instants at which a schedule fires, minute by minute.\<close>

definition minute_hit :: "cron \<Rightarrow> int \<Rightarrow> bool" where
  "minute_hit c m \<longleftrightarrow> 0 \<le> m \<and> m < 1440 \<and> m div 60 \<in> set (cr_hour c) \<and> m mod 60 \<in> set (cr_minute c)"

definition fires :: "(int \<Rightarrow> civil_day option) \<Rightarrow> cron \<Rightarrow> int \<Rightarrow> bool" where
  "fires civil c t \<longleftrightarrow>
     t mod 60000 = 0 \<and> (case civil (t div ms_per_day) of None \<Rightarrow> False | Some d \<Rightarrow> matches_date c d)
     \<and> minute_hit c (t mod ms_per_day div 60000)"

lemma find_rev_sorted:
  assumes "sorted_wrt (<) (xs :: int list)"
  shows "case find P (rev xs) of
      Some m \<Rightarrow> m \<in> set xs \<and> P m \<and> (\<forall>m'\<in>set xs. P m' \<longrightarrow> m' \<le> m)
    | None \<Rightarrow> \<forall>m'\<in>set xs. \<not> P m'"
  using assms by (induction xs rule: rev_induct) (fastforce simp: sorted_wrt_append split: option.splits)+

lemma find_map_rev_sorted:
  assumes "sorted_wrt (<) (xs :: int list)"
  shows "case find_map f (rev xs) of
      Some y \<Rightarrow> \<exists>h\<in>set xs. f h = Some y \<and> (\<forall>h'\<in>set xs. h < h' \<longrightarrow> f h' = None)
    | None \<Rightarrow> \<forall>h\<in>set xs. f h = None"
  using assms by (induction xs rule: rev_induct) (fastforce simp: sorted_wrt_append split: option.splits)+

lemma latest_minute:
  assumes wf: "cron_wf c" and cut: "cutoff < 1440"
  shows "case latest_minute_at_or_before c cutoff of
      Some m \<Rightarrow> minute_hit c m \<and> m \<le> cutoff \<and> (\<forall>m'. minute_hit c m' \<and> m' \<le> cutoff \<longrightarrow> m' \<le> m)
    | None \<Rightarrow> \<forall>m'. minute_hit c m' \<longrightarrow> cutoff < m'"
proof -
  define f where "f h = (if cutoff - h * 60 < 0 then None else map_option (\<lambda>m. h * 60 + m) (find (\<lambda>m. m \<le> cutoff - h * 60) (rev (cr_minute c))))" for h
  have l: "latest_minute_at_or_before c cutoff = find_map f (rev (cr_hour c))"
    by (simp add: latest_minute_at_or_before_def f_def [abs_def] Let_def)
  have h: "sorted_wrt (<) (cr_hour c)" "\<forall>x\<in>set (cr_hour c). 0 \<le> x \<and> x \<le> 23"
    and mi: "sorted_wrt (<) (cr_minute c)" "\<forall>x\<in>set (cr_minute c). 0 \<le> x \<and> x \<le> 59"
    using wf by (auto simp: cron_wf_def field_wf_def list_all_iff)
  have f_some: "\<exists>k\<in>set (cr_minute c). m = h * 60 + k \<and> k \<le> cutoff - h * 60 \<and> (\<forall>k'\<in>set (cr_minute c). k' \<le> cutoff - h * 60 \<longrightarrow> k' \<le> k)"
    if "f h = Some m" for h m
    using that find_rev_sorted [OF mi(1), of "\<lambda>m. m \<le> cutoff - h * 60"] by (auto simp: f_def split: if_splits option.splits)
  have f_none: "\<forall>k\<in>set (cr_minute c). cutoff < h * 60 + k" if "f h = None" for h
    using that find_rev_sorted [OF mi(1), of "\<lambda>m. m \<le> cutoff - h * 60"] mi(2) by (fastforce simp: f_def split: if_splits option.splits)
  have dm: "m' = (m' div 60) * 60 + m' mod 60" for m' :: int by simp
  show ?thesis
  proof (cases "find_map f (rev (cr_hour c))")
    case None
    with find_map_rev_sorted [OF h(1), of f] f_none have "\<forall>x\<in>set (cr_hour c). \<forall>k\<in>set (cr_minute c). cutoff < x * 60 + k" by simp
    then have "\<forall>m'. minute_hit c m' \<longrightarrow> cutoff < m'" unfolding minute_hit_def using dm by metis
    with None l show ?thesis by simp
  next
    case (Some m)
    with find_map_rev_sorted [OF h(1), of f] obtain x where x: "x \<in> set (cr_hour c)" "f x = Some m"
      "\<forall>h'\<in>set (cr_hour c). x < h' \<longrightarrow> f h' = None" by auto
    from f_some [OF x(2)] obtain k where k: "k \<in> set (cr_minute c)" "m = x * 60 + k" "k \<le> cutoff - x * 60"
      "\<forall>k'\<in>set (cr_minute c). k' \<le> cutoff - x * 60 \<longrightarrow> k' \<le> k" by blast
    have b: "0 \<le> x" "x \<le> 23" "0 \<le> k" "k \<le> 59" using h(2) mi(2) x(1) k(1) by auto
    then have "m div 60 = x" "m mod 60 = k" using k(2) by auto
    with x(1) k(1) b k(2) have hit: "minute_hit c m" by (auto simp: minute_hit_def)
    have "m' \<le> m" if m': "minute_hit c m'" "m' \<le> cutoff" for m'
    proof -
      let ?x = "m' div 60" and ?k = "m' mod 60"
      have i: "?x \<in> set (cr_hour c)" "?k \<in> set (cr_minute c)" "m' = ?x * 60 + ?k" "0 \<le> ?k" "?k \<le> 59"
        using m'(1) mi(2) by (auto simp: minute_hit_def)
      have "?x \<le> x"
      proof (rule ccontr)
        assume "\<not> ?x \<le> x"
        with x(3) i(1) have "f ?x = None" by auto
        with f_none i(2) have "cutoff < ?x * 60 + ?k" by blast
        with i(3) m'(2) show False by linarith
      qed
      then consider "?x < x" | "?x = x" by linarith
      then show "m' \<le> m"
      proof cases
        case 1
        with i(3,5) k(2) b show ?thesis by linarith
      next
        case 2
        with k(4) i(2,3) m'(2) have "?k \<le> k" by auto
        with 2 i(3) k(2) show ?thesis by linarith
      qed
    qed
    with hit k Some l show ?thesis by auto
  qed
qed

text \<open>Walking back day by day: the newest day that matches, and on it the newest minute.\<close>

lemma fires_on_day:
  assumes "minute_hit c m" "civil day = Some d" "matches_date c d"
  shows "fires civil c (day * ms_per_day + m * 60000)"
proof -
  have m: "0 \<le> m * 60000" "m * 60000 < ms_per_day" using assms(1) by (auto simp: minute_hit_def ms_per_day_def)
  then have "(day * ms_per_day + m * 60000) div ms_per_day = day" "(day * ms_per_day + m * 60000) mod ms_per_day = m * 60000"
    by (auto simp: ms_per_day_def)
  moreover have "(day * ms_per_day + m * 60000) mod 60000 = 0" by (simp add: ms_per_day_def mod_add_eq mult.assoc flip: distrib_right)
  ultimately show ?thesis using assms by (simp add: fires_def)
qed

lemma fires_minutes: "fires civil c t \<Longrightarrow> t = (t div ms_per_day) * ms_per_day + (t mod ms_per_day div 60000) * 60000"
proof -
  assume "fires civil c t"
  then have "t mod 60000 = 0" by (simp add: fires_def)
  then have "t mod ms_per_day mod 60000 = 0" by (simp add: ms_per_day_def mod_mod_cancel)
  then have "t mod ms_per_day = (t mod ms_per_day div 60000) * 60000" by (metis add_0_right div_mult_mod_eq)
  then show ?thesis by (metis div_mult_mod_eq)
qed

lemma walk_back_latest:
  assumes wf: "cron_wf c"
  shows "0 \<le> cutoff \<Longrightarrow> cutoff < 1440 \<Longrightarrow>
    (case walk_back civil c n date cutoff of
       Some t \<Rightarrow> fires civil c t \<and> t \<le> date * ms_per_day + cutoff * 60000
         \<and> (\<forall>t'. fires civil c t' \<and> t' \<le> date * ms_per_day + cutoff * 60000 \<longrightarrow> t' \<le> t)
     | None \<Rightarrow> \<forall>t'. fires civil c t' \<and> t' \<le> date * ms_per_day + cutoff * 60000 \<and> date - int n < t' div ms_per_day
         \<longrightarrow> (\<exists>d\<le>date. t' div ms_per_day < d \<and> civil d = None))"
proof (induction n arbitrary: date cutoff)
  case 0
  have "t' div ms_per_day \<le> date" if "t' \<le> date * ms_per_day + cutoff * 60000" for t'
  proof -
    have "t' < (date + 1) * ms_per_day" using that 0(2) by (simp add: ms_per_day_def algebra_simps)
    then show ?thesis by (simp add: ms_per_day_def)
  qed
  then show ?case by fastforce
next
  case (Suc n)
  have day: "t' div ms_per_day \<le> date" if "t' \<le> date * ms_per_day + cutoff * 60000" for t'
  proof -
    have "t' < (date + 1) * ms_per_day" using that Suc.prems(2) by (simp add: ms_per_day_def algebra_simps)
    then show ?thesis by (simp add: ms_per_day_def)
  qed
  show ?case
  proof (cases "civil date")
    case None
    have "\<exists>d\<le>date. t' div ms_per_day < d \<and> civil d = None"
      if "fires civil c t'" "t' \<le> date * ms_per_day + cutoff * 60000" for t'
    proof -
      have "t' div ms_per_day \<noteq> date" using that(1) None by (auto simp: fires_def)
      with day [OF that(2)] have "t' div ms_per_day < date" by simp
      with None show ?thesis by blast
    qed
    with None show ?thesis by simp
  next
    case (Some d)
    let ?r = "if matches_date c d then latest_minute_at_or_before c cutoff else None"
    have on_date: "\<exists>m. t' = date * ms_per_day + m * 60000 \<and> minute_hit c m \<and> matches_date c d"
      if "fires civil c t'" "t' div ms_per_day = date" for t'
      using that Some fires_minutes [OF that(1)] by (auto simp: fires_def)
    show ?thesis
    proof (cases ?r)
      case None
      have nohit: "t' div ms_per_day \<noteq> date" if "fires civil c t'" "t' \<le> date * ms_per_day + cutoff * 60000" for t'
      proof
        assume "t' div ms_per_day = date"
        with on_date [OF that(1)] obtain m where m: "t' = date * ms_per_day + m * 60000" "minute_hit c m" "matches_date c d" by blast
        with None latest_minute [OF wf Suc.prems(2)] have "cutoff < m" by simp
        with m(1) that(2) show False by simp
      qed
      have le: "t' \<le> (date - 1) * ms_per_day + (23 * 60 + 59) * 60000"
        if t: "fires civil c t'" "t' \<le> date * ms_per_day + cutoff * 60000" for t'
      proof -
        have "t' div ms_per_day \<le> date - 1" using nohit [OF t] day [OF t(2)] by simp
        moreover have "t' mod ms_per_day div 60000 \<le> 1439" using t(1) by (auto simp: fires_def minute_hit_def)
        ultimately show ?thesis using fires_minutes [OF t(1)] by (smt (verit) ms_per_day_def mult_right_mono)
      qed
      have up: "(date - 1) * ms_per_day + (23 * 60 + 59) * 60000 \<le> date * ms_per_day + cutoff * 60000"
        using Suc.prems(1) by (simp add: ms_per_day_def)
      have w: "walk_back civil c (Suc n) date cutoff = walk_back civil c n (date - 1) (23 * 60 + 59)"
        using Some None by simp
      have IH: "case walk_back civil c n (date - 1) (23 * 60 + 59) of
         Some t \<Rightarrow> fires civil c t \<and> t \<le> (date - 1) * ms_per_day + (23 * 60 + 59) * 60000
           \<and> (\<forall>t'. fires civil c t' \<and> t' \<le> (date - 1) * ms_per_day + (23 * 60 + 59) * 60000 \<longrightarrow> t' \<le> t)
       | None \<Rightarrow> \<forall>t'. fires civil c t' \<and> t' \<le> (date - 1) * ms_per_day + (23 * 60 + 59) * 60000 \<and> (date - 1) - int n < t' div ms_per_day
           \<longrightarrow> (\<exists>d\<le>date - 1. t' div ms_per_day < d \<and> civil d = None)"
        by (rule Suc.IH) simp_all
      show ?thesis
      proof (cases "walk_back civil c n (date - 1) (23 * 60 + 59)")
        case none: None
        have "\<exists>d\<le>date. t' div ms_per_day < d \<and> civil d = None"
          if "fires civil c t'" "t' \<le> date * ms_per_day + cutoff * 60000" "date - int (Suc n) < t' div ms_per_day" for t'
        proof -
          have "date - 1 - int n < t' div ms_per_day" using that(3) by simp
          with IH none le [OF that(1,2)] that(1) obtain e where "e \<le> date - 1" "t' div ms_per_day < e" "civil e = None" by auto
          then show ?thesis by (intro exI [of _ e]) simp
        qed
        then show ?thesis unfolding w none by simp
      next
        case (Some t)
        have "fires civil c t" "t \<le> date * ms_per_day + cutoff * 60000"
          "\<forall>t'. fires civil c t' \<and> t' \<le> date * ms_per_day + cutoff * 60000 \<longrightarrow> t' \<le> t"
          using IH Some le up by (force, force, force)
        then show ?thesis unfolding w Some by simp
      qed
    next
      case (Some m)
      then have md: "matches_date c d" "latest_minute_at_or_before c cutoff = Some m" by (simp_all split: if_splits)
      with latest_minute [OF wf Suc.prems(2)] have m: "minute_hit c m" "m \<le> cutoff"
        "\<forall>m'. minute_hit c m' \<and> m' \<le> cutoff \<longrightarrow> m' \<le> m" by simp_all
      let ?t = "date * ms_per_day + m * 60000"
      have f: "fires civil c ?t" by (rule fires_on_day [where civil = civil and day = date, OF m(1) \<open>civil date = Some d\<close> md(1)])
      have latest: "t' \<le> ?t" if t: "fires civil c t'" "t' \<le> date * ms_per_day + cutoff * 60000" for t'
      proof (cases "t' div ms_per_day = date")
        case True
        with on_date [OF t(1)] obtain m' where m': "t' = date * ms_per_day + m' * 60000" "minute_hit c m'" by blast
        with t(2) m(3) show ?thesis by simp
      next
        case False
        with day [OF t(2)] have "t' < date * ms_per_day" by (simp add: ms_per_day_def)
        moreover have "0 \<le> m" using m(1) by (simp add: minute_hit_def)
        ultimately show ?thesis by simp
      qed
      have "walk_back civil c (Suc n) date cutoff = Some ?t" using \<open>civil date = Some d\<close> Some by simp
      with f m(2) latest show ?thesis by simp
    qed
  qed
qed

lemma mult_floor_le:
  fixes m :: int
  assumes "0 \<le> s" "s < m"
  shows "m * j \<le> m * x + s \<longleftrightarrow> j \<le> x"
proof
  show "j \<le> x" if "m * j \<le> m * x + s"
  proof (rule ccontr)
    assume "\<not> j \<le> x"
    then have "m * (x + 1) \<le> m * j" using assms by (intro mult_left_mono) simp_all
    with that assms show False by (simp add: algebra_simps)
  qed
  show "m * j \<le> m * x + s" if "j \<le> x"
  proof -
    have "m * j \<le> m * x" using that assms by (intro mult_left_mono) simp_all
    with assms show ?thesis by linarith
  qed
qed

lemma fires_floor:
  assumes "fires civil c t"
  shows "t \<le> now \<longleftrightarrow> t \<le> now div ms_per_day * ms_per_day + now mod ms_per_day div 60000 * 60000"
proof -
  define q where "q = now div 86400000"
  define r where "r = now mod 86400000"
  define k where "k = r div 60000"
  define s where "s = r mod 60000"
  define j where "j = t div 60000"
  have "t mod 60000 = 0" using assms by (simp add: fires_def)
  then have t: "t = 60000 * j" using mult_div_mod_eq [of 60000 t] by (simp add: j_def)
  have now: "now = 86400000 * q + r" by (simp add: q_def r_def)
  have r: "r = 60000 * k + s" by (simp add: k_def s_def)
  have s: "0 \<le> s" "s < 60000" by (simp_all add: s_def)
  have "60000 * j \<le> 60000 * (1440 * q + k) + s \<longleftrightarrow> 60000 * j \<le> 60000 * (1440 * q + k)"
    unfolding mult_floor_le [OF s] using mult_floor_le [of 0 60000 j "1440 * q + k"] by simp
  moreover have "now div ms_per_day * ms_per_day + now mod ms_per_day div 60000 * 60000 = q * 86400000 + k * 60000"
    by (simp only: ms_per_day_def q_def r_def k_def)
  moreover have "60000 * (1440 * q + k) + s = now" "60000 * (1440 * q + k) = q * 86400000 + k * 60000"
    using now r by simp_all
  ultimately show ?thesis using t by (simp only:)
qed

lemma minute_bounds: "0 \<le> now mod ms_per_day div 60000" "now mod ms_per_day div 60000 < 1440"
proof -
  have "0 \<le> now mod ms_per_day" "now mod ms_per_day < 1440 * 60000" by (simp_all add: ms_per_day_def)
  then show "0 \<le> now mod ms_per_day div 60000" "now mod ms_per_day div 60000 < 1440" by (simp_all add: ms_per_day_def div_less_iff_less_mult)
qed

lemma prev_fire_cases:
  assumes "cron_wf c"
  shows "case prev_fire civil c now of
      Some t \<Rightarrow> fires civil c t \<and> t \<le> now \<and> (\<forall>t'. fires civil c t' \<and> t' \<le> now \<longrightarrow> t' \<le> t)
    | None \<Rightarrow> \<forall>t'. fires civil c t' \<and> t' \<le> now \<and> now div ms_per_day - 1464 < t' div ms_per_day
        \<longrightarrow> (\<exists>d\<le>now div ms_per_day. t' div ms_per_day < d \<and> civil d = None)"
  using walk_back_latest [where civil = civil and n = max_lookback_days and date = "now div ms_per_day", OF assms minute_bounds [of now]]
  by (cases "prev_fire civil c now") (auto simp: prev_fire_def max_lookback_days_def fires_floor [symmetric])

section \<open>The properties\<close>

text \<open>whatever text is accepted as a schedule, the parsed schedule is well formed: every field is non-empty and
  within its range, the time fields strictly ascend, and the days of the week are Sunday to Saturday with 7
  folded into 0.\<close>

lemma cron_parse_typed:
  assumes "cron_parse expr = Inr c"
  shows "cron_wf c"
  using assms by (rule cron_parse_wf)

text \<open>Every weekday at a quarter to nine and on the seventh day of the week, and the Gregorian calendar.\<close>

definition sample_expr :: str where
  "sample_expr = lit ''45 8 * * 1-5,7''"

definition sample_cron :: cron where
  "sample_cron = \<lparr>cr_minute = [45], cr_hour = [8], cr_dom = [1..31], cr_month = [1..12], cr_dow = [1, 2, 3, 4, 5, 0],
     cr_dom_restricted = False, cr_dow_restricted = True\<rparr>"

definition day_of_era :: "int \<Rightarrow> int" where
  "day_of_era d = (d + 719468) mod 146097"

definition year_of_era :: "int \<Rightarrow> int" where
  "year_of_era e = (e - e div 1460 + e div 36524 - e div 146096) div 365"

definition day_of_year :: "int \<Rightarrow> int" where
  "day_of_year e = e - (365 * year_of_era e + year_of_era e div 4 - year_of_era e div 100)"

definition march_month :: "int \<Rightarrow> int" where
  "march_month y = (5 * y + 2) div 153"

definition gregorian :: "int \<Rightarrow> civil_day option" where
  "gregorian d =
     (let y = day_of_year (day_of_era d)
      in Some \<lparr>cd_month = (if march_month y < 10 then march_month y + 3 else march_month y - 9),
               cd_day = y - (153 * march_month y + 2) div 5 + 1, cd_weekday = (d + 4) mod 7\<rparr>)"

lemma gregorian_new_year: "gregorian 20089 = Some \<lparr>cd_month = 1, cd_day = 1, cd_weekday = 3\<rparr>"
proof -
  have "day_of_era 20089 = 9072" by (simp add: day_of_era_def)
  moreover have "year_of_era 9072 = 24" by (simp add: year_of_era_def)
  then have "day_of_year 9072 = 306" by (simp add: day_of_year_def)
  moreover have "march_month 306 = 10" by (simp add: march_month_def)
  ultimately show ?thesis by (simp add: gregorian_def)
qed

lemmas cron_eval = cron_parse_def split_ws.simps parse_field_def str_split.simps split_once_Nil split_once_Cons starts_with_def
  parse_part_def part_step_def part_bounds_def num_def parse_i8_def digits_value_def is_ascii_digit_def is_ws_def trim_def
  trim_start_def trim_end_def contains_def Let_def

lemma sample_parsed: "cron_parse sample_expr = Inr sample_cron"
proof -
  have "[1..5] = [1, 2, 3, 4, 5::int]" by (simp add: upto_rec1)
  then show ?thesis by (simp add: sample_expr_def sample_cron_def cron_eval stepped_def remdups_adj_distinct)
qed

text \<open>the last fire time is exactly that: the schedule fires at it, and at no instant after it up to now; if
  none is found, every fire time of the last four years is cut off by the end of the calendar. The hour by hour
  search backwards agrees with the set of all instants the expression describes.\<close>

lemma prev_fire_is_latest:
  assumes "cron_parse expr = Inr c"
  shows "case prev_fire civil c now of
      Some t \<Rightarrow> fires civil c t \<and> t \<le> now \<and> (\<forall>t'. fires civil c t' \<and> t' \<le> now \<longrightarrow> t' \<le> t)
    | None \<Rightarrow> \<forall>t'. fires civil c t' \<and> t' \<le> now \<and> now div ms_per_day - 1464 < t' div ms_per_day
        \<longrightarrow> (\<exists>d\<le>now div ms_per_day. t' div ms_per_day < d \<and> civil d = None)"
  by (rule prev_fire_cases [OF cron_parse_wf [OF assms]])

lemma sample_fires: "fires gregorian sample_cron 1735721100000"
  by (simp add: fires_def gregorian_new_year matches_date_def minute_hit_def sample_cron_def ms_per_day_def Let_def)

lemma gregorian_total: "gregorian d \<noteq> None"
  by (simp add: gregorian_def Let_def)

lemma sentinel_is_no_cron: "cron_parse after_consolidation = Inl (FieldCount 1)"
  by (simp add: after_consolidation_def cron_parse_def split_ws.simps is_ws_def)

text \<open>a model refreshed within the last four years is due exactly if its schedule has fired since: no fire time is
  missed while the daemon was down, and none is counted twice.\<close>

lemma due_exactly_when_fired:
  assumes "cron_parse expr = Inr c" "now div ms_per_day - 1464 < l div ms_per_day"
    and "\<forall>d. l div ms_per_day \<le> d \<and> d \<le> now div ms_per_day \<longrightarrow> civil d \<noteq> None"
  shows "is_due civil expr (Some l) now \<longleftrightarrow> (\<exists>t. l < t \<and> t \<le> now \<and> fires civil c t)"
proof -
  have n: "expr \<noteq> after_consolidation" using assms(1) sentinel_is_no_cron by auto
  note p = prev_fire_cases [OF cron_parse_wf [OF assms(1)], of civil now]
  show ?thesis
  proof (cases "prev_fire civil c now")
    case None
    have "\<not> (l < t \<and> t \<le> now \<and> fires civil c t)" for t
    proof
      assume t: "l < t \<and> t \<le> now \<and> fires civil c t"
      have lt: "l div ms_per_day \<le> t div ms_per_day" using t by (intro zdiv_mono1) (simp_all add: ms_per_day_def)
      have "now div ms_per_day - 1464 < t div ms_per_day" using lt assms(2) by simp
      with p None t obtain e where e: "e \<le> now div ms_per_day" "t div ms_per_day < e" "civil e = None"
        by auto
      have "l div ms_per_day \<le> e" using lt e(2) by simp
      with assms(3) [rule_format, of e] e(1,3) show False by simp
    qed
    with None n assms(1) show ?thesis by (simp add: is_due_def)
  next
    case (Some t)
    with p n assms(1) show ?thesis by (auto simp: is_due_def)
  qed
qed

end
