(* ===== verification/Mental_Store.thy ===== *)
theory Mental_Store
  imports Core_Types "HOL-Library.Word" "HOL-Library.List_Lexorder" "HOL-Library.Product_Lexorder"
begin

text \<open>
  \<open>crates/memgarden-store/src/mental_models.rs\<close> and \<open>vecblob.rs\<close>: the table of mental models and the
  vector index that mirrors their embeddings, keyed by the table's row ids and kept by hand in the same
  transactions. A transaction that returns an error leaves both tables as they were. An \<open>f32\<close> is its 32
  bits. Parameters: SQLite's \<open>json_valid\<close> and the distance \<open>sqlite-vec\<close> ranks blobs by.
\<close>

type_synonym f32 = "32 word"
type_synonym blob = "8 word list"

definition embedding_dim :: nat where
  "embedding_dim = 384"

definition embedding_model_id :: str where
  "embedding_model_id = lit ''fastembed:intfloat/multilingual-e5-small''"

subsection \<open>Vectors as blobs\<close>

definition to_le_bytes :: "f32 \<Rightarrow> blob" where
  "to_le_bytes w = map (\<lambda>i. ucast (drop_bit (8 * i) w)) [0, 1, 2, 3]"

fun from_le_bytes :: "blob \<Rightarrow> f32" where
  "from_le_bytes [] = 0"
| "from_le_bytes (b # bs) = ucast b + 256 * from_le_bytes bs"

definition vec_encode :: "f32 list \<Rightarrow> mg_error + blob" where
  "vec_encode e = (if length e \<noteq> embedding_dim then Inl ErrInvalid else Inr (concat (map to_le_bytes e)))"

fun chunks_exact4 :: "blob \<Rightarrow> blob list" where
  "chunks_exact4 (a # b # c # d # bs) = [a, b, c, d] # chunks_exact4 bs"
| "chunks_exact4 _ = []"

definition vec_decode :: "blob \<Rightarrow> mg_error + f32 list" where
  "vec_decode b =
     (if length b \<noteq> embedding_dim * 4 then Inl ErrInvalid else Inr (map from_le_bytes (chunks_exact4 b)))"

fun encode_opt :: "f32 list option \<Rightarrow> mg_error + blob option" where
  "encode_opt None = Inr None"
| "encode_opt (Some e) = (case vec_encode e of Inl x \<Rightarrow> Inl x | Inr b \<Rightarrow> Inr (Some b))"

subsection \<open>The two tables\<close>

record mental_model =
  mm_rowid :: int
  mm_id :: str
  mm_bank :: str
  mm_name :: str
  mm_source_query :: "str option"
  mm_content :: str
  mm_reflect_response :: "str option"
  mm_max_tokens :: "int option"
  mm_trigger :: "str option"
  mm_embedding :: "blob option"
  mm_embedding_model :: "str option"
  mm_last_refreshed_at :: "int option"
  mm_refresh_watermark :: "int option"
  mm_created_at :: int
  mm_cited_count :: int
  mm_last_cited_at :: "int option"

record vec_row =
  vr_rowid :: int
  vr_bank :: str
  vr_embedding :: blob

record mental_db =
  mdb_banks :: "str list"
  mdb_rows :: "mental_model list"
  mdb_vecs :: "vec_row list"

record new_mental_model =
  nm_id :: str
  nm_bank :: str
  nm_name :: str
  nm_source_query :: "str option"
  nm_content :: str
  nm_max_tokens :: "int option"
  nm_trigger :: "str option"

record mm_patch =
  mp_name :: "str option"
  mp_source_query :: "str option"
  mp_content :: "str option"
  mp_max_tokens :: "int option"
  mp_trigger :: "str option"
  mp_reflect_response :: "str option"
  mp_last_refreshed_at :: "int option"
  mp_refresh_watermark :: "int option"
  mp_clear_embedding :: bool
  mp_clear_trigger :: bool

definition mm_patch_default :: mm_patch where
  "mm_patch_default =
     \<lparr>mp_name = None, mp_source_query = None, mp_content = None, mp_max_tokens = None, mp_trigger = None,
      mp_reflect_response = None, mp_last_refreshed_at = None, mp_refresh_watermark = None,
      mp_clear_embedding = False, mp_clear_trigger = False\<rparr>"

definition at_key :: "str \<Rightarrow> str \<Rightarrow> mental_model \<Rightarrow> bool" where
  "at_key bank i r \<longleftrightarrow> mm_bank r = bank \<and> mm_id r = i"

definition mental_get :: "mental_db \<Rightarrow> str \<Rightarrow> str \<Rightarrow> mental_model option" where
  "mental_get db bank i = find (at_key bank i) (mdb_rows db)"

definition fresh_rowid :: "mental_db \<Rightarrow> int" where
  "fresh_rowid db = foldr (\<lambda>r m. max (mm_rowid r) m) (mdb_rows db) 0 + 1"

text \<open>\<open>write_vec\<close>: delete, then insert under the same row id.\<close>

definition drop_vec :: "vec_row list \<Rightarrow> int \<Rightarrow> vec_row list" where
  "drop_vec vs rid = filter (\<lambda>v. vr_rowid v \<noteq> rid) vs"

definition write_vec :: "vec_row list \<Rightarrow> int \<Rightarrow> str \<Rightarrow> blob \<Rightarrow> vec_row list" where
  "write_vec vs rid bank b = drop_vec vs rid @ [\<lparr>vr_rowid = rid, vr_bank = bank, vr_embedding = b\<rparr>]"

definition model_tag :: "blob option \<Rightarrow> str option" where
  "model_tag b = map_option (\<lambda>_. embedding_model_id) b"

definition new_row :: "mental_db \<Rightarrow> new_mental_model \<Rightarrow> blob option \<Rightarrow> int \<Rightarrow> mental_model" where
  "new_row db n b now =
     \<lparr>mm_rowid = fresh_rowid db, mm_id = nm_id n, mm_bank = nm_bank n, mm_name = nm_name n,
      mm_source_query = nm_source_query n, mm_content = nm_content n, mm_reflect_response = None,
      mm_max_tokens = nm_max_tokens n, mm_trigger = nm_trigger n, mm_embedding = b,
      mm_embedding_model = model_tag b, mm_last_refreshed_at = None, mm_refresh_watermark = None,
      mm_created_at = now, mm_cited_count = 0, mm_last_cited_at = None\<rparr>"

text \<open>\<open>insert\<close>: the bank's foreign key and the unique \<open>(bank_id, id)\<close> are the constraints that can fail.\<close>

definition mental_insert ::
  "mental_db \<Rightarrow> new_mental_model \<Rightarrow> f32 list option \<Rightarrow> int \<Rightarrow> mg_error + (mental_model \<times> mental_db)" where
  "mental_insert db n emb now =
     (case encode_opt emb of
        Inl e \<Rightarrow> Inl e
      | Inr b \<Rightarrow>
          if nm_bank n \<notin> set (mdb_banks db) \<or> (\<exists>r \<in> set (mdb_rows db). at_key (nm_bank n) (nm_id n) r)
          then Inl ErrStorage
          else
            let r = new_row db n b now;
                vs = (case b of None \<Rightarrow> mdb_vecs db
                      | Some x \<Rightarrow> write_vec (mdb_vecs db) (mm_rowid r) (nm_bank n) x);
                db' = db\<lparr>mdb_rows := mdb_rows db @ [r], mdb_vecs := vs\<rparr> in
            case mental_get db' (nm_bank n) (nm_id n) of None \<Rightarrow> Inl ErrStorage | Some g \<Rightarrow> Inr (g, db'))"

definition patched :: "mm_patch \<Rightarrow> blob option \<Rightarrow> bool \<Rightarrow> mental_model \<Rightarrow> mental_model" where
  "patched p b clear r =
     r\<lparr>mm_name := the (coalesce (mp_name p) (Some (mm_name r))),
       mm_source_query := coalesce (mp_source_query p) (mm_source_query r),
       mm_content := the (coalesce (mp_content p) (Some (mm_content r))),
       mm_max_tokens := coalesce (mp_max_tokens p) (mm_max_tokens r),
       mm_trigger := (if mp_clear_trigger p then None else coalesce (mp_trigger p) (mm_trigger r)),
       mm_reflect_response := coalesce (mp_reflect_response p) (mm_reflect_response r),
       mm_last_refreshed_at := coalesce (mp_last_refreshed_at p) (mm_last_refreshed_at r),
       mm_refresh_watermark := coalesce (mp_refresh_watermark p) (mm_refresh_watermark r),
       mm_embedding := (if clear then None else coalesce b (mm_embedding r)),
       mm_embedding_model := (if clear then None else coalesce (model_tag b) (mm_embedding_model r))\<rparr>"

definition mental_update ::
  "(str \<Rightarrow> bool) \<Rightarrow> mental_db \<Rightarrow> str \<Rightarrow> str \<Rightarrow> mm_patch \<Rightarrow> f32 list option \<Rightarrow> mg_error + (nat \<times> mental_db)" where
  "mental_update json_valid db bank i p emb =
     (case encode_opt emb of
        Inl e \<Rightarrow> Inl e
      | Inr b \<Rightarrow>
          let clear = mp_clear_embedding p \<and> b = None;
              changed = length (filter (at_key bank i) (mdb_rows db));
              rows = map (\<lambda>r. if at_key bank i r then patched p b clear r else r) (mdb_rows db) in
          if 0 < changed \<and> (case mp_reflect_response p of None \<Rightarrow> False | Some a \<Rightarrow> \<not> json_valid a)
          then Inl ErrStorage
          else if 0 < changed \<and> (b \<noteq> None \<or> clear) then
            (case find (at_key bank i) rows of
               None \<Rightarrow> Inl ErrStorage
             | Some r \<Rightarrow>
                 Inr (changed, db\<lparr>mdb_rows := rows, mdb_vecs :=
                   (case b of Some x \<Rightarrow> write_vec (mdb_vecs db) (mm_rowid r) bank x
                    | None \<Rightarrow> drop_vec (mdb_vecs db) (mm_rowid r))\<rparr>))
          else Inr (changed, db\<lparr>mdb_rows := rows\<rparr>))"

text \<open>\<open>ORDER BY last_refreshed_at DESC, created_at DESC\<close>: SQLite's descending order puts NULL last. Rows
  that tie on both are in table order here; the statement does not fix their order.\<close>

definition refresh_key :: "mental_model \<Rightarrow> (nat \<times> int) \<times> int" where
  "refresh_key r = ((case mm_last_refreshed_at r of None \<Rightarrow> (1, 0) | Some t \<Rightarrow> (0, - t)), - mm_created_at r)"

definition mental_list :: "mental_db \<Rightarrow> str \<Rightarrow> nat \<Rightarrow> nat \<Rightarrow> mental_model list" where
  "mental_list db bank limit offset =
     take limit (drop offset (sort_key refresh_key (filter (\<lambda>r. mm_bank r = bank) (mdb_rows db))))"

definition stale_embeddings :: "mental_db \<Rightarrow> (str \<times> str \<times> str \<times> str) list" where
  "stale_embeddings db =
     map (\<lambda>r. (mm_bank r, mm_id r, mm_name r, mm_content r))
       (sort_key (\<lambda>r. (mm_bank r, mm_id r))
          (filter (\<lambda>r. mm_embedding_model r \<noteq> Some embedding_model_id) (mdb_rows db)))"

text \<open>The index row goes by the table's \<open>AFTER DELETE\<close> trigger.\<close>

definition mental_delete :: "mental_db \<Rightarrow> str \<Rightarrow> str \<Rightarrow> nat \<times> mental_db" where
  "mental_delete db bank i =
     (let gone = filter (at_key bank i) (mdb_rows db) in
      (length gone,
       db\<lparr>mdb_rows := filter (\<lambda>r. \<not> at_key bank i r) (mdb_rows db),
          mdb_vecs := foldl drop_vec (mdb_vecs db) (map mm_rowid gone)\<rparr>))"

definition cited :: "int \<Rightarrow> mental_model \<Rightarrow> mental_model" where
  "cited now r = r\<lparr>mm_cited_count := mm_cited_count r + 1, mm_last_cited_at := Some now\<rparr>"

definition cite_one :: "str \<Rightarrow> int \<Rightarrow> str \<Rightarrow> nat \<times> mental_db \<Rightarrow> nat \<times> mental_db" where
  "cite_one bank now i st =
     (fst st + length (filter (at_key bank i) (mdb_rows (snd st))),
      (snd st)\<lparr>mdb_rows := map (\<lambda>r. if at_key bank i r then cited now r else r)
               (mdb_rows (snd st))\<rparr>)"

definition record_citations :: "mental_db \<Rightarrow> str \<Rightarrow> str list \<Rightarrow> int \<Rightarrow> nat \<times> mental_db" where
  "record_citations db bank ids now = fold (cite_one bank now) ids (0, db)"

definition nearest ::
  "(blob \<Rightarrow> blob \<Rightarrow> 'd::linorder) \<Rightarrow> mental_db \<Rightarrow> str \<Rightarrow> blob \<Rightarrow> nat \<Rightarrow> vec_row list" where
  "nearest dist db bank q k =
     take k (sort_key (\<lambda>v. dist q (vr_embedding v)) (filter (\<lambda>v. vr_bank v = bank) (mdb_vecs db)))"

definition knn ::
  "(blob \<Rightarrow> blob \<Rightarrow> 'd::linorder) \<Rightarrow> mental_db \<Rightarrow> str \<Rightarrow> f32 list \<Rightarrow> nat \<Rightarrow> mg_error + (str \<times> 'd) list" where
  "knn dist db bank query k =
     (case vec_encode query of
        Inl e \<Rightarrow> Inl e
      | Inr q \<Rightarrow>
          Inr (concat (map (\<lambda>v.
            map (\<lambda>r. (mm_id r, dist q (vr_embedding v)))
              (filter (\<lambda>r. mm_rowid r = vr_rowid v \<and> mm_embedding_model r = Some embedding_model_id)
                 (mdb_rows db)))
            (nearest dist db bank q k))))"


subsection \<open>A table and the index kept beside it\<close>

text \<open>A table's rows are known by a row id, and some of them have a shadow in an index under the same id.
  The two are in step when the index holds exactly the shadows, once each.\<close>

definition in_step :: "('r \<Rightarrow> int) \<Rightarrow> ('r \<Rightarrow> 'v option) \<Rightarrow> ('v \<Rightarrow> int) \<Rightarrow> 'r list \<Rightarrow> 'v list \<Rightarrow> bool" where
  "in_step rid shadow vid rows vs \<longleftrightarrow>
     distinct (map rid rows) \<and> distinct (map vid vs) \<and> set vs = {v. \<exists>r \<in> set rows. shadow r = Some v}"

definition put_shadow :: "('v \<Rightarrow> int) \<Rightarrow> int \<Rightarrow> 'v option \<Rightarrow> 'v list \<Rightarrow> 'v list" where
  "put_shadow vid i s vs =
     filter (\<lambda>v. vid v \<noteq> i) vs @ (case s of None \<Rightarrow> [] | Some v \<Rightarrow> [v])"

locale mirrored =
  fixes rid :: "'r \<Rightarrow> int" and shadow :: "'r \<Rightarrow> 'v option" and vid :: "'v \<Rightarrow> int"
  assumes shadow_id: "shadow r = Some v \<Longrightarrow> vid v = rid r"
begin

lemma same_row: "in_step rid shadow vid rows vs \<Longrightarrow> x \<in> set rows \<Longrightarrow> y \<in> set rows \<Longrightarrow> rid x = rid y \<Longrightarrow> x = y"
  by (auto simp: in_step_def distinct_map inj_on_def)

lemma in_step_distinct: "in_step rid shadow vid rows vs \<Longrightarrow> distinct (map rid rows)"
  by (simp add: in_step_def)

lemma shadow_in: "in_step rid shadow vid rows vs \<Longrightarrow> v \<in> set vs \<longleftrightarrow> (\<exists>r \<in> set rows. shadow r = Some v)"
  by (simp add: in_step_def)

lemma distinct_put: "distinct (map vid vs) \<Longrightarrow> (\<And>v. s = Some v \<Longrightarrow> vid v = i) \<Longrightarrow> distinct (map vid (put_shadow vid i s vs))"
  by (auto simp: put_shadow_def distinct_map inj_on_def split: option.splits)

lemma step_append:
  assumes "in_step rid shadow vid rows vs" and "rid r \<notin> rid ` set rows"
  shows "in_step rid shadow vid (rows @ [r]) (put_shadow vid (rid r) (shadow r) vs)"
proof -
  have "filter (\<lambda>v. vid v \<noteq> rid r) vs = vs"
    using assms by (auto simp: filter_id_conv in_step_def dest!: shadow_id)
  then have "set (put_shadow vid (rid r) (shadow r) vs) = {v. \<exists>x \<in> set (rows @ [r]). shadow x = Some v}"
    using assms(1) by (auto simp: put_shadow_def in_step_def split: option.splits)
  then show ?thesis
    using assms distinct_put[of vs "shadow r" "rid r"] shadow_id[of r] by (auto simp: in_step_def)
qed

lemma map_rid: "(\<And>x. x \<in> set rows \<Longrightarrow> rid (f x) = rid x) \<Longrightarrow> map rid (map f rows) = map rid rows"
  by simp

lemma step_keep:
  assumes "in_step rid shadow vid rows vs"
    and "\<And>x. x \<in> set rows \<Longrightarrow> rid (f x) = rid x \<and> shadow (f x) = shadow x"
  shows "in_step rid shadow vid (map f rows) vs"
proof -
  have "{v. \<exists>r \<in> set (map f rows). shadow r = Some v} = {v. \<exists>r \<in> set rows. shadow r = Some v}"
    using assms(2) by auto
  moreover have "map rid (map f rows) = map rid rows" using assms(2) by (intro map_rid) auto
  ultimately show ?thesis using assms(1) by (simp only: in_step_def)
qed

lemma step_replace:
  assumes st: "in_step rid shadow vid rows vs" and r: "r \<in> set rows"
    and f: "\<And>x. x \<in> set rows \<Longrightarrow> x \<noteq> r \<Longrightarrow> f x = x" and rid: "rid (f r) = rid r"
  shows "in_step rid shadow vid (map f rows) (put_shadow vid (rid r) (shadow (f r)) vs)"
proof -
  have ids: "map rid (map f rows) = map rid rows" using f rid by (metis map_rid)
  have other: "vid v \<noteq> rid r" if "x \<in> set rows" "x \<noteq> r" "shadow x = Some v" for x v
    using that same_row[OF st that(1) r] shadow_id[of x v] by auto
  have "v \<in> set (put_shadow vid (rid r) (shadow (f r)) vs) \<longleftrightarrow> (\<exists>x \<in> set (map f rows). shadow x = Some v)" for v
  proof
    assume "v \<in> set (put_shadow vid (rid r) (shadow (f r)) vs)"
    then consider "v \<in> set vs" "vid v \<noteq> rid r" | "shadow (f r) = Some v"
      by (auto simp: put_shadow_def split: option.splits)
    then show "\<exists>x \<in> set (map f rows). shadow x = Some v"
    proof cases
      case 1
      then obtain x where x: "x \<in> set rows" "shadow x = Some v" using shadow_in[OF st] by blast
      then have "x \<noteq> r" using 1(2) shadow_id by blast
      then have "f x = x" using f x(1) by blast
      then show ?thesis using x by (metis image_eqI list.set_map)
    next
      case 2
      then show ?thesis using r by auto
    qed
  next
    assume "\<exists>x \<in> set (map f rows). shadow x = Some v"
    then obtain y where y: "y \<in> set rows" "shadow (f y) = Some v" by auto
    show "v \<in> set (put_shadow vid (rid r) (shadow (f r)) vs)"
    proof (cases "y = r")
      case True
      then show ?thesis using y(2) by (simp add: put_shadow_def)
    next
      case False
      then have "shadow y = Some v" using f y by metis
      then show ?thesis using other[OF y(1) False] y(1) shadow_in[OF st] by (auto simp: put_shadow_def)
    qed
  qed
  then have "set (put_shadow vid (rid r) (shadow (f r)) vs) = {v. \<exists>x \<in> set (map f rows). shadow x = Some v}" by blast
  moreover have "distinct (map vid (put_shadow vid (rid r) (shadow (f r)) vs))"
    using st rid shadow_id[of "f r"] by (intro distinct_put) (auto simp: in_step_def)
  ultimately show ?thesis using st ids by (simp only: in_step_def)
qed

lemma step_delete:
  assumes "in_step rid shadow vid rows vs"
  shows "in_step rid shadow vid (filter (\<lambda>x. \<not> P x) rows) (filter (\<lambda>v. vid v \<notin> rid ` set (filter P rows)) vs)"
proof -
  have "v \<in> set (filter (\<lambda>v. vid v \<notin> rid ` set (filter P rows)) vs) \<longleftrightarrow>
        (\<exists>r \<in> set (filter (\<lambda>x. \<not> P x) rows). shadow r = Some v)" for v
    using shadow_in[OF assms, of v] same_row[OF assms] shadow_id by (auto; metis)
  then show ?thesis using assms by (auto simp: in_step_def distinct_map_filter)
qed

end


subsection \<open>The two tables are in step\<close>

definition vec_of :: "mental_model \<Rightarrow> vec_row option" where
  "vec_of r = map_option (\<lambda>e. \<lparr>vr_rowid = mm_rowid r, vr_bank = mm_bank r, vr_embedding = e\<rparr>) (mm_embedding r)"

interpretation mm: mirrored mm_rowid vec_of vr_rowid
  by unfold_locales (auto simp: vec_of_def)

definition row_ok :: "str list \<Rightarrow> mental_model \<Rightarrow> bool" where
  "row_ok banks r \<longleftrightarrow>
     mm_bank r \<in> set banks \<and> (mm_embedding_model r = None \<longleftrightarrow> mm_embedding r = None)
   \<and> (case mm_embedding r of None \<Rightarrow> True | Some e \<Rightarrow> length e = embedding_dim * 4)"

definition mental_wf :: "mental_db \<Rightarrow> bool" where
  "mental_wf db \<longleftrightarrow>
     in_step mm_rowid vec_of vr_rowid (mdb_rows db) (mdb_vecs db)
   \<and> distinct (map (\<lambda>r. (mm_bank r, mm_id r)) (mdb_rows db)) \<and> (\<forall>r \<in> set (mdb_rows db). row_ok (mdb_banks db) r)"

lemma wf_step: "mental_wf db \<Longrightarrow> in_step mm_rowid vec_of vr_rowid (mdb_rows db) (mdb_vecs db)"
  by (simp add: mental_wf_def)

lemma wf_key: "mental_wf db \<Longrightarrow> r \<in> set (mdb_rows db) \<Longrightarrow> s \<in> set (mdb_rows db) \<Longrightarrow> at_key b i r \<Longrightarrow> at_key b i s \<Longrightarrow> r = s"
  by (auto simp: mental_wf_def distinct_map inj_on_def at_key_def)

lemma wf_row: "mental_wf db \<Longrightarrow> r \<in> set (mdb_rows db) \<Longrightarrow> row_ok (mdb_banks db) r"
  by (simp add: mental_wf_def)

lemma drop_vec_put: "drop_vec vs i = put_shadow vr_rowid i None vs"
  by (simp add: drop_vec_def put_shadow_def)

lemma write_vec_put: "write_vec vs i b e = put_shadow vr_rowid i (Some \<lparr>vr_rowid = i, vr_bank = b, vr_embedding = e\<rparr>) vs"
  by (simp add: write_vec_def drop_vec_def put_shadow_def)

lemma fresh_above: "r \<in> set (mdb_rows db) \<Longrightarrow> mm_rowid r < fresh_rowid db"
proof -
  have "r \<in> set rs \<Longrightarrow> mm_rowid r \<le> foldr (\<lambda>r m. max (mm_rowid r) m) rs 0" for rs
    by (induction rs) auto
  then show "r \<in> set (mdb_rows db) \<Longrightarrow> mm_rowid r < fresh_rowid db" unfolding fresh_rowid_def by fastforce
qed

lemma vec_encode_length: "vec_encode e = Inr b \<Longrightarrow> length b = embedding_dim * 4"
proof -
  have "length (concat (map to_le_bytes e)) = length e * 4" by (induction e) (auto simp: to_le_bytes_def)
  then show "vec_encode e = Inr b \<Longrightarrow> length b = embedding_dim * 4" by (auto simp: vec_encode_def split: if_splits)
qed

lemma encode_opt_length: "encode_opt e = Inr (Some b) \<Longrightarrow> length b = embedding_dim * 4"
  by (cases e) (auto dest: vec_encode_length split: sum.splits)

lemma find_filter_one:
  assumes "distinct xs" "\<And>x y. x \<in> set xs \<Longrightarrow> y \<in> set xs \<Longrightarrow> P x \<Longrightarrow> P y \<Longrightarrow> x = y"
  shows "find P xs = Some x \<longleftrightarrow> x \<in> set xs \<and> P x"
  using assms by (induction xs) auto

lemma filter_one:
  assumes "distinct xs" "r \<in> set xs" "\<And>x. x \<in> set xs \<Longrightarrow> P x \<longleftrightarrow> x = r \<and> c"
  shows "filter P xs = (if c then [r] else [])"
  using assms by (induction xs) (auto simp: filter_empty_conv)

lemma mental_get_iff: "mental_wf db \<Longrightarrow> mental_get db b i = Some r \<longleftrightarrow> r \<in> set (mdb_rows db) \<and> at_key b i r"
  unfolding mental_get_def
  by (rule find_filter_one) (auto intro: wf_key simp: mental_wf_def distinct_map)

lemma mental_get_none: "mental_get db b i = None \<longleftrightarrow> (\<forall>r \<in> set (mdb_rows db). \<not> at_key b i r)"
  by (auto simp: mental_get_def find_None_iff)

lemma new_row_sel [simp]:
  "mm_rowid (new_row db n b now) = fresh_rowid db" "mm_id (new_row db n b now) = nm_id n"
  "mm_bank (new_row db n b now) = nm_bank n" "mm_embedding (new_row db n b now) = b"
  "mm_embedding_model (new_row db n b now) = model_tag b"
  by (simp_all add: new_row_def)

lemma model_tag_none [simp]: "model_tag b = None \<longleftrightarrow> b = None" "model_tag None = None" "model_tag (Some x) = Some embedding_model_id"
  by (auto simp: model_tag_def)

lemma insert_shape:
  assumes "mental_insert db n emb now = Inr (g, db')" and wf: "mental_wf db"
  obtains b where "encode_opt emb = Inr b" "nm_bank n \<in> set (mdb_banks db)" "mental_get db (nm_bank n) (nm_id n) = None"
    "g = new_row db n b now" "mdb_banks db' = mdb_banks db" "mdb_rows db' = mdb_rows db @ [new_row db n b now]"
    "mdb_vecs db' = put_shadow vr_rowid (fresh_rowid db) (vec_of (new_row db n b now)) (mdb_vecs db)"
proof -
  obtain b where b: "encode_opt emb = Inr b" using assms by (cases "encode_opt emb") (auto simp: mental_insert_def)
  have ok: "nm_bank n \<in> set (mdb_banks db)" "\<forall>r \<in> set (mdb_rows db). \<not> at_key (nm_bank n) (nm_id n) r"
    using assms(1) b by (auto simp: mental_insert_def split: if_splits)
  have keep: "filter (\<lambda>v. vr_rowid v \<noteq> fresh_rowid db) (mdb_vecs db) = mdb_vecs db"
  proof -
    have "vr_rowid v \<noteq> fresh_rowid db" if v: "v \<in> set (mdb_vecs db)" for v
    proof -
      obtain r where r: "r \<in> set (mdb_rows db)" "vec_of r = Some v" using mm.shadow_in[OF wf_step[OF wf]] v by blast
      then show ?thesis using fresh_above[OF r(1)] mm.shadow_id[OF r(2)] by simp
    qed
    then show ?thesis by (simp add: filter_id_conv)
  qed
  have vs: "(case b of None \<Rightarrow> mdb_vecs db | Some x \<Rightarrow> write_vec (mdb_vecs db) (mm_rowid (new_row db n b now)) (nm_bank n) x)
     = put_shadow vr_rowid (fresh_rowid db) (vec_of (new_row db n b now)) (mdb_vecs db)"
    using keep by (cases b) (auto simp: write_vec_put put_shadow_def vec_of_def)
  have got: "find (at_key (nm_bank n) (nm_id n)) (mdb_rows db @ [new_row db n b now]) = Some (new_row db n b now)"
  proof -
    have "find P xs = None \<Longrightarrow> find P (xs @ ys) = find P ys" for P and xs ys :: "mental_model list" by (induction xs) auto
    then show ?thesis using ok(2) by (simp add: find_None_iff at_key_def)
  qed
  have sh: "g = new_row db n b now" "mdb_banks db' = mdb_banks db" "mdb_rows db' = mdb_rows db @ [new_row db n b now]"
    "mdb_vecs db' = put_shadow vr_rowid (fresh_rowid db) (vec_of (new_row db n b now)) (mdb_vecs db)"
    using assms(1) b ok got vs by (auto simp: mental_insert_def Let_def mental_get_def)
  have "mental_get db (nm_bank n) (nm_id n) = None" using ok(2) mental_get_none by blast
  then show ?thesis by (rule that[OF b ok(1) _ sh])
qed

lemma patched_sel [simp]:
  "mm_rowid (patched p b c r) = mm_rowid r" "mm_id (patched p b c r) = mm_id r" "mm_bank (patched p b c r) = mm_bank r"
  "mm_embedding (patched p b c r) = (if c then None else coalesce b (mm_embedding r))"
  "mm_embedding_model (patched p b c r) = (if c then None else coalesce (model_tag b) (mm_embedding_model r))"
  by (simp_all add: patched_def)

lemma at_key_patched [simp]: "at_key bank i (patched p b c r) = at_key bank i r"
  by (simp add: at_key_def)

lemma update_shape:
  assumes up: "mental_update jv db bank i p emb = Inr (n, db')" and wf: "mental_wf db"
  obtains (none) "mental_get db bank i = None" "n = 0" "db' = db"
  | (row) r b where "mental_get db bank i = Some r" "n = 1" "encode_opt emb = Inr b" "mdb_banks db' = mdb_banks db"
    "mdb_rows db' = map (\<lambda>x. if x = r then patched p b (mp_clear_embedding p \<and> b = None) r else x) (mdb_rows db)"
    "mdb_vecs db' = (if b = None \<and> \<not> mp_clear_embedding p then mdb_vecs db
       else put_shadow vr_rowid (mm_rowid r) (vec_of (patched p b (mp_clear_embedding p \<and> b = None) r)) (mdb_vecs db))"
proof -
  obtain b where b: "encode_opt emb = Inr b" using up by (cases "encode_opt emb") (auto simp: mental_update_def)
  define c where "c \<longleftrightarrow> mp_clear_embedding p \<and> b = None"
  show ?thesis
  proof (cases "mental_get db bank i")
    case None
    then have no: "\<forall>r \<in> set (mdb_rows db). \<not> at_key bank i r" by (simp add: mental_get_none)
    then have "filter (at_key bank i) (mdb_rows db) = []" by (simp add: filter_empty_conv)
    moreover have "map (\<lambda>r. if at_key bank i r then patched p b c r else r) (mdb_rows db) = mdb_rows db"
      using no by (simp add: map_idI)
    ultimately have "n = 0 \<and> db' = db" using up b by (simp add: mental_update_def flip: c_def)
    then show ?thesis using none None by blast
  next
    case (Some r)
    then have r: "r \<in> set (mdb_rows db)" "at_key bank i r" using mental_get_iff[OF wf] by blast+
    have iff: "at_key bank i x \<longleftrightarrow> x = r" if "x \<in> set (mdb_rows db)" for x using wf_key[OF wf that r(1)] r(2) by blast
    have d: "distinct (mdb_rows db)" using wf by (simp add: mental_wf_def distinct_map)
    have one: "filter (at_key bank i) (mdb_rows db) = [r]"
    proof -
      have "filter (at_key bank i) (mdb_rows db) = filter ((=) r) (mdb_rows db)" using iff by (intro filter_cong) auto
      then show ?thesis using filter_one[OF d r(1), of "(=) r" True] by auto
    qed
    define rows where "rows = map (\<lambda>x. if x = r then patched p b c r else x) (mdb_rows db)"
    have rows: "map (\<lambda>r. if at_key bank i r then patched p b c r else r) (mdb_rows db) = rows"
      unfolding rows_def using iff by (intro map_cong) auto
    have fnd: "find (at_key bank i) rows = Some (patched p b c r)"
    proof -
      have "find (at_key bank i) rows = Some (patched p b c r)" if "r \<in> set xs" "\<forall>x \<in> set xs. at_key bank i x \<longleftrightarrow> x = r"
        "rows = map (\<lambda>x. if x = r then patched p b c r else x) xs" for xs
        using that by (induction xs arbitrary: rows) auto
      then show ?thesis using r(1) iff rows_def by blast
    qed
    define bad where "bad \<longleftrightarrow> (case mp_reflect_response p of None \<Rightarrow> False | Some a \<Rightarrow> \<not> jv a)"
    define vs where "vs = (if b = None \<and> \<not> mp_clear_embedding p then mdb_vecs db
       else put_shadow vr_rowid (mm_rowid r) (vec_of (patched p b c r)) (mdb_vecs db))"
    have "mental_update jv db bank i p emb =
        (if bad then Inl ErrStorage else if b \<noteq> None \<or> c
         then Inr (1, db\<lparr>mdb_rows := rows, mdb_vecs := (case b of Some x \<Rightarrow> write_vec (mdb_vecs db) (mm_rowid (patched p b c r)) bank x
                    | None \<Rightarrow> drop_vec (mdb_vecs db) (mm_rowid (patched p b c r)))\<rparr>)
         else Inr (1, db\<lparr>mdb_rows := rows\<rparr>))"
      by (simp add: mental_update_def b Let_def one rows fnd bad_def flip: c_def)
    moreover have "mm_bank r = bank" using r(2) by (simp add: at_key_def)
    ultimately have "n = 1 \<and> db' = db\<lparr>mdb_rows := rows, mdb_vecs := vs\<rparr>"
      using up by (cases b) (auto simp: vs_def c_def write_vec_put drop_vec_put vec_of_def split: if_splits)
    then show ?thesis by (intro row[of r b]) (simp_all add: Some b rows_def vs_def c_def)
  qed
qed


lemma insert_wf:
  assumes "mental_insert db n emb now = Inr (g, db')" and wf: "mental_wf db"
  shows "mental_wf db'"
  using insert_shape[OF assms]
proof cases
  case (1 b)
  have new: "mm_rowid (new_row db n b now) \<notin> mm_rowid ` set (mdb_rows db)" using fresh_above by fastforce
  have "row_ok (mdb_banks db) (new_row db n b now)"
    using 1(2) encode_opt_length[of emb] 1(1) by (auto simp: row_ok_def split: option.splits)
  moreover have "distinct (map (\<lambda>r. (mm_bank r, mm_id r)) (mdb_rows db @ [new_row db n b now]))"
    using wf 1(3) by (auto simp: mental_wf_def mental_get_none at_key_def)
  ultimately show ?thesis
    using mm.step_append[OF wf_step[OF wf] new] wf_row[OF wf] 1 by (auto simp: mental_wf_def)
qed

lemma update_wf:
  assumes up: "mental_update jv db bank i p emb = Inr (n, db')" and wf: "mental_wf db"
  shows "mental_wf db'"
proof (cases rule: update_shape[OF assms, case_names none row])
  case none
  then show ?thesis using wf by simp
next
  case (row r b)
  define c where "c \<longleftrightarrow> mp_clear_embedding p \<and> b = None"
  define f where "f x = (if x = r then patched p b c r else x)" for x
  have r: "r \<in> set (mdb_rows db)" using row(1) mental_get_iff[OF wf] by blast
  have rows: "mdb_rows db' = map f (mdb_rows db)" using row(5) by (simp add: f_def[abs_def] c_def)
  have rid: "mm_rowid (f x) = mm_rowid x" and keys: "mm_bank (f x) = mm_bank x" "mm_id (f x) = mm_id x" for x
    by (simp_all add: f_def)
  have ok: "row_ok (mdb_banks db) (f x)" if "x \<in> set (mdb_rows db)" for x
    using wf_row[OF wf that] encode_opt_length[of emb] row(3)
    by (auto simp: row_ok_def f_def c_def split: option.splits if_splits; cases b; auto)
  have step: "in_step mm_rowid vec_of vr_rowid (map f (mdb_rows db)) (mdb_vecs db')"
  proof (cases "b = None \<and> \<not> mp_clear_embedding p")
    case True
    then have "vec_of (f x) = vec_of x" for x by (simp add: f_def vec_of_def c_def)
    then show ?thesis using mm.step_keep[OF wf_step[OF wf], of f] rid row(6) True by auto
  next
    case False
    have "in_step mm_rowid vec_of vr_rowid (map f (mdb_rows db)) (put_shadow vr_rowid (mm_rowid r) (vec_of (f r)) (mdb_vecs db))"
      using mm.step_replace[OF wf_step[OF wf] r, of f] rid by (auto simp: f_def)
    then show ?thesis using row(6) False by (simp add: f_def c_def)
  qed
  have "map (\<lambda>r. (mm_bank r, mm_id r)) (map f (mdb_rows db)) = map (\<lambda>r. (mm_bank r, mm_id r)) (mdb_rows db)"
    by (simp add: keys)
  then show ?thesis using step ok rows row(4) wf unfolding mental_wf_def by (metis (no_types, lifting) image_iff list.set_map)
qed

lemma foldl_drop: "foldl drop_vec vs is = filter (\<lambda>v. vr_rowid v \<notin> set is) vs"
  by (induction "is" arbitrary: vs) (auto simp: drop_vec_def intro: filter_cong)

lemma delete_wf: "mental_wf db \<Longrightarrow> mental_wf (snd (mental_delete db bank i))"
  using mm.step_delete[of "mdb_rows db" "mdb_vecs db" "at_key bank i"]
  by (auto simp: mental_wf_def mental_delete_def Let_def foldl_drop distinct_map_filter)

lemma cited_sel [simp]:
  "mm_rowid (cited now r) = mm_rowid r" "mm_id (cited now r) = mm_id r" "mm_bank (cited now r) = mm_bank r"
  "mm_embedding (cited now r) = mm_embedding r" "mm_embedding_model (cited now r) = mm_embedding_model r"
  "at_key b i (cited now r) = at_key b i r"
  by (simp_all add: cited_def at_key_def)

lemma cite_one_wf:
  assumes wf: "mental_wf (snd st)"
  shows "mental_wf (snd (cite_one bank now i st))"
proof -
  define f where "f r = (if at_key bank i r then cited now r else r)" for r
  have rows: "mdb_rows (snd (cite_one bank now i st)) = map f (mdb_rows (snd st))"
    by (simp add: cite_one_def f_def[abs_def])
  have "in_step mm_rowid vec_of vr_rowid (map f (mdb_rows (snd st))) (mdb_vecs (snd st))"
    by (rule mm.step_keep[OF wf_step[OF wf]]) (simp add: f_def vec_of_def)
  moreover have "map (\<lambda>r. (mm_bank r, mm_id r)) (map f (mdb_rows (snd st))) = map (\<lambda>r. (mm_bank r, mm_id r)) (mdb_rows (snd st))"
    by (simp add: f_def)
  moreover have "row_ok (mdb_banks (snd st)) (f r)" if "r \<in> set (mdb_rows (snd st))" for r
    using wf_row[OF wf that] by (simp add: f_def row_ok_def)
  ultimately have "mental_wf ((snd st)\<lparr>mdb_rows := map f (mdb_rows (snd st))\<rparr>)"
    using wf unfolding mental_wf_def by (simp del: map_map map_eq_conv)
  then show ?thesis by (simp add: cite_one_def f_def[abs_def])
qed

lemma cite_wf: "mental_wf db \<Longrightarrow> mental_wf (snd (record_citations db bank ids now))"
proof -
  have "mental_wf (snd st) \<Longrightarrow> mental_wf (snd (fold (cite_one bank now) ids st))" for st
    by (induction ids arbitrary: st) (simp_all add: cite_one_wf del: split_paired_All)
  from this[of "(0, db)"] show "mental_wf db \<Longrightarrow> mental_wf (snd (record_citations db bank ids now))"
    by (simp add: record_citations_def)
qed


datatype mental_op =
    MInsert new_mental_model "f32 list option" int
  | MUpdate str str mm_patch "f32 list option"
  | MDelete str str
  | MCite str "str list" int

text \<open>One call of the module; one that fails leaves the tables alone.\<close>

fun apply_mental_op :: "(str \<Rightarrow> bool) \<Rightarrow> mental_op \<Rightarrow> mental_db \<Rightarrow> mental_db" where
  "apply_mental_op jv (MInsert n e now) db = (case mental_insert db n e now of Inl _ \<Rightarrow> db | Inr (_, db') \<Rightarrow> db')"
| "apply_mental_op jv (MUpdate b i p e) db = (case mental_update jv db b i p e of Inl _ \<Rightarrow> db | Inr (_, db') \<Rightarrow> db')"
| "apply_mental_op jv (MDelete b i) db = snd (mental_delete db b i)"
| "apply_mental_op jv (MCite b ids now) db = snd (record_citations db b ids now)"

definition no_models :: "str list \<Rightarrow> mental_db" where
  "no_models banks = \<lparr>mdb_banks = banks, mdb_rows = [], mdb_vecs = []\<rparr>"

lemma no_models_wf: "mental_wf (no_models banks)"
  by (simp add: mental_wf_def in_step_def no_models_def)

lemma apply_wf: "mental_wf db \<Longrightarrow> mental_wf (apply_mental_op jv op db)"
  by (cases op) (auto split: sum.splits intro: insert_wf update_wf delete_wf cite_wf)

lemma run_wf: "mental_wf db \<Longrightarrow> mental_wf (fold (apply_mental_op jv) ops db)"
  by (induction ops arbitrary: db) (simp_all add: apply_wf)

text \<open>Whatever models are inserted, patched, refreshed, cited and deleted, and whichever of those
  calls fail, the vector index holds exactly one row per model that has an embedding, under that model's
  row id, with its bank and its bytes; embeddings have the right length and carry a model tag.\<close>

lemma mental_index_in_step:
  "mental_wf (fold (apply_mental_op json_valid) ops (no_models banks))"
  by (rule run_wf[OF no_models_wf])

lemma uint_byte: "uint (ucast (drop_bit n w) :: 8 word) = uint w div 2 ^ n mod 256" for w :: f32
proof -
  have "uint w mod 4294967296 = uint w" using uint_range_size[of w] by (intro mod_pos_pos_trivial) (simp_all add: word_size)
  then show ?thesis by (simp add: unsigned_ucast_eq unsigned_drop_bit_eq take_bit_eq_mod flip: drop_bit_eq_div)
qed

lemma four_bytes:
  fixes u :: int
  assumes "0 \<le> u" "u < 4294967296"
  shows "u mod 256 + 256 * (u div 256 mod 256 + 256 * (u div 65536 mod 256 + 256 * (u div 16777216 mod 256))) = u"
proof -
  have d: "u div 65536 = u div 256 div 256" "u div 16777216 = u div 256 div 256 div 256"
    by (simp_all flip: zdiv_zmult2_eq)
  have top: "u div 256 div 256 div 256 mod 256 = u div 256 div 256 div 256"
    using assms by (intro mod_pos_pos_trivial) (simp_all flip: zdiv_zmult2_eq)
  have s: "x mod 256 + 256 * (x div 256) = x" for x :: int by simp
  show ?thesis unfolding d top s ..
qed

lemma from_to_le_bytes: "from_le_bytes (to_le_bytes w) = w"
proof -
  define u where "u = uint w"
  have u: "0 \<le> u" "u < 4294967296" using uint_range_size[of w] by (simp_all add: u_def word_size)
  define a b c d where "a = u mod 256" and "b = u div 256 mod 256" and "c = u div 65536 mod 256" and "d = u div 16777216 mod 256"
  have r: "0 \<le> a" "a < 256" "0 \<le> b" "b < 256" "0 \<le> c" "c < 256" "0 \<le> d" "d < 256"
    by (simp_all add: a_def b_def c_def d_def)
  have by4: "uint (ucast w :: 8 word) = a" "uint (ucast (drop_bit 8 w) :: 8 word) = b"
    "uint (ucast (drop_bit 16 w) :: 8 word) = c" "uint (ucast (drop_bit 24 w) :: 8 word) = d"
    using uint_byte[of 0 w] uint_byte[of 8 w] uint_byte[of 16 w] uint_byte[of 24 w]
    by (simp_all add: a_def b_def c_def d_def u_def)
  have "from_le_bytes [x0, x1, x2, x3] = word_of_int (uint x0 + 256 * (uint x1 + 256 * (uint x2 + 256 * uint x3)))" for x0 x1 x2 x3
    by (simp only: from_le_bytes.simps ucast_eq of_int_add of_int_mult of_int_numeral mult_zero_right add_0_right)
  moreover have "to_le_bytes w = [ucast w, ucast (drop_bit 8 w), ucast (drop_bit 16 w), ucast (drop_bit 24 w)]"
    by (simp add: to_le_bytes_def)
  ultimately have "from_le_bytes (to_le_bytes w) = word_of_int (a + 256 * (b + 256 * (c + 256 * d)))"
    by (simp only: by4)
  also have "a + 256 * (b + 256 * (c + 256 * d)) = u"
    unfolding a_def b_def c_def d_def by (rule four_bytes[OF u])
  finally show ?thesis by (simp add: u_def)
qed

lemma chunks_encode: "map from_le_bytes (chunks_exact4 (concat (map to_le_bytes e))) = e"
proof (induction e)
  case (Cons w e)
  obtain a b c d where w: "to_le_bytes w = [a, b, c, d]" by (simp add: to_le_bytes_def)
  have "from_le_bytes [a, b, c, d] = w" using from_to_le_bytes[of w] by (simp only: w)
  then show ?case using Cons w by (simp del: from_le_bytes.simps)
qed simp

text \<open>A vector of the model's dimension reads back from its blob bit for bit, and no other vector is
  ever encoded.\<close>

lemma vec_round_trip:
  "case vec_encode e of Inl x \<Rightarrow> x = ErrInvalid \<and> length e \<noteq> embedding_dim
   | Inr b \<Rightarrow> length e = embedding_dim \<and> vec_decode b = Inr e"
proof (cases "vec_encode e")
  case (Inl x)
  then show ?thesis by (auto simp: vec_encode_def split: if_splits)
next
  case (Inr b)
  then have "length e = embedding_dim" "b = concat (map to_le_bytes e)" by (auto simp: vec_encode_def split: if_splits)
  then show ?thesis using Inr vec_encode_length[OF Inr] chunks_encode[of e] by (simp add: vec_decode_def)
qed

subsection \<open>The index answers for the rows\<close>

lemma sort_take_smaller:
  fixes k :: "'a \<Rightarrow> 'k::linorder"
  assumes "x \<in> set xs" "x \<notin> set (take n (sort_key k xs))" "y \<in> set (take n (sort_key k xs))"
  shows "k y \<le> k x"
proof -
  have "x \<in> set (drop n (sort_key k xs))"
    using assms(1,2) set_append[of "take n (sort_key k xs)" "drop n (sort_key k xs)"] by auto
  moreover have "sorted (map k (take n (sort_key k xs) @ drop n (sort_key k xs)))" by simp
  ultimately show ?thesis using assms(3) by (simp only: map_append sorted_append) auto
qed

lemma knn_hits:
  assumes wf: "mental_wf db" and q: "vec_encode query = Inr q"
  shows "\<exists>rs. knn dist db bank query k = Inr (map (\<lambda>r. (mm_id r, dist q (the (mm_embedding r)))) rs)
    \<and> map vec_of rs = map Some (filter (\<lambda>v. \<exists>r \<in> set (mdb_rows db). mm_rowid r = vr_rowid v \<and> mm_embedding_model r = Some embedding_model_id) (nearest dist db bank q k))
    \<and> set rs \<subseteq> {r \<in> set (mdb_rows db). mm_embedding_model r = Some embedding_model_id}"
proof -
  have sub: "set (nearest dist db bank q k) \<subseteq> set (mdb_vecs db)" by (auto simp: nearest_def dest: in_set_takeD)
  define P :: "vec_row \<Rightarrow> mental_model \<Rightarrow> bool" where "P v r \<longleftrightarrow> mm_rowid r = vr_rowid v \<and> mm_embedding_model r = Some embedding_model_id" for v r
  have "\<exists>rs. concat (map (\<lambda>v. map (\<lambda>r. (mm_id r, dist q (vr_embedding v))) (filter (P v) (mdb_rows db))) vs)
        = map (\<lambda>r. (mm_id r, dist q (the (mm_embedding r)))) rs
      \<and> map vec_of rs = map Some (filter (\<lambda>v. \<exists>r \<in> set (mdb_rows db). P v r) vs)
      \<and> set rs \<subseteq> {r \<in> set (mdb_rows db). mm_embedding_model r = Some embedding_model_id}" if "set vs \<subseteq> set (mdb_vecs db)" for vs
    using that
  proof (induction vs)
    case (Cons v vs)
    then obtain rs where rs: "concat (map (\<lambda>v. map (\<lambda>r. (mm_id r, dist q (vr_embedding v))) (filter (P v) (mdb_rows db))) vs)
        = map (\<lambda>r. (mm_id r, dist q (the (mm_embedding r)))) rs"
      "map vec_of rs = map Some (filter (\<lambda>v. \<exists>r \<in> set (mdb_rows db). P v r) vs)"
      "set rs \<subseteq> {r \<in> set (mdb_rows db). mm_embedding_model r = Some embedding_model_id}" by auto
    obtain r where r: "r \<in> set (mdb_rows db)" "vec_of r = Some v" using mm.shadow_in[OF wf_step[OF wf]] Cons.prems by auto
    have dr: "distinct (mdb_rows db)" using wf by (simp add: mental_wf_def distinct_map)
    have "P v x \<longleftrightarrow> x = r \<and> mm_embedding_model r = Some embedding_model_id" if "x \<in> set (mdb_rows db)" for x
      using mm.same_row[OF wf_step[OF wf] that r(1)] mm.shadow_id[OF r(2)] by (auto simp: P_def)
    then have one: "filter (P v) (mdb_rows db) = (if mm_embedding_model r = Some embedding_model_id then [r] else [])"
      and ex: "(\<exists>x \<in> set (mdb_rows db). P v x) \<longleftrightarrow> mm_embedding_model r = Some embedding_model_id"
      using filter_one[OF dr r(1)] r(1) by auto
    have "vr_embedding v = the (mm_embedding r)" using r(2) by (auto simp: vec_of_def)
    then show ?case
    proof (cases "mm_embedding_model r = Some embedding_model_id")
      case True
      then show ?thesis using rs r one ex \<open>vr_embedding v = _\<close> by (intro exI[of _ "r # rs"]) simp
    next
      case False
      then show ?thesis using rs one ex by (intro exI[of _ rs]) simp
    qed
  qed simp
  from this[OF sub] show ?thesis unfolding P_def[abs_def] knn_def q by simp
qed


lemma nearest_sub:
  assumes "mental_wf db"
  shows "set (nearest dist db bank q k) \<subseteq> set (filter (\<lambda>v. vr_bank v = bank) (mdb_vecs db))"
    "distinct (nearest dist db bank q k)" "length (nearest dist db bank q k) \<le> k"
  using wf_step[OF assms] by (auto simp: nearest_def in_step_def distinct_map dest: in_set_takeD)

text \<open>An embedded row that is not among the nearest index rows has \<open>k\<close> rows of its bank before it.\<close>

lemma left_out_is_far:
  assumes wf: "mental_wf db" and r: "r \<in> set (mdb_rows db)" "mm_bank r = bank" "mm_embedding r = Some e"
    and out: "vec_of r \<notin> Some ` set (nearest dist db bank q k)"
  shows "k \<le> length (filter (\<lambda>s. mm_bank s = bank \<and> (case mm_embedding s of None \<Rightarrow> False | Some e' \<Rightarrow> dist q e' \<le> dist q e)) (mdb_rows db))"
proof -
  let ?near = "nearest dist db bank q k"
  let ?bankvs = "filter (\<lambda>v. vr_bank v = bank) (mdb_vecs db)"
  note near = nearest_sub[OF wf, of dist bank q k]
  define v where "v = \<lparr>vr_rowid = mm_rowid r, vr_bank = bank, vr_embedding = e\<rparr>"
  have v: "vec_of r = Some v" using r by (simp add: vec_of_def v_def)
  then have vin: "v \<in> set ?bankvs" using mm.shadow_in[OF wf_step[OF wf]] r(1) by (auto simp: v_def)
  have out: "v \<notin> set ?near" using out v by auto
  have le: "dist q (vr_embedding w) \<le> dist q e" if "w \<in> set ?near" for w
    using sort_take_smaller[OF vin, of k "\<lambda>v. dist q (vr_embedding v)" w] out that by (simp add: nearest_def v_def)
  have "\<not> length (sort_key (\<lambda>v. dist q (vr_embedding v)) ?bankvs) \<le> k"
  proof
    assume "length (sort_key (\<lambda>v. dist q (vr_embedding v)) ?bankvs) \<le> k"
    then have "set ?near = set ?bankvs" by (simp add: nearest_def)
    then show False using out vin by blast
  qed
  then have "length ?near = k" by (simp add: nearest_def)
  then have k: "k = card (set ?near)" using near(2) distinct_card by fastforce
  define F where "F = filter (\<lambda>s. mm_bank s = bank \<and> (case mm_embedding s of None \<Rightarrow> False | Some e' \<Rightarrow> dist q e' \<le> dist q e)) (mdb_rows db)"
  have "Some ` set ?near \<subseteq> vec_of ` set F"
  proof
    fix z assume "z \<in> Some ` set ?near"
    then obtain w where w: "z = Some w" "w \<in> set ?near" by blast
    then obtain s where s: "s \<in> set (mdb_rows db)" "vec_of s = Some w"
      using mm.shadow_in[OF wf_step[OF wf], of w] near(1) by auto
    then have "mm_bank s = bank" "mm_embedding s = Some (vr_embedding w)" using w(2) near(1) by (auto simp: vec_of_def)
    then show "z \<in> vec_of ` set F" using s w le by (auto simp: F_def intro!: image_eqI[of _ _ s])
  qed
  then have "card (Some ` set ?near) \<le> card (set F)" by (meson List.finite_set card_image_le card_mono finite_imageI le_trans)
  moreover have "card (Some ` set ?near) = k" using k by (simp add: card_image)
  ultimately have "k \<le> length F" using card_length[of F] by linarith
  then show ?thesis by (simp only: F_def)
qed

text \<open>A search returns at most \<open>k\<close> models, of the asked bank and of the current embedding model, each
  at the distance of the embedding its row holds now, nearest first and no model twice; and a model of the
  bank it leaves out has at least \<open>k\<close> index rows of the bank that are no farther away.\<close>

lemma knn_nearest_of_rows:
  assumes "mental_wf db" and "vec_encode query = Inr q"
  shows "case knn dist db bank query k of Inl _ \<Rightarrow> False
   | Inr hits \<Rightarrow>
       length hits \<le> k \<and> sorted (map snd hits) \<and> distinct (map fst hits)
     \<and> (\<forall>h \<in> set hits. \<exists>r e. mental_get db bank (fst h) = Some r \<and> mm_embedding r = Some e
          \<and> mm_embedding_model r = Some embedding_model_id \<and> snd h = dist q e)
     \<and> (\<forall>r \<in> set (mdb_rows db). \<forall>e. mm_bank r = bank \<and> mm_embedding r = Some e
          \<and> mm_embedding_model r = Some embedding_model_id \<and> mm_id r \<notin> fst ` set hits
        \<longrightarrow> k \<le> length (filter (\<lambda>s. mm_bank s = bank \<and> (case mm_embedding s of None \<Rightarrow> False | Some e' \<Rightarrow> dist q e' \<le> dist q e)) (mdb_rows db)))"
proof -
  let ?near = "nearest dist db bank q k"
  let ?bankvs = "filter (\<lambda>v. vr_bank v = bank) (mdb_vecs db)"
  let ?cur = "\<lambda>r. mm_embedding_model r = Some embedding_model_id"
  let ?ok = "\<lambda>v. \<exists>r \<in> set (mdb_rows db). mm_rowid r = vr_rowid v \<and> ?cur r"
  obtain rs where hits: "knn dist db bank query k = Inr (map (\<lambda>r. (mm_id r, dist q (the (mm_embedding r)))) rs)"
    and rs: "map vec_of rs = map Some (filter ?ok ?near)" and sub: "set rs \<subseteq> {r \<in> set (mdb_rows db). ?cur r}"
    using knn_hits[OF assms] by blast
  note near = nearest_sub[OF assms(1), of dist bank q k]
  have mem: "vec_of r \<in> Some ` set ?near" if "r \<in> set rs" for r
    using arg_cong[OF rs, of set] that by auto
  have row: "mm_bank r = bank \<and> mental_get db bank (mm_id r) = Some r \<and> ?cur r \<and> mm_embedding r = Some (the (mm_embedding r))"
    if "r \<in> set rs" for r
  proof -
    have "mm_bank r = bank" "mm_embedding r \<noteq> None" using mem[OF that] near(1) by (auto simp: vec_of_def)
    moreover have "r \<in> set (mdb_rows db)" "?cur r" using sub that by auto
    ultimately show ?thesis using mental_get_iff[OF assms(1), of bank "mm_id r" r] by (auto simp: at_key_def)
  qed
  have dr: "distinct rs"
  proof -
    have "distinct (map vec_of rs)" unfolding rs using near(2) by (simp add: distinct_map)
    then show ?thesis by (simp add: distinct_map)
  qed
  have ids: "distinct (map mm_id rs)"
    using dr row by (auto simp: distinct_map inj_on_def) (metis option.inject)
  have len: "length rs \<le> k" using arg_cong[OF rs, of length] near(3) length_filter_le[of ?ok ?near] unfolding length_map by linarith
  have srt: "sorted (map (\<lambda>r. dist q (the (mm_embedding r))) rs)"
  proof -
    have "sorted (map (\<lambda>v. dist q (vr_embedding v)) (filter ?ok ?near))"
      by (intro sorted_filter) (simp add: nearest_def take_map[symmetric] sorted_wrt_take)
    moreover have "map (\<lambda>r. dist q (the (mm_embedding r))) rs = map (\<lambda>v. dist q (vr_embedding v)) (filter ?ok ?near)"
    proof -
      have "dist q (the (mm_embedding r)) = dist q (vr_embedding (the (vec_of r)))" if "r \<in> set rs" for r
        using row[OF that] by (cases "mm_embedding r") (auto simp: vec_of_def)
      then have "map (\<lambda>r. dist q (the (mm_embedding r))) rs = map (\<lambda>v. dist q (vr_embedding (the v))) (map vec_of rs)"
        by simp
      then show ?thesis by (simp add: rs)
    qed
    ultimately show ?thesis by simp
  qed
  have far: "vec_of r \<notin> Some ` set ?near" if r: "r \<in> set (mdb_rows db)" "?cur r" "mm_id r \<notin> mm_id ` set rs" for r
  proof
    assume "vec_of r \<in> Some ` set ?near"
    then obtain v where v: "vec_of r = Some v" "v \<in> set ?near" by blast
    then have "v \<in> set (filter ?ok ?near)" using r(1,2) mm.shadow_id[OF v(1)] by auto
    then have "Some v \<in> set (map vec_of rs)" unfolding rs by simp
    then obtain r' where r': "r' \<in> set rs" "vec_of r' = Some v" by auto
    then have "mm_rowid r' = mm_rowid r" using mm.shadow_id v(1) by metis
    then have "r' = r" using mm.same_row[OF wf_step[OF assms(1)]] sub r'(1) r(1) by blast
    then show False using r(3) r'(1) by blast
  qed
  have left: "k \<le> length (filter (\<lambda>s. mm_bank s = bank \<and> (case mm_embedding s of None \<Rightarrow> False | Some e' \<Rightarrow> dist q e' \<le> dist q e)) (mdb_rows db))"
    if "r \<in> set (mdb_rows db)" "mm_bank r = bank" "mm_embedding r = Some e" "?cur r" "mm_id r \<notin> mm_id ` set rs" for r e
    using left_out_is_far[OF assms(1) that(1,2,3) far[OF that(1,4,5)]] .
  show ?thesis
    unfolding hits sum.case list.set_map image_image fst_conv snd_conv length_map map_map comp_def
    using len srt ids row left by auto
qed


definition bytes_apart :: "blob \<Rightarrow> blob \<Rightarrow> nat" where
  "bytes_apart a b = length (filter (\<lambda>p. fst p \<noteq> snd p) (zip a b))"

definition flat_vec :: "f32 list" where
  "flat_vec = replicate embedding_dim 0"

definition sample_model :: new_mental_model where
  "sample_model = \<lparr>nm_id = lit ''mm-1'', nm_bank = lit ''b'', nm_name = lit ''style'', nm_source_query = None,
     nm_content = lit ''short lines'', nm_max_tokens = Some 2048, nm_trigger = None\<rparr>"

definition sample_models :: mental_db where
  "sample_models = apply_mental_op (\<lambda>_. True) (MInsert sample_model (Some flat_vec) 5) (no_models [lit ''b''])"

lemma flat_encoded: "vec_encode flat_vec = Inr (concat (map to_le_bytes flat_vec))"
  by (simp add: vec_encode_def flat_vec_def)

lemma sample_models_row: "\<exists>r. mdb_rows sample_models = [r] \<and> mm_bank r = lit ''b'' \<and> mm_id r = lit ''mm-1''
    \<and> mm_rowid r = 1 \<and> mm_embedding r = Some (concat (map to_le_bytes flat_vec)) \<and> mm_embedding_model r = Some embedding_model_id"
  and sample_models_vec: "mdb_vecs sample_models = [\<lparr>vr_rowid = 1, vr_bank = lit ''b'', vr_embedding = concat (map to_le_bytes flat_vec)\<rparr>]"
  by (simp_all add: sample_models_def mental_insert_def no_models_def sample_model_def flat_encoded new_row_def fresh_rowid_def
      write_vec_def drop_vec_def mental_get_def at_key_def Let_def model_tag_def)

lemma sample_models_wf: "mental_wf sample_models"
  unfolding sample_models_def by (rule apply_wf[OF no_models_wf])

lemma sample_knn: "\<exists>d. knn bytes_apart sample_models (lit ''b'') flat_vec 1 = Inr [(lit ''mm-1'', d)]"
proof -
  obtain r where "mdb_rows sample_models = [r]" "mm_id r = lit ''mm-1''" "mm_rowid r = 1" "mm_embedding_model r = Some embedding_model_id"
    using sample_models_row by blast
  then show ?thesis by (simp add: knn_def flat_encoded nearest_def sample_models_vec)
qed

end
