(* ===== verification/Recall_Ranking.thy ===== *)
theory Recall_Ranking
  imports Complex_Main Core_Types "HOL-Library.AList" "HOL-Library.Signed_Division" "HOL-Library.Product_Lexorder"
begin

text \<open>
  The ranking of recall: \<open>crates/memgardend/src/recall/fusion.rs\<close>, \<open>graph.rs\<close> (the ranking half),
  \<open>scoring.rs\<close> and \<open>budget.rs\<close>. A finite \<open>f64\<close> is the rational number it stands for and the arithmetic
  is exact: rounding, and NaN, which the code never produces here, are not modelled. \<open>tanh\<close> and \<open>ln\<close> (\<open>th\<close>, \<open>lg\<close>) are
  parameters.
\<close>

type_synonym f64 = rat

subsection \<open>Reciprocal rank fusion\<close>

record arm_hit =
  ah_id :: int
  ah_score :: f64

record merged =
  mg_id :: int
  mg_rrf_score :: f64
  mg_rrf_rank :: nat
  mg_semantic :: "f64 option"
  mg_keyword :: "f64 option"

definition rrf_k :: f64 where
  "rrf_k = 60"

definition cap_per_source :: "arm_hit list \<Rightarrow> nat \<Rightarrow> arm_hit list" where
  "cap_per_source results cap = (if cap = 0 \<or> length results \<le> cap then results else take cap results)"

text \<open>The entry of an id, made when the id is first seen. \<open>SOURCE_NAMES\<close> gives slot 0 to the semantic arm
  and slot 1 to the keyword arm, whose raw scores are kept.\<close>

definition fresh_merged :: "int \<Rightarrow> merged" where
  "fresh_merged i = \<lparr>mg_id = i, mg_rrf_score = 0, mg_rrf_rank = 0, mg_semantic = None, mg_keyword = None\<rparr>"

definition credit :: "f64 \<Rightarrow> nat \<Rightarrow> nat \<Rightarrow> arm_hit \<Rightarrow> merged \<Rightarrow> merged" where
  "credit k arm_idx rank hit m =
     (let m' = m\<lparr>mg_rrf_score := mg_rrf_score m + 1 / (k + of_nat rank)\<rparr> in
      if arm_idx = 0 then m'\<lparr>mg_semantic := Some (ah_score hit)\<rparr>
      else if arm_idx = 1 then m'\<lparr>mg_keyword := Some (ah_score hit)\<rparr> else m')"

fun upsert_merged :: "int \<Rightarrow> (merged \<Rightarrow> merged) \<Rightarrow> merged list \<Rightarrow> merged list" where
  "upsert_merged i f [] = [f (fresh_merged i)]"
| "upsert_merged i f (m # ms) = (if mg_id m = i then f m # ms else m # upsert_merged i f ms)"

definition fuse_hit :: "f64 \<Rightarrow> nat \<Rightarrow> nat \<times> arm_hit \<Rightarrow> merged list \<Rightarrow> merged list" where
  "fuse_hit k arm_idx rh ms =
     (let (rank0, hit) = rh in upsert_merged (ah_id hit) (credit k arm_idx (rank0 + 1) hit) ms)"

definition fuse_arm :: "f64 \<Rightarrow> nat \<times> arm_hit list \<Rightarrow> merged list \<Rightarrow> merged list" where
  "fuse_arm k arm ms = fold (fuse_hit k (fst arm)) (enumerate 0 (snd arm)) ms"

definition reciprocal_rank_fusion :: "arm_hit list list \<Rightarrow> f64 \<Rightarrow> merged list" where
  "reciprocal_rank_fusion arms k =
     (let ms = fold (fuse_arm k) (enumerate 0 arms) []
      in map (\<lambda>(i, m). m\<lparr>mg_rrf_rank := i + 1\<rparr>) (enumerate 0 (sort_key (\<lambda>m. - mg_rrf_score m) ms)))"

subsection \<open>The graph arm\<close>

record neighbor =
  nb_node_id :: int
  nb_link_type :: str
  nb_weight :: f64

definition graph_seeds :: nat where
  "graph_seeds = 20"

definition graph_expansion_cap :: nat where
  "graph_expansion_cap = 200"

definition edge_fetch_cap :: nat where
  "edge_fetch_cap = graph_expansion_cap * 4"

definition is_causal :: "str \<Rightarrow> bool" where
  "is_causal t \<longleftrightarrow> t \<in> {lit ''caused_by'', lit ''causes'', lit ''enables'', lit ''prevents''}"

definition raise_slot :: "int \<Rightarrow> f64 \<Rightarrow> (int \<times> f64) list \<Rightarrow> (int \<times> f64) list" where
  "raise_slot i w m = AList.update i (case map_of m i of None \<Rightarrow> w | Some v \<Rightarrow> max v w) m"

definition slot :: "(int \<times> f64) list \<Rightarrow> int \<Rightarrow> f64" where
  "slot m i = (case map_of m i of None \<Rightarrow> 0 | Some v \<Rightarrow> v)"

definition entity_scores :: "(f64 \<Rightarrow> f64) \<Rightarrow> (int \<times> int) list \<Rightarrow> (int \<times> f64) list" where
  "entity_scores th shared = fold (\<lambda>(i, n). AList.update i (th (of_int n * (1 / 2)))) shared []"

definition link_scores :: "(neighbor \<Rightarrow> bool) \<Rightarrow> neighbor list \<Rightarrow> (int \<times> f64) list" where
  "link_scores P links = fold (\<lambda>n. raise_slot (nb_node_id n) (nb_weight n)) (filter P links) []"

definition graph_rank :: "(f64 \<Rightarrow> f64) \<Rightarrow> neighbor list \<Rightarrow> (int \<times> int) list \<Rightarrow> arm_hit list" where
  "graph_rank th links shared =
     (let entity = entity_scores th shared;
          causal = link_scores (\<lambda>n. is_causal (nb_link_type n)) links;
          plain = link_scores (\<lambda>n. \<not> is_causal (nb_link_type n)) links;
          ids = remdups_adj (sort (map fst entity @ map fst causal @ map fst plain));
          hits = map (\<lambda>i. \<lparr>ah_id = i, ah_score = slot entity i + slot causal i + slot plain i\<rparr>) ids
      in take graph_expansion_cap (sort_key (\<lambda>h. (- ah_score h, ah_id h)) hits))"

subsection \<open>Scores\<close>

definition recency_alpha :: f64 where "recency_alpha = 2 / 10"
definition temporal_alpha :: f64 where "temporal_alpha = 2 / 10"
definition proof_count_alpha :: f64 where "proof_count_alpha = 1 / 10"
definition recency_window_days :: f64 where "recency_window_days = 365"
definition neutral :: f64 where "neutral = 1 / 2"
definition score_ms_per_day :: f64 where "score_ms_per_day = 86400000"
definition f64_epsilon :: f64 where "f64_epsilon = 1 / 2 ^ 52"
definition f64_max :: f64 where "f64_max = 2 ^ 971 * (2 ^ 53 - 1)"

definition clamp :: "f64 \<Rightarrow> f64 \<Rightarrow> f64 \<Rightarrow> f64" where
  "clamp x lo hi = (if x < lo then lo else if hi < x then hi else x)"

definition passthrough_base :: "nat \<Rightarrow> nat \<Rightarrow> f64" where
  "passthrough_base n rank0 = 1 - (9 / 10) * of_nat rank0 / of_nat (max 1 (n - 1))"

definition effective_time :: "int option \<Rightarrow> int option \<Rightarrow> int option \<Rightarrow> int option" where
  "effective_time occurred_start mentioned_at occurred_end = coalesce (coalesce occurred_start mentioned_at) occurred_end"

fun temporal_best_time :: "int option \<Rightarrow> int option \<Rightarrow> int option \<Rightarrow> int option" where
  "temporal_best_time (Some s) (Some e) m = Some (s + (e - s) sdiv 2)"
| "temporal_best_time (Some s) None m = Some s"
| "temporal_best_time None (Some e) m = Some e"
| "temporal_best_time None None m = m"

definition temporal_proximity :: "int option \<Rightarrow> int \<Rightarrow> int \<Rightarrow> f64" where
  "temporal_proximity best_time start_ms end_ms =
     (case best_time of
        None \<Rightarrow> neutral
      | Some best \<Rightarrow>
          if end_ms < start_ms then neutral
          else
            let total_ms = of_int (end_ms - start_ms) in
            if total_ms \<le> 0 then 1
            else
              let mid = start_ms + (end_ms - start_ms) sdiv 2; from_mid = of_int \<bar>best - mid\<bar>
              in 1 - min (from_mid / (total_ms / 2)) 1)"

definition recency_decay :: "f64 \<Rightarrow> f64" where
  "recency_decay days_ago = clamp (1 - days_ago / recency_window_days) (1 / 10) 1"

definition recency :: "int option \<Rightarrow> int \<Rightarrow> f64" where
  "recency effective_ms now_ms =
     (case effective_ms of None \<Rightarrow> neutral | Some ms \<Rightarrow> recency_decay (of_int (now_ms - ms) / score_ms_per_day))"

definition proof_norm :: "(f64 \<Rightarrow> f64) \<Rightarrow> int \<Rightarrow> f64" where
  "proof_norm lg proof_count =
     (if proof_count < 1 then neutral else clamp (1 / 2 + lg (of_int proof_count) / 10) 0 1)"

definition combined :: "f64 \<Rightarrow> f64 \<Rightarrow> f64 \<Rightarrow> f64 \<Rightarrow> f64 \<Rightarrow> f64" where
  "combined base rec temporal prf proof_alpha =
     base * (1 + recency_alpha * (rec - neutral)) * (1 + temporal_alpha * (temporal - neutral))
       * (1 + proof_alpha * (prf - neutral))"

definition semantic_norm :: "f64 option \<Rightarrow> f64 \<Rightarrow> f64 \<Rightarrow> f64" where
  "semantic_norm semantic lo hi =
     (case semantic of
        None \<Rightarrow> neutral
      | Some sem \<Rightarrow> let span = hi - lo in if span \<le> f64_epsilon then neutral else clamp ((sem - lo) / span) 0 1)"

definition combined_with_semantic :: "f64 \<Rightarrow> f64 \<Rightarrow> f64 \<Rightarrow> f64 \<Rightarrow> f64 \<Rightarrow> f64 \<Rightarrow> f64 \<Rightarrow> f64" where
  "combined_with_semantic base rec temporal prf proof_alpha semantic alpha =
     combined base rec temporal prf proof_alpha * (1 + alpha * (semantic - neutral))"

subsection \<open>Budgets\<close>

definition budget_tokens :: "str \<Rightarrow> nat" where
  "budget_tokens level = (if level = lit ''low'' then 100 else if level = lit ''high'' then 1000 else 300)"

definition rerank_limit :: "nat \<Rightarrow> nat" where
  "rerank_limit thinking_budget = thinking_budget * 2"

fun fit_from :: "(str \<Rightarrow> nat) \<Rightarrow> nat \<Rightarrow> nat \<Rightarrow> nat \<Rightarrow> str list \<Rightarrow> nat \<times> nat" where
  "fit_from count max_tokens i used [] = (i, used)"
| "fit_from count max_tokens i used (t # ts) =
     (if max_tokens < used + count t then (i, used) else fit_from count max_tokens (i + 1) (used + count t) ts)"

definition fit_to_budget :: "str list \<Rightarrow> nat \<Rightarrow> (str \<Rightarrow> nat) \<Rightarrow> nat \<times> nat" where
  "fit_to_budget texts max_tokens count = fit_from count max_tokens 0 0 texts"

subsection \<open>Fusion computes the sum of reciprocal ranks\<close>

fun first_seen :: "'a list \<Rightarrow> 'a list" where
  "first_seen [] = []"
| "first_seen (x # xs) = x # filter (\<lambda>y. y \<noteq> x) (first_seen xs)"

text \<open>What the fusion should compute: the sum over every position of every arm that holds the id.\<close>

definition rrf_of :: "arm_hit list list \<Rightarrow> f64 \<Rightarrow> int \<Rightarrow> f64" where
  "rrf_of arms k i =
     sum_list (map (\<lambda>arm. sum_list (map (\<lambda>(p, h). if ah_id h = i then 1 / (k + of_nat (p + 1)) else 0) (enumerate 0 arm))) arms)"

lemma set_first_seen [simp]: "set (first_seen xs) = set xs"
  by (induction xs) auto

lemma distinct_first_seen: "distinct (first_seen xs)"
  by (induction xs) auto

lemma first_seen_snoc: "first_seen (xs @ [y]) = (if y \<in> set xs then first_seen xs else first_seen xs @ [y])"
  by (induction xs) auto

text \<open>The nested loops, as one pass over the hits with their arm and rank.\<close>

definition ranked_hits :: "arm_hit list list \<Rightarrow> (nat \<times> nat \<times> arm_hit) list" where
  "ranked_hits arms = concat (map (\<lambda>(a, hits). map (Pair a) (enumerate 0 hits)) (enumerate 0 arms))"

definition fuse_flat :: "f64 \<Rightarrow> (nat \<times> nat \<times> arm_hit) list \<Rightarrow> merged list" where
  "fuse_flat k hs = fold (\<lambda>(a, r, h). fuse_hit k a (r, h)) hs []"

lemma fuse_nested: "fold (fuse_arm k) (enumerate 0 arms) [] = fuse_flat k (ranked_hits arms)"
proof -
  have inner: "fold (fuse_hit k a) xs ms = fold (\<lambda>(a, r, h). fuse_hit k a (r, h)) (map (Pair a) xs) ms" for a xs ms
    by (induction xs arbitrary: ms) auto
  have "fold (fuse_arm k) as ms = fold (\<lambda>(a, r, h). fuse_hit k a (r, h)) (concat (map (\<lambda>(a, hits). map (Pair a) (enumerate 0 hits)) as)) ms" for as ms
    by (induction as arbitrary: ms) (auto simp: fuse_arm_def inner)
  then show ?thesis by (simp add: fuse_flat_def ranked_hits_def)
qed

lemma credit_id [simp]: "mg_id (credit k a r h m) = mg_id m"
  by (simp add: credit_def Let_def)

lemma credit_score: "mg_rrf_score (credit k a r h m) = mg_rrf_score m + 1 / (k + of_nat r)"
  by (simp add: credit_def Let_def)

lemma upsert_ids: "(\<And>m. mg_id (f m) = mg_id m) \<Longrightarrow>
    map mg_id (upsert_merged i f ms) = (if i \<in> mg_id ` set ms then map mg_id ms else map mg_id ms @ [i])"
  by (induction ms) (auto simp: fresh_merged_def)

definition entry :: "merged list \<Rightarrow> int \<Rightarrow> merged" where
  "entry ms i = (case find (\<lambda>m. mg_id m = i) ms of None \<Rightarrow> fresh_merged i | Some m \<Rightarrow> m)"

lemma upsert_entry: "(\<And>m. mg_id (f m) = mg_id m) \<Longrightarrow>
    entry (upsert_merged i f ms) j = (if j = i then f (entry ms i) else entry ms j)"
  by (induction ms) (auto simp: entry_def fresh_merged_def)

lemma fuse_flat_snoc: "fuse_flat k (hs @ [(a, r, h)]) = upsert_merged (ah_id h) (credit k a (r + 1) h) (fuse_flat k hs)"
  by (simp add: fuse_flat_def fuse_hit_def)

lemma fuse_flat_ids: "map mg_id (fuse_flat k hs) = first_seen (map (\<lambda>(a, r, h). ah_id h) hs)"
proof (induction hs rule: rev_induct)
  case Nil
  then show ?case by (simp add: fuse_flat_def)
next
  case (snoc x hs)
  obtain a r h where x: "x = (a, r, h)" by (metis prod_cases3)
  have ids: "mg_id ` set (fuse_flat k hs) = set (map (\<lambda>(a, r, h). ah_id h) hs)"
    using arg_cong[OF snoc, of set] by simp
  then show ?case unfolding x fuse_flat_snoc using snoc
    by (subst upsert_ids) (simp_all add: first_seen_snoc del: set_map)
qed

lemma fuse_flat_score: "mg_rrf_score (entry (fuse_flat k hs) i) = sum_list (map (\<lambda>(a, r, h). if ah_id h = i then 1 / (k + of_nat (r + 1)) else 0) hs)"
proof (induction hs rule: rev_induct)
  case Nil
  then show ?case by (simp add: fuse_flat_def entry_def fresh_merged_def)
next
  case (snoc x hs)
  obtain a r h where x: "x = (a, r, h)" by (metis prod_cases3)
  show ?case unfolding x fuse_flat_snoc by (subst upsert_entry) (auto simp: credit_score snoc)
qed


definition last_score :: "arm_hit list \<Rightarrow> int \<Rightarrow> f64 option" where
  "last_score hits i = map_option ah_score (find (\<lambda>h. ah_id h = i) (rev hits))"

definition arm_at :: "nat \<Rightarrow> arm_hit list list \<Rightarrow> arm_hit list" where
  "arm_at a arms = (if a < length arms then arms ! a else [])"

lemma last_score_snoc: "last_score (hs @ [h]) i = (if ah_id h = i then Some (ah_score h) else last_score hs i)"
  by (simp add: last_score_def)

definition hits_of :: "nat \<Rightarrow> (nat \<times> nat \<times> arm_hit) list \<Rightarrow> arm_hit list" where
  "hits_of a hs = map (snd \<circ> snd) (filter (\<lambda>x. fst x = a) hs)"

lemma hits_of_snoc: "hits_of b (hs @ [(a, r, h)]) = (if a = b then hits_of b hs @ [h] else hits_of b hs)"
  by (simp add: hits_of_def)

lemma fuse_flat_raw:
  "mg_semantic (entry (fuse_flat k hs) i) = last_score (hits_of 0 hs) i"
  "mg_keyword (entry (fuse_flat k hs) i) = last_score (hits_of 1 hs) i"
proof (induction hs rule: rev_induct)
  case Nil
  { case 1 then show ?case by (simp add: fuse_flat_def entry_def fresh_merged_def hits_of_def last_score_def) }
  { case 2 then show ?case by (simp add: fuse_flat_def entry_def fresh_merged_def hits_of_def last_score_def) }
next
  case (snoc x hs)
  obtain a r h where x: "x = (a, r, h)" by (metis prod_cases3)
  { case 1 show ?case unfolding x fuse_flat_snoc
      by (subst upsert_entry) (auto simp: snoc credit_def Let_def hits_of_snoc last_score_snoc) }
  { case 2 show ?case unfolding x fuse_flat_snoc
      by (subst upsert_entry) (auto simp: snoc credit_def Let_def hits_of_snoc last_score_snoc) }
qed

lemma hits_of_ranked: "hits_of a (ranked_hits arms) = arm_at a arms"
proof -
  have "hits_of a (concat (map (\<lambda>(a, hits). map (Pair a) (enumerate 0 hits)) (enumerate n arms)))
     = (if n \<le> a \<and> a < n + length arms then arms ! (a - n) else [])" for n
  proof (induction arms arbitrary: n)
    case Nil
    then show ?case by (auto simp: hits_of_def)
  next
    case (Cons hs arms)
    have one: "hits_of a (map (Pair b) xs) = (if a = b then map snd xs else [])" for b and xs :: "(nat \<times> arm_hit) list"
      by (induction xs) (auto simp: hits_of_def)
    have app: "hits_of a (us @ vs) = hits_of a us @ hits_of a vs" for us vs by (simp add: hits_of_def)
    show ?case by (auto simp: app one Cons nth_Cons Suc_diff_Suc split: nat.splits) (metis Suc_diff_Suc Suc_inject Suc_le_lessD)
  qed
  from this[of 0] show ?thesis by (simp add: ranked_hits_def arm_at_def)
qed

lemma ranked_hits_ids: "map (\<lambda>(a, r, h). ah_id h) (ranked_hits arms) = map ah_id (concat arms)"
proof -
  have "map (\<lambda>(a, r, h). ah_id h) (concat (map (\<lambda>(a, hits). map (Pair a) (enumerate 0 hits)) (enumerate n arms)))
     = map ah_id (concat arms)" for n
  proof (induction arms arbitrary: n)
    case (Cons hs arms)
    have "map (\<lambda>(a, r, h). ah_id h) (map (Pair b) (enumerate m xs)) = map ah_id xs" for b m and xs :: "arm_hit list"
      by (induction xs arbitrary: m) auto
    then show ?case using Cons by (simp del: map_map)
  qed simp
  then show ?thesis by (simp add: ranked_hits_def)
qed

lemma ranked_hits_sum: "sum_list (map (\<lambda>(a, r, h). if ah_id h = i then 1 / (k + of_nat (r + 1)) else 0) (ranked_hits arms)) = rrf_of arms k i"
proof -
  have "sum_list (map (\<lambda>(a, r, h). if ah_id h = i then 1 / (k + of_nat (r + 1)) else (0::f64))
      (concat (map (\<lambda>(a, hits). map (Pair a) (enumerate 0 hits)) (enumerate n arms)))) = rrf_of arms k i" for n
  proof (induction arms arbitrary: n)
    case (Cons hs arms)
    have "map (\<lambda>(a, r, h). if ah_id h = i then 1 / (k + of_nat (r + 1)) else (0::f64)) (map (Pair b) xs)
      = map (\<lambda>(p, h). if ah_id h = i then 1 / (k + of_nat (p + 1)) else 0) xs" for b :: nat and xs :: "(nat \<times> arm_hit) list"
      by (induction xs) auto
    then show ?case using Cons by (simp add: rrf_of_def del: map_map)
  qed (simp add: rrf_of_def)
  then show ?thesis by (simp add: ranked_hits_def)
qed

lemma entry_self: "distinct (map mg_id ms) \<Longrightarrow> m \<in> set ms \<Longrightarrow> entry ms (mg_id m) = m"
  by (induction ms) (auto simp: entry_def)

lemma map_sort_key: "(\<And>x. x \<in> set xs \<Longrightarrow> g (f x) = key x) \<Longrightarrow> map f (sort_key key xs) = sort_key g (map f xs)"
proof (induction xs)
  case (Cons x xs)
  have ins: "(\<And>y. y \<in> set (x # ys) \<Longrightarrow> g (f y) = key y) \<Longrightarrow> map f (insort_key key x ys) = insort_key g (f x) (map f ys)" for ys
    by (induction ys) auto
  show ?case using Cons ins[of "sort_key key xs"] by simp
qed simp

definition fused :: "arm_hit list list \<Rightarrow> f64 \<Rightarrow> merged list" where
  "fused arms k = sort_key (\<lambda>m. - mg_rrf_score m) (fuse_flat k (ranked_hits arms))"

lemma rrf_fused: "reciprocal_rank_fusion arms k = map (\<lambda>(i, m). m\<lparr>mg_rrf_rank := i + 1\<rparr>) (enumerate 0 (fused arms k))"
  by (simp add: reciprocal_rank_fusion_def fuse_nested fused_def)

lemma flat_ids: "map mg_id (fuse_flat k (ranked_hits arms)) = first_seen (map ah_id (concat arms))"
  by (simp only: fuse_flat_ids ranked_hits_ids)

lemma flat_member:
  assumes "m \<in> set (fuse_flat k (ranked_hits arms))"
  shows "mg_rrf_score m = rrf_of arms k (mg_id m)"
    "mg_semantic m = last_score (arm_at 0 arms) (mg_id m)" "mg_keyword m = last_score (arm_at 1 arms) (mg_id m)"
proof -
  have e: "entry (fuse_flat k (ranked_hits arms)) (mg_id m) = m"
    using assms by (intro entry_self) (simp_all add: flat_ids distinct_first_seen)
  show "mg_rrf_score m = rrf_of arms k (mg_id m)" using fuse_flat_score[of k "ranked_hits arms" "mg_id m"] by (simp only: e ranked_hits_sum)
  show "mg_semantic m = last_score (arm_at 0 arms) (mg_id m)" "mg_keyword m = last_score (arm_at 1 arms) (mg_id m)"
    using fuse_flat_raw[of k "ranked_hits arms" "mg_id m"] by (simp_all only: e hits_of_ranked)
qed

lemma fused_ids: "map mg_id (fused arms k) = sort_key (\<lambda>i. - rrf_of arms k i) (first_seen (map ah_id (concat arms)))"
  unfolding fused_def flat_ids[of k arms, symmetric] by (rule map_sort_key) (simp add: flat_member)

lemma rrf_ids: "map mg_id (reciprocal_rank_fusion arms k) = map mg_id (fused arms k)"
proof -
  have "map mg_id (map (\<lambda>(i, m). m\<lparr>mg_rrf_rank := i + 1\<rparr>) (enumerate n ms)) = map mg_id ms" for n ms
    by (induction ms arbitrary: n) auto
  then show ?thesis by (simp only: rrf_fused)
qed

text \<open>C27: The fusion of any arms lists every id of any arm exactly once, by descending sum of reciprocal
  ranks over every position of every arm that holds it, ties in the order the ids were first seen; each
  entry carries that sum, its rank in the list from one, and the raw scores of the first two arms.\<close>

theorem fusion_is_reciprocal_rank_sum:
  "map mg_id (reciprocal_rank_fusion arms k) = sort_key (\<lambda>i. - rrf_of arms k i) (first_seen (map ah_id (concat arms)))
   \<and> map mg_rrf_rank (reciprocal_rank_fusion arms k) = [1..<length (reciprocal_rank_fusion arms k) + 1]
   \<and> list_all (\<lambda>m. mg_rrf_score m = rrf_of arms k (mg_id m) \<and> mg_semantic m = last_score (arm_at 0 arms) (mg_id m)
     \<and> mg_keyword m = last_score (arm_at 1 arms) (mg_id m)) (reciprocal_rank_fusion arms k)"
proof (intro conjI)
  show "map mg_id (reciprocal_rank_fusion arms k) = sort_key (\<lambda>i. - rrf_of arms k i) (first_seen (map ah_id (concat arms)))"
    by (simp only: rrf_ids fused_ids)
  have "map mg_rrf_rank (map (\<lambda>(i, m). m\<lparr>mg_rrf_rank := i + 1\<rparr>) (enumerate n ms)) = [n + 1..<n + length ms + 1]" for n ms
  proof (induction ms arbitrary: n)
    case (Cons m ms)
    then show ?case using upt_conv_Cons[of "n + 1" "n + length (m # ms) + 1"] by simp
  qed simp
  from this[of 0 "fused arms k"] show "map mg_rrf_rank (reciprocal_rank_fusion arms k) = [1..<length (reciprocal_rank_fusion arms k) + 1]"
    by (simp only: rrf_fused length_map length_enumerate add_0)
  show "list_all (\<lambda>m. mg_rrf_score m = rrf_of arms k (mg_id m) \<and> mg_semantic m = last_score (arm_at 0 arms) (mg_id m)
     \<and> mg_keyword m = last_score (arm_at 1 arms) (mg_id m)) (reciprocal_rank_fusion arms k)"
    unfolding list_all_iff
  proof
    fix m assume "m \<in> set (reciprocal_rank_fusion arms k)"
    then obtain i m0 where m: "m = m0\<lparr>mg_rrf_rank := i + 1\<rparr>" and "(i, m0) \<in> set (enumerate 0 (fused arms k))"
      by (auto simp: rrf_fused)
    then have "m0 \<in> set (map snd (enumerate 0 (fused arms k)))" by (metis image_eqI list.set_map snd_conv)
    then have "m0 \<in> set (fuse_flat k (ranked_hits arms))" by (simp only: map_snd_enumerate) (simp add: fused_def)
    then show "mg_rrf_score m = rrf_of arms k (mg_id m) \<and> mg_semantic m = last_score (arm_at 0 arms) (mg_id m)
      \<and> mg_keyword m = last_score (arm_at 1 arms) (mg_id m)" by (simp add: m flat_member)
  qed
qed


subsection \<open>The graph arm ranks by what it should\<close>

text \<open>What the three signals of a node are: the overlap of entities reported last for it, and the
  strongest causal and the strongest other link.\<close>

definition best_link :: "(neighbor \<Rightarrow> bool) \<Rightarrow> neighbor list \<Rightarrow> int \<Rightarrow> f64" where
  "best_link P links i =
     (let ws = map nb_weight (filter (\<lambda>n. P n \<and> nb_node_id n = i) links)
      in if ws = [] then 0 else Max (set ws))"

definition shared_signal :: "(f64 \<Rightarrow> f64) \<Rightarrow> (int \<times> int) list \<Rightarrow> int \<Rightarrow> f64" where
  "shared_signal th shared i = (case map_of (rev shared) i of None \<Rightarrow> 0 | Some n \<Rightarrow> th (of_int n * (1 / 2)))"

definition graph_score :: "(f64 \<Rightarrow> f64) \<Rightarrow> neighbor list \<Rightarrow> (int \<times> int) list \<Rightarrow> int \<Rightarrow> f64" where
  "graph_score th links shared i =
     shared_signal th shared i + best_link (\<lambda>n. is_causal (nb_link_type n)) links i
       + best_link (\<lambda>n. \<not> is_causal (nb_link_type n)) links i"

lemma entity_scores_snoc: "entity_scores th (shared @ [(i, n)]) = AList.update i (th (of_int n * (1 / 2))) (entity_scores th shared)"
  by (simp add: entity_scores_def)

lemma entity_slot: "slot (entity_scores th shared) i = shared_signal th shared i"
  by (induction shared rule: rev_induct)
    (auto simp: entity_scores_snoc slot_def shared_signal_def update_conv' entity_scores_def[of th "[]"])

lemma entity_keys: "fst ` set (entity_scores th shared) = fst ` set shared"
proof (induction shared rule: rev_induct)
  case (snoc x shared)
  then show ?case by (cases x) (simp add: entity_scores_snoc dom_update)
qed (simp add: entity_scores_def)

lemma link_scores_snoc: "link_scores P (links @ [n]) = (if P n then raise_slot (nb_node_id n) (nb_weight n) (link_scores P links) else link_scores P links)"
  by (simp add: link_scores_def)

lemma link_slot: "map_of (link_scores P links) i =
    (let ws = map nb_weight (filter (\<lambda>n. P n \<and> nb_node_id n = i) links) in if ws = [] then None else Some (Max (set ws)))"
proof (induction links rule: rev_induct)
  case Nil
  then show ?case by (simp add: link_scores_def)
next
  case (snoc n links)
  define ws where "ws = map nb_weight (filter (\<lambda>n. P n \<and> nb_node_id n = i) links)"
  have IH: "map_of (link_scores P links) i = (if ws = [] then None else Some (Max (set ws)))"
    using snoc by (simp add: ws_def Let_def)
  have ws: "map nb_weight (filter (\<lambda>n. P n \<and> nb_node_id n = i) (links @ [n]))
      = ws @ (if P n \<and> nb_node_id n = i then [nb_weight n] else [])" by (simp add: ws_def)
  have "ws \<noteq> [] \<Longrightarrow> Max (set (ws @ [nb_weight n])) = max (Max (set ws)) (nb_weight n)" by (simp add: max.commute)
  then show ?case
    unfolding ws Let_def using IH by (auto simp: link_scores_snoc raise_slot_def update_conv')
qed

lemma link_keys: "fst ` set (link_scores P links) = nb_node_id ` set (filter P links)"
  by (induction links rule: rev_induct) (auto simp: link_scores_snoc raise_slot_def dom_update link_scores_def[of P "[]"])

lemma graph_ids:
  "set (map fst (entity_scores th shared) @ map fst (link_scores P links) @ map fst (link_scores (\<lambda>n. \<not> P n) links))
     = fst ` set shared \<union> nb_node_id ` set links"
  unfolding set_append list.set_map entity_keys link_keys by auto

lemma sorted_dedup: "remdups_adj (sort xs) = sorted_list_of_set (set xs)" for xs :: "int list"
  using strict_remdups_adj[of "sort xs"] sorted_list_of_set.idem_if_sorted_distinct[of "remdups_adj (sort xs)"]
  by (simp add: strict_sorted_iff)

lemma slot_link: "slot (link_scores P links) i = best_link P links i"
  by (simp add: slot_def link_slot best_link_def Let_def)

lemma graph_rank_eq:
  "graph_rank th links shared =
     take graph_expansion_cap (sort_key (\<lambda>h. (- ah_score h, ah_id h))
       (map (\<lambda>i. \<lparr>ah_id = i, ah_score = graph_score th links shared i\<rparr>) (sorted_list_of_set (fst ` set shared \<union> nb_node_id ` set links))))"
  by (simp only: graph_rank_def Let_def sorted_dedup graph_ids graph_score_def entity_slot slot_link)


text \<open>The graph arm is the first 200 nodes, in the order of descending score and then ascending id, of
  those some seed reaches by a link or shares an entity with, where a node's score is its entity overlap
  plus its strongest causal link plus its strongest other link.\<close>

lemma graph_arm_ranks_by_signals:
  "graph_rank th links shared =
     take 200 (sort_key (\<lambda>h. (- ah_score h, ah_id h))
       (map (\<lambda>i. \<lparr>ah_id = i, ah_score = graph_score th links shared i\<rparr>)
          (sorted_list_of_set (fst ` set shared \<union> nb_node_id ` set links))))"
  by (simp add: graph_rank_eq graph_expansion_cap_def)

subsection \<open>Scores stay in their band\<close>

lemma clamp_bounds: "lo \<le> hi \<Longrightarrow> lo \<le> clamp x lo hi \<and> clamp x lo hi \<le> hi"
  by (auto simp: clamp_def)

lemma recency_bounds: "1 / 10 \<le> recency t now \<and> recency t now \<le> 1"
proof (cases t)
  case None
  then show ?thesis by (simp add: recency_def neutral_def)
next
  case (Some ms)
  show ?thesis unfolding recency_def recency_decay_def Some option.case by (rule clamp_bounds) simp
qed

lemma proximity_bounds: "0 \<le> temporal_proximity bt lo hi \<and> temporal_proximity bt lo hi \<le> 1"
  by (auto simp: temporal_proximity_def neutral_def Let_def split: option.splits)

lemma proof_bounds: "0 \<le> proof_norm lg n \<and> proof_norm lg n \<le> 1"
  by (simp add: proof_norm_def neutral_def clamp_bounds)

lemma semantic_bounds: "0 \<le> semantic_norm s lo hi \<and> semantic_norm s lo hi \<le> 1"
  by (auto simp: semantic_norm_def neutral_def Let_def clamp_bounds split: option.splits)

lemma base_bounds:
  assumes "rank0 < n"
  shows "1 / 10 \<le> passthrough_base n rank0 \<and> passthrough_base n rank0 \<le> 1"
proof -
  have "of_nat rank0 \<le> (of_nat (max 1 (n - 1)) :: f64)" using assms by (subst of_nat_le_iff) simp
  moreover have "0 < (of_nat (max 1 (n - 1)) :: f64)" by (subst of_nat_0_less_iff) simp
  ultimately have "of_nat rank0 / of_nat (max 1 (n - 1)) \<le> (1 :: f64)" "0 \<le> of_nat rank0 / (of_nat (max 1 (n - 1)) :: f64)"
    by simp_all
  then show ?thesis unfolding passthrough_base_def times_divide_eq_right[symmetric] by linarith
qed

lemma boost_bounds:
  assumes "0 \<le> s" "s \<le> (1 :: f64)" "0 \<le> a"
  shows "1 - a / 2 \<le> 1 + a * (s - neutral)" "1 + a * (s - neutral) \<le> 1 + a / 2"
proof -
  have "a * (- (1 / 2)) \<le> a * (s - neutral)"
    by (rule mult_left_mono) (use assms in \<open>simp_all add: neutral_def\<close>)
  moreover have "a * (s - neutral) \<le> a * (1 / 2)"
    by (rule mult_left_mono) (use assms in \<open>simp_all add: neutral_def\<close>)
  ultimately show "1 - a / 2 \<le> 1 + a * (s - neutral)" "1 + a * (s - neutral) \<le> 1 + a / 2" by simp_all
qed

text \<open>Whatever the dates, proofs and similarities, the final score of the candidate at a rank is its
  rank's base, between a tenth and one, within a fifth either way of the recency and temporal boosts and
  half of each alpha of the proof and semantic boosts; with the semantic boost off it is the plain score.\<close>

lemma final_score_in_band:
  assumes "rank0 < n" and "0 \<le> proof_alpha" "proof_alpha \<le> 1" and "0 \<le> semantic_alpha" "semantic_alpha \<le> 1"
  shows "let base = passthrough_base n rank0;
             score = combined_with_semantic base (recency t now) (temporal_proximity best lo hi) (proof_norm lg pc) proof_alpha
               (semantic_norm sem slo shi)
    in 1 / 10 \<le> base \<and> base \<le> 1
    \<and> base * (9 / 10) * (9 / 10) * (1 - proof_alpha / 2) * (1 - semantic_alpha / 2) \<le> score semantic_alpha
    \<and> score semantic_alpha \<le> base * (11 / 10) * (11 / 10) * (1 + proof_alpha / 2) * (1 + semantic_alpha / 2)
    \<and> score 0 = combined base (recency t now) (temporal_proximity best lo hi) (proof_norm lg pc) proof_alpha"
proof -
  define base where "base = passthrough_base n rank0"
  define score where "score = combined_with_semantic base (recency t now) (temporal_proximity best lo hi) (proof_norm lg pc) proof_alpha
    (semantic_norm sem slo shi)"
  have b: "1 / 10 \<le> base" "base \<le> 1" using base_bounds[OF assms(1)] by (simp_all add: base_def)
  define r where "r = 1 + recency_alpha * (recency t now - neutral)"
  define m where "m = 1 + temporal_alpha * (temporal_proximity best lo hi - neutral)"
  define p where "p = 1 + proof_alpha * (proof_norm lg pc - neutral)"
  define s where "s = 1 + semantic_alpha * (semantic_norm sem slo shi - neutral)"
  have r: "9 / 10 \<le> r" "r \<le> 11 / 10"
    using recency_bounds[of t now] boost_bounds[of "recency t now" recency_alpha] by (simp_all add: r_def recency_alpha_def)
  have m: "9 / 10 \<le> m" "m \<le> 11 / 10"
    using proximity_bounds[of best lo hi] boost_bounds[of "temporal_proximity best lo hi" temporal_alpha] by (simp_all add: m_def temporal_alpha_def)
  have p: "1 - proof_alpha / 2 \<le> p" "p \<le> 1 + proof_alpha / 2"
    using proof_bounds[of lg pc] boost_bounds[of "proof_norm lg pc" proof_alpha] assms(2) by (simp_all add: p_def)
  have s: "1 - semantic_alpha / 2 \<le> s" "s \<le> 1 + semantic_alpha / 2"
    using semantic_bounds[of sem slo shi] boost_bounds[of "semantic_norm sem slo shi" semantic_alpha] assms(4) by (simp_all add: s_def)
  have sc: "score semantic_alpha = base * r * m * p * s"
    by (simp add: score_def combined_with_semantic_def combined_def r_def m_def p_def s_def)
  have "base * (9 / 10) * (9 / 10) * (1 - proof_alpha / 2) * (1 - semantic_alpha / 2) \<le> base * r * m * p * s"
    using b r m p s assms by (intro mult_mono) auto
  moreover have "base * r * m * p * s \<le> base * (11 / 10) * (11 / 10) * (1 + proof_alpha / 2) * (1 + semantic_alpha / 2)"
    using b r m p s assms by (intro mult_mono) auto
  moreover have "score 0 = combined base (recency t now) (temporal_proximity best lo hi) (proof_norm lg pc) proof_alpha"
    by (simp add: score_def combined_with_semantic_def)
  ultimately show ?thesis using b sc unfolding Let_def base_def[symmetric] score_def[symmetric] by simp
qed

text \<open>A dateless fact without proofs or similarity keeps the base.\<close>

lemma neutral_signals_keep_base:
  "combined_with_semantic base (recency None now) (temporal_proximity None lo hi) (proof_norm lg 0) pa (semantic_norm None a b) sa = base"
  by (simp add: combined_with_semantic_def combined_def recency_def temporal_proximity_def proof_norm_def semantic_norm_def)

lemma fit_from_exact:
  "u \<le> b \<Longrightarrow> \<exists>k. fit_from cnt b i u ts = (i + k, u + sum_list (map cnt (take k ts))) \<and> k \<le> length ts
     \<and> u + sum_list (map cnt (take k ts)) \<le> b \<and> (k = length ts \<or> b < u + sum_list (map cnt (take (k + 1) ts)))"
proof (induction ts arbitrary: i u)
  case (Cons t ts)
  show ?case
  proof (cases "b < u + cnt t")
    case True
    then show ?thesis using Cons.prems by (intro exI[of _ 0]) simp
  next
    case False
    then obtain k where "fit_from cnt b (i + 1) (u + cnt t) ts = (i + 1 + k, u + cnt t + sum_list (map cnt (take k ts)))" "k \<le> length ts"
      "u + cnt t + sum_list (map cnt (take k ts)) \<le> b" "k = length ts \<or> b < u + cnt t + sum_list (map cnt (take (k + 1) ts))"
      using Cons.IH[of "u + cnt t" "i + 1"] by auto
    then show ?thesis using False by (intro exI[of _ "k + 1"]) (auto simp: add.assoc)
  qed
qed simp

lemma fit_to_budget_exact:
  obtains k where "fit_to_budget ts b cnt = (k, sum_list (map cnt (take k ts)))" "k \<le> length ts"
    "sum_list (map cnt (take k ts)) \<le> b" "k = length ts \<or> b < sum_list (map cnt (take (k + 1) ts))"
  using fit_from_exact[of 0 b cnt 0 ts] by (auto simp: fit_to_budget_def)

end
