(* ===== verification/Recall_Store.thy ===== *)
theory Recall_Store
  imports Recall_Ranking Mental_Store Nodes_Store
begin

text \<open>
  The reads recall makes: \<open>crates/memgarden-store/src/search.rs\<close> and \<open>graph::expand\<close>. A node row is the
  row of \<open>Nodes_Store\<close> with the columns recall reads besides. Parameters: \<open>char::is_alphanumeric\<close> and
  \<open>str::to_lowercase\<close>, FTS5's matcher with its \<open>bm25\<close> (\<open>None\<close> for a row that does not match), and the
  distance of \<open>sqlite-vec\<close>. Where a statement leaves the order of ties open the table's order is used.
\<close>

subsection \<open>The full text query\<close>

definition max_query_terms :: nat where "max_query_terms = 12"
definition min_term_chars :: nat where "min_term_chars = 2"

definition is_hangul :: "uchar \<Rightarrow> bool" where
  "is_hangul c \<longleftrightarrow>
     0xAC00 \<le> c \<and> c \<le> 0xD7A3 \<or> 0x1100 \<le> c \<and> c \<le> 0x11FF \<or> 0x3130 \<le> c \<and> c \<le> 0x318F
   \<or> 0xA960 \<le> c \<and> c \<le> 0xA97F \<or> 0xD7B0 \<le> c \<and> c \<le> 0xD7FF \<or> 0xFFA0 \<le> c \<and> c \<le> 0xFFDC"

text \<open>\<open>str::split\<close> at the characters of a class: the pieces between them, empty ones too.\<close>

fun split_class :: "(uchar \<Rightarrow> bool) \<Rightarrow> str \<Rightarrow> str list" where
  "split_class P [] = [[]]"
| "split_class P (c # cs) =
     (if P c then [] # split_class P cs
      else case split_class P cs of [] \<Rightarrow> [[c]] | t # ts \<Rightarrow> (c # t) # ts)"

definition push_term :: "(str \<Rightarrow> str) \<Rightarrow> str \<Rightarrow> str list \<times> str set \<Rightarrow> str list \<times> str set" where
  "push_term lower term st =
     (let (terms, seen) = st in
      if min_term_chars \<le> length term \<and> lower term \<notin> seen then (terms @ [term], insert (lower term) seen) else st)"

text \<open>The inner loop: \<open>cur\<close> is the slice from \<open>start\<close>, cut wherever Hangul meets something else.\<close>

fun push_runs :: "(str \<Rightarrow> str) \<Rightarrow> bool option \<Rightarrow> str \<Rightarrow> str \<Rightarrow> str list \<times> str set \<Rightarrow> str list \<times> str set" where
  "push_runs lower prev cur [] st = push_term lower cur st"
| "push_runs lower prev cur (c # cs) st =
     (let h = is_hangul c in
      if prev = Some (\<not> h) then push_runs lower (Some h) [c] cs (push_term lower cur st)
      else push_runs lower (Some h) (cur @ [c]) cs st)"

definition query_terms :: "(uchar \<Rightarrow> bool) \<Rightarrow> (str \<Rightarrow> str) \<Rightarrow> str \<Rightarrow> str list" where
  "query_terms alphanumeric lower raw =
     fst (fold (push_runs lower None []) (split_class (\<lambda>c. \<not> alphanumeric c) raw) ([], {}))"

definition longest_terms :: "str list \<Rightarrow> str list" where
  "longest_terms terms =
     (if max_query_terms < length terms
      then map (\<lambda>i. terms ! i) (sort (take max_query_terms (sort_key (\<lambda>i. - int (length (terms ! i))) [0..<length terms])))
      else terms)"

definition fts_query_string :: "(uchar \<Rightarrow> bool) \<Rightarrow> (str \<Rightarrow> str) \<Rightarrow> str \<Rightarrow> str" where
  "fts_query_string alphanumeric lower raw =
     join (lit '' OR '') (map (\<lambda>t. [34] @ t @ [34, 42]) (longest_terms (query_terms alphanumeric lower raw)))"

subsection \<open>The tables\<close>

record search_node = memory_node +
  sn_proof_count :: int
  sn_embedding :: "blob option"
  sn_embedding_model :: "str option"

record link_row =
  lk_from :: int
  lk_to :: int
  lk_type :: str
  lk_weight :: f64

record search_db =
  sd_nodes :: "search_node list"
  sd_vecs :: "vec_row list"
  sd_links :: "link_row list"
  sd_node_entities :: "(int \<times> int) list"
  sd_mentions :: "(int \<times> int) list"
  sd_sources :: "(int \<times> int) list"

abbreviation sn_bank :: "search_node \<Rightarrow> str" where "sn_bank n \<equiv> nn_bank_id (mn_new n)"
abbreviation sn_text :: "search_node \<Rightarrow> str" where "sn_text n \<equiv> nn_text (mn_new n)"
abbreviation sn_type :: "search_node \<Rightarrow> fact_type" where "sn_type n \<equiv> nn_fact_type (mn_new n)"

record candidate_row =
  cr_id :: int
  cr_uuid :: str
  cr_fact_type :: fact_type
  cr_text :: str
  cr_context :: "str option"
  cr_occurred_start :: "int option"
  cr_occurred_end :: "int option"
  cr_mentioned_at :: "int option"
  cr_tags :: "str list"
  cr_proof_count :: int
  cr_sources :: "int list"

definition search_knn ::
  "(blob \<Rightarrow> blob \<Rightarrow> f64) \<Rightarrow> search_db \<Rightarrow> str \<Rightarrow> f32 list \<Rightarrow> nat \<Rightarrow> mg_error + (int \<times> f64) list" where
  "search_knn apart db bank query k =
     (case vec_encode query of
        Inl e \<Rightarrow> Inl e
      | Inr q \<Rightarrow>
          Inr (map (\<lambda>v. (vr_rowid v, apart q (vr_embedding v)))
            (filter (\<lambda>v. \<exists>n \<in> set (sd_nodes db). mn_id n = vr_rowid v \<and> sn_embedding_model n = Some embedding_model_id)
               (take k (sort_key (\<lambda>v. apart q (vr_embedding v)) (filter (\<lambda>v. vr_bank v = bank) (sd_vecs db)))))))"

definition fts_candidates_filtered ::
  "(search_node list \<Rightarrow> str \<Rightarrow> int \<Rightarrow> f64 option) \<Rightarrow> search_db \<Rightarrow> str \<Rightarrow> str \<Rightarrow> fact_type list \<Rightarrow> nat \<Rightarrow> (int \<times> f64) list" where
  "fts_candidates_filtered bm25 db bank match_query fact_types limit =
     (if match_query = [] then []
      else take limit (sort_key snd (concat (map (\<lambda>n.
             case bm25 (sd_nodes db) match_query (mn_id n) of
               None \<Rightarrow> []
             | Some s \<Rightarrow> if sn_bank n = bank \<and> (fact_types = [] \<or> sn_type n \<in> set fact_types) then [(mn_id n, s)] else [])
           (sd_nodes db)))))"

definition temporal_candidates :: "search_db \<Rightarrow> str \<Rightarrow> int \<Rightarrow> int \<Rightarrow> nat \<Rightarrow> int list" where
  "temporal_candidates db bank start_ms end_ms limit =
     (let eff = (\<lambda>n. coalesce (nn_occurred_start (mn_new n)) (nn_mentioned_at (mn_new n)));
          inside = (\<lambda>n. sn_bank n = bank \<and> (case eff n of None \<Rightarrow> False | Some t \<Rightarrow> start_ms \<le> t \<and> t \<le> end_ms))
      in take limit (map mn_id (sort_key (\<lambda>n. - the (eff n)) (filter inside (sd_nodes db)))))"

definition is_live :: "int \<Rightarrow> search_node \<Rightarrow> bool" where
  "is_live now n \<longleftrightarrow>
     mn_superseded_by n = None \<and> (case nn_expires_at (mn_new n) of None \<Rightarrow> True | Some t \<Rightarrow> now < t)"

definition candidate_of :: "search_db \<Rightarrow> search_node \<Rightarrow> candidate_row" where
  "candidate_of db n =
     \<lparr>cr_id = mn_id n, cr_uuid = mn_uuid n, cr_fact_type = sn_type n, cr_text = sn_text n,
      cr_context = nn_context (mn_new n), cr_occurred_start = nn_occurred_start (mn_new n),
      cr_occurred_end = nn_occurred_end (mn_new n), cr_mentioned_at = nn_mentioned_at (mn_new n),
      cr_tags = sort (mn_tags n), cr_proof_count = sn_proof_count n,
      cr_sources = sort (map snd (filter (\<lambda>p. fst p = mn_id n) (sd_sources db)))\<rparr>"

definition hydrate :: "int \<Rightarrow> search_db \<Rightarrow> str \<Rightarrow> int list \<Rightarrow> candidate_row list" where
  "hydrate now db bank ids =
     map (candidate_of db) (filter (\<lambda>n. mn_id n \<in> set ids \<and> sn_bank n = bank \<and> is_live now n) (sd_nodes db))"

definition max_entity_fanout :: int where "max_entity_fanout = 200"

definition node_in_bank :: "search_db \<Rightarrow> str \<Rightarrow> int \<Rightarrow> bool" where
  "node_in_bank db bank i \<longleftrightarrow> (\<exists>n \<in> set (sd_nodes db). mn_id n = i \<and> sn_bank n = bank)"

definition expand_links :: "search_db \<Rightarrow> str \<Rightarrow> int list \<Rightarrow> neighbor list" where
  "expand_links db bank seeds =
     (let near = (\<lambda>own other. concat (map (\<lambda>s.
            map (\<lambda>l. \<lparr>nb_node_id = other l, nb_link_type = lk_type l, nb_weight = lk_weight l\<rparr>)
              (filter (\<lambda>l. own l = s \<and> node_in_bank db bank (other l) \<and> other l \<notin> set seeds) (sd_links db))) seeds))
      in near lk_from lk_to @ near lk_to lk_from)"

text \<open>The entities a node shares with the seeds, without those mentioned too often.\<close>

definition shared_entities :: "search_db \<Rightarrow> int list \<Rightarrow> int \<Rightarrow> int list" where
  "shared_entities db seeds i =
     remdups (map snd (filter (\<lambda>p. fst p = i
        \<and> (\<exists>q \<in> set (sd_node_entities db). fst q \<in> set seeds \<and> snd q = snd p)
        \<and> (\<exists>m \<in> set (sd_mentions db). fst m = snd p \<and> snd m \<le> max_entity_fanout)) (sd_node_entities db)))"

definition expand_shared :: "search_db \<Rightarrow> str \<Rightarrow> int list \<Rightarrow> (int \<times> int) list" where
  "expand_shared db bank seeds =
     (let near = remdups (map fst (filter (\<lambda>p. node_in_bank db bank (fst p) \<and> fst p \<notin> set seeds) (sd_node_entities db)))
      in filter (\<lambda>p. 0 < snd p) (map (\<lambda>i. (i, int (length (shared_entities db seeds i)))) near))"

definition expand :: "search_db \<Rightarrow> str \<Rightarrow> int list \<Rightarrow> nat \<Rightarrow> neighbor list \<times> (int \<times> int) list" where
  "expand db bank seeds edge_limit =
     (if seeds = [] then ([], [])
      else (take edge_limit (sort_key (\<lambda>n. - nb_weight n) (expand_links db bank seeds)),
            take edge_limit (sort_key (\<lambda>p. - snd p) (expand_shared db bank seeds))))"

text \<open>\<open>graph::arm\<close> of the daemon.\<close>

definition graph_arm :: "(f64 \<Rightarrow> f64) \<Rightarrow> search_db \<Rightarrow> str \<Rightarrow> int list \<Rightarrow> arm_hit list" where
  "graph_arm th db bank seeds =
     (if seeds = [] then [] else let (links, shared) = expand db bank seeds edge_fetch_cap in graph_rank th links shared)"


subsection \<open>Rebuilding the vector index\<close>

text \<open>\<open>rebuild_vec_index\<close>: one transaction that clears the index (of a bank, or all of it), then the embedded
  rows read before it, in transactions of 500. A row id the index still holds, which only another bank can
  have left there, fails the transaction it is in; the ones before it stay.\<close>

definition rebuild_chunk :: nat where "rebuild_chunk = 500"

definition node_vec :: "search_node \<Rightarrow> vec_row option" where
  "node_vec n = map_option (\<lambda>e. \<lparr>vr_rowid = mn_id n, vr_bank = sn_bank n, vr_embedding = e\<rparr>) (sn_embedding n)"

definition in_scope :: "str option \<Rightarrow> str \<Rightarrow> bool" where
  "in_scope scope bank \<longleftrightarrow> (case scope of None \<Rightarrow> True | Some b \<Rightarrow> bank = b)"

fun insert_vecs :: "vec_row list \<Rightarrow> vec_row list \<Rightarrow> vec_row list option" where
  "insert_vecs vs [] = Some vs"
| "insert_vecs vs (r # rs) = (if vr_rowid r \<in> vr_rowid ` set vs then None else insert_vecs (vs @ [r]) rs)"

function insert_chunks :: "vec_row list \<Rightarrow> nat \<Rightarrow> vec_row list \<Rightarrow> (mg_error + nat) \<times> vec_row list" where
  "insert_chunks vs done rows =
     (if rows = [] then (Inr done, vs)
      else case insert_vecs vs (take rebuild_chunk rows) of
             None \<Rightarrow> (Inl ErrStorage, vs)
           | Some vs' \<Rightarrow> insert_chunks vs' (done + length (take rebuild_chunk rows)) (drop rebuild_chunk rows))"
  by auto
termination by (relation "measure (\<lambda>(_, _, rows). length rows)") (auto simp: rebuild_chunk_def)

declare insert_chunks.simps [simp del]

definition rebuild_vec_index :: "search_db \<Rightarrow> str option \<Rightarrow> (mg_error + nat) \<times> search_db" where
  "rebuild_vec_index db scope =
     (let rows = concat (map (\<lambda>n. case node_vec n of None \<Rightarrow> [] | Some v \<Rightarrow> [v])
                   (filter (\<lambda>n. in_scope scope (sn_bank n)) (sd_nodes db)));
          cleared = filter (\<lambda>v. \<not> in_scope scope (vr_bank v)) (sd_vecs db);
          (res, vs) = insert_chunks cleared 0 rows
      in (res, db\<lparr>sd_vecs := vs\<rparr>))"

interpretation sn: mirrored "mn_id :: search_node \<Rightarrow> int" node_vec vr_rowid
  by unfold_locales (auto simp: node_vec_def)

lemma insert_vecs_ok: "distinct (map vr_rowid (vs @ rs)) \<Longrightarrow> insert_vecs vs rs = Some (vs @ rs)"
proof (induction rs arbitrary: vs)
  case (Cons r rs)
  then show ?case using Cons.IH[of "vs @ [r]"] by auto
qed simp

lemma insert_chunks_ok: "distinct (map vr_rowid (vs @ rows)) \<Longrightarrow> insert_chunks vs n rows = (Inr (n + length rows), vs @ rows)"
proof (induction vs n rows rule: insert_chunks.induct)
  case (1 vs n rows)
  show ?case
  proof (cases "rows = []")
    case False
    have split: "vs @ rows = (vs @ take rebuild_chunk rows) @ drop rebuild_chunk rows" by simp
    have d: "distinct (map vr_rowid ((vs @ take rebuild_chunk rows) @ drop rebuild_chunk rows))"
      using 1(2) split by metis
    then have "insert_vecs vs (take rebuild_chunk rows) = Some (vs @ take rebuild_chunk rows)"
      by (intro insert_vecs_ok) (simp only: map_append distinct_append)
    then have "insert_chunks vs n rows = insert_chunks (vs @ take rebuild_chunk rows) (n + length (take rebuild_chunk rows)) (drop rebuild_chunk rows)"
      using False by (subst insert_chunks.simps) simp
    also have "\<dots> = (Inr (n + length (take rebuild_chunk rows) + length (drop rebuild_chunk rows)), (vs @ take rebuild_chunk rows) @ drop rebuild_chunk rows)"
      using 1(1)[OF False _ d] \<open>insert_vecs vs (take rebuild_chunk rows) = _\<close> by simp
    finally show ?thesis by simp
  qed (simp add: insert_chunks.simps)
qed

definition vec_rows :: "search_node list \<Rightarrow> vec_row list" where
  "vec_rows ns = concat (map (\<lambda>n. case node_vec n of None \<Rightarrow> [] | Some v \<Rightarrow> [v]) ns)"

lemma set_vec_rows: "v \<in> set (vec_rows ns) \<longleftrightarrow> (\<exists>n \<in> set ns. node_vec n = Some v)"
  by (force simp: vec_rows_def split: option.splits)

lemma distinct_vec_rows: "distinct (map mn_id ns) \<Longrightarrow> distinct (map vr_rowid (vec_rows ns))"
proof (induction ns)
  case (Cons n ns)
  have "mn_id n \<notin> vr_rowid ` set (vec_rows ns)"
    using Cons.prems sn.shadow_id by (fastforce simp: set_vec_rows)
  moreover have "vec_rows (n # ns) = (case node_vec n of None \<Rightarrow> [] | Some v \<Rightarrow> [v]) @ vec_rows ns" by (simp add: vec_rows_def)
  ultimately show ?case using Cons sn.shadow_id[of n] by (cases "node_vec n") auto
qed (simp add: vec_rows_def)

text \<open>Rebuilding the whole vector index succeeds from any index whatever, and leaves exactly one index
  row per node that has an embedding, under the node's id, with its bank and its bytes.\<close>

lemma rebuild_restores_index:
  assumes "distinct (map mn_id (sd_nodes db))"
  shows "fst (rebuild_vec_index db None) = Inr (length (filter (\<lambda>n. sn_embedding n \<noteq> None) (sd_nodes db)))
    \<and> in_step mn_id node_vec vr_rowid (sd_nodes (snd (rebuild_vec_index db None))) (sd_vecs (snd (rebuild_vec_index db None)))"
proof -
  have "rebuild_vec_index db None = (let (res, vs) = insert_chunks [] 0 (vec_rows (sd_nodes db)) in (res, db\<lparr>sd_vecs := vs\<rparr>))"
    by (simp add: rebuild_vec_index_def in_scope_def vec_rows_def Let_def)
  then have "rebuild_vec_index db None = (Inr (length (vec_rows (sd_nodes db))), db\<lparr>sd_vecs := vec_rows (sd_nodes db)\<rparr>)"
    using insert_chunks_ok[of "[]" "vec_rows (sd_nodes db)" 0] distinct_vec_rows[OF assms] by simp
  moreover have "length (vec_rows ns) = length (filter (\<lambda>n. sn_embedding n \<noteq> None) ns)" for ns
    by (induction ns) (auto simp: vec_rows_def node_vec_def)
  ultimately show ?thesis using assms distinct_vec_rows[OF assms] by (auto simp: in_step_def set_vec_rows)
qed

subsection \<open>The query is a list of quoted phrases\<close>

definition terms_ok :: "(uchar \<Rightarrow> bool) \<Rightarrow> (str \<Rightarrow> str) \<Rightarrow> str \<Rightarrow> str list \<Rightarrow> bool" where
  "terms_ok alphanumeric lower raw terms \<longleftrightarrow>
     distinct (map lower terms)
   \<and> list_all (\<lambda>t. 2 \<le> length t \<and> list_all alphanumeric t \<and> sublist t raw) terms"

lemma push_term_ok:
  assumes "snd st = lower ` set (fst st)" "terms_ok an lower raw (fst st)" "list_all an t" "sublist t raw"
  shows "snd (push_term lower t st) = lower ` set (fst (push_term lower t st)) \<and> terms_ok an lower raw (fst (push_term lower t st))"
  using assms by (cases st) (auto simp: push_term_def terms_ok_def min_term_chars_def)

lemma push_runs_ok:
  assumes "snd st = lower ` set (fst st)" "terms_ok an lower raw (fst st)" "list_all an (cur @ cs)" "sublist (cur @ cs) raw"
  shows "snd (push_runs lower prev cur cs st) = lower ` set (fst (push_runs lower prev cur cs st))
    \<and> terms_ok an lower raw (fst (push_runs lower prev cur cs st))"
  using assms
proof (induction lower prev cur cs st rule: push_runs.induct)
  case (1 lower prev cur st)
  then show ?case using push_term_ok[of st lower an raw cur] by simp
next
  case (2 lower prev cur c cs st)
  have cur: "list_all an cur" "sublist cur raw"
    using 2(5,6) sublist_order.order_trans[OF sublist_append_rightI[of cur "c # cs"]] by simp_all
  have rest: "list_all an ([c] @ cs)" "sublist ([c] @ cs) raw"
    using 2(5,6) sublist_order.order_trans[OF sublist_append_leftI[of "c # cs" cur]] by simp_all
  show ?case
    using 2 cur rest push_term_ok[of st lower an raw cur] by (simp add: Let_def)
qed

lemma split_class_pieces:
  "split_class P s \<noteq> [] \<and> prefix (hd (split_class P s)) s
   \<and> (\<forall>t \<in> set (split_class P s). list_all (\<lambda>c. \<not> P c) t \<and> sublist t s)"
proof (induction s)
  case (Cons c s)
  then obtain t ts where t: "split_class P s = t # ts" by (cases "split_class P s") auto
  then have IH: "prefix t s" "list_all (\<lambda>c. \<not> P c) t" "\<forall>u \<in> set (t # ts). list_all (\<lambda>c. \<not> P c) u \<and> sublist u s"
    using Cons by auto
  have up: "sublist u (c # s)" if "sublist u s" for u using that by (metis sublist_Cons_right)
  have "prefix (c # t) (c # s)" using IH(1) by simp
  then show ?case using IH up t prefix_imp_sublist[of "c # t" "c # s"] by (auto simp: up)
qed simp

lemma query_terms_ok: "terms_ok an lower raw (query_terms an lower raw)"
proof -
  have "snd (fold (push_runs lower None []) ts st) = lower ` set (fst (fold (push_runs lower None []) ts st))
     \<and> terms_ok an lower raw (fst (fold (push_runs lower None []) ts st))"
    if "\<forall>t \<in> set ts. list_all an t \<and> sublist t raw" "snd st = lower ` set (fst st)" "terms_ok an lower raw (fst st)" for ts st
    using that
  proof (induction ts arbitrary: st)
    case (Cons t ts)
    then show ?case using push_runs_ok[of st lower an raw "[]" t None] by simp
  qed simp
  from this[of "split_class (\<lambda>c. \<not> an c) raw" "([], {})"] show ?thesis
    using split_class_pieces[of "\<lambda>c. \<not> an c" raw] by (simp add: query_terms_def terms_ok_def)
qed

lemma longest_terms_ok:
  assumes "terms_ok an lower raw ts"
  shows "terms_ok an lower raw (longest_terms ts) \<and> length (longest_terms ts) \<le> 12"
proof (cases "max_query_terms < length ts")
  case True
  define idx where "idx = sort (take max_query_terms (sort_key (\<lambda>i. - int (length (ts ! i))) [0..<length ts]))"
  have idx: "distinct idx" "set idx \<subseteq> {..<length ts}" "length idx \<le> 12"
    by (auto simp: idx_def max_query_terms_def dest: in_set_takeD)
  have nth: "map lower ts ! i = lower (ts ! i)" if "i \<in> set idx" for i using idx(2) that by auto
  have "distinct (map lower ts)" using assms by (simp add: terms_ok_def)
  then have "x = y" if "x \<in> set idx" "y \<in> set idx" "lower (ts ! x) = lower (ts ! y)" for x y
    using that idx(2) nth nth_eq_iff_index_eq[of "map lower ts" x y] by (metis length_map lessThan_iff subsetD)
  then have "distinct (map lower (map (\<lambda>i. ts ! i) idx))"
    using idx(1) by (auto simp: distinct_map inj_on_def)
  then show ?thesis using True idx assms by (auto simp: longest_terms_def idx_def[symmetric] terms_ok_def list_all_iff subset_iff)
next
  case False
  then show ?thesis using assms by (simp add: longest_terms_def max_query_terms_def)
qed

text \<open>C26: Whatever a user types, the full text expression is a disjunction of at most twelve quoted prefix
  phrases, each a run of at least two alphanumeric characters of the text, no two equal up to case: no
  character of the input reaches the query language outside a phrase.\<close>

theorem fts_query_is_phrases:
  "\<exists>terms. fts_query_string alphanumeric lower raw = join (lit '' OR '') (map (\<lambda>t. [34] @ t @ [34, 42]) terms)
     \<and> length terms \<le> 12 \<and> distinct (map lower terms)
     \<and> list_all (\<lambda>t. 2 \<le> length t \<and> list_all alphanumeric t \<and> sublist t raw) terms"
  using longest_terms_ok[OF query_terms_ok[of alphanumeric lower raw]]
  by (auto simp: fts_query_string_def terms_ok_def)

subsection \<open>What the reads return\<close>

lemma hydrate_sound:
  assumes "c \<in> set (hydrate now db bank ids)"
  obtains n where "n \<in> set (sd_nodes db)" "c = candidate_of db n" "sn_bank n = bank" "is_live now n" "mn_id n \<in> set ids"
  using assms by (auto simp: hydrate_def)

lemma hydrate_ids: "distinct (map mn_id (sd_nodes db)) \<Longrightarrow> distinct (map cr_id (hydrate now db bank ids))"
  by (auto simp: hydrate_def candidate_of_def comp_def distinct_map_filter)

lemma graph_arm_ids: "distinct (map ah_id (graph_arm th db bank seeds)) \<and> length (graph_arm th db bank seeds) \<le> 200"
proof -
  have "distinct (map ah_id (graph_rank th links shared)) \<and> length (graph_rank th links shared) \<le> 200" for links shared
  proof -
    let ?hits = "map (\<lambda>i. \<lparr>ah_id = i, ah_score = graph_score th links shared i\<rparr>) (sorted_list_of_set (fst ` set shared \<union> nb_node_id ` set links))"
    have "distinct (map ah_id (sort_key (\<lambda>h. (- ah_score h, ah_id h)) ?hits))"
      by (simp add: distinct_map inj_on_def)
    then show ?thesis unfolding graph_rank_eq graph_expansion_cap_def by (simp flip: take_map)
  qed
  then show ?thesis by (simp add: graph_arm_def Let_def split: prod.splits)
qed

subsection \<open>Sample tables\<close>

definition sample_node_row :: "int \<Rightarrow> str \<Rightarrow> fact_type \<Rightarrow> search_node" where
  "sample_node_row i s ft =
     \<lparr>mn_id = i, mn_uuid = 117 # nat_str (nat i),
      mn_new = \<lparr>nn_bank_id = lit ''b'', nn_document_id = None, nn_fact_type = ft, nn_text = s, nn_context = None,
                nn_event_date = None, nn_occurred_start = None, nn_occurred_end = None, nn_mentioned_at = None,
                nn_metadata = None, nn_expires_at = None\<rparr>,
      mn_tags = [], mn_created_at = 1, mn_updated_at = 1, mn_superseded_by = None, mn_embedded = False,
      sn_proof_count = 0, sn_embedding = None, sn_embedding_model = None\<rparr>"

definition sample_search_db :: search_db where
  "sample_search_db =
     \<lparr>sd_nodes = [sample_node_row 1 (lit ''hello'') World, sample_node_row 2 (lit ''greets'') Observation],
      sd_vecs = [], sd_links = [], sd_node_entities = [], sd_mentions = [], sd_sources = [(2, 1)]\<rparr>"

text \<open>An index with a row of a node that is gone, and one node that has an embedding.\<close>

definition stale_index_db :: search_db where
  "stale_index_db = sample_search_db\<lparr>
     sd_nodes := [(sample_node_row 1 (lit ''hello'') World)\<lparr>sn_embedding := Some [1]\<rparr>, sample_node_row 2 (lit ''greets'') Observation],
     sd_vecs := [\<lparr>vr_rowid = 9, vr_bank = lit ''b'', vr_embedding = [7]\<rparr>]\<rparr>"

end
