(* ===== verification/Recall_Injection.thy ===== *)
theory Recall_Injection
  imports Recall_Ranking
begin

text \<open>
  What recall hands to a client: the records of \<open>crates/memgardend/src/recall/mod.rs\<close> and the block of
  text built from them (\<open>build_injection\<close> and its helpers). Parameter: \<open>utc\<close>, the rendering of a
  timestamp by \<open>jiff\<close> (\<open>format_utc\<close>).
\<close>

record scores =
  sc_final :: f64
  sc_semantic :: "f64 option"
  sc_keyword :: "f64 option"
  sc_rrf :: f64
  sc_recency :: f64
  sc_temporal :: f64
  sc_proof :: f64

record recall_item =
  ri_id :: int
  ri_uuid :: str
  ri_text :: str
  ri_fact_type :: fact_type
  ri_context :: "str option"
  ri_tags :: "str list"
  ri_occurred_start :: "int option"
  ri_occurred_end :: "int option"
  ri_mentioned_at :: "int option"
  ri_scores :: scores
  ri_source_bank :: "str option"

record recall_counts =
  rn_candidates :: nat
  rn_returned :: nat
  rn_tokens :: nat
  rn_excluded :: nat
  rn_below_floor :: nat
  rn_fallback :: nat

record recall_outcome =
  ro_results :: "recall_item list"
  ro_injected_text :: str
  ro_counts :: recall_counts

definition empty_outcome :: recall_outcome where
  "empty_outcome =
     \<lparr>ro_results = [], ro_injected_text = [],
      ro_counts = \<lparr>rn_candidates = 0, rn_returned = 0, rn_tokens = 0, rn_excluded = 0, rn_below_floor = 0, rn_fallback = 0\<rparr>\<rparr>"

subsection \<open>Building the block\<close>

text \<open>\<open>str::replace\<close> and \<open>str::rsplit_once\<close>.\<close>

definition str_replace :: "str \<Rightarrow> str \<Rightarrow> str \<Rightarrow> str" where
  "str_replace p to s = join to (str_split p s)"

definition rsplit_once :: "str \<Rightarrow> str \<Rightarrow> (str \<times> str) option" where
  "rsplit_once p s = map_option (\<lambda>(a, b). (rev b, rev a)) (split_once (rev p) (rev s))"

definition short_bank :: "str \<Rightarrow> str" where
  "short_bank bank = (case rsplit_once (lit ''::'') bank of None \<Rightarrow> bank | Some (_, tail) \<Rightarrow> tail)"

definition close_tag :: str where "close_tag = lit ''</memgarden_memories''"
definition open_tag :: str where "open_tag = lit ''<memgarden_memories''"

definition defang :: "str \<Rightarrow> str" where
  "defang text =
     (if \<not> contains [60] text then text
      else str_replace open_tag ([60, 8203] @ lit ''memgarden_memories'')
             (str_replace close_tag ([60, 8203] @ lit ''/memgarden_memories'') text))"

definition item_time_of_day_ms :: int where "item_time_of_day_ms = 24 * 3600000"

definition trivial_involving :: "str list" where
  "trivial_involving =
     [lit ''user'', lit ''assistant'', [0xC0AC, 0xC6A9, 0xC790], lit ''user, assistant'',
      lit ''user and assistant'', lit ''the user'']"

definition strip_prefix :: "str \<Rightarrow> str \<Rightarrow> str option" where
  "strip_prefix p s = (if starts_with p s then Some (drop (length p) s) else None)"

definition seg_redundant :: "str option \<Rightarrow> str \<Rightarrow> bool" where
  "seg_redundant mentioned_date seg =
     (case strip_prefix (lit ''When: '') seg of
        Some when \<Rightarrow> (case mentioned_date of None \<Rightarrow> False | Some d \<Rightarrow> starts_with d (trim when))
      | None \<Rightarrow> (case strip_prefix (lit ''Involving: '') seg of
            Some who \<Rightarrow> (\<exists>t \<in> set trivial_involving. to_ascii_lowercase (trim who) = to_ascii_lowercase t)
          | None \<Rightarrow> False))"

definition compact_text :: "str \<Rightarrow> str option \<Rightarrow> str" where
  "compact_text text mentioned_date =
     (case str_split (lit '' | '') text of
        [] \<Rightarrow> []
      | s # segs \<Rightarrow> foldl (\<lambda>out seg. if seg_redundant mentioned_date seg then out else out @ lit '' | '' @ seg) s segs)"

text \<open>\<open>s.get(..10)\<close>: the first ten bytes, if they end at a character.\<close>

definition date_of :: "str \<Rightarrow> str option" where
  "date_of stamp = (if is_char_boundary stamp 10 then Some (take_bytes 10 stamp) else None)"

definition item_suffix :: "(int \<Rightarrow> str) \<Rightarrow> int \<Rightarrow> recall_item \<Rightarrow> str" where
  "item_suffix utc now_ms r =
     (case ri_mentioned_at r of
        None \<Rightarrow> []
      | Some ms \<Rightarrow>
          if now_ms - ms < item_time_of_day_ms then lit '' ('' @ utc ms @ lit '')''
          else case date_of (utc ms) of None \<Rightarrow> [] | Some d \<Rightarrow> lit '' ('' @ d @ lit '')'')"

definition item_line :: "(int \<Rightarrow> str) \<Rightarrow> int \<Rightarrow> recall_item \<Rightarrow> str" where
  "item_line utc now_ms r =
     lit ''- '' @ defang (compact_text (ri_text r) (Option.bind (map_option utc (ri_mentioned_at r)) date_of))
       @ lit '' ['' @ fact_type_as_str (ri_fact_type r) @ lit '']''
       @ (case ri_source_bank r of None \<Rightarrow> [] | Some b \<Rightarrow> lit '' [from '' @ short_bank b @ lit '']'')
       @ item_suffix utc now_ms r"

definition build_injection :: "(int \<Rightarrow> str) \<Rightarrow> recall_item list \<Rightarrow> str \<Rightarrow> int \<Rightarrow> str" where
  "build_injection utc results preamble now_ms =
     (if results = [] then []
      else lit ''<memgarden_memories>'' @ [10] @ preamble @ [10] @ lit ''Current time - '' @ utc now_ms @ [10, 10]
        @ join [10] (map (item_line utc now_ms) results) @ [10] @ lit ''</memgarden_memories>'')"

subsection \<open>Where a tag can occur\<close>

lemma contains_sep: "c \<notin> set q \<Longrightarrow> contains q (xs @ c # ys) \<longleftrightarrow> contains q xs \<or> contains q ys"
proof
  assume c: "c \<notin> set q" and "contains q (xs @ c # ys)"
  then obtain a b where ab: "xs @ c # ys = a @ q @ b" by (auto simp: contains_iff)
  then consider us where "xs = a @ us" "us @ c # ys = q @ b" | us where "a = xs @ us" "us @ q @ b = c # ys"
    by (auto simp: append_eq_append_conv2)
  then show "contains q xs \<or> contains q ys"
  proof cases
    case 1
    then obtain vs where "us = q @ vs \<and> vs @ c # ys = b \<or> us @ vs = q \<and> c # ys = vs @ b"
      by (auto simp: append_eq_append_conv2)
    then have "\<exists>vs. us = q @ vs" using c by (cases vs) auto
    then show ?thesis using 1(1) by (auto simp: contains_iff)
  next
    case 2
    then show ?thesis using c by (cases us; cases q) (auto simp: contains_iff)
  qed
next
  assume "contains q xs \<or> contains q ys"
  then show "contains q (xs @ c # ys)"
    by (auto simp: contains_iff) (metis append.assoc append_Cons)+
qed

lemma contains_skip: "hd q \<notin> set xs \<Longrightarrow> q \<noteq> [] \<Longrightarrow> contains q (xs @ ys) \<longleftrightarrow> contains q ys"
proof (induction xs)
  case (Cons x xs)
  have "contains q (x # xs @ ys) \<longleftrightarrow> contains q (xs @ ys)"
  proof
    assume "contains q (x # xs @ ys)"
    then obtain a b where "x # xs @ ys = a @ q @ b" by (auto simp: contains_iff)
    then show "contains q (xs @ ys)" using Cons.prems by (cases a; cases q) (auto simp: contains_iff)
  next
    assume "contains q (xs @ ys)"
    then show "contains q (x # xs @ ys)" by (auto simp: contains_iff) (metis append_Cons)
  qed
  then show ?case using Cons by simp
qed simp

lemma contains_appendL: "contains q xs \<Longrightarrow> contains q (xs @ ys)"
  and contains_appendR: "contains q ys \<Longrightarrow> contains q (xs @ ys)"
proof -
  assume "contains q xs"
  then obtain a b where "xs = a @ q @ b" by (auto simp: contains_iff)
  then have "xs @ ys = a @ q @ (b @ ys)" by simp
  then show "contains q (xs @ ys)" unfolding contains_iff by blast
next
  assume "contains q ys"
  then obtain a b where "ys = a @ q @ b" by (auto simp: contains_iff)
  then have "xs @ ys = (xs @ a) @ q @ b" by simp
  then show "contains q (xs @ ys)" unfolding contains_iff by blast
qed

lemma contains_snoc: "last q \<noteq> c \<Longrightarrow> q \<noteq> [] \<Longrightarrow> contains q (xs @ [c]) \<longleftrightarrow> contains q xs"
proof
  assume q: "last q \<noteq> c" "q \<noteq> []" and "contains q (xs @ [c])"
  then obtain a b where "xs @ [c] = a @ q @ b" by (auto simp: contains_iff)
  then show "contains q xs" using q by (cases b rule: rev_cases) (auto simp: contains_iff, metis last_append last_snoc)
next
  assume "contains q xs"
  then show "contains q (xs @ [c])" by (rule contains_appendL)
qed

lemma not_contains_plain: "hd q \<notin> set xs \<Longrightarrow> q \<noteq> [] \<Longrightarrow> \<not> contains q xs"
  using contains_skip[of q xs "[]"] by (auto simp: contains_iff)

text \<open>Replacing a tag breaks every tag: none of those looked for is in the result.\<close>

definition taglike :: "str \<Rightarrow> bool" where
  "taglike q \<longleftrightarrow> (\<exists>r. q = 60 # r \<and> r \<noteq> [] \<and> 60 \<notin> set r \<and> 8203 \<notin> set r)"

lemma replace_breaks:
  assumes "p = 60 # r" "60 \<notin> set r" "taglike q" "q = p \<or> \<not> contains q s"
  shows "\<not> contains q (str_replace p (60 # 8203 # r) s)"
  using assms(4)
proof (induction "length s" arbitrary: s rule: less_induct)
  case less
  obtain q' where q: "q = 60 # q'" "q' \<noteq> []" "60 \<notin> set q'" "8203 \<notin> set q'" using assms(3) by (auto simp: taglike_def)
  then have q8: "8203 \<notin> set q" and lst: "last q \<noteq> 60" and hd: "hd q = 60" and ne: "q \<noteq> []"
    by (auto, metis last_in_set)
  have ps: "p \<noteq> []" using assms(1) by simp
  show ?case
  proof (cases "split_once p s")
    case None
    then have "str_replace p (60 # 8203 # r) s = s" by (simp add: str_replace_def str_split.simps[of p s] ps)
    moreover have "\<not> contains p s" using None by (simp add: contains_def)
    ultimately show ?thesis using less.prems by auto
  next
    case (Some ab)
    obtain a b where ab: "split_once p s = Some (a, b)" using Some by (cases ab) simp
    have s: "s = a @ p @ b" by (rule split_once_SomeD[OF ab])
    have "str_replace p (60 # 8203 # r) s = (a @ [60]) @ 8203 # (r @ str_replace p (60 # 8203 # r) b)"
      by (simp add: str_replace_def str_split.simps[of p s] ps ab join_Cons str_split_nonempty)
    moreover have "\<not> contains q (a @ [60])"
    proof -
      have "\<not> contains q a"
      proof (cases "q = p")
        case True
        have False if "a = u @ p @ v" for u v
        proof -
          have "length a \<le> length u" using split_once_first[OF ab, of u "v @ p @ b"] s that by simp
          then show False using that ps by simp
        qed
        then show ?thesis using True by (auto simp: contains_iff)
      next
        case False
        then show ?thesis using less.prems s contains_appendL by blast
      qed
      then show ?thesis using contains_snoc[OF lst ne] by blast
    qed
    moreover have "\<not> contains q (r @ str_replace p (60 # 8203 # r) b)"
    proof -
      have "length b < length s" by (rule split_once_shorter[OF ab ps])
      moreover have "q = p \<or> \<not> contains q b" using less.prems s contains_appendR[of q b "a @ p"] by auto
      ultimately have "\<not> contains q (str_replace p (60 # 8203 # r) b)" by (rule less.hyps)
      then show ?thesis using contains_skip[of q r] assms(2) hd ne by simp
    qed
    ultimately show ?thesis using contains_sep[OF q8, of "a @ [60]"] by metis
  qed
qed

lemma tags_taglike: "taglike close_tag" "taglike open_tag"
  by (simp_all add: taglike_def close_tag_def open_tag_def)

lemma defang_no_tag: "\<not> contains close_tag (defang s)" "\<not> contains open_tag (defang s)"
proof -
  let ?once = "str_replace close_tag ([60, 8203] @ lit ''/memgarden_memories'') s"
  have c: "close_tag = 60 # lit ''/memgarden_memories''" and opn: "open_tag = 60 # lit ''memgarden_memories''"
    by (simp_all add: close_tag_def open_tag_def)
  have once: "\<not> contains close_tag ?once"
    using replace_breaks[of close_tag "lit ''/memgarden_memories''" close_tag s] tags_taglike c by simp
  have twice: "\<not> contains q (str_replace open_tag ([60, 8203] @ lit ''memgarden_memories'') ?once)" if "q = open_tag \<or> q = close_tag" for q
    using replace_breaks[of open_tag "lit ''memgarden_memories''" q ?once] tags_taglike opn once that by auto
  have plain: "\<not> contains q s" if "\<not> contains [60] s" "q = open_tag \<or> q = close_tag" for q
  proof
    have "\<exists>r. q = 60 # r" using that(2) c opn by blast
    then obtain r where r: "q = 60 # r" ..
    assume "contains q s"
    then obtain a b where "s = a @ [60] @ (r @ b)" by (auto simp: contains_iff r)
    then show False using that(1) unfolding contains_iff by blast
  qed
  show "\<not> contains close_tag (defang s)" "\<not> contains open_tag (defang s)"
    using twice plain by (auto simp: defang_def)
qed


subsection \<open>The block is closed where it says\<close>

lemma join_parts:
  assumes "sep \<notin> set q" "q \<noteq> []"
  shows "contains q (join [sep] ls) \<longleftrightarrow> (\<exists>l \<in> set ls. contains q l)"
proof (induction ls)
  case Nil
  then show ?case using assms(2) by (auto simp: contains_iff)
next
  case (Cons l ls)
  then show ?case
  proof (cases "ls = []")
    case False
    then have "join [sep] (l # ls) = l @ sep # join [sep] ls" by (simp add: join_Cons)
    then show ?thesis using Cons contains_sep[OF assms(1)] by simp
  qed simp
qed

lemma fact_type_plain: "60 \<notin> set (fact_type_as_str ft)"
  by (cases ft) simp_all

lemma take_bytes_set: "set (take_bytes n s) \<subseteq> set s"
  by (induction n s rule: take_bytes.induct) auto

lemma tag_chars: "q \<in> {close_tag, open_tag} \<Longrightarrow> q \<noteq> [] \<and> hd q = 60 \<and> 10 \<notin> set q \<and> 32 \<notin> set q"
  by (auto simp: close_tag_def open_tag_def)

lemma suffix_plain: "(\<And>ms. 60 \<notin> set (utc ms)) \<Longrightarrow> 60 \<notin> set (item_suffix utc now r)"
  using take_bytes_set by (auto simp: item_suffix_def date_of_def split: option.splits)

lemma line_no_tag:
  assumes "q \<in> {close_tag, open_tag}" "\<And>ms. 60 \<notin> set (utc ms)"
    and "\<And>b. ri_source_bank r = Some b \<Longrightarrow> 60 \<notin> set (short_bank b)"
  shows "\<not> contains q (item_line utc now r)"
proof -
  define d where "d = defang (compact_text (ri_text r) (Option.bind (map_option utc (ri_mentioned_at r)) date_of))"
  define z where "z = 91 # fact_type_as_str (ri_fact_type r) @ lit '']''
       @ (case ri_source_bank r of None \<Rightarrow> [] | Some b \<Rightarrow> lit '' [from '' @ short_bank b @ lit '']'') @ item_suffix utc now r"
  have q: "q \<noteq> []" "hd q = 60" "32 \<notin> set q" using tag_chars[OF assms(1)] by simp_all
  have "60 \<notin> set z"
    using suffix_plain[OF assms(2)] fact_type_plain assms(3) by (auto simp: z_def split: option.splits)
  then have "\<not> contains q z" using not_contains_plain q by metis
  moreover have "\<not> contains q d" using assms(1) defang_no_tag by (auto simp: d_def)
  moreover have "item_line utc now r = [45, 32] @ d @ 32 # z" by (simp add: item_line_def d_def z_def)
  ultimately show ?thesis using contains_skip[of q "[45, 32]" "d @ 32 # z"] contains_sep[OF q(3), of d z] q by simp
qed

text \<open>C13: Whatever the recalled texts hold, the block recall injects opens with its tag and closes with
  its tag, and between the two neither tag occurs: no memory can end the block early or open another.
  The preamble, the timestamps and the names of other banks come from the configuration and the clock.\<close>

theorem injection_cannot_be_escaped:
  assumes "results \<noteq> []" and "\<not> contains close_tag preamble" "\<not> contains open_tag preamble"
    and "\<And>ms. 60 \<notin> set (utc ms)"
    and "\<And>r b. r \<in> set results \<Longrightarrow> ri_source_bank r = Some b \<Longrightarrow> 60 \<notin> set (short_bank b)"
  shows "\<exists>body. build_injection utc results preamble now_ms = lit ''<memgarden_memories>'' @ [10] @ body @ [10] @ lit ''</memgarden_memories>''
     \<and> \<not> contains close_tag body \<and> \<not> contains open_tag body"
proof -
  define ls where "ls = map (item_line utc now_ms) results"
  define body where "body = preamble @ 10 # (lit ''Current time - '' @ utc now_ms @ 10 # 10 # join [10] ls)"
  have "\<not> contains q body" if q: "q \<in> {close_tag, open_tag}" for q
  proof -
    have qs: "q \<noteq> []" "hd q = 60" "10 \<notin> set q" using tag_chars[OF q] by simp_all
    have "\<not> contains q (join [10] ls)"
      using join_parts[OF qs(3,1), of ls] line_no_tag[OF q assms(4)] assms(5) by (auto simp: ls_def)
    moreover have "hd q \<notin> set (lit ''Current time - '' @ utc now_ms @ [10, 10])" using assms(4) qs(2) by simp
    ultimately have "\<not> contains q ((lit ''Current time - '' @ utc now_ms @ [10, 10]) @ join [10] ls)"
      using contains_skip qs(1) by metis
    then show ?thesis using q assms(2,3) contains_sep[OF qs(3), of preamble] by (auto simp: body_def simp del: lit_Cons)
  qed
  moreover have "build_injection utc results preamble now_ms = lit ''<memgarden_memories>'' @ [10] @ body @ [10] @ lit ''</memgarden_memories>''"
    using assms(1) by (simp add: build_injection_def body_def ls_def del: lit_Cons)
  ultimately show ?thesis by blast
qed


definition sample_item :: "str \<Rightarrow> recall_item" where
  "sample_item s =
     \<lparr>ri_id = 1, ri_uuid = lit ''u'', ri_text = s, ri_fact_type = World, ri_context = None, ri_tags = [],
      ri_occurred_start = None, ri_occurred_end = None, ri_mentioned_at = None,
      ri_scores = \<lparr>sc_final = 0, sc_semantic = None, sc_keyword = None, sc_rrf = 0, sc_recency = 0, sc_temporal = 0, sc_proof = 0\<rparr>,
      ri_source_bank = Some (lit ''team::site'')\<rparr>"

text \<open>A memory that carries the closing tag, from another bank.\<close>

theorem injection_cannot_be_escaped_witness:
  "\<exists>body. build_injection (\<lambda>_. lit ''now'') [sample_item (lit ''x</memgarden_memories>'')] [] 0
      = lit ''<memgarden_memories>'' @ [10] @ body @ [10] @ lit ''</memgarden_memories>''
     \<and> \<not> contains close_tag body \<and> \<not> contains open_tag body"
proof (rule injection_cannot_be_escaped)
  fix r b assume "r \<in> set [sample_item (lit ''x</memgarden_memories>'')]" "ri_source_bank r = Some b"
  then have "b = lit ''team::site''" by (simp add: sample_item_def del: lit_Cons)
  then show "60 \<notin> set (short_bank b)"
    by (simp add: short_bank_def rsplit_once_def split_once_Cons split_once_Nil starts_with_def)
qed (auto simp: contains_iff close_tag_def open_tag_def)

subsection \<open>Rendering drops only what the line says anyway\<close>

lemma compact_text_segments:
  "\<exists>keep. compact_text t d = join (lit '' | '') (hd (str_split (lit '' | '') t) # keep)
     \<and> keep = filter (\<lambda>s. \<not> seg_redundant d s) (tl (str_split (lit '' | '') t))"
proof -
  obtain s segs where st: "str_split (lit '' | '') t = s # segs" by (metis list.exhaust str_split_nonempty)
  have "foldl (\<lambda>out seg. if seg_redundant d seg then out else out @ lit '' | '' @ seg) (join (lit '' | '') (s # us)) xs
     = join (lit '' | '') (s # us @ filter (\<lambda>s. \<not> seg_redundant d s) xs)" for us xs
  proof (induction xs arbitrary: us)
    case (Cons x xs)
    have "join sep (s # us) @ sep @ x = join sep (s # us @ [x])" for sep
      by (induction us arbitrary: s) (auto simp: join_Cons)
    then show ?case using Cons[of us] Cons[of "us @ [x]"] by (simp del: lit_Cons join.simps)
  qed simp
  from this[of "[]" segs] show ?thesis by (simp add: compact_text_def st del: lit_Cons)
qed

end
