(* ===== verification/Recall_Pipeline.thy ===== *)
theory Recall_Pipeline
  imports Recall_Store Recall_Injection
begin

text \<open>
  \<open>crates/memgardend/src/recall/mod.rs\<close>: the retrieval pipeline, from a query to the items and the block
  of text, with the fallback to other banks, and the inputs of the cross-encoder (\<open>rerank.rs\<close>). The record
  \<open>recall_env\<close> holds what is not the program's own: the embedder, the temporal expression of a query, the
  cross-encoder, FTS5, \<open>sqlite-vec\<close>, the token counter, the clock of SQLite and the rendering of dates.
\<close>

definition min_query_chars :: nat where "min_query_chars = 5"
definition max_over_fetch :: nat where "max_over_fetch = 1000"

definition over_fetch :: "nat \<Rightarrow> nat" where
  "over_fetch limit = max 100 (min max_over_fetch (limit * 5))"

datatype tags_match = AnyTags | AllTags | AnyStrict | AllStrict

definition include_untagged :: "tags_match \<Rightarrow> bool" where
  "include_untagged m \<longleftrightarrow> m = AnyTags \<or> m = AllTags"

definition is_any :: "tags_match \<Rightarrow> bool" where
  "is_any m \<longleftrightarrow> m = AnyTags \<or> m = AnyStrict"

definition tags_matches :: "tags_match \<Rightarrow> str list \<Rightarrow> str list \<Rightarrow> bool" where
  "tags_matches m node_tags request_tags \<longleftrightarrow>
     (if request_tags = [] then True
      else if node_tags = [] then include_untagged m
      else if is_any m then \<exists>t \<in> set request_tags. t \<in> set node_tags
      else \<forall>t \<in> set request_tags. t \<in> set node_tags)"

record recall_params =
  rp_query :: str
  rp_limit :: nat
  rp_budget :: str
  rp_max_tokens :: nat
  rp_fact_types :: "fact_type list"
  rp_tags :: "str list"
  rp_tags_match :: tags_match
  rp_cap_per_source :: nat
  rp_semantic_alpha :: f64
  rp_min_semantic :: f64
  rp_proof_alpha :: f64
  rp_exclude_uuids :: "str list"
  rp_preamble :: str
  rp_now_ms :: int

subsection \<open>The cross-encoder's inputs\<close>

record reranker =
  rk_top_k :: nat
  rk_model :: "(str \<Rightarrow> str list \<Rightarrow> (nat \<times> f64) list option) option"
  rk_sigmoid :: "f64 \<Rightarrow> f64"
  rk_date :: "int \<Rightarrow> (str \<times> str) option"

definition decorate :: "(int \<Rightarrow> (str \<times> str) option) \<Rightarrow> str \<Rightarrow> str option \<Rightarrow> int option \<Rightarrow> str" where
  "decorate date body context occurred_start =
     (let doc = (case context of Some c \<Rightarrow> if c = [] then body else c @ lit '': '' @ body | None \<Rightarrow> body) in
      case Option.bind occurred_start date of
        None \<Rightarrow> doc
      | Some (readable, ymd) \<Rightarrow> lit ''[Date: '' @ readable @ lit '' ('' @ ymd @ lit '')] '' @ doc)"

definition rerank_inputs :: "(int \<Rightarrow> (str \<times> str) option) \<Rightarrow> candidate_row list \<Rightarrow> nat \<Rightarrow> int list \<times> str list" where
  "rerank_inputs date candidates top_k =
     (map cr_id (take top_k candidates),
      map (\<lambda>c. decorate date (cr_text c) (cr_context c) (cr_occurred_start c)) (take top_k candidates))"

fun place_scores :: "(f64 \<Rightarrow> f64) \<Rightarrow> (nat \<times> f64) list \<Rightarrow> f64 list \<Rightarrow> f64 list option" where
  "place_scores sigmoid [] out = Some out"
| "place_scores sigmoid ((i, s) # rs) out =
     (if i < length out then place_scores sigmoid rs (out[i := sigmoid s]) else None)"

definition rerank_scores :: "reranker \<Rightarrow> (str \<Rightarrow> str list \<Rightarrow> (nat \<times> f64) list option) \<Rightarrow> str \<Rightarrow> str list \<Rightarrow> f64 list option" where
  "rerank_scores rk model query docs =
     (if docs = [] then Some []
      else case model query docs of None \<Rightarrow> None | Some ranked \<Rightarrow> place_scores (rk_sigmoid rk) ranked (replicate (length docs) 0))"

record recall_env =
  re_embedder :: "(str \<Rightarrow> f32 list option) option"
  re_constraint :: "str \<Rightarrow> int \<Rightarrow> (int \<times> int) option"
  re_reranker :: "reranker option"
  re_alphanumeric :: "uchar \<Rightarrow> bool"
  re_lower :: "str \<Rightarrow> str"
  re_bm25 :: "search_node list \<Rightarrow> str \<Rightarrow> int \<Rightarrow> f64 option"
  re_apart :: "blob \<Rightarrow> blob \<Rightarrow> f64"
  re_token_count :: "str \<Rightarrow> nat"
  re_sql_now :: int
  re_utc :: "int \<Rightarrow> str"
  re_th :: "f64 \<Rightarrow> f64"
  re_lg :: "f64 \<Rightarrow> f64"

subsection \<open>Duplicates\<close>

type_synonym row_map = "int \<Rightarrow> candidate_row option"

definition rank_of :: "(f64 \<times> recall_item) list \<Rightarrow> int \<Rightarrow> nat option" where
  "rank_of scored = map_of (rev (map (\<lambda>(i, si). (ri_id (snd si), i)) (enumerate 0 scored)))"

definition drops :: "row_map \<Rightarrow> (int \<Rightarrow> nat option) \<Rightarrow> nat \<times> (f64 \<times> recall_item) \<Rightarrow> int list" where
  "drops by_id rank x =
     (let (i, si) = x in
      case by_id (ri_id (snd si)) of
        None \<Rightarrow> []
      | Some row \<Rightarrow>
          let ranked_sources = List.map_filter rank (cr_sources row) in
          if ranked_sources = [] then []
          else if \<forall>j \<in> set ranked_sources. i \<le> j then filter (\<lambda>s. rank s \<noteq> None) (cr_sources row)
          else [ri_id (snd si)])"

definition dedupe_restatements :: "row_map \<Rightarrow> (f64 \<times> recall_item) list \<Rightarrow> (f64 \<times> recall_item) list" where
  "dedupe_restatements by_id scored =
     (if length scored < 2 then scored
      else
        let dropped = concat (map (drops by_id (rank_of scored)) (enumerate 0 scored))
        in filter (\<lambda>si. ri_id (snd si) \<notin> set dropped) scored)"

definition plain_text :: "str \<Rightarrow> str" where
  "plain_text s = join [32] (split_ws s)"

definition dedupe_identical_text :: "(f64 \<times> recall_item) list \<Rightarrow> (f64 \<times> recall_item) list" where
  "dedupe_identical_text scored =
     (if length scored < 2 then scored else retain_new (\<lambda>si. plain_text (ri_text (snd si))) {} scored)"

subsection \<open>The pipeline\<close>

definition row_map_of :: "candidate_row list \<Rightarrow> row_map" where
  "row_map_of rows = map_of (rev (map (\<lambda>r. (cr_id r, r)) rows))"

definition keep :: "row_map \<Rightarrow> recall_params \<Rightarrow> int \<Rightarrow> bool" where
  "keep by_id p i \<longleftrightarrow>
     (case by_id i of
        None \<Rightarrow> False
      | Some row \<Rightarrow> cr_fact_type row \<in> set (rp_fact_types p) \<and> tags_matches (rp_tags_match p) (cr_tags row) (rp_tags p))"

text \<open>The three retrieval arms and the rows they name.\<close>

record retrieved =
  rt_semantic :: "arm_hit list"
  rt_keyword :: "arm_hit list"
  rt_temporal :: "arm_hit list"
  rt_by_id :: row_map

definition retrieve ::
  "recall_env \<Rightarrow> search_db \<Rightarrow> str \<Rightarrow> recall_params \<Rightarrow> str \<Rightarrow> f32 list option \<Rightarrow> (int \<times> int) option \<Rightarrow> mg_error + retrieved" where
  "retrieve env db bank p query embedding window =
     (let fetch = over_fetch (rp_limit p) in
      case (case embedding of None \<Rightarrow> Inr [] | Some e \<Rightarrow> search_knn (re_apart env) db bank e fetch) of
        Inl e \<Rightarrow> Inl e
      | Inr semantic_raw \<Rightarrow>
          let keyword_raw = fts_candidates_filtered (re_bm25 env) db bank
                (fts_query_string (re_alphanumeric env) (re_lower env) query) (rp_fact_types p) fetch;
              temporal_raw = (case window of None \<Rightarrow> [] | Some (lo, hi) \<Rightarrow> temporal_candidates db bank lo hi fetch);
              ids = remdups_adj (sort (map fst semantic_raw @ map fst keyword_raw @ temporal_raw));
              by_id = row_map_of (hydrate (re_sql_now env) db bank ids)
          in Inr \<lparr>rt_semantic = map (\<lambda>(i, d). \<lparr>ah_id = i, ah_score = 1 - d\<rparr>) (filter (\<lambda>h. keep by_id p (fst h)) semantic_raw),
                  rt_keyword = map (\<lambda>(i, s). \<lparr>ah_id = i, ah_score = s\<rparr>) (filter (\<lambda>h. keep by_id p (fst h)) keyword_raw),
                  rt_temporal = map (\<lambda>i. \<lparr>ah_id = i, ah_score = 0\<rparr>) (filter (keep by_id p) temporal_raw),
                  rt_by_id = by_id\<rparr>)"

definition arms_of :: "recall_params \<Rightarrow> retrieved \<Rightarrow> arm_hit list \<Rightarrow> arm_hit list list" where
  "arms_of p r graph_hits =
     [cap_per_source (rt_semantic r) (rp_cap_per_source p), cap_per_source (rt_keyword r) (rp_cap_per_source p),
      graph_hits, cap_per_source (rt_temporal r) (rp_cap_per_source p)]"

text \<open>The seeds of the first fusion, their neighbours, and the second fusion.\<close>

definition fuse_arms ::
  "recall_env \<Rightarrow> search_db \<Rightarrow> str \<Rightarrow> recall_params \<Rightarrow> retrieved \<Rightarrow> merged list \<times> row_map" where
  "fuse_arms env db bank p r =
     (let seeds = map mg_id (take graph_seeds (reciprocal_rank_fusion (arms_of p r []) rrf_k)) in
      if seeds = [] then (reciprocal_rank_fusion (arms_of p r []) rrf_k, rt_by_id r)
      else
        let hits = graph_arm (re_th env) db bank seeds;
            new_ids = filter (\<lambda>i. rt_by_id r i = None) (map ah_id hits);
            by_id = rt_by_id r ++ row_map_of (hydrate (re_sql_now env) db bank new_ids);
            graph_hits = filter (\<lambda>h. keep by_id p (ah_id h)) hits
        in (reciprocal_rank_fusion (arms_of p r (cap_per_source graph_hits (rp_cap_per_source p))) rrf_k, by_id))"

text \<open>The rerank step: the candidates it leaves and, when it scored them, their scores by id.\<close>

definition rerank :: "recall_env \<Rightarrow> row_map \<Rightarrow> str \<Rightarrow> merged list \<Rightarrow> merged list \<times> (int \<Rightarrow> f64 option) option" where
  "rerank env by_id query merged =
     (case re_reranker env of
        None \<Rightarrow> (merged, None)
      | Some rk \<Rightarrow>
          case rk_model rk of
            None \<Rightarrow> (merged, None)
          | Some model \<Rightarrow>
              let (ids, docs) = rerank_inputs (rk_date rk) (List.map_filter (\<lambda>m. by_id (mg_id m)) merged) (rk_top_k rk) in
              case rerank_scores rk model query docs of
                None \<Rightarrow> (merged, None)
              | Some s \<Rightarrow> (take (rk_top_k rk) merged, Some (map_of (rev (zip ids s)))))"

definition semantic_spread :: "merged list \<Rightarrow> f64 \<times> f64" where
  "semantic_spread merged =
     fold (\<lambda>v (lo, hi). (min lo v, max hi v)) (List.map_filter mg_semantic merged) (f64_max, - f64_max)"

definition score_row ::
  "recall_env \<Rightarrow> recall_params \<Rightarrow> (int \<times> int) option \<Rightarrow> (int \<Rightarrow> f64 option) option \<Rightarrow> nat \<Rightarrow> f64 \<times> f64 \<Rightarrow> nat \<Rightarrow> merged \<Rightarrow> candidate_row
    \<Rightarrow> f64 \<times> recall_item" where
  "score_row env p window reranked n spread rank0 m row =
     (let base = (case reranked of
                    None \<Rightarrow> passthrough_base n rank0
                  | Some s \<Rightarrow> (case s (mg_id m) of None \<Rightarrow> 0 | Some x \<Rightarrow> x));
          rec = recency (effective_time (cr_occurred_start row) (cr_mentioned_at row) (cr_occurred_end row)) (rp_now_ms p);
          temporal = (case window of
                        None \<Rightarrow> neutral
                      | Some (lo, hi) \<Rightarrow>
                          temporal_proximity (temporal_best_time (cr_occurred_start row) (cr_occurred_end row) (cr_mentioned_at row)) lo hi);
          prf = proof_norm (re_lg env) (cr_proof_count row);
          semantic = semantic_norm (mg_semantic m) (fst spread) (snd spread);
          final = combined_with_semantic base rec temporal prf (rp_proof_alpha p) semantic (rp_semantic_alpha p)
      in (final,
          \<lparr>ri_id = cr_id row, ri_uuid = cr_uuid row, ri_text = cr_text row, ri_fact_type = cr_fact_type row,
           ri_context = cr_context row, ri_tags = cr_tags row, ri_occurred_start = cr_occurred_start row,
           ri_occurred_end = cr_occurred_end row, ri_mentioned_at = cr_mentioned_at row,
           ri_scores = \<lparr>sc_final = final, sc_semantic = mg_semantic m, sc_keyword = mg_keyword m, sc_rrf = mg_rrf_score m,
                        sc_recency = rec, sc_temporal = temporal, sc_proof = prf\<rparr>,
           ri_source_bank = None\<rparr>))"

definition score_all ::
  "recall_env \<Rightarrow> recall_params \<Rightarrow> (int \<times> int) option \<Rightarrow> (int \<Rightarrow> f64 option) option \<Rightarrow> row_map \<Rightarrow> merged list \<Rightarrow> (f64 \<times> recall_item) list" where
  "score_all env p window reranked by_id merged =
     sort_key (\<lambda>si. - fst si)
       (List.map_filter (\<lambda>(rank0, m). map_option (score_row env p window reranked (length merged) (semantic_spread merged) rank0 m) (by_id (mg_id m)))
          (enumerate 0 merged))"

definition withhold_below_floor :: "f64 \<Rightarrow> recall_item list \<Rightarrow> nat \<times> recall_item list" where
  "withhold_below_floor least results =
     (if least \<le> 0 then (0, results)
      else
        let kept = filter (\<lambda>r. case sc_semantic (ri_scores r) of None \<Rightarrow> False | Some s \<Rightarrow> least \<le> s) results
        in (length results - length kept, kept))"

definition recount :: "(str \<Rightarrow> nat) \<Rightarrow> recall_item list \<Rightarrow> nat" where
  "recount token_count results = sum_list (map (\<lambda>r. token_count (ri_text r)) results)"

text \<open>From the scored candidates to the outcome: cut to the budgets, then withhold.\<close>

definition select ::
  "recall_env \<Rightarrow> recall_params \<Rightarrow> bool \<Rightarrow> nat \<Rightarrow> (f64 \<times> recall_item) list \<Rightarrow> recall_outcome" where
  "select env p embedded candidates scored =
     (let cnt = re_token_count env;
          carried = map snd (take (rerank_limit (budget_tokens (rp_budget p))) scored);
          (kept, tokens0) = fit_to_budget (map ri_text carried) (rp_max_tokens p) cnt;
          results0 = take (min kept (rp_limit p)) carried;
          tokens1 = (if length results0 = kept then tokens0 else recount cnt results0);
          results1 = (if rp_exclude_uuids p \<noteq> [] then filter (\<lambda>r. ri_uuid r \<notin> set (rp_exclude_uuids p)) results0 else results0);
          excluded = length results0 - length results1;
          tokens2 = (if excluded = 0 then tokens1 else recount cnt results1);
          (below, results2) = (if embedded then withhold_below_floor (rp_min_semantic p) results1 else (0, results1));
          tokens3 = (if below = 0 then tokens2 else recount cnt results2)
      in \<lparr>ro_results = results2, ro_injected_text = build_injection (re_utc env) results2 (rp_preamble p) (rp_now_ms p),
          ro_counts = \<lparr>rn_candidates = candidates, rn_returned = length results2, rn_tokens = tokens3, rn_excluded = excluded,
                       rn_below_floor = below, rn_fallback = 0\<rparr>\<rparr>)"

definition recall :: "recall_env \<Rightarrow> search_db \<Rightarrow> str \<Rightarrow> recall_params \<Rightarrow> api_error + recall_outcome" where
  "recall env db bank p =
     (let query = trim (rp_query p) in
      if length query < min_query_chars then Inr empty_outcome
      else
        case (case re_embedder env of
                None \<Rightarrow> Some None
              | Some emb \<Rightarrow> (case emb query of None \<Rightarrow> None | Some v \<Rightarrow> Some (Some v))) of
          None \<Rightarrow> Inl ApiInternal
        | Some embedding \<Rightarrow>
            let window = re_constraint env query (rp_now_ms p) in
            case retrieve env db bank p query embedding window of
              Inl e \<Rightarrow> Inl (ApiStore e)
            | Inr r \<Rightarrow>
                let (merged, by_id) = fuse_arms env db bank p r;
                    (left, reranked) = rerank env by_id query merged;
                    scored = score_all env p window reranked by_id left;
                    unique = dedupe_identical_text (dedupe_restatements by_id scored)
                in Inr (select env p (embedding \<noteq> None) (length merged) unique))"


subsection \<open>What the stages keep\<close>

lemma row_map_of_mem: "row_map_of rows i = Some r \<Longrightarrow> r \<in> set rows \<and> cr_id r = i"
  by (auto simp: row_map_of_def dest!: map_of_SomeD)

text \<open>Every row a map holds is the live node of the bank with that id.\<close>

definition rows_of :: "recall_env \<Rightarrow> search_db \<Rightarrow> str \<Rightarrow> row_map \<Rightarrow> bool" where
  "rows_of env db bank by_id \<longleftrightarrow>
     (\<forall>i row. by_id i = Some row \<longrightarrow> (\<exists>n \<in> set (sd_nodes db). row = candidate_of db n \<and> mn_id n = i \<and> sn_bank n = bank \<and> is_live (re_sql_now env) n))"

lemma rows_of_hydrate: "rows_of env db bank (row_map_of (hydrate (re_sql_now env) db bank ids))"
  unfolding rows_of_def
proof (intro allI impI)
  fix i row assume "row_map_of (hydrate (re_sql_now env) db bank ids) i = Some row"
  then have "row \<in> set (hydrate (re_sql_now env) db bank ids)" "cr_id row = i" using row_map_of_mem by blast+
  then show "\<exists>n \<in> set (sd_nodes db). row = candidate_of db n \<and> mn_id n = i \<and> sn_bank n = bank \<and> is_live (re_sql_now env) n"
    by (auto simp: hydrate_def candidate_of_def)
qed

lemma rows_of_add: "rows_of env db bank m \<Longrightarrow> rows_of env db bank m' \<Longrightarrow> rows_of env db bank (m ++ m')"
  by (auto simp: rows_of_def map_add_Some_iff)

definition hits_kept :: "row_map \<Rightarrow> recall_params \<Rightarrow> arm_hit list \<Rightarrow> bool" where
  "hits_kept by_id p hits \<longleftrightarrow> (\<forall>h \<in> set hits. keep by_id p (ah_id h))"

lemma hits_kept_cap: "hits_kept by_id p hits \<Longrightarrow> hits_kept by_id p (cap_per_source hits n)"
  by (auto simp: hits_kept_def cap_per_source_def dest: in_set_takeD)

lemma retrieve_kept:
  assumes "retrieve env db bank p query e w = Inr r"
  shows "rows_of env db bank (rt_by_id r)"
    "hits_kept (rt_by_id r) p (rt_semantic r)" "hits_kept (rt_by_id r) p (rt_keyword r)" "hits_kept (rt_by_id r) p (rt_temporal r)"
  using assms by (auto simp: retrieve_def Let_def hits_kept_def rows_of_hydrate split: sum.splits)

lemma rrf_mem: "m \<in> set (reciprocal_rank_fusion arms k) \<Longrightarrow> \<exists>arm \<in> set arms. \<exists>h \<in> set arm. mg_id m = ah_id h"
proof -
  assume "m \<in> set (reciprocal_rank_fusion arms k)"
  then have "mg_id m \<in> set (map mg_id (reciprocal_rank_fusion arms k))" by simp
  also have "\<dots> = set (map ah_id (concat arms))" by (simp only: rrf_ids fused_ids) simp
  finally show ?thesis by auto
qed

lemma rrf_distinct: "distinct (map mg_id (reciprocal_rank_fusion arms k))"
  by (simp only: rrf_ids fused_ids) (simp add: distinct_first_seen)

lemma keep_add: "keep m p i \<Longrightarrow> m' i = None \<Longrightarrow> keep (m ++ m') p i"
  by (simp add: keep_def map_add_def)

lemma fuse_arms_kept:
  assumes r: "retrieve env db bank p query e w = Inr r" and f: "fuse_arms env db bank p r = (ms, by_id)"
  shows "rows_of env db bank by_id" "distinct (map mg_id ms)" "\<forall>m \<in> set ms. keep by_id p (mg_id m)"
proof -
  define seeds where "seeds = map mg_id (take graph_seeds (reciprocal_rank_fusion (arms_of p r []) rrf_k))"
  define hits where "hits = graph_arm (re_th env) db bank seeds"
  define extra where "extra = row_map_of (hydrate (re_sql_now env) db bank (filter (\<lambda>i. rt_by_id r i = None) (map ah_id hits)))"
  define all where "all = rt_by_id r ++ extra"
  define gh where "gh = cap_per_source (filter (\<lambda>h. keep all p (ah_id h)) hits) (rp_cap_per_source p)"
  have fresh: "extra i = None" if "rt_by_id r i = Some x" for i x
  proof (rule ccontr)
    assume "extra i \<noteq> None"
    then obtain row where "extra i = Some row" by blast
    then have "row \<in> set (hydrate (re_sql_now env) db bank (filter (\<lambda>i. rt_by_id r i = None) (map ah_id hits)))" "cr_id row = i"
      unfolding extra_def by (auto dest: row_map_of_mem)
    then show False using that by (auto simp: hydrate_def candidate_of_def)
  qed
  have up: "hits_kept all p hs" if "hits_kept (rt_by_id r) p hs" for hs
    unfolding hits_kept_def
  proof
    fix h assume "h \<in> set hs"
    then have k: "keep (rt_by_id r) p (ah_id h)" using that by (simp add: hits_kept_def)
    then have "rt_by_id r (ah_id h) \<noteq> None" by (auto simp: keep_def split: option.splits)
    then have "extra (ah_id h) = None" using fresh by blast
    then show "keep all p (ah_id h)" unfolding all_def by (rule keep_add[OF k])
  qed
  have arms: "\<forall>arm \<in> set (arms_of p r g). hits_kept m p arm"
    if "hits_kept m p (rt_semantic r)" "hits_kept m p (rt_keyword r)" "hits_kept m p (rt_temporal r)" "hits_kept m p g" for m g
    using that by (auto simp: arms_of_def hits_kept_cap)
  have merged: "\<forall>m' \<in> set (reciprocal_rank_fusion (arms_of p r g) rrf_k). keep m p (mg_id m')"
    if "hits_kept m p (rt_semantic r)" "hits_kept m p (rt_keyword r)" "hits_kept m p (rt_temporal r)" "hits_kept m p g" for m g
  proof
    fix m' assume "m' \<in> set (reciprocal_rank_fusion (arms_of p r g) rrf_k)"
    then obtain arm h where "arm \<in> set (arms_of p r g)" "h \<in> set arm" "mg_id m' = ah_id h" using rrf_mem by blast
    then show "keep m p (mg_id m')" using arms[OF that] unfolding hits_kept_def by simp
  qed
  note k = retrieve_kept[OF r]
  show "rows_of env db bank by_id" "distinct (map mg_id ms)" "\<forall>m \<in> set ms. keep by_id p (mg_id m)"
  proof (atomize(full), cases "seeds = []")
    case True
    then have "ms = reciprocal_rank_fusion (arms_of p r []) rrf_k" "by_id = rt_by_id r"
      using f by (simp_all add: fuse_arms_def Let_def seeds_def)
    then show "rows_of env db bank by_id \<and> distinct (map mg_id ms) \<and> (\<forall>m \<in> set ms. keep by_id p (mg_id m))"
      using k merged[of "rt_by_id r" "[]"] rrf_distinct by (simp add: hits_kept_def)
  next
    case False
    then have "ms = reciprocal_rank_fusion (arms_of p r gh) rrf_k" "by_id = all"
      using f by (auto simp: fuse_arms_def Let_def seeds_def gh_def all_def extra_def hits_def)
    moreover have "hits_kept all p gh" unfolding gh_def by (rule hits_kept_cap) (simp add: hits_kept_def)
    moreover have "rows_of env db bank all" unfolding all_def extra_def by (rule rows_of_add[OF k(1) rows_of_hydrate])
    ultimately show "rows_of env db bank by_id \<and> distinct (map mg_id ms) \<and> (\<forall>m \<in> set ms. keep by_id p (mg_id m))"
      using merged[of all gh] up k rrf_distinct by simp
  qed
qed

lemma rerank_prefix: "rerank env by_id q ms = (left, rs) \<Longrightarrow> \<exists>n. left = take n ms"
  by (auto simp: rerank_def rerank_inputs_def Let_def split: option.splits intro: exI[of _ "length ms"])

lemma score_row_fields [simp]:
  "ri_id (snd (score_row env p w rr n sp k m row)) = cr_id row" "ri_uuid (snd (score_row env p w rr n sp k m row)) = cr_uuid row"
  "ri_text (snd (score_row env p w rr n sp k m row)) = cr_text row" "ri_fact_type (snd (score_row env p w rr n sp k m row)) = cr_fact_type row"
  "ri_context (snd (score_row env p w rr n sp k m row)) = cr_context row" "ri_tags (snd (score_row env p w rr n sp k m row)) = cr_tags row"
  "ri_source_bank (snd (score_row env p w rr n sp k m row)) = None"
  "sc_semantic (ri_scores (snd (score_row env p w rr n sp k m row))) = mg_semantic m"
  "sc_final (ri_scores (snd (score_row env p w rr n sp k m row))) = fst (score_row env p w rr n sp k m row)"
  by (simp_all add: score_row_def Let_def)


lemma map_filter_alt: "List.map_filter f xs = map (the \<circ> f) (filter (\<lambda>x. f x \<noteq> None) xs)"
  by (simp add: List.map_filter_def)

definition scored_ok :: "recall_env \<Rightarrow> search_db \<Rightarrow> str \<Rightarrow> recall_params \<Rightarrow> row_map \<Rightarrow> recall_item \<Rightarrow> bool" where
  "scored_ok env db bank p by_id r \<longleftrightarrow>
     keep by_id p (ri_id r) \<and> (\<exists>n \<in> set (sd_nodes db). by_id (ri_id r) = Some (candidate_of db n) \<and> mn_id n = ri_id r \<and> sn_bank n = bank
       \<and> is_live (re_sql_now env) n \<and> ri_uuid r = mn_uuid n \<and> ri_text r = sn_text n \<and> ri_fact_type r = sn_type n
       \<and> ri_context r = nn_context (mn_new n) \<and> ri_tags r = sort (mn_tags n) \<and> ri_source_bank r = None)"

lemma score_all_ok:
  assumes rows: "rows_of env db bank by_id" and d: "distinct (map mg_id ms)" and k: "\<forall>m \<in> set ms. keep by_id p (mg_id m)"
  shows "distinct (map (\<lambda>si. ri_id (snd si)) (score_all env p w rr by_id ms))"
    "\<forall>si \<in> set (score_all env p w rr by_id ms). scored_ok env db bank p by_id (snd si)"
    "sorted (map (\<lambda>si. - fst si) (score_all env p w rr by_id ms))"
proof -
  define f where "f = (\<lambda>(rank0, m). map_option (score_row env p w rr (length ms) (semantic_spread ms) rank0 m) (by_id (mg_id m)))"
  define raw where "raw = List.map_filter f (enumerate 0 ms)"
  have sa: "score_all env p w rr by_id ms = sort_key (\<lambda>si. - fst si) raw" by (simp add: score_all_def raw_def f_def)
  have ok: "ri_id (snd si) = mg_id m \<and> scored_ok env db bank p by_id (snd si)" if fm: "f (i, m) = Some si" and ms: "m \<in> set ms" for i m si
  proof -
    obtain row where row: "by_id (mg_id m) = Some row" "si = score_row env p w rr (length ms) (semantic_spread ms) i m row"
      using fm by (auto simp: f_def)
    obtain n where n: "n \<in> set (sd_nodes db)" "row = candidate_of db n" "mn_id n = mg_id m" "sn_bank n = bank" "is_live (re_sql_now env) n"
      using rows row(1) by (auto simp: rows_of_def)
    have id: "ri_id (snd si) = mg_id m" using row(2) n(2,3) by (simp add: candidate_of_def)
    moreover have "keep by_id p (mg_id m)" using k ms by blast
    ultimately show ?thesis using row n by (auto simp: scored_ok_def candidate_of_def intro!: bexI[OF _ n(1)])
  qed
  have ids: "map (\<lambda>si. ri_id (snd si)) (List.map_filter f (enumerate j xs)) = map mg_id (filter (\<lambda>m. by_id (mg_id m) \<noteq> None) xs)"
    if "set xs \<subseteq> set ms" for j xs
    using that
  proof (induction xs arbitrary: j)
    case (Cons x xs)
    show ?case
    proof (cases "f (j, x)")
      case None
      then have "by_id (mg_id x) = None" by (simp add: f_def)
      then show ?thesis using Cons None by (simp add: map_filter_alt)
    next
      case (Some si)
      then have "by_id (mg_id x) \<noteq> None" by (auto simp: f_def)
      then show ?thesis using Cons Some ok[OF Some] by (simp add: map_filter_alt)
    qed
  qed (simp add: List.map_filter_def)
  have mem: "\<forall>si \<in> set raw. scored_ok env db bank p by_id (snd si)"
  proof
    fix si assume "si \<in> set raw"
    then obtain i m where "(i, m) \<in> set (enumerate 0 ms)" "f (i, m) = Some si"
      by (auto simp: raw_def map_filter_alt)
    moreover from this(1) have "m \<in> set ms" by (metis map_snd_enumerate image_eqI list.set_map snd_conv)
    ultimately show "scored_ok env db bank p by_id (snd si)" using ok by blast
  qed
  have "distinct (map (\<lambda>si. ri_id (snd si)) raw)"
    using ids[of ms 0] d by (simp add: raw_def distinct_map_filter)
  then show "distinct (map (\<lambda>si. ri_id (snd si)) (score_all env p w rr by_id ms))" unfolding sa by (simp add: distinct_map)
  show "\<forall>si \<in> set (score_all env p w rr by_id ms). scored_ok env db bank p by_id (snd si)" using mem by (simp add: sa)
  show "sorted (map (\<lambda>si. - fst si) (score_all env p w rr by_id ms))" by (simp add: sa)
qed

subsection \<open>Duplicates\<close>

lemma rank_of_nth:
  assumes "distinct (map (\<lambda>si. ri_id (snd si)) scored)" "i < length scored"
  shows "rank_of scored (ri_id (snd (scored ! i))) = Some i"
proof -
  define al where "al = rev (map (\<lambda>(i, si). (ri_id (snd si), i)) (enumerate 0 scored))"
  have fst: "map fst (map (\<lambda>(i, si). (ri_id (snd si), i)) (enumerate j xs)) = map (\<lambda>si. ri_id (snd si)) xs" for j and xs :: "(f64 \<times> recall_item) list"
    by (induction xs arbitrary: j) auto
  have "distinct (map fst al)" unfolding al_def rev_map[symmetric] using fst assms(1) by simp
  moreover have "(ri_id (snd (scored ! i)), i) \<in> set al"
    using assms(2) by (force simp: al_def in_set_enumerate_eq)
  ultimately show ?thesis unfolding rank_of_def al_def[symmetric] by simp
qed

text \<open>No observation survives beside a fact it was consolidated from.\<close>

lemma no_restatement:
  assumes d: "distinct (map (\<lambda>si. ri_id (snd si)) scored)"
    and x: "x \<in> set (dedupe_restatements by_id scored)" and y: "y \<in> set (dedupe_restatements by_id scored)"
    and xy: "x \<noteq> y" and row: "by_id (ri_id (snd x)) = Some row"
  shows "ri_id (snd y) \<notin> set (cr_sources row)"
proof
  assume src: "ri_id (snd y) \<in> set (cr_sources row)"
  have xs: "x \<in> set scored" "y \<in> set scored" using x y by (auto simp: dedupe_restatements_def Let_def split: if_splits)
  then obtain i j where ij: "i < length scored" "x = scored ! i" "j < length scored" "y = scored ! j" by (metis in_set_conv_nth)
  have rank: "rank_of scored (ri_id (snd y)) = Some j" using rank_of_nth[OF d ij(3)] ij(4) by simp
  have "i \<noteq> j" using ij xy by auto
  then have two: "\<not> length scored < 2" using ij by linarith
  define dropped where "dropped = concat (map (drops by_id (rank_of scored)) (enumerate 0 scored))"
  have out: "ri_id (snd x) \<notin> set dropped" "ri_id (snd y) \<notin> set dropped"
    using x y two by (auto simp: dedupe_restatements_def Let_def dropped_def)
  have "j \<in> set (List.map_filter (rank_of scored) (cr_sources row))"
    using rank src by (force simp: map_filter_alt)
  then have "ri_id (snd x) \<in> set (drops by_id (rank_of scored) (i, x)) \<or> ri_id (snd y) \<in> set (drops by_id (rank_of scored) (i, x))"
    using row rank src by (auto simp: drops_def Let_def)
  moreover have "(i, x) \<in> set (enumerate 0 scored)" using ij by (auto simp: in_set_enumerate_eq)
  ultimately have "ri_id (snd x) \<in> set dropped \<or> ri_id (snd y) \<in> set dropped" by (auto simp: dropped_def)
  then show False using out by blast
qed

lemma dedupe_text_subset: "set (dedupe_identical_text scored) \<subseteq> set scored"
  by (simp add: dedupe_identical_text_def retain_new_subset)

lemma dedupe_restate_subset: "set (dedupe_restatements by_id scored) \<subseteq> set scored"
  by (auto simp: dedupe_restatements_def Let_def)

lemma dedupe_distinct:
  "distinct (map f scored) \<Longrightarrow> distinct (map f (dedupe_identical_text (dedupe_restatements by_id scored)))"
  by (auto simp: dedupe_identical_text_def dedupe_restatements_def Let_def distinct_map_filter intro!: retain_new_distinct)

lemma dedupe_texts: "distinct (map (\<lambda>si. plain_text (ri_text (snd si))) (dedupe_identical_text scored))"
proof (cases "length scored < 2")
  case True
  then have "length scored = 0 \<or> length scored = 1" by linarith
  then show ?thesis by (auto simp: dedupe_identical_text_def length_Suc_conv)
next
  case False
  then show ?thesis using retain_new_keys by (auto simp: dedupe_identical_text_def)
qed


subsection \<open>Selection\<close>

lemma recount_filter: "recount c (filter P xs) \<le> recount c xs"
  by (induction xs) (auto simp: recount_def)

lemma recount_take: "recount c (take n xs) \<le> recount c xs"
proof -
  have "recount c xs = recount c (take n xs) + recount c (drop n xs)"
    using arg_cong[OF append_take_drop_id[of n xs], of "recount c"] by (simp add: recount_def del: append_take_drop_id)
  then show ?thesis by simp
qed

lemma filter_no_loss: "length xs - length (filter P xs) = 0 \<Longrightarrow> filter P xs = xs"
proof -
  assume "length xs - length (filter P xs) = 0"
  then have "length (filter P xs) = length xs" using length_filter_le[of P xs] by linarith
  then have "\<forall>x \<in> set xs. P x" using length_filter_less[of _ xs P] by (metis nat_neq_iff)
  then show ?thesis by simp
qed

text \<open>The items an outcome carries: some of the candidates, in their order, within the budgets, none
  excluded and, when the query was embedded, none below the floor; its token count is theirs.\<close>

lemma select_facts:
  fixes env p
  defines "cnt \<equiv> re_token_count env"
  assumes "out = select env p embedded cands scored"
  shows "set (ro_results out) \<subseteq> snd ` set scored"
    and "distinct (map (\<lambda>si. f (snd si)) scored) \<Longrightarrow> distinct (map f (ro_results out))"
    and "rn_tokens (ro_counts out) = recount cnt (ro_results out)" and "recount cnt (ro_results out) \<le> rp_max_tokens p"
    and "length (ro_results out) \<le> rp_limit p" and "rn_returned (ro_counts out) = length (ro_results out)"
    and "\<forall>r \<in> set (ro_results out). ri_uuid r \<notin> set (rp_exclude_uuids p)"
    and "embedded \<Longrightarrow> 0 < rp_min_semantic p \<Longrightarrow> \<forall>r \<in> set (ro_results out). \<exists>s. sc_semantic (ri_scores r) = Some s \<and> rp_min_semantic p \<le> s"
    and "ro_injected_text out = build_injection (re_utc env) (ro_results out) (rp_preamble p) (rp_now_ms p)"
proof -
  define carried where "carried = map snd (take (rerank_limit (budget_tokens (rp_budget p))) scored)"
  obtain k where fit: "fit_to_budget (map ri_text carried) (rp_max_tokens p) cnt = (k, sum_list (map cnt (take k (map ri_text carried))))"
    and k: "k \<le> length (map ri_text carried)" "sum_list (map cnt (take k (map ri_text carried))) \<le> rp_max_tokens p"
    using fit_to_budget_exact[of "map ri_text carried" "rp_max_tokens p" cnt] by metis
  define r0 where "r0 = take (min k (rp_limit p)) carried"
  define r1 where "r1 = (if rp_exclude_uuids p \<noteq> [] then filter (\<lambda>r. ri_uuid r \<notin> set (rp_exclude_uuids p)) r0 else r0)"
  define wb where "wb = (if embedded then withhold_below_floor (rp_min_semantic p) r1 else (0, r1))"
  have sum: "sum_list (map cnt (take k (map ri_text carried))) = recount cnt (take k carried)"
    by (simp add: recount_def take_map comp_def)
  have o: "ro_results out = snd wb" "rn_returned (ro_counts out) = length (snd wb)"
    "ro_injected_text out = build_injection (re_utc env) (snd wb) (rp_preamble p) (rp_now_ms p)"
    "rn_tokens (ro_counts out) = (if fst wb = 0 then (if length r0 - length r1 = 0 then (if length r0 = k then recount cnt (take k carried) else recount cnt r0) else recount cnt r1) else recount cnt (snd wb))"
    unfolding assms(2) select_def Let_def cnt_def[symmetric] carried_def[symmetric] fit prod.case
    unfolding r0_def[symmetric] unfolding r1_def[symmetric] unfolding wb_def[symmetric] sum
    by (simp_all add: split_beta)
  define Q :: "recall_item \<Rightarrow> bool" where "Q r \<longleftrightarrow> ri_uuid r \<notin> set (rp_exclude_uuids p)" for r
  define W :: "recall_item \<Rightarrow> bool" where "W r \<longleftrightarrow> embedded \<and> 0 < rp_min_semantic p \<longrightarrow> (case sc_semantic (ri_scores r) of None \<Rightarrow> False | Some s \<Rightarrow> rp_min_semantic p \<le> s)" for r
  have r1: "r1 = filter Q r0" by (simp add: r1_def Q_def[abs_def])
  have w: "snd wb = filter W r1" "fst wb = length r1 - length (snd wb)"
    by (auto simp: wb_def withhold_below_floor_def W_def[abs_def] Let_def filter_True not_le)
  have toks: "rn_tokens (ro_counts out) = recount cnt (snd wb)"
  proof -
    have "r0 = take k carried" if "length r0 = k" using that unfolding r0_def
      by (metis length_take min.cobounded1 min.commute min_def take_all take_take)
    then show ?thesis using o(4) w filter_no_loss[of r1 W] filter_no_loss[of r0 Q] r1 by auto
  qed
  have r0: "r0 = take (rp_limit p) (take k carried)" by (simp add: r0_def min.commute)
  have le: "recount cnt (snd wb) \<le> rp_max_tokens p"
    using recount_filter[of cnt W r1] recount_filter[of cnt Q r0] recount_take[of cnt "rp_limit p" "take k carried"] k(2)
    unfolding w(1) r1 r0[symmetric] sum by linarith
  have sub: "set (ro_results out) \<subseteq> set carried" unfolding o(1) w(1) r1 r0 by (auto dest: in_set_takeD)
  show "set (ro_results out) \<subseteq> snd ` set scored" using sub by (auto simp: carried_def dest!: in_set_takeD)
  show "distinct (map f (ro_results out))" if "distinct (map (\<lambda>si. f (snd si)) scored)"
  proof -
    have "distinct (map f carried)" using distinct_take_map[OF that] by (simp add: carried_def comp_def)
    then show ?thesis unfolding o(1) w(1) r1 r0 by (intro distinct_map_filter distinct_take_map)
  qed
  show "rn_tokens (ro_counts out) = recount cnt (ro_results out)" "recount cnt (ro_results out) \<le> rp_max_tokens p"
    using toks le by (simp_all add: o(1))
  show "length (ro_results out) \<le> rp_limit p"
    unfolding o(1) w(1) r1 using length_filter_le[of W "filter Q r0"] length_filter_le[of Q r0] by (simp add: r0_def)
  show "rn_returned (ro_counts out) = length (ro_results out)" "ro_injected_text out = build_injection (re_utc env) (ro_results out) (rp_preamble p) (rp_now_ms p)"
    by (simp_all add: o)
  show "\<forall>r \<in> set (ro_results out). ri_uuid r \<notin> set (rp_exclude_uuids p)" unfolding o(1) w(1) r1 by (auto simp: Q_def)
  show "\<forall>r \<in> set (ro_results out). \<exists>s. sc_semantic (ri_scores r) = Some s \<and> rp_min_semantic p \<le> s" if "embedded" "0 < rp_min_semantic p"
    unfolding o(1) w(1) using that by (auto simp: W_def split: option.splits)
qed


subsection \<open>What recall answers\<close>

definition recalled_from :: "recall_env \<Rightarrow> search_db \<Rightarrow> str \<Rightarrow> recall_params \<Rightarrow> recall_item \<Rightarrow> bool" where
  "recalled_from env db bank p r \<longleftrightarrow>
     (\<exists>n \<in> set (sd_nodes db). mn_id n = ri_id r \<and> mn_uuid n = ri_uuid r \<and> sn_text n = ri_text r \<and> sn_type n = ri_fact_type r
        \<and> sn_bank n = bank \<and> is_live (re_sql_now env) n
        \<and> sn_type n \<in> set (rp_fact_types p) \<and> tags_matches (rp_tags_match p) (sort (mn_tags n)) (rp_tags p))"

text \<open>A recall that gets past the length gate selects from scored candidates.\<close>

lemma recall_cases:
  assumes "recall env db bank p = Inr out"
  obtains (short) "out = empty_outcome"
  | (run) embedded cands by_id scored where
      "out = select env p embedded cands (dedupe_identical_text (dedupe_restatements by_id scored))"
      "distinct (map (\<lambda>si. ri_id (snd si)) scored)" "\<forall>si \<in> set scored. scored_ok env db bank p by_id (snd si)"
      "sorted (map (\<lambda>si. - fst si) scored)" "embedded \<longleftrightarrow> re_embedder env \<noteq> None"
proof (cases "length (trim (rp_query p)) < min_query_chars")
  case True
  then show ?thesis using assms short by (simp add: recall_def Let_def)
next
  case False
  define w where "w = re_constraint env (trim (rp_query p)) (rp_now_ms p)"
  define ce where "ce = (case re_embedder env of None \<Rightarrow> Some None
    | Some emb \<Rightarrow> (case emb (trim (rp_query p)) of None \<Rightarrow> None | Some v \<Rightarrow> Some (Some v)))"
  define run_on where "run_on embedding r = (let (merged, by_id) = fuse_arms env db bank p r;
                   (left, reranked) = rerank env by_id (trim (rp_query p)) merged;
                   scored = score_all env p w reranked by_id left
               in select env p (embedding \<noteq> None) (length merged) (dedupe_identical_text (dedupe_restatements by_id scored)))"
    for embedding :: "f32 list option" and r
  have rec: "recall env db bank p = (case ce of None \<Rightarrow> Inl ApiInternal | Some embedding \<Rightarrow>
      (case retrieve env db bank p (trim (rp_query p)) embedding w of Inl e \<Rightarrow> Inl (ApiStore e)
       | Inr r \<Rightarrow> Inr (run_on embedding r)))"
    using False unfolding recall_def Let_def ce_def[symmetric] w_def[symmetric]
    by (auto simp: run_on_def split_beta split: option.split sum.split)
  obtain embedding where ce: "ce = Some embedding" using assms rec by (cases ce) auto
  obtain r where r: "retrieve env db bank p (trim (rp_query p)) embedding w = Inr r"
    using assms rec ce by (cases "retrieve env db bank p (trim (rp_query p)) embedding w") auto
  have e: "embedding \<noteq> None \<longleftrightarrow> re_embedder env \<noteq> None" 
  proof (cases "re_embedder env")
    case (Some emb)
    then show ?thesis using ce by (cases "emb (trim (rp_query p))") (auto simp: ce_def)
  qed (use ce in \<open>simp add: ce_def\<close>)
  have out: "out = run_on embedding r" using assms rec ce r by simp
  obtain merged by_id where f: "fuse_arms env db bank p r = (merged, by_id)" by (cases "fuse_arms env db bank p r") auto
  obtain left reranked where rr: "rerank env by_id (trim (rp_query p)) merged = (left, reranked)"
    by (cases "rerank env by_id (trim (rp_query p)) merged") auto
  obtain n where left: "left = take n merged" using rerank_prefix[OF rr] by blast
  note k = fuse_arms_kept[OF r f]
  have d: "distinct (map mg_id left)" "\<forall>m \<in> set left. keep by_id p (mg_id m)"
    using distinct_take_map[OF k(2)] k(3) by (auto simp: left dest: in_set_takeD)
  note s = score_all_ok[OF k(1) d]
  have "out = select env p (embedding \<noteq> None) (length merged) (dedupe_identical_text (dedupe_restatements by_id (score_all env p w reranked by_id left)))"
    using out by (simp add: run_on_def f rr)
  then show ?thesis by (rule run[OF _ s e])
qed

lemma recall_sound:
  assumes "recall env db bank p = Inr out"
  shows "list_all (recalled_from env db bank p) (ro_results out)
    \<and> list_all (\<lambda>r. ri_uuid r \<notin> set (rp_exclude_uuids p)) (ro_results out)
    \<and> (re_embedder env = None \<or> rp_min_semantic p \<le> 0
       \<or> list_all (\<lambda>r. \<exists>s. sc_semantic (ri_scores r) = Some s \<and> rp_min_semantic p \<le> s) (ro_results out))"
proof (cases rule: recall_cases[OF assms, case_names short run])
  case short
  then show ?thesis by (simp add: empty_outcome_def)
next
  case (run embedded cands by_id scored)
  note sel = select_facts[OF run(1)]
  have sub: "set (ro_results out) \<subseteq> snd ` set scored"
    using sel(1) dedupe_text_subset dedupe_restate_subset by blast
  have "recalled_from env db bank p r" if "r \<in> set (ro_results out)" for r
  proof -
    have "scored_ok env db bank p by_id r" using sub that run(3) by auto
    then show ?thesis by (auto simp: scored_ok_def recalled_from_def keep_def candidate_of_def)
  qed
  then show ?thesis using sel(7,8) run(5) by (auto simp: list_all_iff not_le)
qed

text \<open>C9: Every memory recall returns is a live node of the asked bank, neither superseded nor expired, of
  an asked type and matching the asked tags; none the client excluded is among them, and when the query was
  embedded and a floor is set each has a similarity at or above it.\<close>

theorem recall_answers_match:
  assumes "recall env db bank p = Inr out"
  shows "list_all (recalled_from env db bank p) (ro_results out)
    \<and> list_all (\<lambda>r. ri_uuid r \<notin> set (rp_exclude_uuids p)) (ro_results out)
    \<and> (re_embedder env = None \<or> rp_min_semantic p \<le> 0
       \<or> list_all (\<lambda>r. \<exists>s. sc_semantic (ri_scores r) = Some s \<and> rp_min_semantic p \<le> s) (ro_results out))"
  by (rule recall_sound[OF assms])

lemma recall_budgeted:
  assumes "recall env db bank p = Inr out"
  shows "rn_tokens (ro_counts out) = recount (re_token_count env) (ro_results out)
    \<and> rn_tokens (ro_counts out) \<le> rp_max_tokens p \<and> rn_returned (ro_counts out) = length (ro_results out)
    \<and> length (ro_results out) \<le> rp_limit p \<and> distinct (map ri_id (ro_results out))
    \<and> distinct (map (\<lambda>r. plain_text (ri_text r)) (ro_results out))"
proof (cases rule: recall_cases[OF assms, case_names short run])
  case short
  then show ?thesis by (simp add: empty_outcome_def recount_def)
next
  case (run embedded cands by_id scored)
  note sel = select_facts[OF run(1)]
  have "distinct (map ri_id (ro_results out))" by (rule sel(2)) (rule dedupe_distinct[OF run(2)])
  moreover have "distinct (map (\<lambda>r. plain_text (ri_text r)) (ro_results out))" by (rule sel(2)) (rule dedupe_texts)
  ultimately show ?thesis using sel(3-6) by simp
qed

text \<open>C10: What recall returns fits the token budget and the limit, its reported counts are the counts of
  what it returns, and no two items are the same node or the same text up to white space.\<close>

theorem recall_within_budget:
  assumes "recall env db bank p = Inr out"
  shows "rn_tokens (ro_counts out) = recount (re_token_count env) (ro_results out)
    \<and> rn_tokens (ro_counts out) \<le> rp_max_tokens p \<and> rn_returned (ro_counts out) = length (ro_results out)
    \<and> length (ro_results out) \<le> rp_limit p \<and> distinct (map ri_id (ro_results out))
    \<and> distinct (map (\<lambda>r. plain_text (ri_text r)) (ro_results out))"
  by (rule recall_budgeted[OF assms])

text \<open>C11: Recall never returns an observation together with a fact it was consolidated from.\<close>

theorem recall_never_restates:
  assumes "recall env db bank p = Inr out"
  shows "list_all (\<lambda>r. list_all (\<lambda>s. r = s \<or> (ri_id r, ri_id s) \<notin> set (sd_sources db)) (ro_results out)) (ro_results out)"
proof (cases rule: recall_cases[OF assms, case_names short run])
  case short
  then show ?thesis by (simp add: empty_outcome_def)
next
  case (run embedded cands by_id scored)
  note sel = select_facts[OF run(1)]
  have "(ri_id r, ri_id s) \<notin> set (sd_sources db)" if rs: "r \<in> set (ro_results out)" "s \<in> set (ro_results out)" "r \<noteq> s" for r s
  proof -
    obtain x y where xy: "x \<in> set (dedupe_restatements by_id scored)" "y \<in> set (dedupe_restatements by_id scored)" "r = snd x" "s = snd y"
      using sel(1) rs(1,2) dedupe_text_subset by blast
    have "scored_ok env db bank p by_id r" using xy(1,3) run(3) dedupe_restate_subset by blast
    then obtain n where n: "by_id (ri_id r) = Some (candidate_of db n)" "mn_id n = ri_id r" by (auto simp: scored_ok_def)
    have "ri_id s \<notin> set (cr_sources (candidate_of db n))"
      using no_restatement[OF run(2) xy(1,2), of "candidate_of db n"] xy n(1) rs(3) by auto
    then show ?thesis using n(2) by (auto simp: candidate_of_def image_iff)
  qed
  then show ?thesis by (auto simp: list_all_iff)
qed

text \<open>Each end of a pair is judged against the other even when the other is itself dropped: a third item
  may then go for a fact that is not returned either. Here two observations of one fact rank on both sides
  of it, and only the first is left, although the second restates nothing that is.\<close>

lemma restatement_chain_loses_an_item:
  assumes "by_id 1 = Some a" "by_id 2 = Some f" "by_id 3 = Some b" and "cr_sources a = [2]" "cr_sources f = []" "cr_sources b = [2]"
    and "ri_id ia = 1" "ri_id i_f = 2" "ri_id ib = 3"
  shows "dedupe_restatements by_id [(3, ia), (2, i_f), (1, ib)] = [(3, ia)]"
  using assms by (simp add: dedupe_restatements_def rank_of_def drops_def Let_def List.map_filter_def)

subsection \<open>A concrete recall\<close>

text \<open>A full text index in which both nodes match, the fact before the observation made from it.\<close>

definition sample_bm25 :: "search_node list \<Rightarrow> str \<Rightarrow> int \<Rightarrow> f64 option" where
  "sample_bm25 _ _ i = (if i = 1 then Some (- 2) else if i = 2 then Some (- 1) else None)"

definition recall_sample_env :: recall_env where
  "recall_sample_env =
     \<lparr>re_embedder = None, re_constraint = (\<lambda>_ _. None), re_reranker = None, re_alphanumeric = (\<lambda>c. c \<noteq> 32),
      re_lower = (\<lambda>s. s), re_bm25 = sample_bm25, re_apart = (\<lambda>_ _. 0),
      re_token_count = length, re_sql_now = 0, re_utc = (\<lambda>_. lit ''now''), re_th = (\<lambda>x. x), re_lg = (\<lambda>x. x)\<rparr>"

definition sample_params :: recall_params where
  "sample_params =
     \<lparr>rp_query = lit ''hello'', rp_limit = 40, rp_budget = lit ''low'', rp_max_tokens = 100, rp_fact_types = [World, Observation],
      rp_tags = [], rp_tags_match = AnyTags, rp_cap_per_source = 0, rp_semantic_alpha = 0, rp_min_semantic = 0, rp_proof_alpha = proof_count_alpha,
      rp_exclude_uuids = [], rp_preamble = [], rp_now_ms = 0\<rparr>"

lemma sample_fields:
  "rp_cap_per_source sample_params = 0" "rp_query sample_params = lit ''hello''" "rp_limit sample_params = 40"
  "rp_fact_types sample_params = [World, Observation]" "rp_now_ms sample_params = 0" "rp_proof_alpha sample_params = proof_count_alpha"
  "rp_semantic_alpha sample_params = 0"
  "re_bm25 recall_sample_env = sample_bm25" "re_alphanumeric recall_sample_env = (\<lambda>c. c \<noteq> 32)" "re_lower recall_sample_env = (\<lambda>s. s)"
  "re_sql_now recall_sample_env = 0" "re_embedder recall_sample_env = None" "re_constraint recall_sample_env = (\<lambda>_ _. None)" "re_reranker recall_sample_env = None"
  "sd_vecs sample_search_db = []" "sd_links sample_search_db = []" "sd_node_entities sample_search_db = []"
  by (simp_all add: sample_params_def recall_sample_env_def sample_search_db_def)

definition row_1 :: candidate_row where "row_1 = candidate_of sample_search_db (sample_node_row 1 (lit ''hello'') World)"
definition row_2 :: candidate_row where "row_2 = candidate_of sample_search_db (sample_node_row 2 (lit ''greets'') Observation)"

lemma sample_rows:
  "cr_id row_1 = 1" "cr_id row_2 = 2" "cr_sources row_1 = []" "cr_sources row_2 = [1]" "cr_tags row_1 = []" "cr_tags row_2 = []"
  "cr_fact_type row_1 = World" "cr_fact_type row_2 = Observation" "cr_text row_1 = lit ''hello''" "cr_text row_2 = lit ''greets''"
  "cr_occurred_start row_1 = None" "cr_occurred_start row_2 = None" "cr_occurred_end row_1 = None" "cr_occurred_end row_2 = None"
  "cr_mentioned_at row_1 = None" "cr_mentioned_at row_2 = None" "cr_proof_count row_1 = 0" "cr_proof_count row_2 = 0" "cr_uuid row_1 = [117, 49]"
  by (simp_all add: row_1_def row_2_def candidate_of_def sample_node_row_def sample_search_db_def nat_str.simps)

abbreviation both_rows :: row_map where "both_rows \<equiv> [1 \<mapsto> row_1, 2 \<mapsto> row_2]"

lemma sample_trim: "trim (lit ''hello'') = lit ''hello''"
  by (simp add: trim_def trim_start_def trim_end_def is_ws_def)

lemma sample_fts: "fts_query_string (\<lambda>c. c \<noteq> 32) (\<lambda>s. s) (lit ''hello'') \<noteq> []"
  by (simp add: fts_query_string_def query_terms_def push_term_def min_term_chars_def is_hangul_def Let_def longest_terms_def max_query_terms_def)

definition hit_1 :: merged where
  "hit_1 = \<lparr>mg_id = 1, mg_rrf_score = 1 / 61, mg_rrf_rank = 1, mg_semantic = None, mg_keyword = Some (- 2)\<rparr>"
definition hit_2 :: merged where
  "hit_2 = \<lparr>mg_id = 2, mg_rrf_score = 1 / 62, mg_rrf_rank = 2, mg_semantic = None, mg_keyword = Some (- 1)\<rparr>"

lemma sample_rrf: "reciprocal_rank_fusion [[], [\<lparr>ah_id = 1, ah_score = - 2\<rparr>, \<lparr>ah_id = 2, ah_score = - 1\<rparr>], [], []] rrf_k = [hit_1, hit_2]"
  by (simp add: reciprocal_rank_fusion_def fuse_arm_def fuse_hit_def credit_def fresh_merged_def rrf_k_def Let_def hit_1_def hit_2_def)

lemma sample_hydrate: "hydrate 0 sample_search_db (lit ''b'') [1, 2] = [row_1, row_2]"
  unfolding row_1_def row_2_def by (simp add: hydrate_def sample_search_db_def sample_node_row_def is_live_def)

lemma sample_retrieve:
  "\<exists>r. retrieve recall_sample_env sample_search_db (lit ''b'') sample_params (lit ''hello'') None None = Inr r
     \<and> rt_semantic r = [] \<and> rt_keyword r = [\<lparr>ah_id = 1, ah_score = - 2\<rparr>, \<lparr>ah_id = 2, ah_score = - 1\<rparr>] \<and> rt_temporal r = []
     \<and> rt_by_id r = both_rows"
proof -
  have fts: "fts_candidates_filtered sample_bm25 sample_search_db (lit ''b'')
      (fts_query_string (\<lambda>c. c \<noteq> 32) (\<lambda>s. s) (lit ''hello'')) [World, Observation] 200 = [(1, - 2), (2, - 1)]"
    using sample_fts by (simp add: fts_candidates_filtered_def sample_bm25_def sample_search_db_def sample_node_row_def)
  have row: "row_map_of [row_1, row_2] = both_rows"
    by (rule ext) (simp add: row_map_of_def sample_rows)
  have keep: "keep both_rows sample_params 1" "keep both_rows sample_params 2"
    by (simp_all add: keep_def sample_rows sample_fields tags_matches_def sample_params_def)
  have five: "over_fetch 40 = 200" by (simp add: over_fetch_def max_over_fetch_def)
  show ?thesis
    by (simp add: retrieve_def Let_def sample_fields five fts sample_hydrate row keep del: lit_Cons)
qed

lemma sample_graph: "graph_arm th sample_search_db bank [1, 2] = []"
  by (simp add: graph_arm_def expand_def expand_links_def expand_shared_def sample_fields graph_rank_eq Let_def)

lemma sample_recall:
  "\<exists>out r. recall recall_sample_env sample_search_db (lit ''b'') sample_params = Inr out
     \<and> ro_results out = [r] \<and> ri_text r = lit ''hello'' \<and> ri_id r = 1"
proof -
  obtain rt where rt: "retrieve recall_sample_env sample_search_db (lit ''b'') sample_params (lit ''hello'') None None = Inr rt"
    "rt_semantic rt = []" "rt_keyword rt = [\<lparr>ah_id = 1, ah_score = - 2\<rparr>, \<lparr>ah_id = 2, ah_score = - 1\<rparr>]" "rt_temporal rt = []" "rt_by_id rt = both_rows"
    using sample_retrieve by blast
  have arms: "reciprocal_rank_fusion (arms_of sample_params rt []) rrf_k = [hit_1, hit_2]"
    using sample_rrf by (simp add: arms_of_def rt cap_per_source_def sample_fields)
  have ids: "mg_id hit_1 = 1" "mg_id hit_2 = 2" "mg_semantic hit_1 = None" "mg_semantic hit_2 = None" by (simp_all add: hit_1_def hit_2_def)
  have fuse: "fuse_arms recall_sample_env sample_search_db (lit ''b'') sample_params rt = ([hit_1, hit_2], both_rows)"
    by (simp add: fuse_arms_def Let_def arms graph_seeds_def ids sample_graph cap_per_source_def rt hydrate_def row_map_of_def del: lit_Cons)
  have rr: "rerank recall_sample_env by_id q ms = (ms, None)" for by_id q ms by (simp add: rerank_def sample_fields)
  define s1 where "s1 = score_row recall_sample_env sample_params None None (Suc (Suc 0)) (semantic_spread [hit_1, hit_2]) 0 hit_1 row_1"
  define s2 where "s2 = score_row recall_sample_env sample_params None None (Suc (Suc 0)) (semantic_spread [hit_1, hit_2]) (Suc 0) hit_2 row_2"
  have item: "ri_text (snd s1) = lit ''hello''" "ri_id (snd s1) = 1" "ri_uuid (snd s1) = [117, 49]" "ri_id (snd s2) = 2"
    by (simp_all add: s1_def s2_def sample_rows)
  have "fst s1 = 1" "fst s2 = 1 / 10"
    by (simp_all add: s1_def s2_def score_row_def Let_def sample_rows sample_fields passthrough_base_def effective_time_def recency_def proof_norm_def
        ids semantic_norm_def combined_with_semantic_def combined_def neutral_def)
  then have scored: "score_all recall_sample_env sample_params None None both_rows [hit_1, hit_2] = [s1, s2]"
    by (simp add: score_all_def List.map_filter_def ids flip: s1_def s2_def)
  have sel: "ro_results (select recall_sample_env sample_params False (Suc (Suc 0)) [s1]) = [snd s1]"
    by (simp add: select_def Let_def sample_params_def recall_sample_env_def budget_tokens_def rerank_limit_def fit_to_budget_def item)
  have dd: "dedupe_identical_text (dedupe_restatements both_rows [s1, s2]) = [s1]"
    by (simp add: dedupe_identical_text_def dedupe_restatements_def rank_of_def drops_def Let_def List.map_filter_def item sample_rows)
  have len: "\<not> length (lit ''hello'') < 5" by simp
  have "recall recall_sample_env sample_search_db (lit ''b'') sample_params = Inr (select recall_sample_env sample_params False (Suc (Suc 0)) [s1])"
    using len by (simp add: recall_def Let_def sample_fields sample_trim min_query_chars_def rt(1) fuse rr scored dd del: lit_Cons)
  then show ?thesis using sel item by blast
qed

theorem recall_answers_match_witness:
  "\<exists>out r. recall recall_sample_env sample_search_db (lit ''b'') sample_params = Inr out \<and> ro_results out = [r]
     \<and> recalled_from recall_sample_env sample_search_db (lit ''b'') sample_params r"
proof -
  obtain out r where o: "recall recall_sample_env sample_search_db (lit ''b'') sample_params = Inr out" "ro_results out = [r]"
    using sample_recall by blast
  then show ?thesis using recall_answers_match[OF o(1)] by auto
qed

theorem recall_within_budget_witness:
  "\<exists>out r. recall recall_sample_env sample_search_db (lit ''b'') sample_params = Inr out \<and> ro_results out = [r]
     \<and> rn_tokens (ro_counts out) = 5 \<and> rn_tokens (ro_counts out) \<le> 100"
proof -
  obtain out r where o: "recall recall_sample_env sample_search_db (lit ''b'') sample_params = Inr out" "ro_results out = [r]" "ri_text r = lit ''hello''"
    using sample_recall by blast
  have "re_token_count recall_sample_env = length" by (simp add: recall_sample_env_def)
  then show ?thesis using recall_within_budget[OF o(1)] o by (simp add: recount_def sample_params_def)
qed


text \<open>Both nodes match the query; the observation is made from the fact, so only one comes back.\<close>

theorem recall_never_restates_witness:
  "\<exists>out. recall recall_sample_env sample_search_db (lit ''b'') sample_params = Inr out \<and> ro_results out \<noteq> []
     \<and> \<not> {1, 2} \<subseteq> ri_id ` set (ro_results out)"
proof -
  obtain out r where o: "recall recall_sample_env sample_search_db (lit ''b'') sample_params = Inr out" "ro_results out = [r]"
    using sample_recall by blast
  have src: "(2, 1) \<in> set (sd_sources sample_search_db)" by (simp add: sample_search_db_def)
  have "\<not> {1, 2} \<subseteq> ri_id ` set (ro_results out)"
  proof
    assume "{1, 2} \<subseteq> ri_id ` set (ro_results out)"
    then obtain x y where xy: "x \<in> set (ro_results out)" "y \<in> set (ro_results out)" "ri_id x = 2" "ri_id y = 1" by auto
    then have "x = y \<or> (2, 1) \<notin> set (sd_sources sample_search_db)"
      using recall_never_restates[OF o(1)] unfolding list_all_iff by metis
    then show False using src xy(3,4) by auto
  qed
  then show ?thesis using o by auto
qed

end
