(* ===== verification/Recall_Route.thy ===== *)
theory Recall_Route
  imports Recall_Pipeline
begin

text \<open>
  The request path of recall: \<open>recall_fallback\<close> of \<open>crates/memgardend/src/recall/mod.rs\<close> and the handler of
  \<open>routes/recall.rs\<close>. Metrics and the reply's Ollama status are left out. A request's numbers are those
  serde read: \<open>minSemantic\<close> is finite.
\<close>

definition max_query_bytes :: nat where "max_query_bytes = 8 * 1024"
definition max_request_tags :: nat where "max_request_tags = 32"
definition max_preamble_bytes :: nat where "max_preamble_bytes = 4 * 1024"
definition max_exclude :: nat where "max_exclude = 2000"
definition max_recall_tokens :: nat where "max_recall_tokens = 8192"

record recall_config =
  rf_types :: "fact_type list"
  rf_max_tokens :: nat
  rf_budget :: str
  rf_min_semantic :: f64
  rf_limit :: nat
  rf_cap_per_source :: nat
  rf_semantic_alpha :: f64
  rf_preamble :: str
  rf_fallback_banks :: "str list"
  rf_fallback_min_semantic :: f64
  rf_fallback_limit :: nat

record recall_request =
  rq_query :: str
  rq_limit :: "nat option"
  rq_budget :: "str option"
  rq_max_tokens :: "nat option"
  rq_recall_types :: "fact_type list option"
  rq_tags :: "str list"
  rq_tags_match :: tags_match
  rq_preamble :: "str option"
  rq_min_semantic :: "f64 option"
  rq_exclude :: "str list"
  rq_fallback :: "bool option"

subsection \<open>Fallback banks\<close>

text \<open>The second \<open>retain\<close>: the first item of each uuid and each text; a repeated uuid is not looked at further.\<close>

fun dedupe_across :: "str set \<Rightarrow> str set \<Rightarrow> recall_item list \<Rightarrow> recall_item list" where
  "dedupe_across uuids texts [] = []"
| "dedupe_across uuids texts (r # rs) =
     (if ri_uuid r \<in> uuids then dedupe_across uuids texts rs
      else if ri_text r \<in> texts then dedupe_across (insert (ri_uuid r) uuids) texts rs
      else r # dedupe_across (insert (ri_uuid r) uuids) (insert (ri_text r) texts) rs)"

definition fallback_params :: "recall_params \<Rightarrow> f64 \<Rightarrow> nat \<Rightarrow> recall_params" where
  "fallback_params p min_semantic limit = p\<lparr>rp_min_semantic := min_semantic, rp_limit := limit\<rparr>"

definition from_bank ::
  "recall_env \<Rightarrow> search_db \<Rightarrow> str list \<Rightarrow> str \<Rightarrow> recall_params \<Rightarrow> str \<Rightarrow> recall_item list" where
  "from_bank env db known home p bank =
     (if bank = home \<or> bank \<notin> set known then []
      else case recall env db bank p of
             Inl _ \<Rightarrow> []
           | Inr out \<Rightarrow> map (\<lambda>r. r\<lparr>ri_source_bank := Some bank\<rparr>) (ro_results out))"

definition semantic_key :: "recall_item \<Rightarrow> nat \<times> f64" where
  "semantic_key r = (case sc_semantic (ri_scores r) of None \<Rightarrow> (1, 0) | Some s \<Rightarrow> (0, - s))"

definition clears_floor :: "f64 \<Rightarrow> recall_item \<Rightarrow> bool" where
  "clears_floor least r \<longleftrightarrow> (case sc_semantic (ri_scores r) of None \<Rightarrow> False | Some s \<Rightarrow> least \<le> s)"

definition recall_fallback ::
  "recall_env \<Rightarrow> search_db \<Rightarrow> str list \<Rightarrow> str \<Rightarrow> recall_params \<Rightarrow> str list \<Rightarrow> f64 \<Rightarrow> nat \<Rightarrow> recall_outcome option" where
  "recall_fallback env db known home p banks min_semantic limit =
     (let found = concat (map (from_bank env db known home (fallback_params p min_semantic limit)) banks);
          floored = (if 0 < min_semantic then filter (clears_floor min_semantic) found else found);
          unique = dedupe_across {} {} (sort_key semantic_key floored);
          (kept, _) = fit_to_budget (map ri_text unique) (rp_max_tokens p) (re_token_count env);
          merged = take (min kept limit) unique
      in if merged = [] then None
         else Some \<lparr>ro_results = merged, ro_injected_text = build_injection (re_utc env) merged (rp_preamble p) (rp_now_ms p),
                ro_counts = \<lparr>rn_candidates = 0, rn_returned = length merged, rn_tokens = recount (re_token_count env) merged,
                             rn_excluded = 0, rn_below_floor = 0, rn_fallback = length merged\<rparr>\<rparr>)"

subsection \<open>The handler\<close>

definition request_params :: "recall_config \<Rightarrow> recall_request \<Rightarrow> int \<Rightarrow> fact_type list \<Rightarrow> nat \<Rightarrow> str \<Rightarrow> f64 \<Rightarrow> recall_params" where
  "request_params cfg body now fact_types max_tokens budget min_semantic =
     \<lparr>rp_query = rq_query body,
      rp_limit = max 1 (min 200 (case rq_limit body of None \<Rightarrow> rf_limit cfg | Some n \<Rightarrow> n)),
      rp_budget = budget, rp_max_tokens = max_tokens, rp_fact_types = fact_types, rp_tags = rq_tags body,
      rp_tags_match = rq_tags_match body, rp_cap_per_source = rf_cap_per_source cfg,
      rp_semantic_alpha = rf_semantic_alpha cfg, rp_min_semantic = min_semantic, rp_proof_alpha = proof_count_alpha,
      rp_exclude_uuids = take max_exclude (rq_exclude body),
      rp_preamble = (case rq_preamble body of None \<Rightarrow> rf_preamble cfg | Some s \<Rightarrow> s), rp_now_ms = now\<rparr>"

definition recall_inner ::
  "recall_env \<Rightarrow> recall_config \<Rightarrow> search_db \<Rightarrow> str list \<Rightarrow> str \<Rightarrow> recall_request \<Rightarrow> int \<Rightarrow> api_error + recall_outcome" where
  "recall_inner env cfg db known bank body now =
     (if max_query_bytes < byte_len (rq_query body) then Inl (ApiStore ErrInvalid)
      else if max_request_tags < length (rq_tags body) then Inl (ApiStore ErrInvalid)
      else if rq_recall_types body = Some [] then Inl (ApiStore ErrInvalid)
      else if (case rq_preamble body of None \<Rightarrow> False | Some s \<Rightarrow> max_preamble_bytes < byte_len s) then Inl (ApiStore ErrInvalid)
      else
        let fact_types = (case rq_recall_types body of None \<Rightarrow> rf_types cfg | Some ts \<Rightarrow> ts);
            max_tokens = (case rq_max_tokens body of None \<Rightarrow> rf_max_tokens cfg | Some n \<Rightarrow> n);
            budget = (case rq_budget body of None \<Rightarrow> rf_budget cfg | Some b \<Rightarrow> b);
            min_semantic = (case rq_min_semantic body of None \<Rightarrow> rf_min_semantic cfg | Some m \<Rightarrow> m) in
        if \<not> (1 \<le> max_tokens \<and> max_tokens \<le> max_recall_tokens) then Inl (ApiStore ErrInvalid)
        else if budget \<notin> {lit ''low'', lit ''mid'', lit ''high''} then Inl (ApiStore ErrInvalid)
        else if \<not> (0 \<le> min_semantic \<and> min_semantic \<le> 1) then Inl (ApiStore ErrInvalid)
        else if bank \<notin> set known then Inl ApiNotFound
        else
          let params = request_params cfg body now fact_types max_tokens budget min_semantic in
          case recall env db bank params of
            Inl e \<Rightarrow> Inl e
          | Inr home \<Rightarrow>
              if rn_returned (ro_counts home) = 0 \<and> rn_excluded (ro_counts home) = 0 \<and> rf_fallback_banks cfg \<noteq> []
                 \<and> (case rq_fallback body of None \<Rightarrow> True | Some b \<Rightarrow> b)
              then (case recall_fallback env db known bank params (rf_fallback_banks cfg)
                           (max (rf_fallback_min_semantic cfg) (rp_min_semantic params)) (rf_fallback_limit cfg) of
                      None \<Rightarrow> Inr home
                    | Some fb \<Rightarrow> Inr (fb\<lparr>ro_counts := (ro_counts fb)\<lparr>rn_candidates := rn_candidates (ro_counts home),
                                                              rn_below_floor := rn_below_floor (ro_counts home)\<rparr>\<rparr>))
              else Inr home)"


subsection \<open>Where the reply comes from\<close>

lemma dedupe_across_facts:
  "set (dedupe_across U T rs) \<subseteq> set rs \<and> distinct (map ri_uuid (dedupe_across U T rs)) \<and> distinct (map ri_text (dedupe_across U T rs))
   \<and> ri_uuid ` set (dedupe_across U T rs) \<inter> U = {} \<and> ri_text ` set (dedupe_across U T rs) \<inter> T = {}"
  by (induction U T rs rule: dedupe_across.induct) auto

lemma dedupe_across_sorted: "sorted (map f rs) \<Longrightarrow> sorted (map f (dedupe_across U T rs))"
proof (induction U T rs rule: dedupe_across.induct)
  case (2 U T r rs)
  then show ?case using dedupe_across_facts [of "insert (ri_uuid r) U" "insert (ri_text r) T" rs] by auto
qed simp

lemma recalled_from_bank [simp]: "recalled_from env db b p (r\<lparr>ri_source_bank := s\<rparr>) = recalled_from env db b p r"
  by (simp add: recalled_from_def)

lemma recalled_from_fallback [simp]: "recalled_from env db b (fallback_params p m l) = recalled_from env db b p"
  by (rule ext) (simp add: recalled_from_def fallback_params_def)

lemma from_bank_items:
  assumes "r \<in> set (from_bank env db known home (fallback_params p m l) bank)"
  shows "ri_source_bank r = Some bank \<and> bank \<noteq> home \<and> bank \<in> set known \<and> recalled_from env db bank p r"
proof -
  have nb: "bank \<noteq> home" "bank \<in> set known" using assms by (auto simp: from_bank_def split: if_splits)
  obtain out where out: "recall env db bank (fallback_params p m l) = Inr out"
    using assms nb by (cases "recall env db bank (fallback_params p m l)") (auto simp: from_bank_def)
  then obtain x where x: "x \<in> set (ro_results out)" "r = x\<lparr>ri_source_bank := Some bank\<rparr>" using assms nb by (auto simp: from_bank_def)
  then have "recalled_from env db bank p x" using recall_sound[OF out] by (simp add: list_all_iff)
  then show ?thesis using x(2) nb by simp
qed

definition fallback_item ::
  "recall_env \<Rightarrow> search_db \<Rightarrow> str list \<Rightarrow> str \<Rightarrow> recall_params \<Rightarrow> str list \<Rightarrow> f64 \<Rightarrow> recall_item \<Rightarrow> bool" where
  "fallback_item env db known home p banks least r \<longleftrightarrow>
     (\<exists>b \<in> set banks. ri_source_bank r = Some b \<and> b \<noteq> home \<and> b \<in> set known \<and> recalled_from env db b p r)
   \<and> (least \<le> 0 \<or> clears_floor least r)"

lemma fallback_facts:
  assumes "recall_fallback env db known home p banks least limit = Some out"
  shows "ro_results out \<noteq> []" "\<forall>r \<in> set (ro_results out). fallback_item env db known home p banks least r"
    "distinct (map ri_uuid (ro_results out))" "distinct (map ri_text (ro_results out))" "length (ro_results out) \<le> limit"
    "rn_tokens (ro_counts out) = recount (re_token_count env) (ro_results out)" "recount (re_token_count env) (ro_results out) \<le> rp_max_tokens p"
    "rn_returned (ro_counts out) = length (ro_results out)" "rn_fallback (ro_counts out) = length (ro_results out)"
    "rn_excluded (ro_counts out) = 0" "sorted (map semantic_key (ro_results out))"
proof -
  define found where "found = concat (map (from_bank env db known home (fallback_params p least limit)) banks)"
  define floored where "floored = (if 0 < least then filter (clears_floor least) found else found)"
  define unique where "unique = dedupe_across {} {} (sort_key semantic_key floored)"
  obtain k where fit: "fit_to_budget (map ri_text unique) (rp_max_tokens p) (re_token_count env)
      = (k, sum_list (map (re_token_count env) (take k (map ri_text unique))))"
    "sum_list (map (re_token_count env) (take k (map ri_text unique))) \<le> rp_max_tokens p"
    using fit_to_budget_exact[of "map ri_text unique" "rp_max_tokens p" "re_token_count env"] by metis
  define merged where "merged = take (min k limit) unique"
  have out: "merged \<noteq> []" "ro_results out = merged" "rn_tokens (ro_counts out) = recount (re_token_count env) merged"
    "rn_returned (ro_counts out) = length merged" "rn_fallback (ro_counts out) = length merged" "rn_excluded (ro_counts out) = 0"
    using assms unfolding recall_fallback_def Let_def found_def[symmetric] unfolding floored_def[symmetric]
    unfolding unique_def[symmetric] fit(1) prod.case merged_def[symmetric] by (auto split: if_splits)
  have sub: "set merged \<subseteq> set floored"
    using dedupe_across_facts[of "{}" "{}" "sort_key semantic_key floored"] by (auto simp: merged_def unique_def dest!: in_set_takeD)
  have item: "fallback_item env db known home p banks least r" if "r \<in> set merged" for r
  proof -
    have "r \<in> set found" "least \<le> 0 \<or> clears_floor least r" using sub that by (auto simp: floored_def split: if_splits)
    moreover then obtain b where "b \<in> set banks" "r \<in> set (from_bank env db known home (fallback_params p least limit) b)"
      by (auto simp: found_def)
    ultimately show ?thesis using from_bank_items by (fastforce simp: fallback_item_def)
  qed
  have "recount (re_token_count env) merged \<le> recount (re_token_count env) (take k unique)"
    using recount_take[of "re_token_count env" limit "take k unique"] by (simp add: merged_def min.commute)
  then have budget: "recount (re_token_count env) merged \<le> rp_max_tokens p"
    using fit(2) by (simp add: recount_def take_map comp_def)
  have d: "distinct (map ri_uuid merged)" "distinct (map ri_text merged)"
    using dedupe_across_facts[of "{}" "{}" "sort_key semantic_key floored"] by (auto simp: merged_def unique_def intro!: distinct_take_map)
  have "sorted (map semantic_key merged)"
    unfolding merged_def unique_def take_map [symmetric]
    by (intro sorted_wrt_take dedupe_across_sorted sorted_sort_key)
  then show "ro_results out \<noteq> []" "\<forall>r \<in> set (ro_results out). fallback_item env db known home p banks least r"
    "distinct (map ri_uuid (ro_results out))" "distinct (map ri_text (ro_results out))" "length (ro_results out) \<le> limit"
    "rn_tokens (ro_counts out) = recount (re_token_count env) (ro_results out)" "recount (re_token_count env) (ro_results out) \<le> rp_max_tokens p"
    "rn_returned (ro_counts out) = length (ro_results out)" "rn_fallback (ro_counts out) = length (ro_results out)"
    "rn_excluded (ro_counts out) = 0" "sorted (map semantic_key (ro_results out))"
    using out item d budget by (simp_all add: merged_def)
qed

lemma recall_source_none: "recall env db bank p = Inr out \<Longrightarrow> r \<in> set (ro_results out) \<Longrightarrow> ri_source_bank r = None"
proof -
  assume out: "recall env db bank p = Inr out" and r: "r \<in> set (ro_results out)"
  show ?thesis
  proof (cases rule: recall_cases[OF out, case_names short run])
    case short
    then show ?thesis using r by (simp add: empty_outcome_def)
  next
    case (run embedded cands by_id scored)
    have "r \<in> snd ` set scored"
      using select_facts(1)[OF run(1)] r dedupe_text_subset dedupe_restate_subset by blast
    then show ?thesis using run(3) by (auto simp: scored_ok_def)
  qed
qed

definition given_types :: "recall_config \<Rightarrow> recall_request \<Rightarrow> fact_type list" where
  "given_types cfg body = (case rq_recall_types body of None \<Rightarrow> rf_types cfg | Some ts \<Rightarrow> ts)"

definition given_floor :: "recall_config \<Rightarrow> recall_request \<Rightarrow> f64" where
  "given_floor cfg body = (case rq_min_semantic body of None \<Rightarrow> rf_min_semantic cfg | Some m \<Rightarrow> m)"

definition given_tokens :: "recall_config \<Rightarrow> recall_request \<Rightarrow> nat" where
  "given_tokens cfg body = (case rq_max_tokens body of None \<Rightarrow> rf_max_tokens cfg | Some n \<Rightarrow> n)"

text \<open>The recall a request asks for: its own values, the configured ones where it has none, within the limits.\<close>

definition asked_params :: "recall_config \<Rightarrow> recall_request \<Rightarrow> int \<Rightarrow> recall_params" where
  "asked_params cfg body now =
     \<lparr>rp_query = rq_query body, rp_limit = max 1 (min 200 (case rq_limit body of None \<Rightarrow> rf_limit cfg | Some n \<Rightarrow> n)),
      rp_budget = (case rq_budget body of None \<Rightarrow> rf_budget cfg | Some b \<Rightarrow> b), rp_max_tokens = given_tokens cfg body,
      rp_fact_types = given_types cfg body, rp_tags = rq_tags body, rp_tags_match = rq_tags_match body,
      rp_cap_per_source = rf_cap_per_source cfg, rp_semantic_alpha = rf_semantic_alpha cfg, rp_min_semantic = given_floor cfg body,
      rp_proof_alpha = proof_count_alpha, rp_exclude_uuids = take 2000 (rq_exclude body),
      rp_preamble = (case rq_preamble body of None \<Rightarrow> rf_preamble cfg | Some s \<Rightarrow> s), rp_now_ms = now\<rparr>"

text \<open>Other banks are asked when this one had nothing, of which nothing was held back as known to the client, unless
  the client wants no fallback.\<close>

definition fallback_due :: "recall_config \<Rightarrow> recall_request \<Rightarrow> recall_outcome \<Rightarrow> bool" where
  "fallback_due cfg body home \<longleftrightarrow>
     ro_results home = [] \<and> rn_excluded (ro_counts home) = 0 \<and> rf_fallback_banks cfg \<noteq> [] \<and> rq_fallback body \<noteq> Some False"

lemma recall_inner_cases:
  assumes "recall_inner env cfg db known bank body now = Inr out"
  obtains home where "bank \<in> set known" "given_tokens cfg body \<le> 8192" "recall env db bank (asked_params cfg body now) = Inr home"
    "(case (if fallback_due cfg body home
            then recall_fallback env db known bank (asked_params cfg body now) (rf_fallback_banks cfg)
                   (max (rf_fallback_min_semantic cfg) (given_floor cfg body)) (rf_fallback_limit cfg)
            else None) of
        None \<Rightarrow> out = home
      | Some fb \<Rightarrow> out = fb\<lparr>ro_counts := (ro_counts fb)\<lparr>rn_candidates := rn_candidates (ro_counts home),
                                                          rn_below_floor := rn_below_floor (ro_counts home)\<rparr>\<rparr>)"
proof -
  define budget where "budget = (case rq_budget body of None \<Rightarrow> rf_budget cfg | Some b \<Rightarrow> b)"
  have p: "request_params cfg body now (given_types cfg body) (given_tokens cfg body) budget (given_floor cfg body) = asked_params cfg body now"
    by (simp add: request_params_def asked_params_def budget_def max_exclude_def)
  have ok: "given_tokens cfg body \<le> 8192" "bank \<in> set known"
    using assms unfolding recall_inner_def Let_def given_tokens_def [symmetric] max_recall_tokens_def by (auto split: if_splits)
  have floor: "rp_min_semantic (asked_params cfg body now) = given_floor cfg body" by (simp add: asked_params_def)
  have eq: "(case recall env db bank (asked_params cfg body now) of Inl e \<Rightarrow> Inl e | Inr home \<Rightarrow>
      if rn_returned (ro_counts home) = 0 \<and> rn_excluded (ro_counts home) = 0 \<and> rf_fallback_banks cfg \<noteq> []
                 \<and> (case rq_fallback body of None \<Rightarrow> True | Some b \<Rightarrow> b)
      then (case recall_fallback env db known bank (asked_params cfg body now) (rf_fallback_banks cfg)
                   (max (rf_fallback_min_semantic cfg) (rp_min_semantic (asked_params cfg body now))) (rf_fallback_limit cfg) of
              None \<Rightarrow> Inr home
            | Some fb \<Rightarrow> Inr (fb\<lparr>ro_counts := (ro_counts fb)\<lparr>rn_candidates := rn_candidates (ro_counts home), rn_below_floor := rn_below_floor (ro_counts home)\<rparr>\<rparr>))
      else Inr home) = Inr out"
    using assms
    unfolding recall_inner_def Let_def given_tokens_def [symmetric] budget_def [symmetric] given_types_def [symmetric] given_floor_def [symmetric] p
    by (simp split: if_splits)
  obtain home where home: "recall env db bank (asked_params cfg body now) = Inr home"
    using eq by (cases "recall env db bank (asked_params cfg body now)") auto
  have due: "fallback_due cfg body home \<longleftrightarrow> rn_returned (ro_counts home) = 0 \<and> rn_excluded (ro_counts home) = 0
      \<and> rf_fallback_banks cfg \<noteq> [] \<and> (case rq_fallback body of None \<Rightarrow> True | Some b \<Rightarrow> b)"
    using recall_budgeted [OF home] by (auto simp: fallback_due_def split: option.splits)
  show ?thesis
    by (rule that [OF ok(2,1) home]) (use eq home floor in \<open>auto simp: due split: if_splits option.splits\<close>)
qed


text \<open>C12: A recall the daemon answers is one of two replies. Either it is the recall of the requested bank, under
  the values the request asks for: live nodes of that bank, which name no other. Or that recall had nothing and
  held nothing back as known, the request allows the fallback, and some configured bank is left to ask: then
  every memory names a bank of the configured list, other than the requested one and existing, whose live node
  of the requested types and tags it is, and clears the stricter of the two floors, the best match first and
  none twice; and when the fallback finds nothing the reply is the empty one. Either way it is within the
  request's own token budget, never above 8192, and its counts are those of what it holds.\<close>

theorem reply_names_its_bank:
  assumes "recall_inner env cfg db known bank body now = Inr out"
  shows "\<exists>home. bank \<in> set known \<and> recall env db bank (asked_params cfg body now) = Inr home
     \<and> rn_tokens (ro_counts out) = recount (re_token_count env) (ro_results out)
     \<and> rn_tokens (ro_counts out) \<le> given_tokens cfg body \<and> given_tokens cfg body \<le> 8192
     \<and> rn_returned (ro_counts out) = length (ro_results out)
     \<and> (out = home
          \<and> (fallback_due cfg body home \<longrightarrow>
               recall_fallback env db known bank (asked_params cfg body now) (rf_fallback_banks cfg)
                 (max (rf_fallback_min_semantic cfg) (given_floor cfg body)) (rf_fallback_limit cfg) = None)
          \<and> list_all (\<lambda>r. ri_source_bank r = None \<and> recalled_from env db bank (asked_params cfg body now) r) (ro_results out)
        \<or> fallback_due cfg body home \<and> ro_results out \<noteq> [] \<and> length (ro_results out) \<le> rf_fallback_limit cfg
          \<and> list_all (fallback_item env db known bank (asked_params cfg body now) (rf_fallback_banks cfg)
                (max (rf_fallback_min_semantic cfg) (given_floor cfg body))) (ro_results out)
          \<and> sorted (map semantic_key (ro_results out))
          \<and> distinct (map ri_uuid (ro_results out)) \<and> distinct (map ri_text (ro_results out))
          \<and> rn_fallback (ro_counts out) = length (ro_results out) \<and> rn_candidates (ro_counts out) = rn_candidates (ro_counts home))"
proof -
  let ?p = "asked_params cfg body now"
  let ?fb = "recall_fallback env db known bank ?p (rf_fallback_banks cfg) (max (rf_fallback_min_semantic cfg) (given_floor cfg body)) (rf_fallback_limit cfg)"
  obtain home where k: "bank \<in> set known" "given_tokens cfg body \<le> 8192" "recall env db bank ?p = Inr home"
    and out: "(case (if fallback_due cfg body home then ?fb else None) of None \<Rightarrow> out = home
      | Some fb \<Rightarrow> out = fb\<lparr>ro_counts := (ro_counts fb)\<lparr>rn_candidates := rn_candidates (ro_counts home), rn_below_floor := rn_below_floor (ro_counts home)\<rparr>\<rparr>)"
    using recall_inner_cases [OF assms] .
  have tokens: "rp_max_tokens ?p = given_tokens cfg body" by (simp add: asked_params_def)
  show ?thesis
  proof (cases "if fallback_due cfg body home then ?fb else None")
    case None
    then have "out = home" "fallback_due cfg body home \<longrightarrow> ?fb = None" using out by (auto split: if_splits)
    moreover have "list_all (\<lambda>r. ri_source_bank r = None \<and> recalled_from env db bank ?p r) (ro_results home)"
      using recall_sound [OF k(3)] recall_source_none [OF k(3)] by (simp add: list_all_iff)
    ultimately show ?thesis using k recall_budgeted [OF k(3)] tokens by (intro exI [of _ home]) simp
  next
    case (Some fb)
    then have due: "fallback_due cfg body home" and fb: "?fb = Some fb" by (simp_all split: if_splits)
    have o: "ro_results out = ro_results fb" "rn_tokens (ro_counts out) = rn_tokens (ro_counts fb)"
      "rn_returned (ro_counts out) = rn_returned (ro_counts fb)" "rn_fallback (ro_counts out) = rn_fallback (ro_counts fb)"
      "rn_candidates (ro_counts out) = rn_candidates (ro_counts home)"
      using out Some by simp_all
    show ?thesis using k due o tokens fallback_facts [OF fb] by (intro exI [of _ home]) (simp add: list_all_iff)
  qed
qed

definition sample_config :: recall_config where
  "sample_config =
     \<lparr>rf_types = [World, Observation], rf_max_tokens = 100, rf_budget = lit ''low'', rf_min_semantic = 0, rf_limit = 40, rf_cap_per_source = 0,
      rf_semantic_alpha = 0, rf_preamble = [], rf_fallback_banks = [lit ''c''], rf_fallback_min_semantic = 0, rf_fallback_limit = 3\<rparr>"

definition sample_body :: recall_request where
  "sample_body =
     \<lparr>rq_query = lit ''hello'', rq_limit = None, rq_budget = None, rq_max_tokens = None, rq_recall_types = None, rq_tags = [],
      rq_tags_match = AnyTags, rq_preamble = None, rq_min_semantic = None, rq_exclude = [], rq_fallback = None\<rparr>"

text \<open>A bank without memories, which falls back on the bank of the sample.\<close>

definition sample_fallback :: recall_config where
  "sample_fallback = sample_config\<lparr>rf_fallback_banks := [lit ''c'', lit ''b''], rf_fallback_limit := 40\<rparr>"

lemma empty_bank_recall:
  "\<exists>home. recall recall_sample_env sample_search_db (lit ''c'') sample_params = Inr home \<and> ro_results home = [] \<and> rn_excluded (ro_counts home) = 0"
proof -
  have long: "\<not> length (trim (lit ''hello'')) < min_query_chars" unfolding sample_trim by (simp add: min_query_chars_def)
  obtain home where h: "recall recall_sample_env sample_search_db (lit ''c'') sample_params = Inr home"
    by (simp add: recall_def retrieve_def Let_def sample_fields long split_beta del: lit_Cons)
  have "ro_results home = []"
  proof (rule ccontr)
    assume "ro_results home \<noteq> []"
    then have "recalled_from recall_sample_env sample_search_db (lit ''c'') sample_params (hd (ro_results home))"
      using recall_sound [OF h] by (simp add: list_all_iff)
    then show False by (auto simp: recalled_from_def sample_search_db_def sample_node_row_def)
  qed
  moreover have "rn_excluded (ro_counts home) = 0"
  proof (cases rule: recall_cases [OF h, case_names short run])
    case short
    then show ?thesis by (simp add: empty_outcome_def)
  next
    case (run embedded cands by_id scored)
    then show ?thesis by (simp add: select_def Let_def sample_params_def split_beta)
  qed
  ultimately show ?thesis using h by blast
qed

theorem reply_names_its_bank_witness:
  "\<exists>out r. recall_inner recall_sample_env sample_fallback sample_search_db [lit ''b'', lit ''c''] (lit ''c'') sample_body 0 = Inr out
     \<and> ro_results out = [r] \<and> ri_text r = lit ''hello'' \<and> ri_source_bank r = Some (lit ''b'') \<and> rn_tokens (ro_counts out) \<le> 100"
proof -
  obtain home where h: "recall recall_sample_env sample_search_db (lit ''c'') sample_params = Inr home" "ro_results home = []"
      "rn_excluded (ro_counts home) = 0" using empty_bank_recall by blast
  obtain found r where f: "recall recall_sample_env sample_search_db (lit ''b'') sample_params = Inr found" "ro_results found = [r]"
      "ri_text r = lit ''hello''" using sample_recall by blast
  have limits: "rp_max_tokens sample_params = 100" "re_token_count recall_sample_env = length" "length (lit ''hello'') = 5"
    by (simp_all add: sample_params_def recall_sample_env_def)
  have p: "fallback_params sample_params 0 40 = sample_params" by (simp add: fallback_params_def sample_params_def)
  have "from_bank recall_sample_env sample_search_db [lit ''b'', lit ''c''] (lit ''c'') sample_params (lit ''b'') = [r\<lparr>ri_source_bank := Some (lit ''b'')\<rparr>]"
    "from_bank recall_sample_env sample_search_db [lit ''b'', lit ''c''] (lit ''c'') sample_params (lit ''c'') = []"
    using f by (simp_all add: from_bank_def)
  then obtain fb where fb: "recall_fallback recall_sample_env sample_search_db [lit ''b'', lit ''c''] (lit ''c'') sample_params [lit ''c'', lit ''b''] 0 40 = Some fb"
      "ro_results fb = [r\<lparr>ri_source_bank := Some (lit ''b'')\<rparr>]"
    using f(3) by (simp add: recall_fallback_def p Let_def fit_to_budget_def limits del: lit_Cons)
  have q: "request_params sample_fallback sample_body 0 [World, Observation] 100 (lit ''low'') 0 = sample_params"
    by (simp add: request_params_def sample_fallback_def sample_config_def sample_body_def sample_params_def)
  have "rn_returned (ro_counts home) = 0" "rp_min_semantic sample_params = 0" using recall_budgeted [OF h(1)] h(2) by (simp_all add: sample_params_def)
  then obtain out where out: "recall_inner recall_sample_env sample_fallback sample_search_db [lit ''b'', lit ''c''] (lit ''c'') sample_body 0 = Inr out"
      "ro_results out = ro_results fb"
    using h q fb(1)
    by (simp add: recall_inner_def Let_def sample_fallback_def sample_config_def sample_body_def max_query_bytes_def max_request_tags_def
        max_recall_tokens_def utf8_width_def)
  have "rn_tokens (ro_counts out) \<le> given_tokens sample_fallback sample_body" using reply_names_its_bank [OF out(1)] by blast
  then show ?thesis using out fb(2) f(3) by (simp add: given_tokens_def sample_fallback_def sample_config_def sample_body_def del: lit_Cons)
qed

end
