(* ===== verification/Mental_Tick.thy ===== *)
theory Mental_Tick
  imports Mental_Refresh "HOL-Library.Multiset"
begin

text \<open>
  The background half of \<open>crates/memgardend/src/mental/cron.rs\<close>: the pass over the banks that refreshes the
  models whose schedule fired, and the one after a consolidation round.
\<close>

definition max_per_tick :: nat where "max_per_tick = 32"

text \<open>Refreshing the models \<open>wanted\<close> picks out of one bank's list, one after the other. An error is logged and
  the loop goes on; \<open>ios\<close> gives each refresh what it meets.\<close>

fun refresh_each ::
  "(str \<Rightarrow> str \<Rightarrow> refresh_io) \<Rightarrow> str set \<Rightarrow> (mental_model \<Rightarrow> bool) \<Rightarrow> str \<Rightarrow> mental_model list \<Rightarrow> mental_db \<Rightarrow> mental_db option" where
  "refresh_each ios busy wanted bank [] db = Some db"
| "refresh_each ios busy wanted bank (m # ms) db =
     (if wanted m then
        (case mental_refresh (ios bank (mm_id m)) busy db db bank (mm_id m) of
           None \<Rightarrow> None
         | Some (_, db') \<Rightarrow> refresh_each ios busy wanted bank ms db')
      else refresh_each ios busy wanted bank ms db)"

definition refresh_after_consolidation ::
  "(str \<Rightarrow> str \<Rightarrow> refresh_io) \<Rightarrow> str set \<Rightarrow> mental_db \<Rightarrow> str \<Rightarrow> mental_db option" where
  "refresh_after_consolidation ios busy db bank =
     refresh_each ios busy (\<lambda>m. mm_trigger m = Some after_consolidation) bank (mental_list db bank max_per_tick 0) db"

definition scheduled :: "(int \<Rightarrow> civil_day option) \<Rightarrow> int \<Rightarrow> mental_model \<Rightarrow> bool" where
  "scheduled civil now m =
     (case mm_trigger m of None \<Rightarrow> False | Some t \<Rightarrow> is_due civil t (mm_last_refreshed_at m) now)"

fun tick_banks ::
  "(int \<Rightarrow> civil_day option) \<Rightarrow> (str \<Rightarrow> str \<Rightarrow> refresh_io) \<Rightarrow> str set \<Rightarrow> int \<Rightarrow> str list \<Rightarrow> mental_db \<Rightarrow> mental_db option" where
  "tick_banks civil ios busy now [] db = Some db"
| "tick_banks civil ios busy now (bank # banks) db =
     (case refresh_each ios busy (scheduled civil now) bank (mental_list db bank max_per_tick 0) db of
        None \<Rightarrow> None
      | Some db' \<Rightarrow> tick_banks civil ios busy now banks db')"

text \<open>\<open>tick_once\<close>: \<open>queued\<close> is what the retain budget holds. The banks come ordered by name.\<close>

definition tick_once ::
  "(int \<Rightarrow> civil_day option) \<Rightarrow> (str \<Rightarrow> str \<Rightarrow> refresh_io) \<Rightarrow> str set \<Rightarrow> nat \<Rightarrow> int \<Rightarrow> mental_db \<Rightarrow> mental_db option" where
  "tick_once civil ios busy queued now db =
     (if 0 < queued then Some db else tick_banks civil ios busy now (sort (mdb_banks db)) db)"



subsection \<open>What a pass touches\<close>

lemma refresh_returns: "\<exists>res db'. mental_refresh io busy seen db bank i = Some (res, db')"
  by (cases rule: refresh_cases [of io busy seen db bank i]) auto

lemma refresh_frame:
  assumes "mental_refresh io busy seen db bank i = Some (res, db')"
  shows "mdb_banks db' = mdb_banks db" and "(x, j) \<noteq> (bank, i) \<Longrightarrow> mental_get db' x j = mental_get db x j"
    and "x \<noteq> bank \<Longrightarrow> filter (\<lambda>r. mm_bank r = x) (mdb_rows db') = filter (\<lambda>r. mm_bank r = x) (mdb_rows db)"
proof -
  have "mdb_banks db' = mdb_banks db \<and> ((x, j) \<noteq> (bank, i) \<longrightarrow> mental_get db' x j = mental_get db x j)
    \<and> (x \<noteq> bank \<longrightarrow> filter (\<lambda>r. mm_bank r = x) (mdb_rows db') = filter (\<lambda>r. mm_bank r = x) (mdb_rows db))"
  proof (cases rule: refresh_cases [of io busy seen db bank i, case_names kept wrote])
    case (kept e)
    then show ?thesis using assms by simp
  next
    case (wrote m w failure up)
    obtain n where up: "up = (n, db')" using wrote(5) assms by (cases up) auto
    have f: "filter (\<lambda>r. mm_bank r = x) (map (\<lambda>r. if at_key bank i r then g r else r) rs) = filter (\<lambda>r. mm_bank r = x) rs"
      if "x \<noteq> bank" "\<And>r. mm_bank (g r) = mm_bank r" for g rs
      using that by (induction rs) (auto simp: at_key_def)
    from wrote(4) [unfolded up] show ?thesis
      by (cases rule: update_get) (auto simp: f)
  qed
  then show "mdb_banks db' = mdb_banks db" and "(x, j) \<noteq> (bank, i) \<Longrightarrow> mental_get db' x j = mental_get db x j"
    and "x \<noteq> bank \<Longrightarrow> filter (\<lambda>r. mm_bank r = x) (mdb_rows db') = filter (\<lambda>r. mm_bank r = x) (mdb_rows db)"
    by blast+
qed

lemma refresh_each_frame:
  "\<exists>db'. refresh_each ios busy wanted bank ms db = Some db' \<and> mdb_banks db' = mdb_banks db
     \<and> (\<forall>x j. (x = bank \<longrightarrow> (\<forall>m \<in> set ms. wanted m \<longrightarrow> mm_id m \<noteq> j)) \<longrightarrow> mental_get db' x j = mental_get db x j)
     \<and> (\<forall>x. x \<noteq> bank \<longrightarrow> filter (\<lambda>r. mm_bank r = x) (mdb_rows db') = filter (\<lambda>r. mm_bank r = x) (mdb_rows db))"
proof (induction ms arbitrary: db)
  case (Cons m ms)
  show ?case
  proof (cases "wanted m")
    case True
    obtain res db1 where r: "mental_refresh (ios bank (mm_id m)) busy db db bank (mm_id m) = Some (res, db1)"
      using refresh_returns by blast
    from Cons [of db1] obtain db' where d: "refresh_each ios busy wanted bank ms db1 = Some db'" "mdb_banks db' = mdb_banks db1"
      "\<forall>x j. (x = bank \<longrightarrow> (\<forall>m \<in> set ms. wanted m \<longrightarrow> mm_id m \<noteq> j)) \<longrightarrow> mental_get db' x j = mental_get db1 x j"
      "\<forall>x. x \<noteq> bank \<longrightarrow> filter (\<lambda>r. mm_bank r = x) (mdb_rows db') = filter (\<lambda>r. mm_bank r = x) (mdb_rows db1)"
      by blast
    have "mental_get db' x j = mental_get db x j" if "x = bank \<longrightarrow> (\<forall>m' \<in> set (m # ms). wanted m' \<longrightarrow> mm_id m' \<noteq> j)" for x j
      using that d(3) refresh_frame(2) [OF r, of x j] True by auto
    moreover have "filter (\<lambda>r. mm_bank r = x) (mdb_rows db') = filter (\<lambda>r. mm_bank r = x) (mdb_rows db)" if "x \<noteq> bank" for x
      using that d(4) refresh_frame(3) [OF r, of x] by auto
    ultimately show ?thesis using True r d(1,2) refresh_frame(1) [OF r] by auto
  next
    case False
    with Cons [of db] show ?thesis by auto
  qed
qed simp

lemma mental_list_cong:
  "filter (\<lambda>r. mm_bank r = bank) (mdb_rows db') = filter (\<lambda>r. mm_bank r = bank) (mdb_rows db)
   \<Longrightarrow> mental_list db' bank k off = mental_list db bank k off"
  by (simp add: mental_list_def)

text \<open>The models of a bank a pass may refresh.\<close>

definition picked :: "(int \<Rightarrow> civil_day option) \<Rightarrow> int \<Rightarrow> mental_db \<Rightarrow> str \<Rightarrow> str \<Rightarrow> bool" where
  "picked civil now db bank i \<longleftrightarrow> (\<exists>m \<in> set (mental_list db bank max_per_tick 0). scheduled civil now m \<and> mm_id m = i)"

lemma tick_banks_frame:
  "distinct banks \<Longrightarrow> \<exists>db'. tick_banks civil ios busy now banks db = Some db' \<and> mdb_banks db' = mdb_banks db
     \<and> (\<forall>x j. \<not> (x \<in> set banks \<and> picked civil now db x j) \<longrightarrow> mental_get db' x j = mental_get db x j)"
proof (induction banks arbitrary: db)
  case (Cons bank banks)
  from refresh_each_frame [of ios busy "scheduled civil now" bank "mental_list db bank max_per_tick 0" db]
  obtain db1 where e: "refresh_each ios busy (scheduled civil now) bank (mental_list db bank max_per_tick 0) db = Some db1"
    "mdb_banks db1 = mdb_banks db"
    "\<forall>x j. (x = bank \<longrightarrow> (\<forall>m \<in> set (mental_list db bank max_per_tick 0). scheduled civil now m \<longrightarrow> mm_id m \<noteq> j))
        \<longrightarrow> mental_get db1 x j = mental_get db x j"
    "\<forall>x. x \<noteq> bank \<longrightarrow> filter (\<lambda>r. mm_bank r = x) (mdb_rows db1) = filter (\<lambda>r. mm_bank r = x) (mdb_rows db)" by blast
  from Cons obtain db' where d: "tick_banks civil ios busy now banks db1 = Some db'" "mdb_banks db' = mdb_banks db1"
    "\<forall>x j. \<not> (x \<in> set banks \<and> picked civil now db1 x j) \<longrightarrow> mental_get db' x j = mental_get db1 x j" by force
  have same: "picked civil now db1 x j \<longleftrightarrow> picked civil now db x j" if "x \<in> set banks" for x j
  proof -
    have "x \<noteq> bank" using that Cons.prems by auto
    then show ?thesis using e(4) mental_list_cong [of x db1 db max_per_tick 0] by (simp add: picked_def)
  qed
  have "mental_get db' x j = mental_get db x j" if "\<not> (x \<in> set (bank # banks) \<and> picked civil now db x j)" for x j
  proof -
    have "mental_get db' x j = mental_get db1 x j" using that same d(3) by auto
    moreover have "mental_get db1 x j = mental_get db x j" using that e(3) by (auto simp: picked_def)
    ultimately show ?thesis by simp
  qed
  then show ?case using e(1,2) d(1,2) by auto
qed simp

lemma tick_frame:
  assumes "distinct (mdb_banks db)"
  shows "\<exists>db'. tick_once civil ios busy queued now db = Some db'
     \<and> (\<forall>x j. 0 < queued \<or> \<not> picked civil now db x j \<longrightarrow> mental_get db' x j = mental_get db x j)"
  using tick_banks_frame [of "sort (mdb_banks db)" civil ios busy now db] assms by (auto simp: tick_once_def)


lemma in_take_sorted:
  fixes f :: "'a \<Rightarrow> 'b::linorder"
  assumes "r \<in> set (take k (sort_key f xs))"
  shows "length (filter (\<lambda>y. f y < f r) xs) < k"
proof -
  define ys where "ys = sort_key f xs"
  obtain n where n: "n < k" "n < length ys" "r = ys ! n"
    using assms by (auto simp: ys_def in_set_conv_nth)
  have late: "\<not> f (ys ! m) < f r" if "n \<le> m" "m < length ys" for m
    using sorted_nth_mono [of "map f ys" n m] that n by (simp add: ys_def not_less)
  then have "filter (\<lambda>y. f y < f r) (drop n ys) = []" by (auto simp: filter_empty_conv in_set_conv_nth)
  then have "filter (\<lambda>y. f y < f r) ys = filter (\<lambda>y. f y < f r) (take n ys)"
    by (metis append.right_neutral append_take_drop_id filter_append)
  then have "length (filter (\<lambda>y. f y < f r) ys) \<le> n" using length_filter_le [of "\<lambda>y. f y < f r" "take n ys"] n(2) by simp
  moreover have "length (filter (\<lambda>y. f y < f r) xs) = length (filter (\<lambda>y. f y < f r) ys)"
    unfolding ys_def by (metis mset_filter mset_sort size_mset)
  ultimately show ?thesis using n(1) by simp
qed

text \<open>A tick always ends, for every bank in turn. While a retain is queued it changes nothing. Otherwise the
  only models it may touch are those whose schedule has fired and that are among the 32 of their bank with the
  most recent refresh; every other row is exactly as before, whatever the refreshes answer.\<close>

lemma tick_touches_only_due:
  assumes "distinct (mdb_banks db)"
  shows "\<exists>db'. tick_once civil ios busy queued now db = Some db'
     \<and> (\<forall>x j r. mental_get db x j = Some r \<and> mental_get db' x j \<noteq> Some r \<longrightarrow>
          queued = 0 \<and> (\<exists>m \<in> set (mental_list db x 32 0). scheduled civil now m \<and> mm_id m = j))"
proof -
  from tick_frame [OF assms] obtain db' where d: "tick_once civil ios busy queued now db = Some db'"
    "\<forall>x j. 0 < queued \<or> \<not> picked civil now db x j \<longrightarrow> mental_get db' x j = mental_get db x j" by blast
  have "\<not> (0 < queued \<or> \<not> picked civil now db x j)" if "mental_get db x j = Some r" "mental_get db' x j \<noteq> Some r" for x j r
    using d(2) that by metis
  then have "queued = 0 \<and> (\<exists>m \<in> set (mental_list db x 32 0). scheduled civil now m \<and> mm_id m = j)"
    if "mental_get db x j = Some r" "mental_get db' x j \<noteq> Some r" for x j r
    using that unfolding picked_def max_per_tick_def by auto
  then show ?thesis using d(1) by blast
qed

text \<open>C24: A bank that holds 32 models refreshed more recently than some model never gets to that one: the pass
  leaves it exactly as it is, due or not, for as long as that is so. A model never refreshed counts as the least
  recent of all, so new models in such a bank are not refreshed by the schedule.\<close>

theorem tick_starves_the_stale:
  assumes "mental_wf db" and "distinct (mdb_banks db)" and "mental_get db bank i = Some r"
    and "32 \<le> length (filter (\<lambda>y. mm_bank y = bank \<and> refresh_key y < refresh_key r) (mdb_rows db))"
  shows "\<exists>db'. tick_once civil ios busy queued now db = Some db' \<and> mental_get db' bank i = Some r"
proof -
  have r: "r \<in> set (mdb_rows db)" "at_key bank i r" using assms(3) mental_get_iff [OF assms(1)] by auto
  have "r \<notin> set (mental_list db bank max_per_tick 0)"
    using in_take_sorted [of r max_per_tick refresh_key "filter (\<lambda>r. mm_bank r = bank) (mdb_rows db)"] assms(4)
    by (auto simp: mental_list_def max_per_tick_def conj_commute)
  moreover have "m = r" if "m \<in> set (mental_list db bank max_per_tick 0)" "mm_id m = i" for m
  proof -
    have "m \<in> set (mdb_rows db)" "mm_bank m = bank" using that by (auto simp: mental_list_def dest: in_set_takeD in_set_dropD)
    then show ?thesis using wf_key [OF assms(1), of m r bank i] r that(2) by (simp add: at_key_def)
  qed
  ultimately have "\<not> picked civil now db bank i" by (auto simp: picked_def)
  then show ?thesis using tick_frame [OF assms(2), of civil ios busy queued now] assms(3) by force
qed


text \<open>Thirty-two models refreshed once and a scheduled one that never was.\<close>

definition crowd :: mental_db where
  "crowd =
     \<lparr>mdb_banks = [lit ''b''],
      mdb_rows = map (\<lambda>i. greeting\<lparr>mm_rowid := int i + 2, mm_id := [i], mm_last_refreshed_at := Some 0\<rparr>) [0..<32]
        @ [greeting\<lparr>mm_trigger := Some sample_expr\<rparr>],
      mdb_vecs = []\<rparr>"

lemma crowd_wf: "mental_wf crowd"
proof -
  have d: "distinct (map mm_rowid (mdb_rows crowd))" by (auto simp: crowd_def distinct_map inj_on_def greeting_def)
  have k: "distinct (map (\<lambda>r. (mm_bank r, mm_id r)) (mdb_rows crowd))" by (auto simp: crowd_def distinct_map inj_on_def greeting_def)
  have "vec_of r = None \<and> row_ok (mdb_banks crowd) r" if "r \<in> set (mdb_rows crowd)" for r
    using that by (auto simp: crowd_def vec_of_def row_ok_def greeting_def)
  moreover have "mdb_vecs crowd = []" by (simp add: crowd_def)
  ultimately show ?thesis using d k by (auto simp: mental_wf_def in_step_def)
qed

theorem tick_starves_the_stale_witness:
  "scheduled gregorian 0 (greeting\<lparr>mm_trigger := Some sample_expr\<rparr>)
   \<and> (\<exists>db'. tick_once gregorian (\<lambda>_ _. greeting_io) {} 0 0 crowd = Some db'
       \<and> mental_get db' (lit ''b'') (lit ''mm-1'') = Some (greeting\<lparr>mm_trigger := Some sample_expr\<rparr>))"
proof -
  let ?r = "greeting\<lparr>mm_trigger := Some sample_expr\<rparr>"
  have n: "sample_expr \<noteq> after_consolidation" using sample_parsed sentinel_is_no_cron by auto
  have due: "scheduled gregorian 0 ?r" using n sample_parsed by (simp add: scheduled_def is_due_def greeting_def)
  have d: "distinct (mdb_banks crowd)" by (simp add: crowd_def)
  have r: "?r \<in> set (mdb_rows crowd)" "at_key (lit ''b'') (lit ''mm-1'') ?r" by (simp_all add: crowd_def at_key_def greeting_def)
  then have g: "mental_get crowd (lit ''b'') (lit ''mm-1'') = Some ?r" using mental_get_iff [OF crowd_wf] by blast
  have "filter (\<lambda>y. mm_bank y = lit ''b'' \<and> refresh_key y < refresh_key ?r) (mdb_rows crowd)
      = map (\<lambda>i. greeting\<lparr>mm_rowid := int i + 2, mm_id := [i], mm_last_refreshed_at := Some 0\<rparr>) [0..<32]"
    by (simp add: crowd_def filter_id_conv greeting_def refresh_key_def)
  then have "32 \<le> length (filter (\<lambda>y. mm_bank y = lit ''b'' \<and> refresh_key y < refresh_key ?r) (mdb_rows crowd))" by simp
  from due tick_starves_the_stale [OF crowd_wf d g this, of gregorian "\<lambda>_ _. greeting_io" "{}" 0 0] show ?thesis by blast
qed

end
