(* ===== verification/Consolidate_Store.thy ===== *)
theory Consolidate_Store
  imports Recall_Store
begin

text \<open>
  \<open>crates/memgarden-store/src/consolidate.rs\<close>: observations with their provenance, the merge of two of them,
  the application of a plan, and the ledger of rounds, over the tables of \<open>Recall_Store\<close>. Deleting a node
  takes its rows in the other tables with it (foreign keys and triggers of the schema), and the trigger on the
  provenance table recounts the observations that lost a source. The clock and the generated uuids are
  arguments; a uuid is given by the row id it goes to.
\<close>

subsection \<open>Provenance\<close>

definition proof_of :: "search_db \<Rightarrow> int \<Rightarrow> int" where
  "proof_of db i = int (length (filter (\<lambda>p. fst p = i) (sd_sources db)))"

definition map_node :: "int \<Rightarrow> (search_node \<Rightarrow> search_node) \<Rightarrow> search_db \<Rightarrow> search_db" where
  "map_node i f db = db\<lparr>sd_nodes := map (\<lambda>n. if mn_id n = i then f n else n) (sd_nodes db)\<rparr>"

definition recount_proof :: "search_db \<Rightarrow> int \<Rightarrow> search_db" where
  "recount_proof db i = map_node i (\<lambda>n. n\<lparr>sn_proof_count := proof_of db i\<rparr>) db"

text \<open>\<open>INSERT OR IGNORE ... SELECT ... WHERE id = ? AND bank_id = ?\<close>: a source of another bank links nothing.\<close>

definition link_source :: "int \<Rightarrow> str \<Rightarrow> int \<Rightarrow> search_db \<Rightarrow> search_db" where
  "link_source obs bank src db =
     (if (\<exists>n \<in> set (sd_nodes db). mn_id n = src \<and> sn_bank n = bank) \<and> (obs, src) \<notin> set (sd_sources db)
      then db\<lparr>sd_sources := sd_sources db @ [(obs, src)]\<rparr> else db)"

definition link_sources :: "search_db \<Rightarrow> int \<Rightarrow> str \<Rightarrow> int list \<Rightarrow> search_db" where
  "link_sources db obs bank srcs = fold (link_source obs bank) srcs db"

definition sources_of :: "search_db \<Rightarrow> int \<Rightarrow> int list" where
  "sources_of db obs = sort (map snd (filter (\<lambda>p. fst p = obs) (sd_sources db)))"

text \<open>\<open>DELETE FROM memory_nodes WHERE ...\<close> with its cascades.\<close>

definition lift_retraction :: "int set \<Rightarrow> search_node \<Rightarrow> search_node" where
  "lift_retraction gone n =
     (if (case mn_superseded_by n of None \<Rightarrow> False | Some i \<Rightarrow> i \<in> gone) then n\<lparr>mn_superseded_by := None\<rparr> else n)"

definition dead_source :: "int set \<Rightarrow> int \<times> int \<Rightarrow> bool" where
  "dead_source gone p \<longleftrightarrow> fst p \<in> gone \<or> snd p \<in> gone"

definition drop_nodes :: "int set \<Rightarrow> search_db \<Rightarrow> search_db" where
  "drop_nodes gone db =
     db\<lparr>sd_nodes := map (lift_retraction gone) (filter (\<lambda>n. mn_id n \<notin> gone) (sd_nodes db)),
        sd_vecs := filter (\<lambda>v. vr_rowid v \<notin> gone) (sd_vecs db),
        sd_links := filter (\<lambda>l. lk_from l \<notin> gone \<and> lk_to l \<notin> gone) (sd_links db),
        sd_node_entities := filter (\<lambda>p. fst p \<notin> gone) (sd_node_entities db),
        sd_sources := filter (\<lambda>p. \<not> dead_source gone p) (sd_sources db)\<rparr>"

definition recount_all :: "int list \<Rightarrow> search_db \<Rightarrow> search_db" where
  "recount_all is db = fold (\<lambda>i d. recount_proof d i) is db"

definition delete_where :: "(search_node \<Rightarrow> bool) \<Rightarrow> search_db \<Rightarrow> nat \<times> search_db" where
  "delete_where doomed db =
     (let gone = map mn_id (filter doomed (sd_nodes db));
          touched = map fst (filter (dead_source (set gone)) (sd_sources db))
      in (length gone, recount_all touched (drop_nodes (set gone) db)))"

subsection \<open>Observations\<close>

definition new_observation :: "str \<Rightarrow> str \<Rightarrow> str \<Rightarrow> blob \<Rightarrow> int \<Rightarrow> int \<Rightarrow> search_node" where
  "new_observation bank text uuid b i now =
     \<lparr>mn_id = i, mn_uuid = uuid,
      mn_new = \<lparr>nn_bank_id = bank, nn_document_id = None, nn_fact_type = Observation, nn_text = text, nn_context = None,
                nn_event_date = None, nn_occurred_start = None, nn_occurred_end = None, nn_mentioned_at = Some now,
                nn_metadata = None, nn_expires_at = None\<rparr>,
      mn_tags = [], mn_created_at = now, mn_updated_at = now, mn_superseded_by = None, mn_embedded = True,
      sn_proof_count = 0, sn_embedding = Some b, sn_embedding_model = Some embedding_model_id\<rparr>"

definition next_rowid :: "search_db \<Rightarrow> int" where
  "next_rowid db = foldr (\<lambda>n m. max (mn_id n) m) (sd_nodes db) 0 + 1"

text \<open>\<open>banks\<close> are the rows the foreign key of the bank finds; the insert into the vector index fails on an id that
  is already there.\<close>

definition insert_observation ::
  "str set \<Rightarrow> (int \<Rightarrow> str) \<Rightarrow> int \<Rightarrow> search_db \<Rightarrow> str \<Rightarrow> str \<Rightarrow> f32 list \<Rightarrow> int list \<Rightarrow> mg_error + (int \<times> search_db)" where
  "insert_observation banks uuids now db bank text embedding srcs =
     (case vec_encode embedding of
        Inl e \<Rightarrow> Inl e
      | Inr b \<Rightarrow>
          let i = next_rowid db in
          if bank \<notin> banks \<or> i \<in> vr_rowid ` set (sd_vecs db) then Inl ErrStorage
          else
            let db1 = db\<lparr>sd_nodes := sd_nodes db @ [new_observation bank text (uuids i) b i now],
                         sd_vecs := sd_vecs db @ [\<lparr>vr_rowid = i, vr_bank = bank, vr_embedding = b\<rparr>]\<rparr>
            in Inr (i, recount_proof (link_sources db1 i bank srcs) i))"

text \<open>\<open>update_text_tx\<close>: the embedding goes, its model tag and the row of the index stay.\<close>

definition search_update_text :: "search_db \<Rightarrow> int \<Rightarrow> str \<Rightarrow> int \<Rightarrow> search_db" where
  "search_update_text db i text now =
     map_node i (\<lambda>n. n\<lparr>mn_new := (mn_new n)\<lparr>nn_text := text\<rparr>, mn_embedded := False, sn_embedding := None, mn_updated_at := now\<rparr>) db"

text \<open>\<open>nodes::set_embedding\<close>; the index row is written whether or not the node is still there.\<close>

definition set_embedding :: "search_db \<Rightarrow> int \<Rightarrow> str \<Rightarrow> f32 list \<Rightarrow> int \<Rightarrow> mg_error + search_db" where
  "set_embedding db i bank embedding now =
     (case vec_encode embedding of
        Inl e \<Rightarrow> Inl e
      | Inr b \<Rightarrow>
          Inr ((map_node i (\<lambda>n. n\<lparr>sn_embedding := Some b, mn_embedded := True, sn_embedding_model := Some embedding_model_id,
                                  mn_updated_at := now\<rparr>) db)
                 \<lparr>sd_vecs := write_vec (sd_vecs db) i bank b\<rparr>))"

definition is_observation :: "str \<Rightarrow> str \<Rightarrow> search_node \<Rightarrow> bool" where
  "is_observation bank uuid n \<longleftrightarrow> mn_uuid n = uuid \<and> sn_bank n = bank \<and> sn_type n = Observation"

text \<open>\<open>INSERT OR IGNORE\<close> of the source rows of one observation under another.\<close>

definition move_sources :: "search_db \<Rightarrow> int \<Rightarrow> int \<Rightarrow> search_db" where
  "move_sources db kept dropped =
     db\<lparr>sd_sources := sd_sources db @ filter (\<lambda>p. p \<notin> set (sd_sources db))
          (map (\<lambda>p. (kept, snd p)) (filter (\<lambda>p. fst p = dropped) (sd_sources db)))\<rparr>"

definition merge_observation ::
  "search_db \<Rightarrow> str \<Rightarrow> str \<Rightarrow> str \<Rightarrow> str \<Rightarrow> int \<Rightarrow> mg_error + (int \<times> int \<times> search_db)" where
  "merge_observation db bank keep_uuid drop_uuid merged_text now =
     (case (find (is_observation bank keep_uuid) (sd_nodes db), find (is_observation bank drop_uuid) (sd_nodes db)) of
        (Some kept, Some dropped) \<Rightarrow>
          let db1 = move_sources db (mn_id kept) (mn_id dropped);
              db2 = (if sn_text kept \<noteq> merged_text then search_update_text db1 (mn_id kept) merged_text now else db1);
              db3 = recount_proof (snd (delete_where (\<lambda>n. mn_id n = mn_id dropped) db2)) (mn_id kept)
          in (case find (\<lambda>n. mn_id n = mn_id kept) (sd_nodes db3) of
                None \<Rightarrow> Inl ErrStorage
              | Some n \<Rightarrow> Inr (mn_id kept, sn_proof_count n, db3))
      | _ \<Rightarrow> Inl ErrNotFound)"

definition observation_text_in_bank :: "search_db \<Rightarrow> str \<Rightarrow> int \<Rightarrow> str option" where
  "observation_text_in_bank db bank i =
     map_option (\<lambda>n. sn_text n) (find (\<lambda>n. mn_id n = i \<and> sn_bank n = bank \<and> sn_type n = Observation) (sd_nodes db))"

definition stored_proof_count :: "search_db \<Rightarrow> int \<Rightarrow> mg_error + int" where
  "stored_proof_count db i = (case find (\<lambda>n. mn_id n = i) (sd_nodes db) of None \<Rightarrow> Inl ErrStorage | Some n \<Rightarrow> Inr (sn_proof_count n))"

record observation_vector =
  ov_id :: int
  ov_uuid :: str
  ov_text :: str
  ov_embedding :: "f32 list"

fun all_right :: "('e + 'a) list \<Rightarrow> 'e + 'a list" where
  "all_right [] = Inr []"
| "all_right (x # xs) = (case x of Inl e \<Rightarrow> Inl e | Inr a \<Rightarrow> (case all_right xs of Inl e \<Rightarrow> Inl e | Inr as \<Rightarrow> Inr (a # as)))"

definition observation_vectors :: "search_db \<Rightarrow> str \<Rightarrow> int \<Rightarrow> mg_error + observation_vector list" where
  "observation_vectors db bank exclude_id =
     all_right (List.map_filter (\<lambda>n.
       if sn_bank n = bank \<and> sn_type n = Observation \<and> sn_embedding_model n = Some embedding_model_id \<and> mn_id n \<noteq> exclude_id
       then map_option (\<lambda>b. case vec_decode b of Inl e \<Rightarrow> Inl e
          | Inr v \<Rightarrow> Inr \<lparr>ov_id = mn_id n, ov_uuid = mn_uuid n, ov_text = sn_text n, ov_embedding = v\<rparr>) (sn_embedding n)
       else None) (sd_nodes db))"

subsection \<open>Facts and plans\<close>

record fact_row =
  fr_id :: int
  fr_uuid :: str
  fr_text :: str
  fr_occurred_start :: "int option"
  fr_occurred_end :: "int option"
  fr_mentioned_at :: "int option"

definition fact_row_of :: "search_node \<Rightarrow> fact_row" where
  "fact_row_of n =
     \<lparr>fr_id = mn_id n, fr_uuid = mn_uuid n, fr_text = sn_text n, fr_occurred_start = nn_occurred_start (mn_new n),
      fr_occurred_end = nn_occurred_end (mn_new n), fr_mentioned_at = nn_mentioned_at (mn_new n)\<rparr>"

definition waiting :: "search_db \<Rightarrow> int \<Rightarrow> str \<Rightarrow> int \<Rightarrow> search_node list" where
  "waiting db sql_now bank after =
     filter (\<lambda>n. sn_bank n = bank \<and> sn_type n \<noteq> Observation \<and> after < mn_id n \<and> is_live sql_now n) (sd_nodes db)"

definition unconsolidated :: "search_db \<Rightarrow> int \<Rightarrow> str \<Rightarrow> int \<Rightarrow> nat \<Rightarrow> fact_row list" where
  "unconsolidated db sql_now bank after limit = take limit (map fact_row_of (sort_key mn_id (waiting db sql_now bank after)))"

definition count_unconsolidated :: "search_db \<Rightarrow> int \<Rightarrow> str \<Rightarrow> int \<Rightarrow> nat" where
  "count_unconsolidated db sql_now bank after = length (waiting db sql_now bank after)"

record plan_create =
  pc_text :: str
  pc_embedding :: "f32 list"
  pc_sources :: "int list"

record plan_update =
  pu_uuid :: str
  pu_text :: str
  pu_sources :: "int list"

record plan_result =
  ap_created :: "int list"
  ap_updated :: "(int \<times> str) list"
  ap_deleted :: nat

fun apply_creates ::
  "str set \<Rightarrow> (int \<Rightarrow> str) \<Rightarrow> int \<Rightarrow> str \<Rightarrow> plan_create list \<Rightarrow> search_db \<Rightarrow> mg_error + (int list \<times> search_db)" where
  "apply_creates banks uuids now bank [] db = Inr ([], db)"
| "apply_creates banks uuids now bank (c # cs) db =
     (case insert_observation banks uuids now db bank (pc_text c) (pc_embedding c) (pc_sources c) of
        Inl e \<Rightarrow> Inl e
      | Inr (i, db1) \<Rightarrow>
          (case apply_creates banks uuids now bank cs db1 of
             Inl e \<Rightarrow> Inl e
           | Inr (ids, db2) \<Rightarrow> Inr (i # ids, db2)))"

definition apply_update_one :: "int \<Rightarrow> str \<Rightarrow> plan_update \<Rightarrow> (int \<times> str) list \<times> search_db \<Rightarrow> (int \<times> str) list \<times> search_db" where
  "apply_update_one now bank u st =
     (case find (is_observation bank (pu_uuid u)) (sd_nodes (snd st)) of
        None \<Rightarrow> st
      | Some n \<Rightarrow>
          let db1 = (if sn_text n \<noteq> pu_text u then search_update_text (snd st) (mn_id n) (pu_text u) now else snd st)
          in (fst st @ [(mn_id n, pu_uuid u)], recount_proof (link_sources db1 (mn_id n) bank (pu_sources u)) (mn_id n)))"

definition apply_delete_one :: "str \<Rightarrow> str \<Rightarrow> nat \<times> search_db \<Rightarrow> nat \<times> search_db" where
  "apply_delete_one bank uuid st =
     (let (n, db') = delete_where (is_observation bank uuid) (snd st) in (fst st + n, db'))"

definition apply_plan ::
  "str set \<Rightarrow> (int \<Rightarrow> str) \<Rightarrow> int \<Rightarrow> search_db \<Rightarrow> str \<Rightarrow> plan_create list \<Rightarrow> plan_update list \<Rightarrow> str list
     \<Rightarrow> mg_error + (plan_result \<times> search_db)" where
  "apply_plan banks uuids now db bank creates updates deletes =
     (case apply_creates banks uuids now bank creates db of
        Inl e \<Rightarrow> Inl e
      | Inr (ids, db1) \<Rightarrow>
          let (upd, db2) = fold (apply_update_one now bank) updates ([], db1);
              (del, db3) = fold (apply_delete_one bank) deletes (0, db2)
          in Inr (\<lparr>ap_created = ids, ap_updated = upd, ap_deleted = del\<rparr>, db3))"

subsection \<open>The ledger of rounds\<close>

datatype run_status = RunRunning | RunDone | RunFailed

record run_counts =
  ct_facts_seen :: int
  ct_created :: int
  ct_updated :: int
  ct_deleted :: int
  ct_merged :: int

record run_row =
  run_id :: int
  run_bank :: str
  run_status :: run_status
  run_counted :: run_counts
  run_watermark :: "int option"
  run_error :: "str option"
  run_started_at :: int
  run_finished_at :: "int option"

definition no_counts :: run_counts where
  "no_counts = \<lparr>ct_facts_seen = 0, ct_created = 0, ct_updated = 0, ct_deleted = 0, ct_merged = 0\<rparr>"

definition start_run :: "run_row list \<Rightarrow> str \<Rightarrow> int \<Rightarrow> int \<times> run_row list" where
  "start_run runs bank now =
     (let i = foldr (\<lambda>r m. max (run_id r) m) runs 0 + 1
      in (i, runs @ [\<lparr>run_id = i, run_bank = bank, run_status = RunRunning, run_counted = no_counts, run_watermark = None,
                      run_error = None, run_started_at = now, run_finished_at = None\<rparr>]))"

definition finish_run :: "run_row list \<Rightarrow> int \<Rightarrow> run_status \<Rightarrow> run_counts \<Rightarrow> int option \<Rightarrow> str option \<Rightarrow> int \<Rightarrow> run_row list" where
  "finish_run runs i st counts watermark err now =
     map (\<lambda>r. if run_id r = i
              then r\<lparr>run_status := st, run_counted := counts, run_watermark := watermark, run_error := err, run_finished_at := Some now\<rparr>
              else r) runs"

definition fail_stale_runs :: "run_row list \<Rightarrow> str \<Rightarrow> int \<Rightarrow> nat \<times> run_row list" where
  "fail_stale_runs runs reason now =
     (length (filter (\<lambda>r. run_status r = RunRunning) runs),
      map (\<lambda>r. if run_status r = RunRunning
               then r\<lparr>run_status := RunFailed, run_error := Some reason, run_finished_at := Some now\<rparr> else r) runs)"

text \<open>\<open>COALESCE(MAX(watermark), 0)\<close>.\<close>

fun max_opt :: "int option \<Rightarrow> int list \<Rightarrow> int option" where
  "max_opt m [] = m"
| "max_opt None (t # ts) = max_opt (Some t) ts"
| "max_opt (Some m) (t # ts) = max_opt (Some (max m t)) ts"

definition watermark :: "run_row list \<Rightarrow> str \<Rightarrow> int" where
  "watermark runs bank =
     (case max_opt None (List.map_filter run_watermark (filter (\<lambda>r. run_bank r = bank) runs)) of None \<Rightarrow> 0 | Some w \<Rightarrow> w)"

definition latest_run :: "run_row list \<Rightarrow> str \<Rightarrow> run_row option" where
  "latest_run runs bank =
     (let mine = sort_key (\<lambda>r. - run_id r) (filter (\<lambda>r. run_bank r = bank) runs) in if mine = [] then None else Some (hd mine))"


section \<open>Counts follow the provenance, and facts are left alone\<close>

definition prov_core :: "search_db \<Rightarrow> bool" where
  "prov_core db \<longleftrightarrow>
     distinct (map mn_id (sd_nodes db)) \<and> distinct (sd_sources db)
   \<and> (\<forall>p \<in> set (sd_sources db). (\<exists>n \<in> set (sd_nodes db). mn_id n = fst p \<and> sn_type n = Observation)
        \<and> snd p \<in> mn_id ` set (sd_nodes db))"

definition counted_except :: "int set \<Rightarrow> search_db \<Rightarrow> bool" where
  "counted_except S db \<longleftrightarrow> (\<forall>n \<in> set (sd_nodes db). mn_id n \<notin> S \<longrightarrow> sn_proof_count n = proof_of db (mn_id n))"

text \<open>Every count is the number of provenance rows, and these join an observation to a node that exists.\<close>

definition provenance_ok :: "search_db \<Rightarrow> bool" where
  "provenance_ok db \<longleftrightarrow> prov_core db \<and> counted_except {} db"

text \<open>The facts, and the key of a row; a row id may be given again after a row is gone, a uuid is not.\<close>

definition facts_of :: "search_db \<Rightarrow> search_node list" where
  "facts_of db = filter (\<lambda>n. sn_type n \<noteq> Observation) (sd_nodes db)"

definition node_keys :: "search_db \<Rightarrow> (int \<times> str) set" where
  "node_keys db = (\<lambda>n. (mn_id n, mn_uuid n)) ` set (sd_nodes db)"

text \<open>Every fact is kept, in its place, apart from a retraction by one of the nodes \<open>gone\<close>, which is lifted; none
  of these is a fact, and of a row of \<open>db\<close> that is still there none is among them. \<open>U\<close> are the uuids given to
  new rows.\<close>

definition facts_kept :: "str set \<Rightarrow> search_db \<Rightarrow> search_db \<Rightarrow> bool" where
  "facts_kept U db db' \<longleftrightarrow>
     (\<exists>gone. gone \<inter> mn_id ` set (facts_of db) = {} \<and> facts_of db' = map (lift_retraction gone) (facts_of db)
        \<and> (\<forall>k \<in> node_keys db'. snd k \<in> U \<or> k \<in> node_keys db \<and> fst k \<notin> gone))"

lemma lift_retraction_none [simp]: "lift_retraction {} = (\<lambda>n. n)"
  by (rule ext) (simp add: lift_retraction_def split: option.split)

lemma lift_retraction_sel [simp]:
  "mn_id (lift_retraction g n) = mn_id n" "mn_uuid (lift_retraction g n) = mn_uuid n" "mn_new (lift_retraction g n) = mn_new n"
  "sn_proof_count (lift_retraction g n) = sn_proof_count n"
  by (simp_all add: lift_retraction_def)

lemma lift_retraction_twice: "lift_retraction h (lift_retraction g n) = lift_retraction (g \<union> h) n"
  by (auto simp: lift_retraction_def split: option.splits)

lemma facts_kept_same:
  "facts_of db' = facts_of db \<Longrightarrow> node_keys db' \<subseteq> node_keys db \<union> UNIV \<times> U \<Longrightarrow> facts_kept U db db'"
  unfolding facts_kept_def by (intro exI [of _ "{}"]) auto

lemma facts_kept_nodes: "sd_nodes db' = sd_nodes db \<Longrightarrow> facts_kept U db db'"
  by (rule facts_kept_same) (simp_all add: facts_of_def node_keys_def)

lemma facts_kept_trans:
  assumes "facts_kept U db db1" and "facts_kept U db1 db2"
  shows "facts_kept U db db2"
proof -
  obtain g where g: "g \<inter> mn_id ` set (facts_of db) = {}" "facts_of db1 = map (lift_retraction g) (facts_of db)"
      "\<forall>k \<in> node_keys db1. snd k \<in> U \<or> k \<in> node_keys db \<and> fst k \<notin> g"
    using assms(1) by (auto simp: facts_kept_def)
  obtain h where h: "h \<inter> mn_id ` set (facts_of db1) = {}" "facts_of db2 = map (lift_retraction h) (facts_of db1)"
      "\<forall>k \<in> node_keys db2. snd k \<in> U \<or> k \<in> node_keys db1 \<and> fst k \<notin> h"
    using assms(2) by (auto simp: facts_kept_def)
  have "(g \<union> h) \<inter> mn_id ` set (facts_of db) = {}" using g(1,2) h(1) by (simp add: image_image Int_Un_distrib2)
  moreover have "facts_of db2 = map (lift_retraction (g \<union> h)) (facts_of db)" by (simp add: g(2) h(2) lift_retraction_twice)
  moreover have "\<forall>k \<in> node_keys db2. snd k \<in> U \<or> k \<in> node_keys db \<and> fst k \<notin> g \<union> h" using g(3) h(3) by auto
  ultimately show ?thesis unfolding facts_kept_def by blast
qed

definition obs_id :: "search_db \<Rightarrow> int \<Rightarrow> bool" where
  "obs_id db i \<longleftrightarrow> (\<exists>n \<in> set (sd_nodes db). mn_id n = i \<and> sn_type n = Observation)"

lemma same_id: "prov_core db \<Longrightarrow> n \<in> set (sd_nodes db) \<Longrightarrow> m \<in> set (sd_nodes db) \<Longrightarrow> mn_id n = mn_id m \<Longrightarrow> n = m"
  by (auto simp: prov_core_def distinct_map inj_on_def)

lemma obs_not_fact: "prov_core db \<Longrightarrow> obs_id db i \<Longrightarrow> n \<in> set (sd_nodes db) \<Longrightarrow> mn_id n = i \<Longrightarrow> sn_type n = Observation"
  using same_id by (auto simp: obs_id_def)

text \<open>A step keeps what is wanted when it changes one observation and no key.\<close>

definition keeps_keys :: "(search_node \<Rightarrow> search_node) \<Rightarrow> bool" where
  "keeps_keys f \<longleftrightarrow> (\<forall>n. mn_id (f n) = mn_id n \<and> mn_uuid (f n) = mn_uuid n \<and> sn_type (f n) = sn_type n)"

lemma map_node_sel [simp]:
  "sd_sources (map_node i f db) = sd_sources db" "sd_vecs (map_node i f db) = sd_vecs db"
  "proof_of (map_node i f db) j = proof_of db j"
  by (simp_all add: map_node_def proof_of_def)

lemma map_node_ex:
  assumes "keeps_keys f"
  shows "(\<exists>n \<in> set (sd_nodes (map_node i f db)). mn_id n = j \<and> sn_type n = Observation)
     \<longleftrightarrow> (\<exists>n \<in> set (sd_nodes db). mn_id n = j \<and> sn_type n = Observation)"
proof -
  define g where "g n = (if mn_id n = i then f n else n)" for n
  have "mn_id (g n) = mn_id n \<and> sn_type (g n) = sn_type n" for n using assms by (simp add: g_def keeps_keys_def)
  moreover have "sd_nodes (map_node i f db) = map g (sd_nodes db)" by (simp add: map_node_def g_def)
  ultimately show ?thesis by simp
qed

lemma map_node_ids: "keeps_keys f \<Longrightarrow> map mn_id (sd_nodes (map_node i f db)) = map mn_id (sd_nodes db)"
  by (simp add: map_node_def keeps_keys_def)

lemma map_node_core:
  assumes "keeps_keys f" and "prov_core db"
  shows "prov_core (map_node i f db)"
proof -
  have "mn_id ` set (sd_nodes (map_node i f db)) = mn_id ` set (sd_nodes db)"
    using map_node_ids [OF assms(1)] by (metis list.set_map)
  then show ?thesis
    using assms(2) map_node_ids [OF assms(1)] map_node_ex [OF assms(1)] by (simp add: prov_core_def)
qed

lemma map_node_obs: "keeps_keys f \<Longrightarrow> obs_id (map_node i f db) j = obs_id db j"
  using map_node_ex by (simp add: obs_id_def)

lemma map_node_facts:
  assumes "keeps_keys f" and "prov_core db" and "obs_id db i"
  shows "facts_kept U db (map_node i f db)"
proof (rule facts_kept_same)
  have "(mn_id m, mn_uuid m) \<in> node_keys db" if "m \<in> set (sd_nodes (map_node i f db))" for m
    using that assms(1) by (auto simp: map_node_def keeps_keys_def node_keys_def)
  then show "node_keys (map_node i f db) \<subseteq> node_keys db \<union> UNIV \<times> U" by (auto simp: node_keys_def [of "map_node i f db"])
  have o: "sn_type n = Observation" if "n \<in> set (sd_nodes db)" "mn_id n = i" for n using obs_not_fact [OF assms(2,3) that] .
  have "filter (\<lambda>n. sn_type n \<noteq> Observation) (map (\<lambda>n. if mn_id n = i then f n else n) ns) = filter (\<lambda>n. sn_type n \<noteq> Observation) ns"
    if "\<forall>n \<in> set ns. mn_id n = i \<longrightarrow> sn_type n = Observation" for ns
    using that assms(1) by (induction ns) (auto simp: keeps_keys_def)
  then show "facts_of (map_node i f db) = facts_of db" using o by (simp add: facts_of_def map_node_def)
qed

lemma map_node_counted:
  "keeps_keys f \<Longrightarrow> (\<And>n. sn_proof_count (f n) = sn_proof_count n) \<Longrightarrow> counted_except S db \<Longrightarrow> counted_except S (map_node i f db)"
  unfolding counted_except_def by (auto simp: map_node_def keeps_keys_def proof_of_def)

lemma recount_keys: "keeps_keys (\<lambda>n. n\<lparr>sn_proof_count := c\<rparr>)"
  by (simp add: keeps_keys_def)

lemma recount_sel [simp]: "sd_sources (recount_proof db i) = sd_sources db" "proof_of (recount_proof db i) j = proof_of db j"
  by (simp_all add: recount_proof_def)

lemma recount_core: "prov_core db \<Longrightarrow> prov_core (recount_proof db i)"
  by (simp add: recount_proof_def map_node_core recount_keys)

lemma recount_obs [simp]: "obs_id (recount_proof db i) j = obs_id db j"
  by (simp add: recount_proof_def map_node_obs recount_keys)

lemma recount_facts: "prov_core db \<Longrightarrow> obs_id db i \<Longrightarrow> facts_kept U db (recount_proof db i)"
  by (simp add: recount_proof_def map_node_facts recount_keys)

lemma recount_counted: "counted_except (insert i S) db \<Longrightarrow> counted_except S (recount_proof db i)"
  unfolding counted_except_def by (auto simp: recount_proof_def map_node_def proof_of_def)

lemma recount_ids: "map mn_id (sd_nodes (recount_proof db i)) = map mn_id (sd_nodes db)"
  by (simp add: recount_proof_def map_node_def)

text \<open>What every write of the module keeps.\<close>

definition sound_write :: "str set \<Rightarrow> int set \<Rightarrow> search_db \<Rightarrow> search_db \<Rightarrow> bool" where
  "sound_write U S db db' \<longleftrightarrow> prov_core db' \<and> counted_except S db' \<and> facts_kept U db db'"

lemma recount_sound: "sound_write U (insert i S) db db1 \<Longrightarrow> obs_id db1 i \<Longrightarrow> sound_write U S db (recount_proof db1 i)"
  unfolding sound_write_def by (blast intro: recount_core recount_counted recount_facts facts_kept_trans)

lemma recount_absent: "i \<notin> mn_id ` set (sd_nodes db) \<Longrightarrow> recount_proof db i = db"
  by (auto simp: recount_proof_def map_node_def intro!: search_db.equality map_idI)

lemma recount_all_sel [simp]:
  "map mn_id (sd_nodes (recount_all is db)) = map mn_id (sd_nodes db)"
  "obs_id (recount_all is db) j = obs_id db j" "sd_sources (recount_all is db) = sd_sources db"
  by (induction "is" arbitrary: db) (simp_all add: recount_all_def recount_ids)

lemma recount_all_sound:
  "sound_write U (set is \<union> S) db db1 \<Longrightarrow> (\<And>i. i \<in> set is \<Longrightarrow> obs_id db1 i \<or> i \<notin> mn_id ` set (sd_nodes db1))
   \<Longrightarrow> sound_write U S db (recount_all is db1)"
proof (induction "is" arbitrary: db1)
  case (Cons i "is")
  have ids: "mn_id ` set (sd_nodes (recount_proof db1 i)) = mn_id ` set (sd_nodes db1)"
    by (metis recount_ids list.set_map)
  have "sound_write U (set is \<union> S) db (recount_proof db1 i)"
  proof (cases "obs_id db1 i")
    case True
    then show ?thesis using recount_sound [of U i "set is \<union> S" db db1] Cons.prems(1) by simp
  next
    case False
    then have n: "i \<notin> mn_id ` set (sd_nodes db1)" using Cons.prems(2) [of i] by simp
    then have "counted_except (set is \<union> S) db1"
      using Cons.prems(1) by (auto simp: sound_write_def counted_except_def)
    then show ?thesis using Cons.prems(1) n by (simp add: recount_absent sound_write_def)
  qed
  moreover have "obs_id (recount_proof db1 i) j \<or> j \<notin> mn_id ` set (sd_nodes (recount_proof db1 i))" if "j \<in> set is" for j
    using Cons.prems(2) [of j] that ids by simp
  ultimately have "sound_write U S db (recount_all is (recount_proof db1 i))" by (rule Cons.IH)
  then show ?case by (simp add: recount_all_def)
qed (simp add: recount_all_def)

lemma link_source_sound:
  assumes "prov_core db" and "counted_except (insert obs S) db" and "obs_id db obs"
  shows "sound_write U (insert obs S) db (link_source obs bank src db) \<and> obs_id (link_source obs bank src db) obs"
  using assms
  by (auto simp: link_source_def sound_write_def prov_core_def counted_except_def proof_of_def obs_id_def intro: facts_kept_nodes)

lemma link_sources_sound:
  "prov_core db \<Longrightarrow> counted_except (insert obs S) db \<Longrightarrow> obs_id db obs
   \<Longrightarrow> sound_write U (insert obs S) db (link_sources db obs bank srcs) \<and> obs_id (link_sources db obs bank srcs) obs"
proof (induction srcs arbitrary: db)
  case Nil
  then show ?case by (simp add: link_sources_def sound_write_def facts_kept_nodes)
next
  case (Cons src srcs)
  have l: "sound_write U (insert obs S) db (link_source obs bank src db)" "obs_id (link_source obs bank src db) obs"
    using link_source_sound [OF Cons.prems, of U bank src] by auto
  then show ?case using Cons.IH [of "link_source obs bank src db"] facts_kept_trans by (auto simp: link_sources_def sound_write_def)
qed

lemma drop_nodes_sel [simp]:
  "sd_nodes (drop_nodes g db) = map (lift_retraction g) (filter (\<lambda>n. mn_id n \<notin> g) (sd_nodes db))"
  "sd_sources (drop_nodes g db) = filter (\<lambda>p. \<not> dead_source g p) (sd_sources db)"
  by (simp_all add: drop_nodes_def)

lemma drop_nodes_facts:
  assumes "\<And>n. n \<in> set (sd_nodes db) \<Longrightarrow> mn_id n \<in> g \<Longrightarrow> sn_type n = Observation"
  shows "facts_kept U db (drop_nodes g db)"
proof -
  have "filter (\<lambda>n. sn_type n \<noteq> Observation) (map (lift_retraction g) ns) = map (lift_retraction g) (filter (\<lambda>n. sn_type n \<noteq> Observation) ns)"
    for ns by (induction ns) auto
  moreover have "filter (\<lambda>n. mn_id n \<notin> g \<and> sn_type n \<noteq> Observation) (sd_nodes db) = filter (\<lambda>n. sn_type n \<noteq> Observation) (sd_nodes db)"
    by (rule filter_cong) (use assms in auto)
  ultimately have "facts_of (drop_nodes g db) = map (lift_retraction g) (facts_of db)" by (simp add: facts_of_def)
  moreover have "g \<inter> mn_id ` set (facts_of db) = {}" using assms by (auto simp: facts_of_def)
  moreover have "k \<in> node_keys db \<and> fst k \<notin> g" if "k \<in> node_keys (drop_nodes g db)" for k
    using that by (auto simp: node_keys_def)
  ultimately show ?thesis unfolding facts_kept_def by blast
qed

lemma drop_nodes_core: "prov_core db \<Longrightarrow> prov_core (drop_nodes g db)"
proof -
  assume core: "prov_core db"
  have "map mn_id (sd_nodes (drop_nodes g db)) = filter (\<lambda>i. i \<notin> g) (map mn_id (sd_nodes db))"
    by (simp add: filter_map o_def)
  then have "distinct (map mn_id (sd_nodes (drop_nodes g db)))" using core by (simp add: prov_core_def)
  moreover have "(\<exists>n \<in> set (sd_nodes (drop_nodes g db)). mn_id n = fst p \<and> sn_type n = Observation)
      \<and> snd p \<in> mn_id ` set (sd_nodes (drop_nodes g db))"
    if p: "p \<in> set (sd_sources db)" "\<not> dead_source g p" for p
  proof -
    obtain n where n: "n \<in> set (sd_nodes db)" "mn_id n = fst p" "sn_type n = Observation"
      using core p(1) unfolding prov_core_def by metis
    moreover obtain m where "m \<in> set (sd_nodes db)" "mn_id m = snd p"
      using core p(1) unfolding prov_core_def by (metis imageE)
    ultimately show ?thesis using p(2) by (force simp: dead_source_def image_iff)
  qed
  ultimately show ?thesis using core by (simp add: prov_core_def)
qed

lemma drop_nodes_counted:
  assumes "counted_except S db"
  shows "counted_except (set (map fst (filter (dead_source g) (sd_sources db))) \<union> S) (drop_nodes g db)"
proof -
  let ?t = "map fst (filter (dead_source g) (sd_sources db))"
  have "proof_of (drop_nodes g db) i = proof_of db i" if "i \<notin> set ?t" for i
  proof -
    have "filter (\<lambda>p. \<not> dead_source g p \<and> fst p = i) (sd_sources db) = filter (\<lambda>p. fst p = i) (sd_sources db)"
      by (rule filter_cong) (use that in auto)
    then show ?thesis by (simp add: proof_of_def)
  qed
  then show ?thesis using assms unfolding counted_except_def by auto
qed

lemma delete_where_sound:
  assumes core: "prov_core db" and cnt: "counted_except S db"
    and P: "\<And>n. n \<in> set (sd_nodes db) \<Longrightarrow> doomed n \<Longrightarrow> sn_type n = Observation"
  shows "sound_write U S db (snd (delete_where doomed db))"
proof -
  define g where "g = set (map mn_id (filter doomed (sd_nodes db)))"
  let ?t = "map fst (filter (dead_source g) (sd_sources db))"
  have "sn_type n = Observation" if "n \<in> set (sd_nodes db)" "mn_id n \<in> g" for n
    using same_id [OF core that(1)] that P unfolding g_def by auto
  then have s: "sound_write U (set ?t \<union> S) db (drop_nodes g db)"
    using drop_nodes_facts drop_nodes_core [OF core] drop_nodes_counted [OF cnt] by (simp add: sound_write_def)
  have "obs_id (drop_nodes g db) i \<or> i \<notin> mn_id ` set (sd_nodes (drop_nodes g db))" if i: "i \<in> set ?t" for i
  proof -
    obtain n where "n \<in> set (sd_nodes db)" "mn_id n = i" "sn_type n = Observation"
      using core i unfolding prov_core_def by auto
    then show ?thesis by (auto simp: obs_id_def)
  qed
  then have "sound_write U S db (recount_all ?t (drop_nodes g db))" by (rule recount_all_sound [OF s])
  then show ?thesis by (simp add: delete_where_def Let_def g_def)
qed

lemma delete_where_ids:
  "map mn_id (sd_nodes (snd (delete_where doomed db))) =
     filter (\<lambda>i. i \<notin> mn_id ` {n \<in> set (sd_nodes db). doomed n}) (map mn_id (sd_nodes db))"
  by (simp add: delete_where_def Let_def filter_map o_def)

lemma delete_where_obs:
  "obs_id (snd (delete_where doomed db)) i \<longleftrightarrow> obs_id db i \<and> i \<notin> mn_id ` {n \<in> set (sd_nodes db). doomed n}"
  by (simp add: delete_where_def Let_def) (auto simp: obs_id_def)


subsection \<open>The writes of the module are sound\<close>

lemma sound_write_trans: "sound_write U S db db1 \<Longrightarrow> sound_write U T db1 db2 \<Longrightarrow> sound_write U T db db2"
  unfolding sound_write_def using facts_kept_trans by blast

lemma sound_write_ok: "sound_write U {} db db' \<Longrightarrow> provenance_ok db'"
  by (simp add: sound_write_def provenance_ok_def)

lemma sound_refl: "provenance_ok db \<Longrightarrow> sound_write U {} db db"
  by (simp add: sound_write_def provenance_ok_def facts_kept_nodes)

lemma next_rowid_fresh: "i \<in> mn_id ` set (sd_nodes db) \<Longrightarrow> i < next_rowid db"
proof -
  have "i \<le> foldr (\<lambda>n m. max (mn_id n) m) ns 0" if "i \<in> mn_id ` set ns" for ns :: "search_node list"
    using that by (induction ns) auto
  then show "i \<in> mn_id ` set (sd_nodes db) \<Longrightarrow> i < next_rowid db" by (simp add: next_rowid_def zle_add1_eq_le)
qed

lemma sources_known:
  "prov_core db \<Longrightarrow> p \<in> set (sd_sources db) \<Longrightarrow> fst p \<in> mn_id ` set (sd_nodes db)"
  unfolding prov_core_def by (metis image_eqI)

lemma new_node_sound:
  assumes "provenance_ok db" and "mn_id n \<notin> mn_id ` set (sd_nodes db)" and "sn_type n = Observation" and "sn_proof_count n = 0"
    and "mn_uuid n \<in> U"
  shows "sound_write U {} db (db\<lparr>sd_nodes := sd_nodes db @ [n], sd_vecs := vs\<rparr>)"
proof -
  have core: "prov_core db" and cnt: "counted_except {} db" using assms(1) by (simp_all add: provenance_ok_def)
  have p: "\<exists>x \<in> set (sd_nodes db). mn_id x = fst p \<and> sn_type x = Observation" "snd p \<in> mn_id ` set (sd_nodes db)"
    if "p \<in> set (sd_sources db)" for p using core that unfolding prov_core_def by auto
  have "filter (\<lambda>p. fst p = mn_id n) (sd_sources db) = []"
    using sources_known [OF core] assms(2) by (auto simp: filter_empty_conv)
  then have "proof_of db (mn_id n) = 0" by (simp add: proof_of_def)
  then have "counted_except {} (db\<lparr>sd_nodes := sd_nodes db @ [n], sd_vecs := vs\<rparr>)"
    using cnt assms(4) by (auto simp: counted_except_def proof_of_def)
  moreover have "prov_core (db\<lparr>sd_nodes := sd_nodes db @ [n], sd_vecs := vs\<rparr>)"
    using core assms(2) p by (auto simp: prov_core_def)
  moreover have "facts_kept U db (db\<lparr>sd_nodes := sd_nodes db @ [n], sd_vecs := vs\<rparr>)"
    by (rule facts_kept_same) (use assms(3,5) in \<open>auto simp: facts_of_def node_keys_def\<close>)
  ultimately show ?thesis by (simp add: sound_write_def)
qed

lemma counted_mono: "counted_except S db \<Longrightarrow> S \<subseteq> T \<Longrightarrow> counted_except T db"
  by (auto simp: counted_except_def)

lemma link_recount_sound:
  assumes s: "sound_write U {} db db1" and i: "obs_id db1 i"
  shows "sound_write U {} db (recount_proof (link_sources db1 i bank srcs) i)"
proof -
  have "prov_core db1" "counted_except (insert i {}) db1" using s by (auto simp: sound_write_def intro: counted_mono)
  then have "sound_write U (insert i {}) db1 (link_sources db1 i bank srcs)" "obs_id (link_sources db1 i bank srcs) i"
    using link_sources_sound [of db1 i "{}" U bank srcs] i by auto
  then show ?thesis using recount_sound [of U i "{}"] sound_write_trans [OF s] by blast
qed

lemma insert_observation_sound:
  assumes ok: "provenance_ok db" and e: "insert_observation banks uuids now db bank t v srcs = Inr (i, db')"
    and U: "range uuids \<subseteq> U"
  shows "sound_write U {} db db'" and "i = next_rowid db"
proof -
  obtain b where b: "vec_encode v = Inr b" "i = next_rowid db"
    and d: "db' = recount_proof (link_sources (db\<lparr>sd_nodes := sd_nodes db @ [new_observation bank t (uuids i) b i now],
                         sd_vecs := sd_vecs db @ [\<lparr>vr_rowid = i, vr_bank = bank, vr_embedding = b\<rparr>]\<rparr>) i bank srcs) i"
    using e by (auto simp: insert_observation_def Let_def split: sum.splits if_splits)
  have n: "mn_id (new_observation bank t (uuids i) b i now) = i" "sn_type (new_observation bank t (uuids i) b i now) = Observation"
    "sn_proof_count (new_observation bank t (uuids i) b i now) = 0" "mn_uuid (new_observation bank t (uuids i) b i now) \<in> U"
    using U by (auto simp: new_observation_def)
  have "i \<notin> mn_id ` set (sd_nodes db)" using next_rowid_fresh [of i db] b(2) by auto
  then show "sound_write U {} db db'"
    unfolding d by (intro link_recount_sound new_node_sound [OF ok]) (auto simp: n obs_id_def)
  show "i = next_rowid db" by (rule b(2))
qed

lemma text_keys: "keeps_keys (\<lambda>n. n\<lparr>mn_new := (mn_new n)\<lparr>nn_text := t\<rparr>, mn_embedded := False, sn_embedding := None, mn_updated_at := now\<rparr>)"
  by (simp add: keeps_keys_def)

lemma map_node_sound:
  "keeps_keys f \<Longrightarrow> (\<And>n. sn_proof_count (f n) = sn_proof_count n) \<Longrightarrow> sound_write U S db db1 \<Longrightarrow> obs_id db1 i
   \<Longrightarrow> sound_write U S db (map_node i f db1)"
  unfolding sound_write_def by (blast intro: map_node_core map_node_facts map_node_counted facts_kept_trans)

lemma update_text_sound: "sound_write U S db db1 \<Longrightarrow> obs_id db1 i \<Longrightarrow> sound_write U S db (search_update_text db1 i t now)"
  unfolding search_update_text_def by (rule map_node_sound [OF text_keys]) simp_all

lemma update_text_obs [simp]: "obs_id (search_update_text db i t now) j = obs_id db j"
  unfolding search_update_text_def by (rule map_node_obs [OF text_keys])

lemma vecs_sound: "sound_write U S db db1 \<Longrightarrow> sound_write U S db (db1\<lparr>sd_vecs := vs\<rparr>)"
  by (simp add: sound_write_def prov_core_def counted_except_def facts_kept_def facts_of_def node_keys_def proof_of_def)

lemma set_embedding_sound:
  "sound_write U S db db1 \<Longrightarrow> obs_id db1 i \<Longrightarrow> set_embedding db1 i bank v now = Inr db2 \<Longrightarrow> sound_write U S db db2"
  unfolding set_embedding_def
  by (auto simp: keeps_keys_def split: sum.splits intro!: vecs_sound map_node_sound)

lemma find_hit: "find P xs = Some x \<Longrightarrow> x \<in> set xs \<and> P x"
  by (auto simp: find_Some_iff)

lemma move_sources_sound:
  assumes ok: "provenance_ok db" and ko: "obs_id db k"
  shows "sound_write U {k} db (move_sources db k d)"
proof -
  have core: "prov_core db" and cnt: "counted_except {} db" using ok by (simp_all add: provenance_ok_def)
  have "distinct (sd_sources (move_sources db k d))" using core
    by (auto simp: move_sources_def prov_core_def distinct_map inj_on_def prod_eq_iff intro!: distinct_filter)
  moreover have "proof_of (move_sources db k d) j = proof_of db j" if "j \<noteq> k" for j
    using that by (auto simp: move_sources_def proof_of_def filter_empty_conv)
  ultimately show ?thesis
    using core cnt ko by (auto simp: sound_write_def move_sources_def prov_core_def counted_except_def obs_id_def intro: facts_kept_nodes)
qed

lemma move_sources_obs [simp]: "obs_id (move_sources db k d) j = obs_id db j"
  by (simp add: move_sources_def obs_id_def)

lemma merge_observation_sound:
  assumes ok: "provenance_ok db" and e: "merge_observation db bank ku du t now = Inr (i, c, db')"
  shows "sound_write U {} db db' \<and> obs_id db' i \<and> c = proof_of db' i"
proof -
  obtain k d where k: "find (is_observation bank ku) (sd_nodes db) = Some k" and d: "find (is_observation bank du) (sd_nodes db) = Some d"
    using e by (auto simp: merge_observation_def split: option.splits)
  define db1 where "db1 = move_sources db (mn_id k) (mn_id d)"
  define db2 where "db2 = (if sn_text k \<noteq> t then search_update_text db1 (mn_id k) t now else db1)"
  obtain n where i: "i = mn_id k" and n: "find (\<lambda>n. mn_id n = mn_id k) (sd_nodes db') = Some n" "c = sn_proof_count n"
    and db': "db' = recount_all [mn_id k] (snd (delete_where (\<lambda>n. mn_id n = mn_id d) db2))"
    using e unfolding merge_observation_def k d option.case prod.case Let_def
    by (fold db1_def, fold db2_def) (auto simp: recount_all_def split: option.splits)
  have ko: "obs_id db (mn_id k)" "obs_id db (mn_id d)"
    using find_hit [OF k] find_hit [OF d] by (auto simp: obs_id_def is_observation_def)
  then have s1: "sound_write U {mn_id k} db db1" "obs_id db1 (mn_id k)" "obs_id db1 (mn_id d)"
    using move_sources_sound [OF ok ko(1)] by (simp_all add: db1_def)
  then have s2: "sound_write U {mn_id k} db db2" "obs_id db2 (mn_id d)"
    by (auto simp: db2_def update_text_sound)
  have "sn_type m = Observation" if "m \<in> set (sd_nodes db2)" "mn_id m = mn_id d" for m
    using obs_not_fact [OF _ s2(2)] s2(1) that by (simp add: sound_write_def)
  then have s3: "sound_write U {mn_id k} db2 (snd (delete_where (\<lambda>n. mn_id n = mn_id d) db2))"
    using s2(1) by (intro delete_where_sound) (auto simp: sound_write_def)
  have nk: "mn_id k = mn_id n" "n \<in> set (sd_nodes db')" using find_hit [OF n(1)] by simp_all
  then have "mn_id k \<in> set (map mn_id (sd_nodes db'))" unfolding nk(1) by simp
  then have "mn_id k \<in> set (map mn_id (sd_nodes (snd (delete_where (\<lambda>n. mn_id n = mn_id d) db2))))" by (simp only: db' recount_all_sel)
  then have "mn_id k \<notin> mn_id ` {n \<in> set (sd_nodes db2). mn_id n = mn_id d}" unfolding delete_where_ids by simp
  moreover have "obs_id db2 (mn_id k)" using s1(2) by (simp add: db2_def)
  ultimately have o: "obs_id (snd (delete_where (\<lambda>n. mn_id n = mn_id d) db2)) (mn_id k)" unfolding delete_where_obs by blast
  have "sound_write U {} db db'" unfolding db'
    by (rule recount_all_sound) (use sound_write_trans [OF s2(1) s3] o in simp_all)
  moreover have "c = proof_of db' i" using find_hit [OF n(1)] n(2) calculation i by (auto simp: sound_write_def counted_except_def)
  ultimately show ?thesis using o by (simp add: i db')
qed

lemma apply_creates_sound:
  "provenance_ok db \<Longrightarrow> apply_creates banks uuids now bank cs db = Inr (ids, db') \<Longrightarrow> range uuids \<subseteq> U \<Longrightarrow> sound_write U {} db db'"
proof (induction cs arbitrary: db ids)
  case (Cons c cs)
  obtain i db1 ids1 where i: "insert_observation banks uuids now db bank (pc_text c) (pc_embedding c) (pc_sources c) = Inr (i, db1)"
    and r: "apply_creates banks uuids now bank cs db1 = Inr (ids1, db')"
    using Cons.prems(2) by (auto split: sum.splits)
  have s: "sound_write U {} db db1" by (rule insert_observation_sound [OF Cons.prems(1) i Cons.prems(3)])
  then show ?case using Cons.IH [OF sound_write_ok [OF s] r Cons.prems(3)] sound_write_trans by blast
qed (simp add: sound_refl)

lemma apply_update_one_sound:
  assumes "provenance_ok (snd st)"
  shows "sound_write U {} (snd st) (snd (apply_update_one now bank u st))"
proof (cases "find (is_observation bank (pu_uuid u)) (sd_nodes (snd st))")
  case None
  then show ?thesis using assms by (simp add: apply_update_one_def sound_refl)
next
  case (Some n)
  then have o: "obs_id (snd st) (mn_id n)" using find_hit [OF Some] by (auto simp: obs_id_def is_observation_def)
  define db1 where "db1 = (if sn_text n \<noteq> pu_text u then search_update_text (snd st) (mn_id n) (pu_text u) now else snd st)"
  have "sound_write U {} (snd st) db1" "obs_id db1 (mn_id n)"
    using sound_refl [OF assms] o by (simp_all add: db1_def update_text_sound)
  then have "sound_write U {} (snd st) (recount_proof (link_sources db1 (mn_id n) bank (pu_sources u)) (mn_id n))"
    by (rule link_recount_sound)
  then show ?thesis using Some by (simp add: apply_update_one_def db1_def Let_def)
qed

lemma apply_delete_one_sound:
  assumes "provenance_ok (snd st)"
  shows "sound_write U {} (snd st) (snd (apply_delete_one bank u st))"
proof -
  have "sound_write U {} (snd st) (snd (delete_where (is_observation bank u) (snd st)))"
    using assms by (intro delete_where_sound) (auto simp: provenance_ok_def is_observation_def)
  then show ?thesis by (simp add: apply_delete_one_def split_beta)
qed

lemma fold_sound:
  assumes "\<And>x st. provenance_ok (snd st) \<Longrightarrow> sound_write U {} (snd st) (snd (f x st))"
  shows "provenance_ok (snd st) \<Longrightarrow> sound_write U {} (snd st) (snd (fold f xs st))"
proof (induction xs arbitrary: st)
  case (Cons x xs)
  have s: "sound_write U {} (snd st) (snd (f x st))" by (rule assms [OF Cons.prems])
  then show ?case using Cons.IH [OF sound_write_ok [OF s]] sound_write_trans by auto
qed (simp add: sound_refl)

lemma apply_plan_sound:
  assumes ok: "provenance_ok db" and e: "apply_plan banks uuids now db bank cs us ds = Inr (res, db')"
    and U: "range uuids \<subseteq> U"
  shows "sound_write U {} db db'"
proof -
  obtain ids db1 where c: "apply_creates banks uuids now bank cs db = Inr (ids, db1)"
    using e by (auto simp: apply_plan_def split: sum.splits)
  define st2 where "st2 = fold (apply_update_one now bank) us ([], db1)"
  define st3 where "st3 = fold (apply_delete_one bank) ds (0, snd st2)"
  have d: "db' = snd st3" using e by (auto simp: apply_plan_def c st2_def st3_def Let_def split: prod.splits)
  have s1: "sound_write U {} db db1" by (rule apply_creates_sound [OF ok c U])
  have s2: "sound_write U {} db1 (snd st2)"
    using fold_sound [of U "apply_update_one now bank", OF apply_update_one_sound, of "([], db1)"] sound_write_ok [OF s1]
    by (simp add: st2_def)
  have "sound_write U {} (snd st2) (snd st3)"
    using fold_sound [of U "apply_delete_one bank", OF apply_delete_one_sound, of "(0, snd st2)"] sound_write_ok [OF s2]
    by (simp add: st3_def)
  then show ?thesis unfolding d using s1 s2 sound_write_trans by blast
qed

end
