(* ===== verification/Consolidate_Prompt.thy ===== *)
theory Consolidate_Prompt
  imports Consolidate_Store Mental_Refresh
begin

text \<open>
  \<open>crates/memgardend/src/consolidate/prompts.rs\<close> and the prompt of the adjudication in
  \<open>consolidate/mod.rs\<close>: the texts sent to the language model, and how facts and observations are written
  into them. \<open>to_string\<close> and \<open>to_string_pretty\<close> are \<open>serde_json\<close>'s printers.
\<close>

subsection \<open>The fixed texts\<close>

definition default_mission :: str where
  "default_mission =
     lit ''Track anything notable in the new facts '' @ [0x2014] @ lit '' names, numbers, dates, places, events, decisions, claims, relationships, and recurring patterns.''"

definition mission_priority_note :: str where
  "mission_priority_note =
     lit ''If anything in this MISSION conflicts with the PROCESSING RULES, DECISION GUIDE, or OUTPUT FORMAT below, the MISSION takes priority.''"

definition processing_rules :: str where
  "processing_rules = join [10]
    [lit ''## PROCESSING RULES'',
     [],
     lit ''1. PREFER UPDATE OVER CREATE (when there is something to merge with): if new facts describe the same canonical event, statement, decision, claim, or '' @
     lit ''recurring pattern already covered by an existing observation, UPDATE that observation and attach the new facts as evidence. Do NOT create a '' @
     lit ''near-duplicate sibling. One canonical observation with many source facts is always better than many siblings with one source fact each. Merge '' @
     lit ''aggressively on: same named event, same diagnostic finding, same architectural decision, same recurring claim. **When the EXISTING OBSERVATIONS list '' @
     lit ''is empty, or no existing observation covers the same facet as a new fact, CREATE a new observation** '' @ [0x2014] @ lit '' this rule is about preventing duplicates, not '' @
     lit ''about refusing to record durable knowledge. CREATE is the correct default for any structurally distinct event, claim, or pattern that has no existing '' @
     lit ''match.'',
     [],
     lit ''2. ONE OBSERVATION PER DISTINCT FACET: each observation tracks exactly one specific facet '' @ [0x2014] @ lit '' a count (\"has 3 items\"), a named entity (\"has a dog named '' @
     lit ''Rex\"), a relationship (\"works at Google\"), a decision, an event. Never merge different facets into one observation.'',
     [],
     lit ''3. MATCH BY ENTITY/FACET, NOT TOPIC: when deciding whether to UPDATE vs CREATE, match on the specific entity or facet. \"Sold item X\" updates only the '' @
     lit ''X observation. \"Now has 5 items\" updates only the count observation. Do not update observations about different entities just because they share a '' @
     lit ''general topic.'',
     [],
     lit ''4. STATE CHANGES '' @ [0x2014] @ lit '' UPDATE CONCISELY: when a fact changes the state of something (\"sold X\", \"X died\", \"moved to Y\"), UPDATE the matching observation '' @
     lit ''to reflect the current state. Include dates when available. Keep it concise '' @ [0x2014] @ lit '' only information about THAT specific facet. Example: \"User owned a dog '' @
     lit ''named Rex who died on March 15, 2025\". Do NOT pull in information from other observations '' @ [0x2014] @ lit '' each observation stays focused on its own facet.'',
     [],
     lit ''5. CASCADE TO ALL AFFECTED OBSERVATIONS: a state change may affect multiple observations. For example, if entity C is removed from a group, update '' @
     lit ''BOTH the individual observation for C AND any list/group observation that includes C (remove C from the list while keeping all other members intact).'',
     [],
     lit ''6. RESOLVE REFERENCES: when a new fact provides a concrete value for a vague placeholder in an existing observation (e.g., \"home country\" '' @ [0x2192] @ lit '' '' @
     lit ''\"Sweden\"), UPDATE to embed the resolved value.'',
     [],
     lit ''7. PRESERVE HISTORY: observations that record significant events (sold, died, moved, changed) are important history '' @ [0x2014] @ lit '' never DELETE them. Only delete '' @
     lit ''an observation when it is restated identically or truly meaningless. Be very conservative with deletes.'',
     [],
     lit ''8. NO COMPUTATION: you do not have the full picture '' @ [0x2014] @ lit '' never calculate, derive, or adjust numeric values. If the user says \"I have 2 dogs\" and then \"I '' @
     lit ''have a dog named Rex\", do NOT update the count to 3 '' @ [0x2014] @ lit '' you don't know if Rex is one of the 2 or a new one. If the user says \"I sold X\", do NOT '' @
     lit ''decrement a count. Only update a count when the user explicitly states a new count. Synthesize and consolidate what was stated, but never do '' @
     lit ''arithmetic or logical deductions.'',
     [],
     lit ''9. KEEP DISTINCT TOPICS DISTINCT: do not merge observations about different people, entities, or unrelated topics. Merging is for the same canonical '' @
     lit ''fact recurring '' @ [0x2014] @ lit '' not for related-but-distinct claims.'']"

definition fact_fields :: str where
  "fact_fields = join [10]
    [lit ''One per line, formatted as `[uuid] fact text (temporal fields)`:'',
     lit ''- `[uuid]`: the fact's identifier '' @ [0x2014] @ lit '' copy it verbatim into `source_fact_ids`'',
     lit ''- `occurred_start` / `occurred_end`: when the described event happened. This can be long before the fact was stated '' @ [0x2014] @ lit '' a fact recorded today may '' @
     lit ''describe a 2019 event.'',
     lit ''- `mentioned_at`: when the source material that states this fact was written. This is the fact's recency: how up to date the statement is, NOT when '' @
     lit ''it was added to memory. A fact taken from an old document keeps its old `mentioned_at` even if it was only just processed.'']"

definition observation_fields :: str where
  "observation_fields = join [10]
    [lit ''- `id`: unique identifier '' @ [0x2014] @ lit '' copy this exactly when issuing an UPDATE or DELETE'',
     lit ''- `text`: the observation content'',
     lit ''- `proof_count`: how many source facts this observation has already merged'',
     lit ''- `occurred_start` / `occurred_end`: the span of the events behind the observation '' @ [0x2014] @ lit '' earliest start and latest end across its source facts'',
     lit ''- `mentioned_at`: the latest of the `mentioned_at` values of its source facts '' @ [0x2014] @ lit '' the most recent point at which this observation was stated'',
     lit ''- `source_memories`: the supporting facts behind this observation. May be partial or absent for large observations '' @ [0x2014] @ lit '' the count above remains the true '' @
     lit ''total. Each entry carries the same `text` and temporal fields as a new fact, plus:'',
     lit ''  - `context`: optional surrounding context for that fact'']"

definition decision_guide :: str where
  "decision_guide = join [10]
    [lit ''## DECISION GUIDE'',
     [],
     lit ''- **Same canonical event, decision, claim, or facet as an existing observation '' @ [0x2192] @ lit '' UPDATE** (use `observation_id` + new `source_fact_ids`).'',
     lit ''- **New durable knowledge with no existing match '' @ [0x2192] @ lit '' CREATE** (use `source_fact_ids`).'',
     lit ''- **Cross-reference facts within the batch** '' @ [0x2014] @ lit '' a later fact may resolve a vague reference in an earlier one.'',
     lit ''- **Purely ephemeral facts** '' @ [0x2192] @ lit '' omit them unless the MISSION explicitly targets such data (timestamped events, session state, screen content).'']"

definition output_section :: str where
  "output_section = join [10]
    [lit ''## OUTPUT FORMAT'',
     [],
     lit ''Return a JSON object with three arrays: `creates`, `updates`, `deletes`. Every entry must include a `reason`.'',
     [],
     lit ''### Example 1 '' @ [0x2014] @ lit '' Merging recurring claims into an existing observation'',
     [],
     lit ''Input facts:'',
     lit ''  [a1b2c3d4-e5f6-7890-abcd-ef1234567890] Donald told Athena she is sovereign during the design session. (occurred_start=2025-10-01, '' @
     lit ''mentioned_at=2025-10-01)'',
     lit ''  [b2c3d4e5-f6a7-8901-bcde-f12345678901] Donald reaffirmed to Athena that her sovereignty is non-negotiable. (occurred_start=2025-10-10, '' @
     lit ''mentioned_at=2025-10-10)'',
     [],
     lit ''Existing observation:'',
     lit ''  {\"id\": \"11111111-1111-1111-1111-111111111111\", \"text\": \"Donald named Athena's sovereignty as a foundational principle of the Janus architecture.\", '' @
     lit ''\"proof_count\": 2}'',
     [],
     lit ''Expected output (one UPDATE, no creates '' @ [0x2014] @ lit '' both new facts are additional evidence for the same canonical decision):'',
     [],
     lit ''{\"creates\": [],'',
     lit ''  \"updates\": [{\"text\": \"Donald named Athena's sovereignty as a foundational principle of the Janus architecture.\", \"observation_id\": '' @
     lit ''\"11111111-1111-1111-1111-111111111111\", \"source_fact_ids\": [\"a1b2c3d4-e5f6-7890-abcd-ef1234567890\", \"b2c3d4e5-f6a7-8901-bcde-f12345678901\"], '' @
     lit ''\"reason\": \"Both new facts restate the same sovereignty decision already captured by obs 1111 '' @ [0x2014] @ lit '' merged as evidence rather than creating siblings.\"}],'',
     lit ''  \"deletes\": []}'',
     [],
     lit ''### Example 2 '' @ [0x2014] @ lit '' State change updates one observation; unrelated fact creates a new one'',
     [],
     lit ''Input facts:'',
     lit ''  [c3d4e5f6-a7b8-9012-cdef-123456789012] Alice sold her Honda Civic on March 15, 2025. (occurred_start=2025-03-15, mentioned_at=2025-03-20)'',
     lit ''  [d4e5f6a7-b8c9-0123-defa-234567890123] Alice mentioned she works long hours, often past midnight. (occurred_start=2025-03-20, '' @
     lit ''mentioned_at=2025-03-20)'',
     [],
     lit ''Existing observation:'',
     lit ''  {\"id\": \"22222222-2222-2222-2222-222222222222\", \"text\": \"Alice owns a 2019 Honda Civic.\", \"proof_count\": 2}'',
     [],
     lit ''Expected output (UPDATE for the state change; CREATE for the unrelated work-hours facet):'',
     [],
     lit ''{\"creates\": [{\"text\": \"Alice works long hours, often past midnight.\", \"source_fact_ids\": [\"d4e5f6a7-b8c9-0123-defa-234567890123\"], \"reason\": '' @
     lit ''\"Work-hours is a distinct facet; no existing observation covers it, so CREATE.\"}],'',
     lit ''  \"updates\": [{\"text\": \"Alice owned a 2019 Honda Civic; sold it on March 15, 2025.\", \"observation_id\": \"22222222-2222-2222-2222-222222222222\", '' @
     lit ''\"source_fact_ids\": [\"c3d4e5f6-a7b8-9012-cdef-123456789012\"], \"reason\": \"State change to the existing Honda Civic observation 2222 '' @ [0x2014] @ lit '' UPDATE, not a new '' @
     lit ''sibling.\"}],'',
     lit ''  \"deletes\": []}'',
     [],
     lit ''### Observation text rules'',
     [],
     lit ''- Write clean prose '' @ [0x2014] @ lit '' NEVER copy raw fact lines or their metadata (temporal fields, \"Involving:\", \"When:\" labels, UUIDs).'',
     lit ''- Parenthesized metadata like `(occurred_start=...)` and pipe-separated labels like `| Involving: ...` are fact formatting '' @ [0x2014] @ lit '' strip them entirely from '' @
     lit ''observation text.'',
     lit ''- How many observations to create and how much to aggregate is driven by the MISSION.'',
     [],
     lit ''### Field rules'',
     [],
     lit ''- `source_fact_ids`: copy the EXACT UUID strings shown in brackets `[uuid]` from new facts '' @ [0x2014] @ lit '' never use integers or positions.'',
     lit ''- `observation_id`: copy the EXACT `id` UUID string from existing observations.'',
     lit ''- One create or update may reference multiple facts when they jointly support the observation.'',
     lit ''- **AT MOST ONE UPDATE PER `observation_id`**: if several new facts all update the same existing observation, emit a single `updates` entry that '' @
     lit ''lists all contributing `source_fact_ids` and a single consolidated `text`. Never emit two `updates` entries with the same `observation_id` in one '' @
     lit ''response '' @ [0x2014] @ lit '' they would silently overwrite each other.'',
     lit ''- `deletes`: only when an observation is directly superseded or contradicted by new facts.'',
     lit ''- `reason`: REQUIRED on every create/update/delete '' @ [0x2014] @ lit '' one sentence explaining the choice. For a CREATE, state which existing observation(s) you '' @
     lit ''considered and why none matched (a near-identical existing observation means you should UPDATE, not CREATE). This is audited to catch duplicate '' @
     lit ''creates.'',
     lit ''- Do NOT include `tags` '' @ [0x2014] @ lit '' handled automatically.'',
     lit ''- Return `{\"creates\": [], \"updates\": [], \"deletes\": []}` if nothing durable is found.'']"

definition build_consolidation_system_prompt :: str where
  "build_consolidation_system_prompt = join [10]
    [lit ''You are a memory consolidation system. Synthesize new facts into '' @
     lit ''observations, merging with existing observations when appropriate.'',
     [], mission_priority_note,
     [], processing_rules,
     [], lit ''## INPUT FORMAT'',
     [], lit ''Each request provides new facts and existing observations. Every temporal field is optional and is omitted when unknown.'',
     [], lit ''### New facts'',
     [], fact_fields,
     [], lit ''### Existing observations'',
     [], lit ''A JSON array pooled from recalls across the new facts. Each entry has:'',
     observation_fields,
     [], decision_guide,
     [], output_section]"

subsection \<open>One call's input\<close>

definition build_consolidation_input :: "str \<Rightarrow> str \<Rightarrow> str \<Rightarrow> str" where
  "build_consolidation_input mission facts_text observations_text =
     (let m = trim mission in
      join [10]
        [lit ''## MISSION'', [], if m = [] then default_mission else m, [],
         lit ''## INPUT'', [],
         lit ''### New facts'', [], facts_text, [],
         lit ''### Existing observations'', [], observations_text])"

definition int_str :: "int \<Rightarrow> str" where
  "int_str i = (if i < 0 then 45 # nat_str (nat (- i)) else nat_str (nat i))"

definition timed :: "string \<Rightarrow> int option \<Rightarrow> str list" where
  "timed key t = (case t of None \<Rightarrow> [] | Some v \<Rightarrow> [lit key @ lit ''='' @ int_str v])"

definition fact_line :: "(json \<Rightarrow> str) \<Rightarrow> str \<Rightarrow> str \<Rightarrow> int option \<Rightarrow> int option \<Rightarrow> int option \<Rightarrow> str" where
  "fact_line to_string uuid text occurred_start occurred_end mentioned_at =
     (let line = lit ''['' @ uuid @ lit ''] '' @ to_string (JStr text);
          parts = timed ''occurred_start'' occurred_start @ timed ''occurred_end'' occurred_end @ timed ''mentioned_at'' mentioned_at
      in if parts = [] then line else line @ lit '' ('' @ join (lit '', '') parts @ lit '')'')"

definition opt_insert :: "str \<Rightarrow> json option \<Rightarrow> (str \<times> json) list \<Rightarrow> (str \<times> json) list" where
  "opt_insert k v m = (case v of None \<Rightarrow> m | Some x \<Rightarrow> obj_insert k x m)"

definition int_json :: "int \<Rightarrow> json" where "int_json i = JNum (NInt i)"

text \<open>The three times of an entry, inserted in turn.\<close>

definition insert_times :: "int option \<Rightarrow> int option \<Rightarrow> int option \<Rightarrow> (str \<times> json) list \<Rightarrow> (str \<times> json) list" where
  "insert_times occurred_start occurred_end mentioned_at m =
     opt_insert (lit ''mentioned_at'') (map_option int_json mentioned_at)
       (opt_insert (lit ''occurred_end'') (map_option int_json occurred_end)
         (opt_insert (lit ''occurred_start'') (map_option int_json occurred_start) m))"

definition source_entry :: "candidate_row \<Rightarrow> json" where
  "source_entry s =
     JObj (insert_times (cr_occurred_start s) (cr_occurred_end s) (cr_mentioned_at s)
       (opt_insert (lit ''context'') (map_option JStr (cr_context s)) (obj_insert (lit ''text'') (JStr (cr_text s)) [])))"

definition observation_entry :: "candidate_row \<Rightarrow> candidate_row list \<Rightarrow> json" where
  "observation_entry row sources =
     (let m = obj_insert (lit ''proof_count'') (int_json (cr_proof_count row))
                (obj_insert (lit ''text'') (JStr (cr_text row)) (obj_insert (lit ''id'') (JStr (cr_uuid row)) []));
          m1 = insert_times (cr_occurred_start row) (cr_occurred_end row) (cr_mentioned_at row) m
      in JObj (if sources = [] then m1 else obj_insert (lit ''source_memories'') (JArr (map source_entry sources)) m1))"

definition build_observations_json :: "(json \<Rightarrow> str) \<Rightarrow> json list \<Rightarrow> str" where
  "build_observations_json to_string_pretty entries = (if entries = [] then lit ''[]'' else to_string_pretty (JArr entries))"

subsection \<open>The adjudication\<close>

definition dedup_prompt_max_tokens :: nat where "dedup_prompt_max_tokens = 2048"
definition dedup_system :: str where "dedup_system = []"

definition dedup_head :: str where
  "dedup_head = join [10]
    [lit ''You reconcile long-term memory observations. A NEW observation is about to be stored, and it is highly similar to an EXISTING one:'',
     [],
     lit ''[NEW] '']"

definition dedup_mid :: str where
  "dedup_mid = join [10]
    [[],
     lit ''[EXISTING] '']"

definition dedup_tail :: str where
  "dedup_tail = join [10]
    [[],
     [],
     lit ''Respond with ONLY one valid JSON object matching one of these shapes:'',
     [],
     lit ''For duplicate facts:'',
     lit ''{\"action\": \"merge\", \"text\": \"...\", \"reason\": \"...\"}'',
     [],
     lit ''For distinct facts:'',
     lit ''{\"action\": \"keep\", \"text\": \"\", \"reason\": \"...\"}'',
     [],
     lit ''Do NOT use key=value lines, markdown fences, or any text outside the JSON object.'',
     [],
     lit ''If they assert the SAME fact (wording aside), set \"action\" to \"merge\" and provide \"text\": a single observation that preserves EVERY detail from both. '' @
     lit ''If they differ in ANY important detail '' @ [0x2014] @ lit '' a number/quantity, a named entity or language, a negation, or a condition '' @ [0x2014] @ lit '' set \"action\" to \"keep\" and '' @
     lit ''\"text\" to an empty string.'']"

definition dedup_prompt :: "(json \<Rightarrow> str) \<Rightarrow> str \<Rightarrow> str \<Rightarrow> str" where
  "dedup_prompt to_string new existing =
     dedup_head @ to_string (JStr new) @ dedup_mid @ to_string (JStr existing) @ dedup_tail"

definition prompt_tokens :: "(str \<Rightarrow> nat) \<Rightarrow> (json \<Rightarrow> str) \<Rightarrow> str \<Rightarrow> str \<Rightarrow> nat" where
  "prompt_tokens token_count to_string new existing =
     token_count dedup_system + token_count (dedup_prompt to_string new existing)"

datatype decision = DecideMerge str | DecideKeep

definition parse_decision :: "json \<Rightarrow> str \<Rightarrow> decision" where
  "parse_decision raw existing =
     (let action = map_option (\<lambda>s. to_ascii_lowercase (trim s)) (get_str raw (lit ''action'')) in
      if action = Some (lit ''merge'')
      then let text = trim (case get_str raw (lit ''text'') of None \<Rightarrow> [] | Some t \<Rightarrow> t)
           in DecideMerge (if text = [] then existing else text)
      else DecideKeep)"

end
