(* ===== verification/Consolidate_Round.thy ===== *)
theory Consolidate_Round
  imports Consolidate_Prompt
begin

text \<open>
  \<open>crates/memgardend/src/consolidate/round.rs\<close> and \<open>consolidate/mod.rs\<close>: one round of consolidation over one
  bank, from the facts above the watermark to the row that records the round. \<open>batch_io\<close> holds what the
  handling of one batch meets outside the database; the answers of the language model may differ from attempt
  to attempt and from call to call. The cosine of two vectors is computed in floating point and is a field.
  No other writer is at work between the transactions of a round, and the embedder is loaded or not for a
  whole batch. The rows that record the round's start and end are written without an error, and a round that
  is dropped at the deadline of its pass is \<open>Consolidate_Tick\<close>'s.
\<close>

subsection \<open>Deduplication of one observation\<close>

definition dedup_top_k :: nat where "dedup_top_k = 5"

record consolidation_config =
  cc_dedup_threshold :: f64
  cc_batch_size :: nat
  cc_llm_batch_size :: nat
  cc_max_attempts :: nat
  cc_recall_budget :: str
  cc_max_tokens :: nat

record batch_io =
  bi_now :: int
  bi_uuids :: "int \<Rightarrow> str"
  bi_banks :: "str set"
  bi_recall_env :: recall_env
  bi_recall_config :: recall_config
  bi_embed :: "str \<Rightarrow> f32 list option"
  bi_cosine :: "f32 list \<Rightarrow> f32 list \<Rightarrow> f64"
  bi_to_string :: "json \<Rightarrow> str"
  bi_to_string_pretty :: "json \<Rightarrow> str"
  bi_chat :: "nat \<Rightarrow> str \<Rightarrow> str \<Rightarrow> json chat"
  bi_judge :: "int \<Rightarrow> str \<Rightarrow> str \<Rightarrow> json chat"

abbreviation bi_tokens :: "batch_io \<Rightarrow> str \<Rightarrow> nat" where
  "bi_tokens io \<equiv> re_token_count (bi_recall_env io)"

datatype dedup_outcome = Created int | Merged int int int

definition rank_candidates :: "(f32 list \<Rightarrow> f32 list \<Rightarrow> f64) \<Rightarrow> observation_vector list \<Rightarrow> f32 list \<Rightarrow> f64 \<Rightarrow> (f64 \<times> observation_vector) list" where
  "rank_candidates cosine candidates embedding threshold =
     take dedup_top_k (sort_key (\<lambda>p. - fst p)
       (filter (\<lambda>p. threshold \<le> fst p) (map (\<lambda>c. (cosine embedding (ov_embedding c), c)) candidates)))"

definition select_twin ::
  "batch_io \<Rightarrow> search_db \<Rightarrow> str \<Rightarrow> int \<Rightarrow> str \<Rightarrow> f32 list \<Rightarrow> f64 \<Rightarrow> mg_error + (str \<times> str \<times> str) option" where
  "select_twin io db bank new_id new_text embedding threshold =
     (case observation_vectors db bank new_id of
        Inl e \<Rightarrow> Inl e
      | Inr candidates \<Rightarrow>
          (case find (\<lambda>p. prompt_tokens (bi_tokens io) (bi_to_string io) new_text (ov_text (snd p)) \<le> dedup_prompt_max_tokens)
                  (rank_candidates (bi_cosine io) candidates embedding threshold) of
             None \<Rightarrow> Inr None
           | Some (sim, twin) \<Rightarrow>
               (case find (\<lambda>n. mn_id n = new_id) (sd_nodes db) of
                  None \<Rightarrow> Inl ErrNotFound
                | Some n \<Rightarrow> Inr (Some (ov_uuid twin, ov_text twin, mn_uuid n)))))"

definition adjudicate :: "batch_io \<Rightarrow> int \<Rightarrow> str \<Rightarrow> str \<Rightarrow> decision" where
  "adjudicate io i new_text twin_text =
     (case bi_judge io i dedup_system (dedup_prompt (bi_to_string io) new_text twin_text) of
        ChatReply value \<Rightarrow> parse_decision value twin_text
      | _ \<Rightarrow> DecideKeep)"

text \<open>The flag says whether the language model was asked.\<close>

definition dedup_created ::
  "batch_io \<Rightarrow> consolidation_config \<Rightarrow> search_db \<Rightarrow> str \<Rightarrow> int \<Rightarrow> str \<Rightarrow> f32 list \<Rightarrow> mg_error + (dedup_outcome \<times> bool \<times> search_db)" where
  "dedup_created io cfg db bank i text embedding =
     (if 1 \<le> cc_dedup_threshold cfg then Inr (Created i, False, db)
      else
        case select_twin io db bank i text embedding (cc_dedup_threshold cfg) of
          Inl e \<Rightarrow> Inl e
        | Inr None \<Rightarrow> Inr (Created i, False, db)
        | Inr (Some (twin_uuid, twin_text, own_uuid)) \<Rightarrow>
            (case adjudicate io i text twin_text of
               DecideKeep \<Rightarrow> Inr (Created i, True, db)
             | DecideMerge merged_text \<Rightarrow>
                 (case merge_observation db bank twin_uuid own_uuid merged_text (bi_now io) of
                    Inl e \<Rightarrow> Inl e
                  | Inr (into, proof_count, db') \<Rightarrow> Inr (Merged into i proof_count, True, db'))))"

definition store_observation ::
  "batch_io \<Rightarrow> consolidation_config \<Rightarrow> search_db \<Rightarrow> str \<Rightarrow> str \<Rightarrow> f32 list \<Rightarrow> int list \<Rightarrow> (mg_error + dedup_outcome) \<times> search_db" where
  "store_observation io cfg db bank text embedding sources =
     (case insert_observation (bi_banks io) (bi_uuids io) (bi_now io) db bank text embedding sources of
        Inl e \<Rightarrow> (Inl e, db)
      | Inr (i, db1) \<Rightarrow>
          (case dedup_created io cfg db1 bank i text embedding of
             Inl e \<Rightarrow> (Inl e, db1)
           | Inr (out, _, db2) \<Rightarrow> (Inr out, db2)))"

subsection \<open>The pool of observations and the prompt\<close>

definition consolidation_prompt_max_tokens :: nat where "consolidation_prompt_max_tokens = 6144"
definition max_adjudications_per_round :: nat where "max_adjudications_per_round = 8"
definition max_deletes_per_plan :: nat where "max_deletes_per_plan = 2"
definition source_facts_max_tokens_per_observation :: nat where "source_facts_max_tokens_per_observation = 256"
definition source_facts_max_tokens :: nat where "source_facts_max_tokens = 1536"

record pooled_observation =
  po_row :: candidate_row
  po_sources :: "candidate_row list"

definition pool_params :: "recall_config \<Rightarrow> consolidation_config \<Rightarrow> str \<Rightarrow> int \<Rightarrow> recall_params" where
  "pool_params rcfg cfg query now =
     \<lparr>rp_query = query, rp_limit = rf_limit rcfg, rp_budget = cc_recall_budget cfg, rp_max_tokens = cc_max_tokens cfg,
      rp_fact_types = [Observation], rp_tags = [], rp_tags_match = AnyTags, rp_cap_per_source = rf_cap_per_source rcfg,
      rp_semantic_alpha = 0, rp_min_semantic = 0, rp_proof_alpha = 0, rp_exclude_uuids = [], rp_preamble = [],
      rp_now_ms = now\<rparr>"

fun ranked_ids :: "batch_io \<Rightarrow> consolidation_config \<Rightarrow> search_db \<Rightarrow> str \<Rightarrow> fact_row list \<Rightarrow> int list \<Rightarrow> mg_error + int list" where
  "ranked_ids io cfg db bank [] ranked = Inr ranked"
| "ranked_ids io cfg db bank (f # fs) ranked =
     (case recall (bi_recall_env io) db bank (pool_params (bi_recall_config io) cfg (fr_text f) (bi_now io)) of
        Inl e \<Rightarrow> Inl ErrStorage
      | Inr out \<Rightarrow>
          ranked_ids io cfg db bank fs
            (fold (\<lambda>i r. if i \<in> set r then r else r @ [i]) (map ri_id (ro_results out)) ranked))"

text \<open>\<open>rows\<close> is the map of the hydrated rows.\<close>

fun take_pool :: "(str \<Rightarrow> nat) \<Rightarrow> nat \<Rightarrow> (int \<Rightarrow> candidate_row option) \<Rightarrow> int list \<Rightarrow> nat \<Rightarrow> candidate_row list \<Rightarrow> candidate_row list" where
  "take_pool token_count cap rows [] spent pooled = pooled"
| "take_pool token_count cap rows (i # is) spent pooled =
     (case rows i of
        None \<Rightarrow> take_pool token_count cap rows is spent pooled
      | Some row \<Rightarrow>
          if cap < spent + token_count (cr_text row) \<and> pooled \<noteq> [] then pooled
          else take_pool token_count cap rows is (spent + token_count (cr_text row)) (pooled @ [row]))"

fun keep_sources :: "(str \<Rightarrow> nat) \<Rightarrow> nat \<Rightarrow> nat \<Rightarrow> candidate_row list \<Rightarrow> candidate_row list \<times> nat" where
  "keep_sources token_count per spent_all [] = ([], spent_all)"
| "keep_sources token_count per spent_all (s # ss) =
     (let cost = token_count (cr_text s) in
      if source_facts_max_tokens_per_observation < per + cost \<or> source_facts_max_tokens < spent_all + cost then ([], spent_all)
      else let (kept, spent_all') = keep_sources token_count (per + cost) (spent_all + cost) ss in (s # kept, spent_all'))"

fun attach_sources :: "(str \<Rightarrow> nat) \<Rightarrow> (int \<Rightarrow> candidate_row list) \<Rightarrow> nat \<Rightarrow> candidate_row list \<Rightarrow> pooled_observation list" where
  "attach_sources token_count sources spent_all [] = []"
| "attach_sources token_count sources spent_all (row # rows) =
     (let (kept, spent_all') = keep_sources token_count 0 spent_all (sources (cr_id row))
      in \<lparr>po_row = row, po_sources = kept\<rparr> # attach_sources token_count sources spent_all' rows)"

definition pool_observations ::
  "batch_io \<Rightarrow> consolidation_config \<Rightarrow> search_db \<Rightarrow> str \<Rightarrow> fact_row list \<Rightarrow> mg_error + pooled_observation list" where
  "pool_observations io cfg db bank facts =
     (case ranked_ids io cfg db bank facts [] of
        Inl e \<Rightarrow> Inl e
      | Inr ranked \<Rightarrow>
          if ranked = [] then Inr []
          else
            let sql_now = re_sql_now (bi_recall_env io);
                by_id = row_map_of (hydrate sql_now db bank ranked);
                pooled = take_pool (bi_tokens io) (cc_max_tokens cfg) by_id ranked 0 [];
                per_obs = map (\<lambda>row. (cr_id row, rev (sources_of db (cr_id row)))) pooled;
                all_sources = remdups (sort (concat (map snd per_obs)));
                source_row = row_map_of (hydrate sql_now db bank all_sources);
                sources = (\<lambda>i. case map_of (rev per_obs) i of None \<Rightarrow> [] | Some src \<Rightarrow> List.map_filter source_row src)
            in Inr (attach_sources (bi_tokens io) sources 0 pooled))"

definition facts_text :: "(json \<Rightarrow> str) \<Rightarrow> fact_row list \<Rightarrow> str" where
  "facts_text to_string facts =
     join [10] (map (\<lambda>f. fact_line to_string (fr_uuid f) (fr_text f) (fr_occurred_start f) (fr_occurred_end f) (fr_mentioned_at f)) facts)"

definition round_user :: "batch_io \<Rightarrow> str \<Rightarrow> fact_row list \<Rightarrow> pooled_observation list \<Rightarrow> str" where
  "round_user io mission facts pool =
     build_consolidation_input mission (facts_text (bi_to_string io) facts)
       (build_observations_json (bi_to_string_pretty io) (map (\<lambda>p. observation_entry (po_row p) (po_sources p)) pool))"

definition round_fits :: "batch_io \<Rightarrow> str \<Rightarrow> fact_row list \<Rightarrow> pooled_observation list \<Rightarrow> bool" where
  "round_fits io mission facts pool \<longleftrightarrow>
     bi_tokens io build_consolidation_system_prompt + bi_tokens io (round_user io mission facts pool)
       \<le> consolidation_prompt_max_tokens"

definition round_stop ::
  "batch_io \<Rightarrow> str \<Rightarrow> fact_row list \<Rightarrow> pooled_observation list \<Rightarrow> (str \<times> str \<times> pooled_observation list) option option" where
  "round_stop io mission facts pool =
     (if round_fits io mission facts pool
      then Some (Some (build_consolidation_system_prompt, round_user io mission facts pool, pool))
      else if pool = [] then Some None else None)"

definition assemble_round ::
  "batch_io \<Rightarrow> str \<Rightarrow> fact_row list \<Rightarrow> pooled_observation list \<Rightarrow> (str \<times> str \<times> pooled_observation list) option option" where
  "assemble_round io mission facts pool = shed_loop (round_stop io mission facts) butlast pool"

subsection \<open>The plan\<close>

record raw_create =
  rc_text :: str
  rc_source_fact_ids :: "str list"
  rc_reason :: str

record raw_update =
  ru_observation_id :: str
  ru_text :: str
  ru_source_fact_ids :: "str list"
  ru_reason :: str

record raw_delete =
  rd_observation_id :: str
  rd_reason :: str

record raw_plan =
  raw_creates :: "raw_create list"
  raw_updates :: "raw_update list"
  raw_deletes :: "raw_delete list"

text \<open>What \<open>serde\<close> derives for a struct of \<open>n\<close> defaulted fields: an object by name, other keys ignored, or an
  array by position, no longer than the struct.\<close>

definition struct_shape :: "nat \<Rightarrow> json \<Rightarrow> bool" where
  "struct_shape n v = (case v of JObj _ \<Rightarrow> True | JArr xs \<Rightarrow> length xs \<le> n | _ \<Rightarrow> False)"

definition struct_field :: "json \<Rightarrow> nat \<Rightarrow> string \<Rightarrow> 'a \<Rightarrow> (json \<Rightarrow> 'a option) \<Rightarrow> 'a option" where
  "struct_field v i key dflt read =
     (case v of
        JObj m \<Rightarrow> (case map_of m (lit key) of None \<Rightarrow> Some dflt | Some x \<Rightarrow> read x)
      | JArr xs \<Rightarrow> if i < length xs then read (xs ! i) else Some dflt
      | _ \<Rightarrow> None)"

definition read_list :: "(json \<Rightarrow> 'a option) \<Rightarrow> json \<Rightarrow> 'a list option" where
  "read_list read v = Option.bind (as_array v) (\<lambda>xs. those (map read xs))"

definition read_create :: "json \<Rightarrow> raw_create option" where
  "read_create v =
     (if \<not> struct_shape 3 v then None
      else case (struct_field v 0 ''text'' [] as_str, struct_field v 1 ''source_fact_ids'' [] (read_list as_str),
                 struct_field v 2 ''reason'' [] as_str) of
        (Some t, Some ids, Some r) \<Rightarrow> Some \<lparr>rc_text = t, rc_source_fact_ids = ids, rc_reason = r\<rparr>
      | _ \<Rightarrow> None)"

definition read_update :: "json \<Rightarrow> raw_update option" where
  "read_update v =
     (if \<not> struct_shape 4 v then None
      else case (struct_field v 0 ''observation_id'' [] as_str, struct_field v 1 ''text'' [] as_str,
                 struct_field v 2 ''source_fact_ids'' [] (read_list as_str), struct_field v 3 ''reason'' [] as_str) of
        (Some i, Some t, Some ids, Some r) \<Rightarrow> Some \<lparr>ru_observation_id = i, ru_text = t, ru_source_fact_ids = ids, ru_reason = r\<rparr>
      | _ \<Rightarrow> None)"

definition read_delete :: "json \<Rightarrow> raw_delete option" where
  "read_delete v =
     (if \<not> struct_shape 2 v then None
      else case (struct_field v 0 ''observation_id'' [] as_str, struct_field v 1 ''reason'' [] as_str) of
        (Some i, Some r) \<Rightarrow> Some \<lparr>rd_observation_id = i, rd_reason = r\<rparr>
      | _ \<Rightarrow> None)"

definition read_plan :: "json \<Rightarrow> raw_plan option" where
  "read_plan v =
     (if \<not> struct_shape 3 v then None
      else case (struct_field v 0 ''creates'' [] (read_list read_create), struct_field v 1 ''updates'' [] (read_list read_update),
                 struct_field v 2 ''deletes'' [] (read_list read_delete)) of
        (Some cs, Some us, Some ds) \<Rightarrow> Some \<lparr>raw_creates = cs, raw_updates = us, raw_deletes = ds\<rparr>
      | _ \<Rightarrow> None)"

record plan =
  pl_creates :: "(str \<times> int list) list"
  pl_updates :: "(str \<times> str \<times> int list) list"
  pl_deletes :: "str list"

datatype plan_error = UnparseablePlan | TwoUpdates str | TooManyDeletes nat

fun repeated_update :: "str set \<Rightarrow> raw_update list \<Rightarrow> str option" where
  "repeated_update seen [] = None"
| "repeated_update seen (u # us) =
     (if ru_observation_id u \<in> seen then Some (ru_observation_id u)
      else repeated_update (insert (ru_observation_id u) seen) us)"

definition resolve :: "(str \<Rightarrow> int option) \<Rightarrow> str list \<Rightarrow> int list option" where
  "resolve facts ids = (if ids = [] then None else those (map facts ids))"

definition valid_create :: "(str \<Rightarrow> int option) \<Rightarrow> raw_create \<Rightarrow> (str \<times> int list) option" where
  "valid_create facts c =
     (if trim (rc_reason c) = [] \<or> trim (rc_text c) = [] then None
      else map_option (\<lambda>srcs. (trim (rc_text c), srcs)) (resolve facts (rc_source_fact_ids c)))"

definition valid_update :: "(str \<Rightarrow> int option) \<Rightarrow> str set \<Rightarrow> raw_update \<Rightarrow> (str \<times> str \<times> int list) option" where
  "valid_update facts observations u =
     (if trim (ru_reason u) = [] \<or> trim (ru_text u) = [] \<or> ru_observation_id u \<notin> observations then None
      else map_option (\<lambda>srcs. (ru_observation_id u, trim (ru_text u), srcs)) (resolve facts (ru_source_fact_ids u)))"

definition valid_delete :: "str set \<Rightarrow> str set \<Rightarrow> raw_delete \<Rightarrow> bool" where
  "valid_delete observations updated d \<longleftrightarrow>
     trim (rd_reason d) \<noteq> [] \<and> rd_observation_id d \<in> observations \<and> rd_observation_id d \<notin> updated"

definition validate_plan :: "json \<Rightarrow> (str \<Rightarrow> int option) \<Rightarrow> str set \<Rightarrow> plan_error + plan" where
  "validate_plan raw facts observations =
     (case read_plan raw of
        None \<Rightarrow> Inl UnparseablePlan
      | Some p \<Rightarrow>
          (case repeated_update {} (raw_updates p) of
             Some u \<Rightarrow> Inl (TwoUpdates u)
           | None \<Rightarrow>
               if max_deletes_per_plan < length (raw_deletes p) then Inl (TooManyDeletes (length (raw_deletes p)))
               else
                 let updates = List.map_filter (valid_update facts observations) (raw_updates p)
                 in Inr \<lparr>pl_creates = List.map_filter (valid_create facts) (raw_creates p), pl_updates = updates,
                         pl_deletes = map rd_observation_id
                           (filter (valid_delete observations (set (map fst updates))) (raw_deletes p))\<rparr>))"

subsection \<open>One batch\<close>

datatype batch_outcome =
    Applied nat nat nat nat nat
  | Split
  | Dropped
  | Rejected
  | Skipped

text \<open>The attempts at a plan: the first that validates, and whether a call failed before it.\<close>

fun ask_for_plan :: "(nat \<Rightarrow> json chat) \<Rightarrow> (json \<Rightarrow> plan_error + plan) \<Rightarrow> nat list \<Rightarrow> bool \<Rightarrow> plan option \<times> bool" where
  "ask_for_plan chat check [] transport_failed = (None, transport_failed)"
| "ask_for_plan chat check (attempt # attempts) transport_failed =
     (case chat attempt of
        ChatReply v \<Rightarrow>
          (case check v of
             Inr p \<Rightarrow> (Some p, transport_failed)
           | Inl _ \<Rightarrow> ask_for_plan chat check attempts transport_failed)
      | _ \<Rightarrow> ask_for_plan chat check attempts True)"

fun embed_each :: "(str \<Rightarrow> f32 list option) \<Rightarrow> str list \<Rightarrow> mg_error + f32 list list" where
  "embed_each embed_one [] = Inr []"
| "embed_each embed_one (t # ts) =
     (case embed_one t of
        None \<Rightarrow> Inl ErrStorage
      | Some v \<Rightarrow> (case embed_each embed_one ts of Inl e \<Rightarrow> Inl e | Inr vs \<Rightarrow> Inr (v # vs)))"

type_synonym dedup_candidate = "int \<times> str \<times> f32 list"

text \<open>A rewritten observation is embedded at once; one that cannot be stays on the backlog and is no candidate.\<close>

fun embed_updated ::
  "batch_io \<Rightarrow> str \<Rightarrow> (str \<Rightarrow> str option) \<Rightarrow> (int \<times> str) list \<Rightarrow> search_db \<Rightarrow> dedup_candidate list \<times> search_db" where
  "embed_updated io bank text_of [] db = ([], db)"
| "embed_updated io bank text_of ((i, uuid) # us) db =
     (case text_of uuid of
        None \<Rightarrow> embed_updated io bank text_of us db
      | Some text \<Rightarrow>
          (case bi_embed io text of
             None \<Rightarrow> embed_updated io bank text_of us db
           | Some v \<Rightarrow>
               (case set_embedding db i bank v (bi_now io) of
                  Inl e \<Rightarrow> embed_updated io bank text_of us db
                | Inr db' \<Rightarrow>
                    let (cs, db'') = embed_updated io bank text_of us db' in ((i, text, v) # cs, db''))))"

definition reembed_merged_twin :: "batch_io \<Rightarrow> str \<Rightarrow> int \<Rightarrow> search_db \<Rightarrow> search_db" where
  "reembed_merged_twin io bank twin_id db =
     (case find (\<lambda>n. mn_id n = twin_id) (sd_nodes db) of
        None \<Rightarrow> db
      | Some n \<Rightarrow>
          (case bi_embed io (sn_text n) of
             None \<Rightarrow> db
           | Some v \<Rightarrow> (case set_embedding db twin_id bank v (bi_now io) of Inl e \<Rightarrow> db | Inr db' \<Rightarrow> db')))"

text \<open>The budget left, the merges and the adjudications, and the database even when an error ends the loop.\<close>

fun dedup_each ::
  "batch_io \<Rightarrow> consolidation_config \<Rightarrow> str \<Rightarrow> dedup_candidate list \<Rightarrow> nat \<Rightarrow> nat \<Rightarrow> nat \<Rightarrow> search_db
     \<Rightarrow> (mg_error + nat \<times> nat) \<times> nat \<times> search_db" where
  "dedup_each io cfg bank [] budget merges asked db = (Inr (merges, asked), budget, db)"
| "dedup_each io cfg bank ((i, text, v) # cs) budget merges asked db =
     (if budget = 0 then (Inr (merges, asked), budget, db)
      else
        case dedup_created io cfg db bank i text v of
          Inl e \<Rightarrow> (Inl e, budget, db)
        | Inr (out, adjudicated, db1) \<Rightarrow>
            let budget' = (if adjudicated then budget - 1 else budget);
                asked' = (if adjudicated then asked + 1 else asked)
            in (case out of
                  Merged into dropped proof_count \<Rightarrow>
                    dedup_each io cfg bank cs budget' (merges + 1) asked' (reembed_merged_twin io bank into db1)
                | Created i' \<Rightarrow> dedup_each io cfg bank cs budget' merges asked' db1))"

definition apply_and_dedup ::
  "batch_io \<Rightarrow> consolidation_config \<Rightarrow> search_db \<Rightarrow> str \<Rightarrow> plan \<Rightarrow> nat \<Rightarrow> (mg_error + batch_outcome) \<times> nat \<times> search_db" where
  "apply_and_dedup io cfg db bank p budget =
     (case embed_each (bi_embed io) (map fst (pl_creates p)) of
        Inl e \<Rightarrow> (Inl e, budget, db)
      | Inr vectors \<Rightarrow>
          (case apply_plan (bi_banks io) (bi_uuids io) (bi_now io) db bank
                  (map (\<lambda>((text, srcs), v). \<lparr>pc_text = text, pc_embedding = v, pc_sources = srcs\<rparr>) (zip (pl_creates p) vectors))
                  (map (\<lambda>(uuid, text, srcs). \<lparr>pu_uuid = uuid, pu_text = text, pu_sources = srcs\<rparr>) (pl_updates p))
                  (pl_deletes p) of
             Inl e \<Rightarrow> (Inl e, budget, db)
           | Inr (res, db1) \<Rightarrow>
               let fresh = map (\<lambda>(i, (text, srcs), v). (i, text, v)) (zip (ap_created res) (zip (pl_creates p) vectors));
                   text_of = map_of (rev (map (\<lambda>(uuid, text, srcs). (uuid, text)) (pl_updates p)));
                   (rewritten, db2) = embed_updated io bank text_of (ap_updated res) db1
               in (case dedup_each io cfg bank (fresh @ rewritten) budget 0 0 db2 of
                     (Inl e, budget', db3) \<Rightarrow> (Inl e, budget', db3)
                   | (Inr (merges, asked), budget', db3) \<Rightarrow>
                       (Inr (Applied (length (ap_created res)) (length (ap_updated res)) (ap_deleted res) merges asked),
                        budget', db3))))"

text \<open>The outer option is whether the prompt loop returned.\<close>

definition process_batch ::
  "batch_io \<Rightarrow> consolidation_config \<Rightarrow> search_db \<Rightarrow> str \<Rightarrow> str \<Rightarrow> fact_row list \<Rightarrow> nat
     \<Rightarrow> ((mg_error + batch_outcome) \<times> nat \<times> search_db) option" where
  "process_batch io cfg db bank mission facts budget =
     (case pool_observations io cfg db bank facts of
        Inl e \<Rightarrow> Some (Inl e, budget, db)
      | Inr pool0 \<Rightarrow>
          (case assemble_round io mission facts pool0 of
             None \<Rightarrow> None
           | Some None \<Rightarrow> Some (Inr (if 1 < length facts then Split else Dropped), budget, db)
           | Some (Some (system, user, pool)) \<Rightarrow>
               let by_fact_uuid = map_of (rev (map (\<lambda>f. (fr_uuid f, fr_id f)) facts));
                   pooled_uuids = set (map (\<lambda>p. cr_uuid (po_row p)) pool)
               in (case ask_for_plan (\<lambda>k. bi_chat io k system user) (\<lambda>v. validate_plan v by_fact_uuid pooled_uuids)
                          [1..<max 1 (cc_max_attempts cfg) + 1] False of
                     (None, transport_failed) \<Rightarrow> Some (Inr (if transport_failed then Skipped else Rejected), budget, db)
                   | (Some p, _) \<Rightarrow> Some (apply_and_dedup io cfg db bank p budget))))"

subsection \<open>The round\<close>

record round_summary =
  rs_run_id :: "int option"
  rs_facts_seen :: nat
  rs_created :: nat
  rs_updated :: nat
  rs_deleted :: nat
  rs_merged :: nat
  rs_batches :: nat
  rs_skipped_batches :: nat
  rs_dropped_facts :: nat
  rs_adjudications :: nat
  rs_deferred :: bool
  rs_watermark :: int

definition empty_summary :: "int option \<Rightarrow> nat \<Rightarrow> int \<Rightarrow> round_summary" where
  "empty_summary i seen wm =
     \<lparr>rs_run_id = i, rs_facts_seen = seen, rs_created = 0, rs_updated = 0, rs_deleted = 0, rs_merged = 0, rs_batches = 0,
      rs_skipped_batches = 0, rs_dropped_facts = 0, rs_adjudications = 0, rs_deferred = False, rs_watermark = wm\<rparr>"

definition summary_counts :: "round_summary \<Rightarrow> run_counts" where
  "summary_counts s =
     \<lparr>ct_facts_seen = int (rs_facts_seen s), ct_created = int (rs_created s), ct_updated = int (rs_updated s),
      ct_deleted = int (rs_deleted s), ct_merged = int (rs_merged s)\<rparr>"

text \<open>The arms of the loop's \<open>match\<close> that end a range.\<close>

fun tally :: "batch_outcome \<Rightarrow> nat \<Rightarrow> round_summary \<Rightarrow> round_summary" where
  "tally (Applied c u d m a) n s =
     s\<lparr>rs_batches := rs_batches s + 1, rs_created := rs_created s + c, rs_updated := rs_updated s + u,
       rs_deleted := rs_deleted s + d, rs_merged := rs_merged s + m, rs_adjudications := rs_adjudications s + a\<rparr>"
| "tally Dropped n s = s\<lparr>rs_dropped_facts := rs_dropped_facts s + n\<rparr>"
| "tally _ n s = s\<lparr>rs_skipped_batches := rs_skipped_batches s + 1\<rparr>"

definition splits :: "batch_outcome \<Rightarrow> nat \<Rightarrow> bool" where
  "splits out n \<longleftrightarrow> (out = Split \<or> out = Rejected) \<and> 1 < n"

text \<open>How the loop ends: through the queue or a deferral, by an error, by the branch the code holds unreachable,
  or not at all.\<close>

datatype loop_end = LoopDone | LoopFailed mg_error | LoopPanic | LoopHangs

definition range_weight :: "nat \<times> nat \<Rightarrow> nat" where
  "range_weight r = (if snd r - fst r \<le> 1 then 1 else 2 * (snd r - fst r) - 1)"

lemma range_weight_split:
  "Suc 0 < t - f \<Longrightarrow> range_weight (f, f + (t - f) div 2) + range_weight (f + (t - f) div 2, t) < range_weight (f, t)"
proof -
  assume t: "Suc 0 < t - f"
  define h where "h = (t - f) div 2"
  have h: "0 < h" "h < t - f" "t - (f + h) = t - f - h" using t by (auto simp: h_def)
  show ?thesis unfolding h_def [symmetric] using h t by (auto simp: range_weight_def)
qed

lemma range_weight_pos [simp]: "0 < range_weight r"
  by (auto simp: range_weight_def)

text \<open>\<open>ios\<close> gives each range what it meets, \<open>queued\<close> what the retain budget holds when it is taken. The list
  that is returned besides names the ranges that ended, in order, each with its outcome.\<close>

function round_loop ::
  "(nat \<times> nat \<Rightarrow> batch_io) \<Rightarrow> (nat \<times> nat \<Rightarrow> nat) \<Rightarrow> consolidation_config \<Rightarrow> str \<Rightarrow> str \<Rightarrow> fact_row list \<Rightarrow> (nat \<times> nat) list
     \<Rightarrow> nat \<Rightarrow> round_summary \<Rightarrow> search_db \<Rightarrow> loop_end \<times> round_summary \<times> search_db \<times> ((nat \<times> nat) \<times> batch_outcome) list" where
  "round_loop ios queued cfg bank mission facts [] budget s db = (LoopDone, s, db, [])"
| "round_loop ios queued cfg bank mission facts ((from_i, to_i) # queue) budget s db =
     (if 0 < queued (from_i, to_i) then (LoopDone, s\<lparr>rs_deferred := True\<rparr>, db, [])
      else
        case process_batch (ios (from_i, to_i)) cfg db bank mission (take (to_i - from_i) (drop from_i facts)) budget of
          None \<Rightarrow> (LoopHangs, s, db, [])
        | Some (Inl e, budget', db') \<Rightarrow> (LoopFailed e, s, db', [])
        | Some (Inr out, budget', db') \<Rightarrow>
            if splits out (to_i - from_i) then
              (let mid = from_i + (to_i - from_i) div 2
               in round_loop ios queued cfg bank mission facts ((from_i, mid) # (mid, to_i) # queue) budget' s db')
            else if out = Split then (LoopPanic, s, db', [])
            else
              (let (fin, s', db'', ended) =
                     round_loop ios queued cfg bank mission facts queue budget'
                       ((tally out (to_i - from_i) s)\<lparr>rs_watermark := fr_id (facts ! (to_i - 1))\<rparr>) db'
               in (fin, s', db'', ((from_i, to_i), out) # ended)))"
  by pat_completeness auto

termination
proof (relation "measure (\<lambda>(ios, queued, cfg, bank, mission, facts, queue, budget, s, db). sum_list (map range_weight queue))",
       goal_cases)
  case (2 ios queued cfg bank mission facts from_i to_i queue)
  then show ?case by (auto simp: splits_def range_weight_split)
qed auto

definition first_queue :: "nat \<Rightarrow> nat \<Rightarrow> (nat \<times> nat) list" where
  "first_queue n step =
     map (\<lambda>k. (k * max step 1, min (k * max step 1 + max step 1) n)) [0..<(n + max step 1 - 1) div max step 1]"

definition round_note :: "round_summary \<Rightarrow> str option" where
  "round_note s =
     (if 0 < rs_skipped_batches s \<or> 0 < rs_dropped_facts s \<or> rs_deferred s
      then Some (nat_str (rs_skipped_batches s) @ lit '' batch(es) abandoned, '' @ nat_str (rs_dropped_facts s) @
             lit '' fact(s) dropped for size'' @ (if rs_deferred s then lit '', round deferred mid-way for a retain job'' else []))
      else None)"

record round_io =
  rr_ranges :: "nat \<times> nat \<Rightarrow> batch_io"
  rr_queued :: "nat \<times> nat \<Rightarrow> nat"
  rr_mission :: str
  rr_sql_now :: int
  rr_started :: int
  rr_finished :: int
  rr_error_text :: "mg_error \<Rightarrow> str"

text \<open>\<open>busy\<close> is the set of banks a round is running for. The result is \<open>None\<close> when the round does not return;
  the ranges that ended come with it.\<close>

definition run_round ::
  "round_io \<Rightarrow> consolidation_config \<Rightarrow> str set \<Rightarrow> search_db \<Rightarrow> run_row list \<Rightarrow> str
     \<Rightarrow> (mg_error + round_summary) option \<times> ((nat \<times> nat) \<times> batch_outcome) list \<times> search_db \<times> run_row list" where
  "run_round io cfg busy db runs bank =
     (if bank \<in> busy then (Some (Inl ErrConflict), [], db, runs)
      else
        let wm = watermark runs bank;
            facts = unconsolidated db (rr_sql_now io) bank wm (cc_batch_size cfg)
        in if facts = [] then (Some (Inr (empty_summary None 0 wm)), [], db, runs)
           else
             let (i, runs1) = start_run runs bank (rr_started io);
                 (fin, s, db', ended) =
                   round_loop (rr_ranges io) (rr_queued io) cfg bank (rr_mission io) facts
                     (first_queue (length facts) (cc_llm_batch_size cfg)) max_adjudications_per_round
                     (empty_summary (Some i) (length facts) wm) db
             in case fin of
                  LoopDone \<Rightarrow>
                    (Some (Inr s), ended, db',
                     finish_run runs1 i RunDone (summary_counts s) (Some (rs_watermark s)) (round_note s) (rr_finished io))
                | LoopFailed e \<Rightarrow>
                    (Some (Inl e), ended, db',
                     finish_run runs1 i RunFailed (summary_counts s) (Some (rs_watermark s)) (Some (rr_error_text io e)) (rr_finished io))
                | _ \<Rightarrow> (None, ended, db', runs1))"


section \<open>What the round does to the store\<close>

definition obs_or_gone :: "search_db \<Rightarrow> int \<Rightarrow> bool" where
  "obs_or_gone db i \<longleftrightarrow> obs_id db i \<or> i \<notin> mn_id ` set (sd_nodes db)"

lemma map_node_gone: "keeps_keys f \<Longrightarrow> obs_or_gone (map_node i f db) j = obs_or_gone db j"
  using map_node_ids [of f i db] map_node_obs [of f i db j] by (metis list.set_map obs_or_gone_def)

lemma recount_gone [simp]: "obs_or_gone (recount_proof db i) j = obs_or_gone db j"
  by (simp add: recount_proof_def map_node_gone recount_keys)

lemma update_text_gone [simp]: "obs_or_gone (search_update_text db i t now) j = obs_or_gone db j"
  unfolding search_update_text_def by (rule map_node_gone [OF text_keys])

lemma link_sources_nodes [simp]: "sd_nodes (link_sources db i bank srcs) = sd_nodes db"
proof (induction srcs arbitrary: db)
  case (Cons x srcs)
  then show ?case by (simp add: link_sources_def link_source_def)
qed (simp add: link_sources_def)

lemma link_sources_gone [simp]: "obs_or_gone (link_sources db i bank srcs) j = obs_or_gone db j"
  by (simp add: obs_or_gone_def obs_id_def)

lemma delete_where_gone: "obs_or_gone db i \<Longrightarrow> obs_or_gone (snd (delete_where doomed db)) i"
proof -
  assume a: "obs_or_gone db i"
  have "mn_id ` set (sd_nodes (snd (delete_where doomed db))) =
      {i \<in> mn_id ` set (sd_nodes db). i \<notin> mn_id ` {n \<in> set (sd_nodes db). doomed n}}"
    using arg_cong [OF delete_where_ids [of doomed db], of set] by simp
  then show ?thesis using a by (auto simp: obs_or_gone_def delete_where_obs)
qed

lemma apply_update_one_gone:
  "list_all (obs_or_gone (snd st)) (map fst (fst st)) \<Longrightarrow>
   list_all (obs_or_gone (snd (apply_update_one now bank u st))) (map fst (fst (apply_update_one now bank u st)))"
  by (auto simp: apply_update_one_def Let_def list_all_iff is_observation_def obs_or_gone_def [of "snd st"] obs_id_def
    dest!: find_hit split: option.splits)

lemma apply_delete_one_gone: "obs_or_gone (snd st) i \<Longrightarrow> obs_or_gone (snd (apply_delete_one bank u st)) i"
  by (simp add: apply_delete_one_def split_beta delete_where_gone)

lemma apply_plan_updated:
  assumes e: "apply_plan banks uuids now db bank cs us ds = Inr (res, db')"
  shows "list_all (obs_or_gone db') (map fst (ap_updated res))"
proof -
  obtain ids db1 where c: "apply_creates banks uuids now bank cs db = Inr (ids, db1)"
    using e by (auto simp: apply_plan_def split: sum.splits)
  have u: "list_all (obs_or_gone (snd (fold (apply_update_one now bank) us st))) (map fst (fst (fold (apply_update_one now bank) us st)))"
    if "list_all (obs_or_gone (snd st)) (map fst (fst st))" for st
    using that by (induction us arbitrary: st) (simp_all add: apply_update_one_gone)
  have d: "obs_or_gone (snd (fold (apply_delete_one bank) ds st)) i" if "obs_or_gone (snd st) i" for st i
    using that by (induction ds arbitrary: st) (simp_all add: apply_delete_one_gone)
  have "db' = snd (fold (apply_delete_one bank) ds (0, snd (fold (apply_update_one now bank) us ([], db1))))"
    "ap_updated res = fst (fold (apply_update_one now bank) us ([], db1))"
    using e by (auto simp: apply_plan_def c Let_def split: prod.splits)
  then show ?thesis using u [of "([], db1)"] d by (auto simp: list_all_iff)
qed

lemma set_embedding_gone: "set_embedding db i bank v now = Inr db' \<Longrightarrow> obs_or_gone db' j = obs_or_gone db j"
proof -
  assume "set_embedding db i bank v now = Inr db'"
  then obtain b vs where "db' = (map_node i (\<lambda>n. n\<lparr>sn_embedding := Some b, mn_embedded := True, sn_embedding_model := Some embedding_model_id,
                                  mn_updated_at := now\<rparr>) db)\<lparr>sd_vecs := vs\<rparr>"
    by (auto simp: set_embedding_def split: sum.splits)
  moreover have "obs_or_gone (d\<lparr>sd_vecs := vs\<rparr>) j = obs_or_gone d j" for d by (simp add: obs_or_gone_def obs_id_def)
  ultimately show ?thesis by (simp add: map_node_gone keeps_keys_def)
qed

lemma map_node_absent: "i \<notin> mn_id ` set (sd_nodes db) \<Longrightarrow> map_node i f db = db"
  by (auto simp: map_node_def intro!: search_db.equality map_idI)

lemma set_embedding_keeps:
  assumes ok: "provenance_ok db" and g: "obs_or_gone db i" and e: "set_embedding db i bank v now = Inr db'"
  shows "sound_write U {} db db'"
proof (cases "obs_id db i")
  case True
  then show ?thesis using set_embedding_sound [OF sound_refl [OF ok] _ e] by simp
next
  case False
  then have "i \<notin> mn_id ` set (sd_nodes db)" using g by (simp add: obs_or_gone_def)
  then show ?thesis using e by (auto simp: set_embedding_def map_node_absent split: sum.splits intro!: vecs_sound sound_refl ok)
qed

lemma embed_updated_sound:
  "provenance_ok db \<Longrightarrow> list_all (obs_or_gone db) (map fst us) \<Longrightarrow> embed_updated io bank text_of us db = (cs, db')
   \<Longrightarrow> sound_write U {} db db'"
proof (induction us arbitrary: db cs)
  case (Cons u us)
  obtain i uuid where u: "u = (i, uuid)" by (cases u)
  have g: "obs_or_gone db i" "list_all (obs_or_gone db) (map fst us)" using Cons.prems(2) by (simp_all add: u)
  show ?case
  proof (cases "text_of uuid = None \<or> bi_embed io (the (text_of uuid)) = None \<or>
      (\<exists>e. set_embedding db i bank (the (bi_embed io (the (text_of uuid)))) (bi_now io) = Inl e)")
    case True
    then have "embed_updated io bank text_of us db = (cs, db')"
      using Cons.prems(3) by (auto simp: u split: option.splits)
    then show ?thesis using Cons.IH [OF Cons.prems(1) g(2)] by blast
  next
    case False
    then obtain t v db1 where v: "text_of uuid = Some t" "bi_embed io t = Some v" "set_embedding db i bank v (bi_now io) = Inr db1"
      by (metis option.exhaust_sel old.sum.exhaust)
    obtain cs' where r: "embed_updated io bank text_of us db1 = (cs', db')"
      using Cons.prems(3) v by (auto simp: u Let_def split: prod.splits)
    have s: "sound_write U {} db db1" by (rule set_embedding_keeps [OF Cons.prems(1) g(1) v(3)])
    moreover have "list_all (obs_or_gone db1) (map fst us)" using g(2) set_embedding_gone [OF v(3)] by (simp add: list_all_iff)
    ultimately show ?thesis using Cons.IH [OF sound_write_ok [OF s] _ r] sound_write_trans by blast
  qed
qed (simp add: sound_refl)

lemma dedup_created_sound:
  assumes "provenance_ok db" and "dedup_created io cfg db bank i t v = Inr (out, asked, db')"
  shows "sound_write U {} db db' \<and> (case out of Created _ \<Rightarrow> True | Merged into _ _ \<Rightarrow> obs_id db' into)"
  using assms merge_observation_sound [OF assms(1)]
  by (auto simp: dedup_created_def sound_refl split: if_splits sum.splits option.splits decision.splits)

lemma reembed_sound:
  assumes ok: "provenance_ok db" and o: "obs_id db i"
  shows "sound_write U {} db (reembed_merged_twin io bank i db)"
  using set_embedding_keeps [OF ok, of i] o sound_refl [OF ok]
  by (auto simp: reembed_merged_twin_def obs_or_gone_def split: option.splits sum.splits)

lemma dedup_each_sound:
  "provenance_ok db \<Longrightarrow> sound_write U {} db (snd (snd (dedup_each io cfg bank cs budget m a db)))"
proof (induction io cfg bank cs budget m a db rule: dedup_each.induct)
  case (2 io cfg bank i t v cs budget m a db)
  show ?case
  proof (cases "budget = 0 \<or> (\<exists>e. dedup_created io cfg db bank i t v = Inl e)")
    case True
    then show ?thesis using 2(3) by (auto simp: sound_refl)
  next
    case False
    then obtain out asked db1 where d: "dedup_created io cfg db bank i t v = Inr (out, asked, db1)" "budget \<noteq> 0"
      by (metis old.sum.exhaust prod_cases3)
    have s: "sound_write U {} db db1" and o: "case out of Created _ \<Rightarrow> True | Merged into _ _ \<Rightarrow> obs_id db1 into"
      using dedup_created_sound [OF 2(3) d(1)] by auto
    show ?thesis
    proof (cases out)
      case (Created j)
      then show ?thesis
        using 2(1) [OF d(2) d(1) refl refl refl refl Created sound_write_ok [OF s]] sound_write_trans [OF s] d by (simp add: Let_def)
    next
      case (Merged into j c)
      have s2: "sound_write U {} db1 (reembed_merged_twin io bank into db1)"
        using reembed_sound [OF sound_write_ok [OF s]] o Merged by simp
      show ?thesis
        using 2(2) [OF d(2) d(1) refl refl refl refl Merged sound_write_ok [OF s2]] sound_write_trans [OF s] sound_write_trans [OF s2] d Merged
        by (simp add: Let_def)
    qed
  qed
qed (simp add: sound_refl)

lemma apply_and_dedup_sound:
  assumes ok: "provenance_ok db" and U: "range (bi_uuids io) \<subseteq> U"
  shows "sound_write U {} db (snd (snd (apply_and_dedup io cfg db bank p budget)))"
proof -
  have "sound_write U {} db (snd (snd (dedup_each io cfg bank cs budget 0 0
      (snd (embed_updated io bank text_of (ap_updated res) db1)))))"
    if e: "apply_plan (bi_banks io) (bi_uuids io) (bi_now io) db bank ps us ds = Inr (res, db1)" for ps us ds res db1 text_of cs
  proof -
    obtain ups db2 where u: "embed_updated io bank text_of (ap_updated res) db1 = (ups, db2)"
      by (cases "embed_updated io bank text_of (ap_updated res) db1")
    have s1: "sound_write U {} db db1" by (rule apply_plan_sound [OF ok e U])
    have s2: "sound_write U {} db1 db2"
      by (rule embed_updated_sound [OF sound_write_ok [OF s1] apply_plan_updated [OF e] u])
    show ?thesis
      using dedup_each_sound [OF sound_write_ok [OF s2]] sound_write_trans [OF s1] sound_write_trans [OF s2] by (simp add: u)
  qed
  then show ?thesis
    using sound_refl [OF ok] unfolding apply_and_dedup_def by (auto simp: Let_def split_beta split: sum.splits)
qed

subsection \<open>How a batch ends\<close>

interpretation round_shed: shedding "round_stop io mission facts" butlast length
  for io mission facts
  by unfold_locales (auto simp: round_stop_def split: if_splits)

text \<open>A batch always returns, and only a batch of several facts is split.\<close>

lemma process_batch_cases:
  obtains (failed) e where "process_batch io cfg db bank mission facts budget = Some (Inl e, budget, db)"
  | (early) out where "process_batch io cfg db bank mission facts budget = Some (Inr out, budget, db)"
      "out \<in> {Skipped, Rejected} \<or> out = (if 1 < length facts then Split else Dropped)"
  | (applied) p where "process_batch io cfg db bank mission facts budget = Some (apply_and_dedup io cfg db bank p budget)"
proof (cases "pool_observations io cfg db bank facts")
  case (Inl e)
  then show thesis using failed by (simp add: process_batch_def)
next
  case (Inr pool0)
  obtain r where r: "assemble_round io mission facts pool0 = Some r"
    using round_shed.returns [of io mission facts pool0] by (auto simp: assemble_round_def)
  show thesis
  proof (cases r)
    case None
    then show thesis using early Inr r by (simp add: process_batch_def)
  next
    case (Some tr)
    obtain q where "process_batch io cfg db bank mission facts budget =
        (case q of (None, transport_failed) \<Rightarrow> Some (Inr (if transport_failed then Skipped else Rejected), budget, db)
         | (Some p, _) \<Rightarrow> Some (apply_and_dedup io cfg db bank p budget))"
      using Inr r Some unfolding process_batch_def Let_def by (cases tr) auto
    then show thesis using early applied by (cases q; cases "fst q") auto
  qed
qed

lemma apply_and_dedup_outcome:
  "apply_and_dedup io cfg db bank p budget = (Inr out, budget', db') \<Longrightarrow> \<exists>c u d m a. out = Applied c u d m a"
  by (auto simp: apply_and_dedup_def Let_def split: sum.splits prod.splits)

lemma process_batch_returns:
  obtains (error) e budget' db' where "process_batch io cfg db bank mission facts budget = Some (Inl e, budget', db')"
  | (ended) out budget' db' where "process_batch io cfg db bank mission facts budget = Some (Inr out, budget', db')"
      "out = Split \<Longrightarrow> 1 < length facts" "out = Dropped \<Longrightarrow> length facts \<le> 1"
proof (cases rule: process_batch_cases [of io cfg db bank mission facts budget, case_names failed early applied])
  case (failed e)
  then show thesis by (rule error)
next
  case (early out)
  then show thesis using ended [of out budget db] by (auto split: if_splits)
next
  case (applied p)
  obtain r budget' db' where r: "apply_and_dedup io cfg db bank p budget = (r, budget', db')" by (cases "apply_and_dedup io cfg db bank p budget")
  show thesis
  proof (cases r)
    case (Inl e)
    then show thesis using error applied r by simp
  next
    case (Inr out)
    then show thesis using ended [of out] applied r apply_and_dedup_outcome [of io cfg db bank p budget out] by auto
  qed
qed

lemma process_batch_sound:
  assumes ok: "provenance_ok db" and e: "process_batch io cfg db bank mission facts budget = Some (r, budget', db')"
    and U: "range (bi_uuids io) \<subseteq> U"
  shows "sound_write U {} db db'"
proof (cases rule: process_batch_cases [of io cfg db bank mission facts budget, case_names failed early applied])
  case (applied p)
  then have "db' = snd (snd (apply_and_dedup io cfg db bank p budget))" using e by (metis option.inject snd_conv)
  then show ?thesis using apply_and_dedup_sound [OF ok U] by simp
qed (use e sound_refl [OF ok] in simp_all)

subsection \<open>The queue of ranges\<close>

lemma round_loop_sound:
  "provenance_ok db \<Longrightarrow> round_loop ios queued cfg bank mission facts queue budget s db = (fin, s', db', ended)
   \<Longrightarrow> (\<And>r. range (bi_uuids (ios r)) \<subseteq> U) \<Longrightarrow> sound_write U {} db db'"
proof (induction ios queued cfg bank mission facts queue budget s db arbitrary: fin s' db' ended rule: round_loop.induct)
  case (2 ios queued cfg bank mission facts f t queue budget s db)
  let ?p = "process_batch (ios (f, t)) cfg db bank mission (take (t - f) (drop f facts)) budget"
  show ?case
  proof (cases "0 < queued (f, t) \<or> ?p = None \<or> (\<exists>e budget' db1. ?p = Some (Inl e, budget', db1))")
    case True
    then show ?thesis using 2(3,4) process_batch_sound [OF 2(3) _ 2(5)] by (auto simp: sound_refl split: if_splits option.splits)
  next
    case False
    then obtain out budget' db1 where p: "?p = Some (Inr out, budget', db1)"
      by (metis not_None_eq old.sum.exhaust prod_cases3)
    have s: "sound_write U {} db db1" by (rule process_batch_sound [OF 2(3) p 2(5)])
    note ok1 = sound_write_ok [OF s]
    show ?thesis
    proof (cases "splits out (t - f)")
      case split: True
      then have "sound_write U {} db1 db'"
        using 2(1) [OF _ p refl refl refl split refl ok1 _ 2(5)] 2(4) p False by (simp add: Let_def)
      then show ?thesis by (rule sound_write_trans [OF s])
    next
      case whole: False
      show ?thesis
      proof (cases "out = Split")
        case True
        then show ?thesis using 2(4) p False whole s by simp
      next
        case out: False
        obtain fin' s'' ended' where "round_loop ios queued cfg bank mission facts queue budget'
            ((tally out (t - f) s)\<lparr>rs_watermark := fr_id (facts ! (t - 1))\<rparr>) db1 = (fin', s'', db', ended')"
          using 2(4) p False whole out by (auto split: prod.splits)
        then have "sound_write U {} db1 db'"
          using 2(2) [OF _ p refl refl refl whole out ok1 _ 2(5)] False by simp
        then show ?thesis by (rule sound_write_trans [OF s])
      qed
    qed
  qed
qed (simp add: sound_refl)

lemma run_round_sound:
  assumes ok: "provenance_ok db" and e: "run_round io cfg busy db runs bank = (res, ended, db', runs')"
    and U: "\<And>r. range (bi_uuids (rr_ranges io r)) \<subseteq> U"
  shows "sound_write U {} db db'"
  using e round_loop_sound [OF ok _ U] sound_refl [OF ok]
  by (auto simp: run_round_def Let_def split: if_splits prod.splits loop_end.splits)

subsection \<open>The ranges that end\<close>

text \<open>The ranges lie end to end from \<open>k\<close> to \<open>m\<close>, none empty.\<close>

fun tiles :: "nat \<Rightarrow> nat \<Rightarrow> (nat \<times> nat) list \<Rightarrow> bool" where
  "tiles k m [] \<longleftrightarrow> k = m"
| "tiles k m ((a, b) # q) \<longleftrightarrow> a = k \<and> a < b \<and> tiles b m q"

definition ended_at :: "((nat \<times> nat) \<times> batch_outcome) list \<Rightarrow> nat" where
  "ended_at ended = (if ended = [] then 0 else snd (fst (last ended)))"

text \<open>Why a batch may end as it does: a plan was let through, the facts alone are too large for a prompt, every
  attempt was answered and every answer refused, or a call to the model failed and no answer was let through.
  The attempts all put the same prompt, built of the batch and of some observations.\<close>

definition plan_answer :: "batch_io \<Rightarrow> str \<Rightarrow> fact_row list \<Rightarrow> pooled_observation list \<Rightarrow> nat \<Rightarrow> (plan_error + plan) option" where
  "plan_answer io mission batch pool k =
     (case bi_chat io k build_consolidation_system_prompt (round_user io mission batch pool) of
        ChatReply v \<Rightarrow>
          Some (validate_plan v (map_of (rev (map (\<lambda>f. (fr_uuid f, fr_id f)) batch))) (set (map (\<lambda>p. cr_uuid (po_row p)) pool)))
      | _ \<Rightarrow> None)"

definition let_through :: "(plan_error + plan) option \<Rightarrow> bool" where
  "let_through a \<longleftrightarrow> (\<exists>p. a = Some (Inr p))"

fun batch_reason :: "batch_io \<Rightarrow> nat \<Rightarrow> str \<Rightarrow> fact_row list \<Rightarrow> batch_outcome \<Rightarrow> bool" where
  "batch_reason io attempts mission batch (Applied c u d m a) \<longleftrightarrow>
     (\<exists>pool. round_fits io mission batch pool \<and> (\<exists>k \<in> {1..attempts}. let_through (plan_answer io mission batch pool k)))"
| "batch_reason io attempts mission batch Rejected \<longleftrightarrow>
     (\<exists>pool. round_fits io mission batch pool \<and> (\<forall>k \<in> {1..attempts}. \<exists>e. plan_answer io mission batch pool k = Some (Inl e)))"
| "batch_reason io attempts mission batch Skipped \<longleftrightarrow>
     (\<exists>pool. round_fits io mission batch pool
        \<and> (\<exists>k \<in> {1..attempts}. plan_answer io mission batch pool k = None)
        \<and> (\<forall>k \<in> {1..attempts}. \<not> let_through (plan_answer io mission batch pool k)))"
| "batch_reason io attempts mission batch _ \<longleftrightarrow> \<not> round_fits io mission batch []"

text \<open>A range that ended did so for its reason; what its content or its size did it for is a single fact, and
  none ends with the request to split it.\<close>

definition given_up_rightly ::
  "(nat \<times> nat \<Rightarrow> batch_io) \<Rightarrow> nat \<Rightarrow> str \<Rightarrow> fact_row list \<Rightarrow> ((nat \<times> nat) \<times> batch_outcome) list \<Rightarrow> bool" where
  "given_up_rightly ios attempts mission facts ended \<longleftrightarrow>
     list_all (\<lambda>((f, t), out). batch_reason (ios (f, t)) attempts mission (take (t - f) (drop f facts)) out
       \<and> out \<noteq> Split \<and> (out = Rejected \<or> out = Dropped \<longrightarrow> t = Suc f)) ended"

lemma ask_for_plan_facts:
  assumes "ask_for_plan chat check ks failed = (res, failed')"
  shows "case res of
      None \<Rightarrow> (\<forall>k \<in> set ks. \<forall>v. chat k = ChatReply v \<longrightarrow> (\<exists>e. check v = Inl e))
        \<and> (failed' \<longleftrightarrow> failed \<or> (\<exists>k \<in> set ks. \<forall>v. chat k \<noteq> ChatReply v))
    | Some p \<Rightarrow> \<exists>k \<in> set ks. \<exists>v. chat k = ChatReply v \<and> check v = Inr p"
  using assms
proof (induction ks arbitrary: failed)
  case (Cons k ks)
  show ?case
  proof (cases "chat k")
    case (ChatReply v)
    show ?thesis
    proof (cases "check v")
      case (Inl e)
      have ask: "ask_for_plan chat check ks failed = (res, failed')"
        using Cons.prems by (simp only: ask_for_plan.simps ChatReply Inl chat.case sum.case)
      show ?thesis using Cons.IH [OF ask] ChatReply Inl by (auto split: option.splits)
    next
      case (Inr p)
      then show ?thesis using Cons.prems ChatReply by auto
    qed
  qed (use Cons.IH [of True] Cons.prems in \<open>auto split: option.splits\<close>)
qed auto

lemma process_batch_reason:
  assumes "process_batch io cfg db bank mission batch budget = Some (Inr out, budget', db')"
  shows "batch_reason io (max 1 (cc_max_attempts cfg)) mission batch out"
proof -
  obtain pool0 where p0: "pool_observations io cfg db bank batch = Inr pool0"
    using assms by (cases "pool_observations io cfg db bank batch") (auto simp: process_batch_def)
  obtain n r where n: "assemble_round io mission batch pool0 = Some r" "round_stop io mission batch ((butlast ^^ n) pool0) = Some r"
    using round_shed.returns [of io mission batch pool0] by (auto simp: assemble_round_def)
  show ?thesis
  proof (cases r)
    case None
    then have "\<not> round_fits io mission batch []" using n(2) by (auto simp: round_stop_def split: if_splits)
    then show ?thesis using assms p0 n(1) None by (auto simp: process_batch_def split: if_splits)
  next
    case (Some tr)
    then obtain pool where tr: "r = Some (build_consolidation_system_prompt, round_user io mission batch pool, pool)"
      and fits: "round_fits io mission batch pool"
      using n(2) by (auto simp: round_stop_def split: if_splits)
    let ?chat = "\<lambda>k. bi_chat io k build_consolidation_system_prompt (round_user io mission batch pool)"
    let ?check = "\<lambda>v. validate_plan v (map_of (rev (map (\<lambda>f. (fr_uuid f, fr_id f)) batch))) (set (map (\<lambda>p. cr_uuid (po_row p)) pool))"
    obtain q failed where q: "ask_for_plan ?chat ?check [1..<max 1 (cc_max_attempts cfg) + 1] False = (q, failed)" by fastforce
    have ks: "set [1..<max 1 (cc_max_attempts cfg) + 1] = {1..max 1 (cc_max_attempts cfg)}" by auto
    note a = ask_for_plan_facts [OF q, unfolded ks]
    show ?thesis
    proof (cases q)
      case None
      then have "out = (if failed then Skipped else Rejected)"
        using assms p0 n(1) tr q by (simp add: process_batch_def Let_def)
      then show ?thesis using a None fits
        by (auto simp: plan_answer_def let_through_def split: chat.splits intro!: exI [of _ pool])
    next
      case (Some p)
      then have "apply_and_dedup io cfg db bank p budget = (Inr out, budget', db')"
        using assms p0 n(1) tr q by (simp add: process_batch_def Let_def)
      then obtain c u d m x where "out = Applied c u d m x" using apply_and_dedup_outcome by blast
      moreover obtain k v where "k \<in> {1..max 1 (cc_max_attempts cfg)}" "?chat k = ChatReply v" "?check v = Inr p"
        using a Some by auto
      moreover then have "let_through (plan_answer io mission batch pool k)" by (simp add: plan_answer_def let_through_def)
      ultimately show ?thesis using fits by (simp only: batch_reason.simps) blast
    qed
  qed
qed

lemma tiles_le: "tiles k m q \<Longrightarrow> k \<le> m"
  by (induction k m q rule: tiles.induct) auto

lemma tiles_last: "tiles k m q \<Longrightarrow> q \<noteq> [] \<Longrightarrow> snd (last q) = m"
  by (induction k m q rule: tiles.induct) auto

lemma dedup_each_budget:
  "dedup_each io cfg bank cs budget m a db = (Inr (m', a'), budget', db') \<Longrightarrow> budget' + a' = budget + a"
proof (induction io cfg bank cs budget m a db rule: dedup_each.induct)
  case (2 io cfg bank i t v cs budget m a db)
  then show ?case by (auto simp: Let_def split: if_splits sum.splits prod.splits dedup_outcome.splits)
qed simp

lemma process_batch_budget:
  "process_batch io cfg db bank mission facts budget = Some (Inr (Applied c u d m a), budget', db') \<Longrightarrow> budget' + a = budget"
  "process_batch io cfg db bank mission facts budget = Some (Inr out, budget', db') \<Longrightarrow> budget' \<le> budget"
proof -
  have a: "budget' + a = budget" if "apply_and_dedup io cfg db bank p budget = (Inr (Applied c u d m a), budget', db')"
    for p c u d m a budget' db'
    using that dedup_each_budget [of io cfg bank _ budget 0 0 _ m a budget' db']
    by (auto simp: apply_and_dedup_def Let_def split: sum.splits prod.splits)
  show "process_batch io cfg db bank mission facts budget = Some (Inr (Applied c u d m a), budget', db') \<Longrightarrow> budget' + a = budget"
    by (cases rule: process_batch_cases [of io cfg db bank mission facts budget, case_names failed early applied])
      (auto simp: a split: if_splits)
  show "process_batch io cfg db bank mission facts budget = Some (Inr out, budget', db') \<Longrightarrow> budget' \<le> budget"
  proof (cases rule: process_batch_cases [of io cfg db bank mission facts budget, case_names failed early applied])
    case (applied p)
    moreover assume "process_batch io cfg db bank mission facts budget = Some (Inr out, budget', db')"
    ultimately have e: "apply_and_dedup io cfg db bank p budget = (Inr out, budget', db')" by simp
    then obtain c u d m a where "out = Applied c u d m a" using apply_and_dedup_outcome by blast
    then show ?thesis using a e by fastforce
  qed simp_all
qed

lemma tally_sel [simp]: "rs_deferred (tally out n s) = rs_deferred s"
  by (cases out) auto

text \<open>What a run of the loop has to satisfy.\<close>

definition loop_ok ::
  "(nat \<times> nat \<Rightarrow> batch_io) \<Rightarrow> nat \<Rightarrow> str \<Rightarrow> fact_row list \<Rightarrow> nat \<Rightarrow> nat \<Rightarrow> round_summary \<Rightarrow> loop_end \<times> round_summary \<times> search_db \<times> ((nat \<times> nat) \<times> batch_outcome) list \<Rightarrow> bool" where
  "loop_ok ios attempts mission facts k budget s r \<longleftrightarrow>
     (case r of (fin, s', db', ended) \<Rightarrow>
        (\<exists>m. tiles k m (map fst ended) \<and> m \<le> length facts
           \<and> rs_watermark s' = (if ended = [] then rs_watermark s else fr_id (facts ! (m - 1)))
           \<and> (fin = LoopDone \<longrightarrow> \<not> rs_deferred s' \<longrightarrow> m = length facts))
        \<and> fin \<noteq> LoopPanic \<and> fin \<noteq> LoopHangs \<and> given_up_rightly ios attempts mission facts ended
        \<and> rs_adjudications s' \<le> rs_adjudications s + budget)"

lemma loop_ok_stop: "k \<le> length facts \<Longrightarrow> fin \<noteq> LoopPanic \<Longrightarrow> fin \<noteq> LoopHangs \<Longrightarrow> (fin = LoopDone \<Longrightarrow> rs_deferred s' \<or> k = length facts)
   \<Longrightarrow> rs_watermark s' = rs_watermark s \<Longrightarrow> rs_adjudications s' = rs_adjudications s \<Longrightarrow> loop_ok ios attempts mission facts k budget s (fin, s', db', [])"
  by (auto simp: loop_ok_def given_up_rightly_def)

lemma loop_ok_cons:
  assumes r: "loop_ok ios attempts mission facts t budget' ((tally out (t - f) s)\<lparr>rs_watermark := fr_id (facts ! (t - 1))\<rparr>) (fin, s', db', ended)"
    and ft: "f < t" and out: "out \<noteq> Split" "out = Rejected \<or> out = Dropped \<longrightarrow> t = Suc f"
      "batch_reason (ios (f, t)) attempts mission (take (t - f) (drop f facts)) out"
    and adj: "rs_adjudications (tally out (t - f) s) + budget' \<le> rs_adjudications s + budget"
  shows "loop_ok ios attempts mission facts f budget s (fin, s', db', ((f, t), out) # ended)"
proof -
  from r obtain m where m: "tiles t m (map fst ended)" "m \<le> length facts"
      "rs_watermark s' = (if ended = [] then fr_id (facts ! (t - 1)) else fr_id (facts ! (m - 1)))"
      "fin = LoopDone \<longrightarrow> \<not> rs_deferred s' \<longrightarrow> m = length facts"
    and rest: "fin \<noteq> LoopPanic" "fin \<noteq> LoopHangs" "given_up_rightly ios attempts mission facts ended"
      "rs_adjudications s' \<le> rs_adjudications (tally out (t - f) s) + budget'"
    by (cases "ended = []") (auto simp: loop_ok_def)
  have "ended = [] \<Longrightarrow> m = t" using m(1) by simp
  then have "tiles f m (map fst (((f, t), out) # ended)) \<and> m \<le> length facts
      \<and> rs_watermark s' = fr_id (facts ! (m - 1)) \<and> (fin = LoopDone \<longrightarrow> \<not> rs_deferred s' \<longrightarrow> m = length facts)"
    using m ft by auto
  moreover have "given_up_rightly ios attempts mission facts (((f, t), out) # ended)" using rest(3) out by (auto simp: given_up_rightly_def)
  ultimately show ?thesis using rest adj unfolding loop_ok_def by auto
qed

lemma round_loop_ok:
  "tiles k (length facts) queue \<Longrightarrow> loop_ok ios (max 1 (cc_max_attempts cfg)) mission facts k budget s (round_loop ios queued cfg bank mission facts queue budget s db)"
proof (induction ios queued cfg bank mission facts queue budget s db arbitrary: k rule: round_loop.induct)
  case (2 ios queued cfg bank mission facts f t queue budget s db)
  have k: "f = k" "f < t" and q: "tiles t (length facts) queue" and t: "t \<le> length facts"
    using 2(3) tiles_le by auto
  then have len: "length (take (t - f) (drop f facts)) = t - f" by simp
  show ?case
  proof (cases "0 < queued (f, t)")
    case True
    then show ?thesis using k t by (auto intro!: loop_ok_stop)
  next
    case go: False
    show ?thesis
    proof (cases rule: process_batch_returns
        [of "ios (f, t)" cfg db bank mission "take (t - f) (drop f facts)" budget, case_names error ended])
      case (error e budget' db')
      then show ?thesis using go k t by (auto intro!: loop_ok_stop)
    next
      case (ended out budget' db')
      have b: "budget' \<le> budget" using process_batch_budget(2) [OF ended(1)] .
      show ?thesis
      proof (cases "splits out (t - f)")
        case True
        then have "tiles k (length facts) ((f, f + (t - f) div 2) # (f + (t - f) div 2, t) # queue)"
          using k q by (auto simp: splits_def)
        from 2(1) [OF go ended(1) refl refl refl True refl this]
        show ?thesis using go ended(1) True b unfolding loop_ok_def by (force simp: Let_def)
      next
        case False
        have out: "out \<noteq> Split" "out = Rejected \<or> out = Dropped \<longrightarrow> t = Suc f"
            "batch_reason (ios (f, t)) (max 1 (cc_max_attempts cfg)) mission (take (t - f) (drop f facts)) out"
          using ended(2,3) False k len process_batch_reason [OF ended(1)] by (auto simp: splits_def)
        have "rs_adjudications (tally out (t - f) s) + budget' \<le> rs_adjudications s + budget"
          using process_batch_budget(1) [of "ios (f, t)" cfg db bank mission "take (t - f) (drop f facts)" budget] ended(1) b
          by (cases out) auto
        moreover have "loop_ok ios (max 1 (cc_max_attempts cfg)) mission facts t budget' ((tally out (t - f) s)\<lparr>rs_watermark := fr_id (facts ! (t - 1))\<rparr>)
            (round_loop ios queued cfg bank mission facts queue budget'
              ((tally out (t - f) s)\<lparr>rs_watermark := fr_id (facts ! (t - 1))\<rparr>) db')"
          by (rule 2(2) [OF go ended(1) refl refl refl False out(1) q])
        ultimately show ?thesis
          using loop_ok_cons [of ios "max 1 (cc_max_attempts cfg)" mission facts t budget' out f, OF _ k(2) out] go ended(1) False out(1) k(1) by (auto split: prod.splits)
      qed
    qed
  qed
qed (auto simp: loop_ok_def given_up_rightly_def)

lemma first_queue_tiles: "tiles 0 n (first_queue n step)"
proof -
  define w where "w = max step 1"
  define c where "c = (n + w - 1) div w"
  have w: "0 < w" by (simp add: w_def)
  have cw: "c * w + (n + w - 1) mod w = n + w - 1" by (simp add: c_def)
  moreover have "(n + w - 1) mod w < w" using w by simp
  ultimately have top: "n \<le> c * w" by linarith
  have below: "j * w < n" if "j < c" for j
  proof -
    have "(j + 1) * w \<le> c * w" using that by (intro mult_le_mono1) simp
    then show ?thesis using cw w by (simp add: algebra_simps)
  qed
  have "tiles (min (j * w) n) n (map (\<lambda>k. (k * w, min (k * w + w) n)) [j..<c])" if "j \<le> c" for j
    using that
  proof (induction rule: inc_induct)
    case base
    then show ?case using top by simp
  next
    case (step j)
    then show ?case using below [OF step.hyps(2)] w by (simp add: upt_conv_Cons add.commute)
  qed
  from this [of 0] show ?thesis by (simp add: first_queue_def w_def c_def)
qed

subsection \<open>The ledger\<close>

lemma max_opt_append: "max_opt m (xs @ [t]) = Some (case max_opt m xs of None \<Rightarrow> t | Some w \<Rightarrow> max t w)"
proof (induction xs arbitrary: m)
  case Nil
  show ?case by (cases m) auto
next
  case (Cons x xs)
  then show ?case by (cases m) auto
qed

lemma run_ids_below: "r \<in> set runs \<Longrightarrow> run_id r < foldr (\<lambda>r m. max (run_id r) m) runs 0 + 1"
  by (induction runs) auto

lemma finished_runs:
  assumes "start_run runs bank now = (i, runs1)"
  obtains row where "finish_run runs1 i st counts (Some w) err fin = runs @ [row]" "run_bank row = bank" "run_watermark row = Some w"
proof -
  define row where "row = \<lparr>run_id = i, run_bank = bank, run_status = RunRunning, run_counted = no_counts, run_watermark = None,
                      run_error = None, run_started_at = now, run_finished_at = None\<rparr>"
  have i: "i = foldr (\<lambda>r m. max (run_id r) m) runs 0 + 1" "runs1 = runs @ [row]"
    using assms by (auto simp: start_run_def Let_def row_def)
  have "map (\<lambda>r. if run_id r = i
              then r\<lparr>run_status := st, run_counted := counts, run_watermark := Some w, run_error := err, run_finished_at := Some fin\<rparr>
              else r) runs = runs"
    by (intro map_idI) (auto simp: i(1) dest: run_ids_below)
  then have "finish_run runs1 i st counts (Some w) err fin =
      runs @ [row\<lparr>run_status := st, run_counted := counts, run_watermark := Some w, run_error := err, run_finished_at := Some fin\<rparr>]"
    by (simp add: finish_run_def i(2) row_def)
  then show thesis by (rule that) (simp_all add: row_def)
qed

lemma finished_watermark:
  assumes "start_run runs bank now = (i, runs1)" and "watermark runs bank \<le> w"
  shows "watermark (finish_run runs1 i st counts (Some w) err fin) bank = w"
proof -
  obtain row where r: "finish_run runs1 i st counts (Some w) err fin = runs @ [row]" "run_bank row = bank" "run_watermark row = Some w"
    using finished_runs [OF assms(1)] .
  have "List.map_filter run_watermark (filter (\<lambda>r. run_bank r = bank) (runs @ [row])) =
      List.map_filter run_watermark (filter (\<lambda>r. run_bank r = bank) runs) @ [w]"
    by (simp add: r(2,3) map_filter_def)
  then show ?thesis using assms(2) unfolding r(1) watermark_def by (auto simp: max_opt_append split: option.splits)
qed

lemma unconsolidated_above: "f \<in> set (unconsolidated db now bank wm k) \<Longrightarrow> wm < fr_id f"
  by (auto simp: unconsolidated_def waiting_def fact_row_of_def dest!: in_set_takeD)

lemma run_round_idle:
  "bank \<in> busy \<or> unconsolidated db (rr_sql_now io) bank (watermark runs bank) (cc_batch_size cfg) = []
   \<Longrightarrow> \<exists>r. run_round io cfg busy db runs bank = (Some r, [], db, runs)"
  by (auto simp: run_round_def Let_def)


section \<open>A round of consolidation\<close>

text \<open>A round that has something to do: its loop, and what it writes to the ledger.\<close>

lemma run_round_loop:
  assumes "bank \<notin> busy" and facts: "facts = unconsolidated db (rr_sql_now io) bank (watermark runs bank) (cc_batch_size cfg)" "facts \<noteq> []"
    and e: "run_round io cfg busy db runs bank = (res, ended, db', runs')"
  obtains s s' fin where "loop_ok (rr_ranges io) (max 1 (cc_max_attempts cfg)) (rr_mission io) facts 0 max_adjudications_per_round s (fin, s', db', ended)"
    "rs_watermark s = watermark runs bank" "rs_adjudications s = 0"
    "watermark runs bank \<le> rs_watermark s' \<Longrightarrow> watermark runs' bank = rs_watermark s'"
    "(fin = LoopDone \<and> res = Some (Inr s')) \<or> (\<exists>err. fin = LoopFailed err \<and> res = Some (Inl err))"
proof -
  obtain i runs1 where st: "start_run runs bank (rr_started io) = (i, runs1)" by (cases "start_run runs bank (rr_started io)")
  define s where "s = empty_summary (Some i) (length facts) (watermark runs bank)"
  obtain fin s' d en where l: "round_loop (rr_ranges io) (rr_queued io) cfg bank (rr_mission io) facts
                     (first_queue (length facts) (cc_llm_batch_size cfg)) max_adjudications_per_round s db = (fin, s', d, en)"
    by (metis prod_cases4)
  have ok: "loop_ok (rr_ranges io) (max 1 (cc_max_attempts cfg)) (rr_mission io) facts 0 max_adjudications_per_round s (fin, s', d, en)"
    using round_loop_ok [OF first_queue_tiles] l by metis
  then have fin: "fin \<noteq> LoopPanic" "fin \<noteq> LoopHangs" by (simp_all add: loop_ok_def)
  have r: "run_round io cfg busy db runs bank =
      (case fin of
         LoopDone \<Rightarrow> (Some (Inr s'), en, d, finish_run runs1 i RunDone (summary_counts s') (Some (rs_watermark s')) (round_note s') (rr_finished io))
       | LoopFailed e \<Rightarrow> (Some (Inl e), en, d,
           finish_run runs1 i RunFailed (summary_counts s') (Some (rs_watermark s')) (Some (rr_error_text io e)) (rr_finished io))
       | _ \<Rightarrow> (None, en, d, runs1))"
    using assms(1) facts(2) st l unfolding run_round_def facts(1) [symmetric] Let_def s_def by simp
  have "en = ended \<and> d = db'" using e r fin by (auto split: loop_end.splits)
  with ok have "loop_ok (rr_ranges io) (max 1 (cc_max_attempts cfg)) (rr_mission io) facts 0 max_adjudications_per_round s (fin, s', db', ended)" by simp
  moreover have "watermark runs' bank = rs_watermark s'" if "watermark runs bank \<le> rs_watermark s'"
    using e r fin finished_watermark [OF st that] by (cases fin) auto
  moreover have "(fin = LoopDone \<and> res = Some (Inr s')) \<or> (\<exists>err. fin = LoopFailed err \<and> res = Some (Inl err))"
    using e r fin by (cases fin) auto
  moreover have "rs_watermark s = watermark runs bank" "rs_adjudications s = 0" by (simp_all add: s_def empty_summary_def)
  ultimately show thesis using that by blast
qed

text \<open>C19: A round takes the facts above the watermark in order. It always returns, never by way of the branch
  the code holds unreachable, whatever the language model answers; the ranges it ends lie end to end from the
  first fact on, and the watermark it leaves in the ledger is the last fact of these ranges, also when an error
  ends the round; a round that neither fails nor defers has taken every fact. Every range ends for its reason: a
  plan for it was let through; or it is a single fact, which no prompt can hold or for which every attempt was
  answered and every answer refused; or, of any length, it is passed over because an attempt did not reach the
  model and no other attempt's answer was let through. A range of several facts is never passed over for its
  answers or its size. (The prompt asked is one that fits.)\<close>

theorem round_takes_facts_in_order:
  "case run_round io cfg busy db runs bank of (res, ended, db', runs') \<Rightarrow>
     let facts = unconsolidated db (rr_sql_now io) bank (watermark runs bank) (cc_batch_size cfg) in
       res \<noteq> None \<and> tiles 0 (ended_at ended) (map fst ended) \<and> ended_at ended \<le> length facts \<and> given_up_rightly (rr_ranges io) (max 1 (cc_max_attempts cfg)) (rr_mission io) facts ended
     \<and> watermark runs' bank = (if ended = [] then watermark runs bank else fr_id (facts ! (ended_at ended - 1)))
     \<and> (case res of
          Some (Inr s) \<Rightarrow> rs_deferred s \<or> ended_at ended = length facts
        | _ \<Rightarrow> True)"
proof -
  obtain res ended db' runs' where e: "run_round io cfg busy db runs bank = (res, ended, db', runs')" by (metis prod_cases4)
  define facts where "facts = unconsolidated db (rr_sql_now io) bank (watermark runs bank) (cc_batch_size cfg)"
  show ?thesis
  proof (cases "bank \<in> busy \<or> facts = []")
    case True
    then show ?thesis by (auto simp: run_round_def Let_def facts_def ended_at_def given_up_rightly_def)
  next
    case False
    then have f: "bank \<notin> busy" "facts \<noteq> []" by auto
    obtain s s' fin where
      ok: "loop_ok (rr_ranges io) (max 1 (cc_max_attempts cfg)) (rr_mission io) facts 0 max_adjudications_per_round s (fin, s', db', ended)" and s: "rs_watermark s = watermark runs bank"
      and "rs_adjudications s = 0"
      and wm: "watermark runs bank \<le> rs_watermark s' \<Longrightarrow> watermark runs' bank = rs_watermark s'"
      and res: "(fin = LoopDone \<and> res = Some (Inr s')) \<or> (\<exists>err. fin = LoopFailed err \<and> res = Some (Inl err))"
      by (rule run_round_loop [OF f(1) facts_def f(2) e], rule that)
    from ok obtain m where m: "tiles 0 m (map fst ended)" "m \<le> length facts"
        "rs_watermark s' = (if ended = [] then rs_watermark s else fr_id (facts ! (m - 1)))"
        "fin = LoopDone \<longrightarrow> \<not> rs_deferred s' \<longrightarrow> m = length facts" and g: "given_up_rightly (rr_ranges io) (max 1 (cc_max_attempts cfg)) (rr_mission io) facts ended"
      unfolding loop_ok_def prod.case by blast
    have em: "ended_at ended = m"
      using tiles_last [OF m(1)] m(1) by (cases "ended = []") (auto simp: ended_at_def last_map)
    have "watermark runs bank \<le> rs_watermark s'"
    proof (cases "ended = []")
      case False
      then have "m - 1 < length facts" using m(2) f(2) by (cases facts) auto
      then have "facts ! (m - 1) \<in> set facts" by (rule nth_mem)
      then show ?thesis using unconsolidated_above m(3) False unfolding facts_def by (simp add: less_imp_le)
    qed (simp add: m(3) s)
    then have "watermark runs' bank = (if ended = [] then watermark runs bank else fr_id (facts ! (m - 1)))"
      using wm m(3) s by simp
    moreover have "case res of Some (Inr s) \<Rightarrow> rs_deferred s \<or> m = length facts | _ \<Rightarrow> True" using res m(4) by auto
    moreover have "res \<noteq> None" using res by auto
    ultimately show ?thesis using m(1,2) g unfolding e facts_def [symmetric] Let_def prod.case em by blast
  qed
qed

lemma adjudications_bounded:
  "case run_round io cfg busy db runs bank of (res, ended, db', runs') \<Rightarrow>
     (case res of Some (Inr s) \<Rightarrow> rs_adjudications s \<le> max_adjudications_per_round | _ \<Rightarrow> True)"
proof -
  obtain res ended db' runs' where e: "run_round io cfg busy db runs bank = (res, ended, db', runs')" by (metis prod_cases4)
  define facts where "facts = unconsolidated db (rr_sql_now io) bank (watermark runs bank) (cc_batch_size cfg)"
  show ?thesis
  proof (cases "bank \<in> busy \<or> facts = []")
    case True
    then show ?thesis by (auto simp: run_round_def Let_def facts_def empty_summary_def)
  next
    case False
    then have f: "bank \<notin> busy" "facts \<noteq> []" by auto
    obtain s s' fin where
      ok: "loop_ok (rr_ranges io) (max 1 (cc_max_attempts cfg)) (rr_mission io) facts 0 max_adjudications_per_round s (fin, s', db', ended)" and "rs_watermark s = watermark runs bank"
      and a: "rs_adjudications s = 0" and "watermark runs bank \<le> rs_watermark s' \<Longrightarrow> watermark runs' bank = rs_watermark s'"
      and res: "(fin = LoopDone \<and> res = Some (Inr s')) \<or> (\<exists>err. fin = LoopFailed err \<and> res = Some (Inl err))"
      by (rule run_round_loop [OF f(1) facts_def f(2) e], rule that)
    from ok a have "rs_adjudications s' \<le> max_adjudications_per_round" by (simp add: loop_ok_def)
    then show ?thesis using res unfolding e prod.case by auto
  qed
qed

text \<open>A fact is the same row, or the same but for its retraction, which is gone with the observation it named:
  that was no fact, and no row of this id that was there before is there still.\<close>

definition fact_kept :: "search_db \<Rightarrow> search_db \<Rightarrow> search_node \<Rightarrow> search_node \<Rightarrow> bool" where
  "fact_kept db db' n n' \<longleftrightarrow>
     n' = n
   \<or> (\<exists>i. mn_superseded_by n = Some i \<and> n' = n\<lparr>mn_superseded_by := None\<rparr>
        \<and> i \<notin> mn_id ` set (facts_of db) \<and> i \<notin> fst ` (node_keys db \<inter> node_keys db'))"

lemma facts_kept_each:
  assumes "facts_kept U db db'" and "\<And>n. n \<in> set (sd_nodes db) \<Longrightarrow> mn_uuid n \<notin> U"
  shows "list_all2 (fact_kept db db') (facts_of db) (facts_of db')"
proof -
  obtain gone where g: "gone \<inter> mn_id ` set (facts_of db) = {}" "facts_of db' = map (lift_retraction gone) (facts_of db)"
      "\<forall>k \<in> node_keys db'. snd k \<in> U \<or> k \<in> node_keys db \<and> fst k \<notin> gone"
    using assms(1) by (auto simp: facts_kept_def)
  have "k \<in> node_keys db \<Longrightarrow> snd k \<notin> U" for k using assms(2) by (auto simp: node_keys_def)
  then have "fst k \<notin> gone" if "k \<in> node_keys db \<inter> node_keys db'" for k using that g(3) by blast
  then have "fact_kept db db' n (lift_retraction gone n)" for n
    using g(1) by (auto simp: fact_kept_def lift_retraction_def split: option.splits)
  then show ?thesis by (simp add: g(2) list_all2_map2 list_all2_same)
qed

text \<open>C20: Whatever the language model answers, a round writes no fact: each stays the row it was, in its place, with
  its text, its vector, its tags and its retraction, but for a retraction by an observation the round removed,
  which goes with that observation (the uuids given to new rows are taken to be new). The proof count of every
  observation stays the number of its provenance rows, each of which joins an observation to a node of the
  store.\<close>

theorem consolidation_keeps_facts:
  assumes "provenance_ok db" and "\<And>r i n. n \<in> set (sd_nodes db) \<Longrightarrow> bi_uuids (rr_ranges io r) i \<noteq> mn_uuid n"
  shows "case run_round io cfg busy db runs bank of (res, ended, db', runs') \<Rightarrow>
     provenance_ok db' \<and> list_all2 (fact_kept db db') (facts_of db) (facts_of db')"
proof -
  define U where "U = (\<Union>r. range (bi_uuids (rr_ranges io r)))"
  obtain res ended db' runs' where e: "run_round io cfg busy db runs bank = (res, ended, db', runs')" by (metis prod_cases4)
  have s: "sound_write U {} db db'" by (rule run_round_sound [OF assms(1) e]) (auto simp: U_def)
  have "n \<in> set (sd_nodes db) \<Longrightarrow> mn_uuid n \<notin> U" for n using assms(2) by (force simp: U_def)
  then have "list_all2 (fact_kept db db') (facts_of db) (facts_of db')"
    by (rule facts_kept_each [rotated]) (use s in \<open>simp_all add: sound_write_def\<close>)
  then show ?thesis using sound_write_ok [OF s] by (simp add: e)
qed

subsection \<open>What a plan may touch\<close>

definition from_batch :: "(str \<Rightarrow> int option) \<Rightarrow> str \<Rightarrow> int list \<Rightarrow> bool" where
  "from_batch facts text srcs \<longleftrightarrow> trim text \<noteq> [] \<and> srcs \<noteq> [] \<and> set srcs \<subseteq> ran facts"

definition plan_within :: "(str \<Rightarrow> int option) \<Rightarrow> str set \<Rightarrow> plan \<Rightarrow> bool" where
  "plan_within facts observations p \<longleftrightarrow>
     list_all (\<lambda>(text, srcs). from_batch facts text srcs) (pl_creates p)
   \<and> list_all (\<lambda>(uuid, text, srcs). from_batch facts text srcs) (pl_updates p)
   \<and> distinct (map fst (pl_updates p)) \<and> set (map fst (pl_updates p)) \<subseteq> observations
   \<and> set (pl_deletes p) \<subseteq> observations \<and> set (pl_deletes p) \<inter> set (map fst (pl_updates p)) = {}
   \<and> length (pl_deletes p) \<le> max_deletes_per_plan"

lemma those_map: "those (map f xs) = Some ys \<Longrightarrow> set ys \<subseteq> {y. \<exists>x. f x = Some y} \<and> length ys = length xs"
  by (induction xs arbitrary: ys) (auto split: option.splits)

lemma resolve_from: "resolve facts ids = Some srcs \<Longrightarrow> srcs \<noteq> [] \<and> set srcs \<subseteq> ran facts"
  using those_map [of facts ids srcs] by (auto simp: resolve_def ran_def split: if_splits)

lemma repeated_update_distinct:
  "repeated_update seen us = None \<Longrightarrow> distinct (map ru_observation_id us) \<and> set (map ru_observation_id us) \<inter> seen = {}"
  by (induction seen us rule: repeated_update.induct) (auto split: if_splits)

lemma in_map_filter: "y \<in> set (List.map_filter f xs) \<longleftrightarrow> (\<exists>x \<in> set xs. f x = Some y)"
  by (induction xs) (auto simp: map_filter_simps split: option.splits)

text \<open>C21: A plan the validation lets through stays inside its batch: every observation it writes has a text and rests on
  facts of the batch alone and on at least one; it updates each observation at most once and deletes at most
  two, all of them from the pool the model was shown, and none it also updates.\<close>

theorem plan_stays_in_its_batch:
  "case validate_plan raw facts observations of Inl e \<Rightarrow> True | Inr p \<Rightarrow> plan_within facts observations p"
proof (cases "validate_plan raw facts observations")
  case (Inr p)
  then obtain r where r: "read_plan raw = Some r" "repeated_update {} (raw_updates r) = None"
      "length (raw_deletes r) \<le> max_deletes_per_plan"
    and c: "pl_creates p = List.map_filter (valid_create facts) (raw_creates r)"
    and u: "pl_updates p = List.map_filter (valid_update facts observations) (raw_updates r)"
    and d: "pl_deletes p = map rd_observation_id (filter (valid_delete observations (set (map fst (pl_updates p)))) (raw_deletes r))"
    by (auto simp: validate_plan_def Let_def split: option.splits if_splits)
  have "from_batch facts t srcs" if "valid_create facts x = Some (t, srcs)" for x t srcs
    using that by (auto simp: valid_create_def from_batch_def split: if_splits dest!: resolve_from)
  then have "list_all (\<lambda>(text, srcs). from_batch facts text srcs) (pl_creates p)"
    unfolding c by (auto simp: list_all_iff in_map_filter)
  moreover have u1: "from_batch facts t srcs \<and> i \<in> observations \<and> ru_observation_id x = i"
    if "valid_update facts observations x = Some (i, t, srcs)" for x i t srcs
    using that by (auto simp: valid_update_def from_batch_def split: if_splits dest!: resolve_from)
  then have "list_all (\<lambda>(uuid, text, srcs). from_batch facts text srcs) (pl_updates p)" "set (map fst (pl_updates p)) \<subseteq> observations"
    unfolding u by (fastforce simp: list_all_iff in_map_filter)+
  moreover have "distinct (map fst (pl_updates p))"
  proof -
    have "map fst (List.map_filter (valid_update facts observations) us) =
        map ru_observation_id (filter (\<lambda>x. valid_update facts observations x \<noteq> None) us)" for us
      using u1 by (induction us) (auto simp: map_filter_simps split: option.splits)
    then show ?thesis using repeated_update_distinct [OF r(2)] unfolding u by (simp add: distinct_map_filter)
  qed
  moreover have "length (pl_deletes p) \<le> max_deletes_per_plan"
    using r(3) length_filter_le le_trans unfolding d by (metis length_map)
  ultimately show ?thesis using Inr by (auto simp: plan_within_def d valid_delete_def)
qed simp

subsection \<open>A small store\<close>

definition consolidated_db :: search_db where
  "consolidated_db = sample_search_db\<lparr>sd_nodes :=
     [sample_node_row 1 (lit ''hello'') World, (sample_node_row 2 (lit ''greets'') Observation)\<lparr>sn_proof_count := 1\<rparr>,
      sample_node_row 3 (lit ''hello again'') World]\<rparr>"

definition sample_consolidation :: consolidation_config where
  "sample_consolidation =
     \<lparr>cc_dedup_threshold = 98 / 100, cc_batch_size = 50, cc_llm_batch_size = 8, cc_max_attempts = 3,
      cc_recall_budget = lit ''low'', cc_max_tokens = 512\<rparr>"

text \<open>A model that merges the new fact into the observation and asks for one new observation.\<close>

definition sample_reply :: json where
  "sample_reply = JObj
     [(lit ''creates'', JArr [JArr [JStr (lit ''says hello''), JArr [JStr (117 # nat_str 3)], JStr (lit ''new'')]]),
      (lit ''updates'', JArr [JObj [(lit ''observation_id'', JStr (117 # nat_str 2)), (lit ''reason'', JStr (lit ''same'')),
         (lit ''source_fact_ids'', JArr [JStr (117 # nat_str 3)]), (lit ''text'', JStr (lit '' greets twice ''))]])]"

definition sample_batch :: batch_io where
  "sample_batch =
     \<lparr>bi_now = 7, bi_uuids = (\<lambda>i. 118 # nat_str (nat i)), bi_banks = {lit ''b''}, bi_recall_env = recall_sample_env\<lparr>re_token_count := (\<lambda>_. 1)\<rparr>,
      bi_recall_config = sample_config, bi_embed = (\<lambda>_. Some (replicate 384 0)), bi_cosine = (\<lambda>_ _. 0), bi_to_string = (\<lambda>_. []),
      bi_to_string_pretty = (\<lambda>_. []), bi_chat = (\<lambda>_ _ _. ChatReply sample_reply), bi_judge = (\<lambda>_ _ _. ChatFailed)\<rparr>"

definition sample_round :: round_io where
  "sample_round =
     \<lparr>rr_ranges = (\<lambda>_. sample_batch), rr_queued = (\<lambda>_. 0), rr_mission = [], rr_sql_now = 0, rr_started = 5, rr_finished = 9,
      rr_error_text = (\<lambda>_. [])\<rparr>"

theorem consolidation_keeps_facts_witness:
  "case run_round sample_round sample_consolidation {} consolidated_db [] (lit ''b'') of
     (res, ended, db', runs') \<Rightarrow>
       provenance_ok db' \<and> list_all2 (fact_kept consolidated_db db') (facts_of consolidated_db) (facts_of db')"
proof (rule consolidation_keeps_facts)
  show "provenance_ok consolidated_db"
    by (simp add: provenance_ok_def prov_core_def counted_except_def proof_of_def consolidated_db_def sample_search_db_def sample_node_row_def)
  show "bi_uuids (rr_ranges sample_round r) i \<noteq> mn_uuid n" if "n \<in> set (sd_nodes consolidated_db)" for r i n
    using that by (auto simp: sample_round_def sample_batch_def consolidated_db_def sample_node_row_def)
qed

lemma sample_plan_read:
  "validate_plan sample_reply [117 # nat_str 3 \<mapsto> 3] {117 # nat_str 2} =
     Inr \<lparr>pl_creates = [(lit ''says hello'', [3])], pl_updates = [(117 # nat_str 2, lit ''greets twice'', [3])], pl_deletes = []\<rparr>"
  by (simp add: validate_plan_def sample_reply_def read_plan_def read_list_def struct_shape_def struct_field_def read_create_def
      read_update_def resolve_def valid_create_def valid_update_def max_deletes_per_plan_def Let_def map_filter_simps
      trim_def trim_start_def trim_end_def is_ws_def)

end
