(* ===== verification/Consolidate_Tick.thy ===== *)
theory Consolidate_Tick
  imports Consolidate_Round Mental_Tick
begin

text \<open>
  The background pass over the banks of \<open>consolidate/round.rs\<close> and the two handlers of
  \<open>routes/consolidate.rs\<close>. A round that outlives its deadline is dropped between two of its steps; what it
  leaves behind then is a field of \<open>tick_io\<close>.
\<close>

definition embed_backlog :: "search_db \<Rightarrow> str \<Rightarrow> nat \<times> nat" where
  "embed_backlog db bank =
     (length (filter (\<lambda>n. sn_bank n = bank \<and> sn_embedding n = None) (sd_nodes db)),
      length (filter (\<lambda>n. sn_bank n = bank) (sd_nodes db)))"

type_synonym consolidation_state = "search_db \<times> run_row list \<times> mental_db"

record tick_io =
  tk_rounds :: "str \<Rightarrow> round_io"
  tk_queued :: "str option \<Rightarrow> nat"
  tk_embedder :: bool
  tk_banks :: "mg_error + str list"
  tk_abandoned :: "str \<Rightarrow> search_db \<times> run_row list \<Rightarrow> (search_db \<times> run_row list) option"
  tk_refreshes :: "str \<Rightarrow> str \<Rightarrow> refresh_io"
  tk_busy :: "str set"
  tk_refreshing :: "str set"

text \<open>What the pass does for one bank, once the retain queue was found empty.\<close>

fun consolidate_one :: "tick_io \<Rightarrow> consolidation_config \<Rightarrow> str \<Rightarrow> consolidation_state \<Rightarrow> consolidation_state option" where
  "consolidate_one io cfg bank (db, runs, mdb) =
     (let (unembedded, all_nodes) = embed_backlog db bank in
      if unembedded * 10 > all_nodes then Some (db, runs, mdb)
      else
        case tk_abandoned io bank (db, runs) of
          Some (db', runs') \<Rightarrow> Some (db', runs', mdb)
        | None \<Rightarrow>
            case run_round (tk_rounds io bank) cfg (tk_busy io) db runs bank of
              (None, ended, db', runs') \<Rightarrow> None
            | (Some (Inl e), ended, db', runs') \<Rightarrow> Some (db', runs', mdb)
            | (Some (Inr s), ended, db', runs') \<Rightarrow>
                if rs_run_id s = None then Some (db', runs', mdb)
                else map_option (\<lambda>mdb'. (db', runs', mdb'))
                       (refresh_after_consolidation (tk_refreshes io) (tk_refreshing io) mdb bank))"

fun consolidate_each :: "tick_io \<Rightarrow> consolidation_config \<Rightarrow> str list \<Rightarrow> consolidation_state \<Rightarrow> consolidation_state option" where
  "consolidate_each io cfg [] st = Some st"
| "consolidate_each io cfg (bank # banks) st =
     (if 0 < tk_queued io (Some bank) then Some st
      else case consolidate_one io cfg bank st of None \<Rightarrow> None | Some st' \<Rightarrow> consolidate_each io cfg banks st')"

definition consolidation_tick :: "tick_io \<Rightarrow> consolidation_config \<Rightarrow> consolidation_state \<Rightarrow> consolidation_state option" where
  "consolidation_tick io cfg st =
     (if 0 < tk_queued io None \<or> \<not> tk_embedder io then Some st
      else case tk_banks io of Inl e \<Rightarrow> Some st | Inr banks \<Rightarrow> consolidate_each io cfg banks st)"

subsection \<open>The handlers\<close>

record consolidation_status =
  cs_watermark :: int
  cs_pending :: nat
  cs_interval_secs :: nat
  cs_latest_run :: "run_row option"

definition consolidate_bank ::
  "str set \<Rightarrow> round_io \<Rightarrow> consolidation_config \<Rightarrow> str set \<Rightarrow> search_db \<Rightarrow> run_row list \<Rightarrow> str
     \<Rightarrow> (api_error + round_summary) option \<times> search_db \<times> run_row list" where
  "consolidate_bank banks io cfg busy db runs bank =
     (if bank \<notin> banks then (Some (Inl ApiNotFound), db, runs)
      else case run_round io cfg busy db runs bank of
        (res, ended, db', runs') \<Rightarrow>
          (map_option (\<lambda>r. case r of Inl e \<Rightarrow> Inl (ApiStore e) | Inr s \<Rightarrow> Inr s) res, db', runs'))"

definition get_consolidation ::
  "str set \<Rightarrow> nat \<Rightarrow> int \<Rightarrow> search_db \<Rightarrow> run_row list \<Rightarrow> str \<Rightarrow> api_error + consolidation_status" where
  "get_consolidation banks interval_secs sql_now db runs bank =
     (if bank \<notin> banks then Inl ApiNotFound
      else Inr \<lparr>cs_watermark = watermark runs bank,
                cs_pending = count_unconsolidated db sql_now bank (watermark runs bank),
                cs_interval_secs = interval_secs, cs_latest_run = latest_run runs bank\<rparr>)"


section \<open>A pass returns and leaves the facts alone\<close>

lemma run_round_returns: "fst (run_round io cfg busy db runs bank) \<noteq> None"
proof -
  obtain res ended db' runs' where e: "run_round io cfg busy db runs bank = (res, ended, db', runs')" by (metis prod_cases4)
  define facts where "facts = unconsolidated db (rr_sql_now io) bank (watermark runs bank) (cc_batch_size cfg)"
  show ?thesis
  proof (cases "bank \<in> busy \<or> facts = []")
    case True
    then show ?thesis using run_round_idle [of bank busy db io runs cfg] by (auto simp: facts_def)
  next
    case False
    then have f: "bank \<notin> busy" "facts \<noteq> []" by auto
    obtain s s' fin where
      "loop_ok (rr_ranges io) (max 1 (cc_max_attempts cfg)) (rr_mission io) facts 0 max_adjudications_per_round s (fin, s', db', ended)" and "rs_watermark s = watermark runs bank"
      and "rs_adjudications s = 0" and "watermark runs bank \<le> rs_watermark s' \<Longrightarrow> watermark runs' bank = rs_watermark s'"
      and res: "(fin = LoopDone \<and> res = Some (Inr s')) \<or> (\<exists>err. fin = LoopFailed err \<and> res = Some (Inl err))"
      by (rule run_round_loop [OF f(1) facts_def f(2) e], rule that)
    from res have "res \<noteq> None" by auto
    then show ?thesis by (simp add: e)
  qed
qed

lemma refresh_pass_returns: "refresh_after_consolidation ios busy mdb bank \<noteq> None"
proof -
  have "\<exists>db'. refresh_each ios busy wanted bank ms mdb = Some db'" for wanted ms
    using refresh_each_frame [of ios busy wanted bank ms mdb] by blast
  then show ?thesis by (simp add: refresh_after_consolidation_def)
qed

text \<open>An abandoned round was dropped between two of its steps, so what it leaves is the work of these.\<close>

definition abandons_soundly :: "tick_io \<Rightarrow> bool" where
  "abandons_soundly io \<longleftrightarrow>
     (\<forall>bank db runs db' runs'. provenance_ok db \<longrightarrow> tk_abandoned io bank (db, runs) = Some (db', runs') \<longrightarrow> sound_write UNIV {} db db')"

lemma consolidate_one_sound:
  assumes ok: "provenance_ok db" and ab: "abandons_soundly io"
  shows "\<exists>st'. consolidate_one io cfg bank (db, runs, mdb) = Some st' \<and> sound_write UNIV {} db (fst st')"
proof (cases "fst (embed_backlog db bank) * 10 > snd (embed_backlog db bank)")
  case True
  then show ?thesis using sound_refl [OF ok] by (simp add: split_beta)
next
  case small: False
  show ?thesis
  proof (cases "tk_abandoned io bank (db, runs)")
    case (Some p)
    moreover have "sound_write UNIV {} db (fst p)" using ab ok Some unfolding abandons_soundly_def by (metis prod.collapse)
    ultimately show ?thesis using small by (simp add: split_beta)
  next
    case None
    obtain r ended db' runs' where e: "run_round (tk_rounds io bank) cfg (tk_busy io) db runs bank = (Some r, ended, db', runs')"
      using run_round_returns [of "tk_rounds io bank" cfg "tk_busy io" db runs bank] by (metis fst_conv option.exhaust prod_cases4)
    obtain mdb' where m: "refresh_after_consolidation (tk_refreshes io) (tk_refreshing io) mdb bank = Some mdb'"
      using refresh_pass_returns by blast
    have "sound_write UNIV {} db db'" by (rule run_round_sound [OF ok e subset_UNIV])
    then show ?thesis using small None e m by (cases r) (simp_all add: split_beta)
  qed
qed

lemma consolidate_each_sound:
  "provenance_ok (fst st) \<Longrightarrow> abandons_soundly io \<Longrightarrow>
   \<exists>st'. consolidate_each io cfg banks st = Some st' \<and> sound_write UNIV {} (fst st) (fst st')"
proof (induction banks arbitrary: st)
  case (Cons bank banks)
  obtain db runs mdb where st: "st = (db, runs, mdb)" by (cases st)
  show ?case
  proof (cases "0 < tk_queued io (Some bank)")
    case True
    then show ?thesis using sound_refl Cons.prems(1) by simp
  next
    case False
    obtain st1 where o: "consolidate_one io cfg bank st = Some st1" "sound_write UNIV {} db (fst st1)"
      using consolidate_one_sound [OF _ Cons.prems(2)] Cons.prems(1) unfolding st by (metis fst_conv)
    from Cons.IH [OF sound_write_ok [OF o(2)] Cons.prems(2)] show ?thesis
      using False o sound_write_trans [OF o(2)] by (auto simp: st)
  qed
qed (simp add: sound_refl)

text \<open>Over any number of passes.\<close>

fun consolidation_ticks :: "(tick_io \<times> consolidation_config) list \<Rightarrow> consolidation_state \<Rightarrow> consolidation_state option" where
  "consolidation_ticks [] st = Some st"
| "consolidation_ticks ((io, cfg) # ts) st =
     (case consolidation_tick io cfg st of None \<Rightarrow> None | Some st' \<Rightarrow> consolidation_ticks ts st')"

lemma tick_sound:
  "provenance_ok (fst st) \<Longrightarrow> abandons_soundly io \<Longrightarrow>
   \<exists>st'. consolidation_tick io cfg st = Some st' \<and> sound_write UNIV {} (fst st) (fst st')"
  using consolidate_each_sound [of st io cfg] sound_refl [of "fst st"]
  by (auto simp: consolidation_tick_def simp del: split_paired_Ex split: sum.splits)

lemma ticks_sound:
  "provenance_ok (fst st) \<Longrightarrow> list_all (\<lambda>t. abandons_soundly (fst t)) ts \<Longrightarrow>
   \<exists>st'. consolidation_ticks ts st = Some st' \<and> sound_write UNIV {} (fst st) (fst st')"
proof (induction ts arbitrary: st)
  case (Cons t ts)
  obtain io cfg where t: "t = (io, cfg)" by (cases t)
  obtain st1 where o: "consolidation_tick io cfg st = Some st1" "sound_write UNIV {} (fst st) (fst st1)"
    using tick_sound [of st io cfg] Cons.prems by (auto simp: t simp del: split_paired_Ex)
  from Cons.IH [OF sound_write_ok [OF o(2)]] Cons.prems(2) show ?case
    using o sound_write_trans [OF o(2)] by (auto simp: t)
qed (simp add: sound_refl)

end
