(* ===== verification/Extract_Parse.thy ===== *)
theory Extract_Parse
  imports Retain_Worker Mental_Cron
begin

text \<open>
  \<open>crates/memgardend/src/extract/parse.rs\<close> and the relative dates of \<open>temporal/parse.rs\<close>: from the language
  model's answer to the facts the worker stores. Parameters: \<open>char::is_alphanumeric\<close>, \<open>str::to_lowercase\<close> and
  the calendar, \<open>midnight\<close>, which gives the timestamp text of the midnight so many days after an instant.
\<close>

subsection \<open>Relative dates\<close>

definition relative_day_offsets :: "(str list \<times> int) list" where
  "relative_day_offsets =
     [([lit ''last night''], - 1), ([lit ''yesterday''], - 1), ([lit ''today''], 0), ([lit ''this morning''], 0),
      ([lit ''this afternoon''], 0), ([lit ''this evening''], 0), ([lit ''tonight'', lit ''tonigt''], 0), ([lit ''tomorrow''], 1),
      ([lit ''last week''], - 7), ([lit ''this week''], 0), ([lit ''next week''], 7), ([lit ''last month''], - 30),
      ([lit ''this month''], 0), ([lit ''next month''], 30)]"

definition is_word :: "(uchar \<Rightarrow> bool) \<Rightarrow> uchar \<Rightarrow> bool" where
  "is_word alphanumeric c \<longleftrightarrow> alphanumeric c \<or> c = 95"

text \<open>\<open>match_indices(...).find(...)\<close>: \<open>before\<close> is the text up to where the search goes on.\<close>

function find_expression :: "(uchar \<Rightarrow> bool) \<Rightarrow> str \<Rightarrow> str \<Rightarrow> str \<Rightarrow> (nat \<times> nat) option" where
  "find_expression alphanumeric needle before hay =
     (if needle = [] then None
      else case split_once needle hay of
        None \<Rightarrow> None
      | Some (a, b) \<Rightarrow>
          (if \<not> list_all (\<lambda>c. c < 128) needle
              \<or> (before @ a = [] \<or> \<not> is_word alphanumeric (last (before @ a))) \<and> (b = [] \<or> \<not> is_word alphanumeric (hd b))
           then Some (byte_len (before @ a), byte_len (before @ a) + byte_len needle)
           else find_expression alphanumeric needle (before @ a @ needle) b))"
  by pat_completeness auto
termination
  by (relation "measure (\<lambda>(_, _, _, hay). length hay)") (auto dest: split_once_shorter)

declare find_expression.simps [simp del]

definition contains_expression :: "(uchar \<Rightarrow> bool) \<Rightarrow> str \<Rightarrow> str \<Rightarrow> (nat \<times> nat) option" where
  "contains_expression alphanumeric lower_hay needle = find_expression alphanumeric needle [] lower_hay"

record extract_env =
  ee_alphanumeric :: "uchar \<Rightarrow> bool"
  ee_lower :: "str \<Rightarrow> str"
  ee_midnight :: "int \<Rightarrow> int \<Rightarrow> str option"

definition infer_temporal_date :: "extract_env \<Rightarrow> str \<Rightarrow> int option \<Rightarrow> str option" where
  "infer_temporal_date env fact_text event_date =
     Option.bind event_date (\<lambda>ms.
       Option.bind (find (\<lambda>p. list_ex (\<lambda>phrase. contains_expression (ee_alphanumeric env) (ee_lower env fact_text) phrase \<noteq> None) (fst p))
           relative_day_offsets)
         (\<lambda>p. ee_midnight env ms (snd p)))"

subsection \<open>Reading one value\<close>

definition max_fact_text_chars :: nat where "max_fact_text_chars = 2000"
definition max_entities :: nat where "max_entities = 32"
definition max_entity_chars :: nat where "max_entity_chars = 256"
definition min_quote_chars :: nat where "min_quote_chars = 12"
definition max_supersedes_per_fact :: nat where "max_supersedes_per_fact = 1"

record causal_relation =
  ca_target_index :: nat
  ca_relation_type :: str

record extracted_fact = parsed_fact +
  xf_causal_relations :: "causal_relation list"
  xf_superseded_quote :: "str option"

text \<open>The untagged enum: an object with an array under \<open>facts\<close>, or an array.\<close>

definition read_facts_response :: "json \<Rightarrow> json list option" where
  "read_facts_response v =
     (case Option.bind (jget v (lit ''facts'')) as_array of
        Some facts \<Rightarrow> Some facts
      | None \<Rightarrow> as_array v)"

fun present :: "json \<Rightarrow> bool" where
  "present JNull = False"
| "present (JBool b) = b"
| "present (JNum (NInt i)) = (i \<noteq> 0)"
| "present (JNum (NFloat r)) = (r \<noteq> 0)"
| "present (JStr s) = (s \<noteq> [] \<and> to_ascii_lowercase s \<noteq> lit ''n/a'')"
| "present (JArr a) = (a \<noteq> [])"
| "present (JObj m) = (m \<noteq> [])"

definition fact_value :: "json \<Rightarrow> string \<Rightarrow> json option" where
  "fact_value raw field = Option.bind (jget raw (lit field)) (\<lambda>v. if present v then Some v else None)"

definition fact_str :: "json \<Rightarrow> string \<Rightarrow> str option" where
  "fact_str raw field = Option.bind (fact_value raw field) as_str"

fun as_i64 :: "json \<Rightarrow> int option" where
  "as_i64 (JNum (NInt i)) = (if - (2 ^ 63) \<le> i \<and> i < 2 ^ 63 then Some i else None)"
| "as_i64 _ = None"

definition squash :: "str \<Rightarrow> str" where
  "squash s = join [32] (split_ws s)"

definition quote_is_in :: "str option \<Rightarrow> str \<Rightarrow> bool" where
  "quote_is_in quote candidate =
     (case quote of
        None \<Rightarrow> False
      | Some q \<Rightarrow> min_quote_chars \<le> length (squash q) \<and> contains (squash q) (squash candidate))"

definition entity_text :: "json \<Rightarrow> str option" where
  "entity_text item = (case item of JStr s \<Rightarrow> Some s | JObj m \<Rightarrow> get_str item (lit ''text'') | _ \<Rightarrow> None)"

definition coerce_entity_strings :: "json option \<Rightarrow> str list" where
  "coerce_entity_strings entities =
     (case entities of
        Some (JArr items) \<Rightarrow>
          take max_entities (filter (\<lambda>e. length e \<le> max_entity_chars) (List.map_filter entity_text items))
      | _ \<Rightarrow> [])"

definition relation_of :: "nat \<Rightarrow> json \<Rightarrow> causal_relation option" where
  "relation_of i rel =
     (if \<not> is_object rel then None
      else case (Option.bind (jget rel (lit ''target_index'')) as_i64, get_str rel (lit ''relation_type'')) of
        (Some t, Some r) \<Rightarrow> if t < 0 \<or> i \<le> nat t then None else Some \<lparr>ca_target_index = nat t, ca_relation_type = r\<rparr>
      | _ \<Rightarrow> None)"

text \<open>The loop over the claimed positions, which stops at the cap.\<close>

fun read_supersedes :: "known_fact list \<Rightarrow> str option \<Rightarrow> json list \<Rightarrow> nat list \<Rightarrow> nat list" where
  "read_supersedes known quote [] out = out"
| "read_supersedes known quote (p # ps) out =
     (case as_i64 p of
        None \<Rightarrow> read_supersedes known quote ps out
      | Some pos \<Rightarrow>
          if pos < 1 \<or> length known < nat pos then read_supersedes known quote ps out
          else
            let idx = nat pos - 1 in
            if \<not> quote_is_in quote (kf_text (known ! idx)) then read_supersedes known quote ps out
            else
              let out' = (if idx \<in> set out then out else out @ [idx]) in
              if length out' = max_supersedes_per_fact then out' else read_supersedes known quote ps out')"

subsection \<open>One fact, and the list of them\<close>

definition fact_text_of :: "str \<Rightarrow> json \<Rightarrow> str" where
  "fact_text_of what raw =
     join (lit '' | '')
       ([what]
        @ (case fact_str raw ''when'' of None \<Rightarrow> [] | Some w \<Rightarrow> [lit ''When: '' @ w])
        @ (case fact_str raw ''who'' of None \<Rightarrow> [] | Some w \<Rightarrow> [lit ''Involving: '' @ w])
        @ (case fact_str raw ''why'' of None \<Rightarrow> [] | Some w \<Rightarrow> [w]))"

definition raw_kind :: "json \<Rightarrow> str option" where
  "raw_kind raw = get_str raw (lit ''fact_kind'')"

definition fact_type_of :: "json \<Rightarrow> fact_type" where
  "fact_type_of raw =
     (let t = fact_str raw ''fact_type'' in
      if t = Some (lit ''assistant'') then Experience
      else if t = Some (lit ''world'') then World
      else if raw_kind raw = Some (lit ''assistant'') then Experience
      else World)"

definition fact_kind_of :: "json \<Rightarrow> str" where
  "fact_kind_of raw =
     (case raw_kind raw of
        None \<Rightarrow> lit ''conversation''
      | Some k \<Rightarrow> if k \<in> {lit ''conversation'', lit ''event'', lit ''other''} then k else lit ''conversation'')"

definition or_else :: "'a option \<Rightarrow> 'a option \<Rightarrow> 'a option" where
  "or_else a b = (case a of None \<Rightarrow> b | Some x \<Rightarrow> Some x)"

definition parse_one :: "extract_env \<Rightarrow> nat \<Rightarrow> int option \<Rightarrow> known_fact list \<Rightarrow> json \<Rightarrow> extracted_fact option" where
  "parse_one env i event_date known raw =
     (case or_else (fact_str raw ''what'') (or_else (fact_str raw ''factual_core'') (fact_str raw ''text'')) of
        None \<Rightarrow> None
      | Some what \<Rightarrow>
          let text = fact_text_of what raw in
          if is_degenerate_text (ee_alphanumeric env) text \<or> max_fact_text_chars < length text then None
          else
            let event = (fact_kind_of raw = lit ''event'');
                start = (if event then or_else (fact_str raw ''occurred_start'') (infer_temporal_date env text event_date) else None);
                quote = fact_str raw ''superseded_quote''
            in Some \<lparr>pf_text = text, pf_fact_type = fact_type_of raw, pf_fact_kind = fact_kind_of raw,
                     pf_occurred_start = start,
                     pf_occurred_end = (if event then or_else (fact_str raw ''occurred_end'') start else None),
                     pf_where_field = fact_str raw ''where'',
                     pf_entities = coerce_entity_strings (jget raw (lit ''entities'')),
                     pf_supersedes =
                       (case Option.bind (fact_value raw ''supersedes'') as_array of
                          None \<Rightarrow> [] | Some ps \<Rightarrow> read_supersedes known quote ps []),
                     pf_expires_at = fact_str raw ''expires_at'',
                     xf_causal_relations =
                       (case Option.bind (fact_value raw ''causal_relations'') as_array of
                          None \<Rightarrow> [] | Some rs \<Rightarrow> take 2 (List.map_filter (relation_of i) rs)),
                     xf_superseded_quote = quote\<rparr>)"

text \<open>The position a raw fact has among those that are kept.\<close>

definition new_index :: "'a option list \<Rightarrow> nat \<Rightarrow> nat option" where
  "new_index parsed t =
     (if t < length parsed \<and> parsed ! t \<noteq> None then Some (length (filter (\<lambda>p. p \<noteq> None) (take t parsed))) else None)"

definition remap_relation :: "(nat \<Rightarrow> nat option) \<Rightarrow> causal_relation \<Rightarrow> causal_relation option" where
  "remap_relation index r = map_option (\<lambda>t. r\<lparr>ca_target_index := t\<rparr>) (index (ca_target_index r))"

definition parse_facts :: "extract_env \<Rightarrow> json list \<Rightarrow> int option \<Rightarrow> known_fact list \<Rightarrow> extracted_fact list" where
  "parse_facts env raw_facts event_date known =
     (let parsed = map (\<lambda>(i, f). if is_object f then parse_one env i event_date known f else None) (enumerate 0 raw_facts)
      in map (\<lambda>f. f\<lparr>xf_causal_relations := List.map_filter (remap_relation (new_index parsed)) (xf_causal_relations f)\<rparr>)
           (List.map_filter (\<lambda>p. p) parsed))"


section \<open>What the parser lets through\<close>

definition retracts :: "known_fact list \<Rightarrow> str option \<Rightarrow> nat \<Rightarrow> bool" where
  "retracts known quote k \<longleftrightarrow> k < length known \<and> quote_is_in quote (kf_text (known ! k))"

definition fact_sound :: "extract_env \<Rightarrow> known_fact list \<Rightarrow> nat \<Rightarrow> extracted_fact \<Rightarrow> bool" where
  "fact_sound env known i f \<longleftrightarrow>
     \<not> is_degenerate_text (ee_alphanumeric env) (pf_text f) \<and> length (pf_text f) \<le> max_fact_text_chars
   \<and> length (pf_entities f) \<le> max_entities \<and> list_all (\<lambda>e. length e \<le> max_entity_chars) (pf_entities f)
   \<and> length (pf_supersedes f) \<le> max_supersedes_per_fact \<and> list_all (retracts known (xf_superseded_quote f)) (pf_supersedes f)
   \<and> length (xf_causal_relations f) \<le> 2 \<and> list_all (\<lambda>r. ca_target_index r < i) (xf_causal_relations f)"

lemma map_filter_member: "y \<in> set (List.map_filter f xs) \<Longrightarrow> \<exists>x \<in> set xs. f x = Some y"
  by (auto simp: map_filter_def)

lemma read_supersedes_ok:
  "length out < max_supersedes_per_fact \<Longrightarrow> list_all (retracts known quote) out \<Longrightarrow>
   length (read_supersedes known quote ps out) \<le> max_supersedes_per_fact \<and> list_all (retracts known quote) (read_supersedes known quote ps out)"
proof (induction known quote ps out rule: read_supersedes.induct)
  case (2 known quote p ps out)
  then show ?case by (auto simp: Let_def retracts_def max_supersedes_per_fact_def split: option.splits)
qed simp

lemma relation_before: "relation_of i rel = Some r \<Longrightarrow> ca_target_index r < i"
  by (auto simp: relation_of_def split: if_splits option.splits)

lemma parse_one_sound:
  assumes "parse_one env i ed known raw = Some f"
  shows "fact_sound env known i f"
proof -
  have s: "length (read_supersedes known q ps []) \<le> max_supersedes_per_fact" "list_all (retracts known q) (read_supersedes known q ps [])" for q ps
    using read_supersedes_ok [of "[]" known q ps] by (simp_all add: max_supersedes_per_fact_def)
  have r: "list_all (\<lambda>r. ca_target_index r < i) (take 2 (List.map_filter (relation_of i) rs))" for rs
    by (auto simp: list_all_iff relation_before dest!: in_set_takeD map_filter_member)
  have e: "length (coerce_entity_strings x) \<le> max_entities" "list_all (\<lambda>e. length e \<le> max_entity_chars) (coerce_entity_strings x)" for x
    by (auto simp: coerce_entity_strings_def list_all_iff split: option.splits json.splits dest!: in_set_takeD)
  from assms show ?thesis
    by (auto simp: parse_one_def Let_def fact_sound_def s r e split: option.splits if_splits)
qed

subsection \<open>Renumbering\<close>

lemma kept_at:
  "j < length (List.map_filter (\<lambda>p. p) ps) \<Longrightarrow>
   \<exists>i < length ps. ps ! i = Some (List.map_filter (\<lambda>p. p) ps ! j) \<and> length (filter (\<lambda>p. p \<noteq> None) (take i ps)) = j"
proof (induction ps arbitrary: j)
  case (Cons p ps)
  show ?case
  proof (cases p)
    case None
    with Cons obtain i where "i < length ps" "ps ! i = Some (List.map_filter (\<lambda>p. p) ps ! j)"
        "length (filter (\<lambda>p. p \<noteq> None) (take i ps)) = j" by (auto simp: map_filter_simps)
    then show ?thesis using None by (intro exI [of _ "Suc i"]) (simp add: map_filter_simps)
  next
    case (Some x)
    show ?thesis
    proof (cases j)
      case 0
      then show ?thesis using Some by (intro exI [of _ 0]) (simp add: map_filter_simps)
    next
      case (Suc k)
      with Cons Some obtain i where "i < length ps" "ps ! i = Some (List.map_filter (\<lambda>p. p) ps ! k)"
          "length (filter (\<lambda>p. p \<noteq> None) (take i ps)) = k" by (auto simp: map_filter_simps)
      then show ?thesis using Some Suc by (intro exI [of _ "Suc i"]) (simp add: map_filter_simps)
    qed
  qed
qed (simp add: map_filter_simps)

lemma kept_counts: "t < i \<Longrightarrow> i \<le> length ps \<Longrightarrow> ps ! t \<noteq> None
   \<Longrightarrow> length (filter (\<lambda>p. p \<noteq> None) (take t ps)) < length (filter (\<lambda>p. p \<noteq> None) (take i ps))"
proof -
  assume t: "t < i" "i \<le> length ps" "ps ! t \<noteq> None"
  have "take i ps = take t ps @ ps ! t # drop (Suc t) (take i ps)"
    using t id_take_nth_drop [of t "take i ps"] by (simp add: min_def)
  then have "filter (\<lambda>p. p \<noteq> None) (take i ps) =
      filter (\<lambda>p. p \<noteq> None) (take t ps) @ ps ! t # filter (\<lambda>p. p \<noteq> None) (drop (Suc t) (take i ps))"
    using t(3) by (metis (mono_tags, lifting) filter.simps(2) filter_append)
  then show ?thesis by simp
qed

lemma remapped_before:
  assumes "list_all (\<lambda>r. ca_target_index r < i) rs" and "i \<le> length ps" and "j = length (filter (\<lambda>p. p \<noteq> None) (take i ps))"
  shows "list_all (\<lambda>r. ca_target_index r < j) (List.map_filter (remap_relation (new_index ps)) rs)"
proof -
  have "ca_target_index r' < j" if "r \<in> set rs" "remap_relation (new_index ps) r = Some r'" for r r'
    using that assms kept_counts [of "ca_target_index r" i ps]
    by (auto simp: remap_relation_def new_index_def list_all_iff split: if_splits)
  then show ?thesis by (auto simp: list_all_iff dest!: map_filter_member)
qed

lemma length_map_filter_le: "length (List.map_filter f xs) \<le> length xs"
  by (simp add: map_filter_def)

lemma parse_facts_at:
  assumes "j < length (parse_facts env raws ed known)"
  shows "fact_sound env known j (parse_facts env raws ed known ! j)"
proof -
  define ps where "ps = map (\<lambda>(i, f). if is_object f then parse_one env i ed known f else None) (enumerate 0 raws)"
  define fs where "fs = List.map_filter (\<lambda>p. p) ps"
  have out: "parse_facts env raws ed known =
      map (\<lambda>f. f\<lparr>xf_causal_relations := List.map_filter (remap_relation (new_index ps)) (xf_causal_relations f)\<rparr>) fs"
    unfolding parse_facts_def Let_def ps_def fs_def by (rule refl)
  then have j: "j < length fs" using assms by simp
  then obtain i where i: "i < length ps" "ps ! i = Some (fs ! j)" "length (filter (\<lambda>p. p \<noteq> None) (take i ps)) = j"
    using kept_at [of j ps] unfolding fs_def by blast
  then have "parse_one env i ed known (raws ! i) = Some (fs ! j)"
    by (auto simp: ps_def nth_enumerate_eq split: if_splits)
  then have s: "fact_sound env known i (fs ! j)" by (rule parse_one_sound)
  then have "list_all (\<lambda>r. ca_target_index r < i) (xf_causal_relations (fs ! j))" by (simp add: fact_sound_def)
  then have "list_all (\<lambda>r. ca_target_index r < j) (List.map_filter (remap_relation (new_index ps)) (xf_causal_relations (fs ! j)))"
    by (rule remapped_before [OF _ less_imp_le [OF i(1)] i(3) [symmetric]])
  moreover have "length (List.map_filter (remap_relation (new_index ps)) (xf_causal_relations (fs ! j))) \<le> 2"
    using s length_map_filter_le [of "remap_relation (new_index ps)" "xf_causal_relations (fs ! j)"] by (simp add: fact_sound_def)
  ultimately show ?thesis using s j unfolding out by (simp add: fact_sound_def)
qed

text \<open>A relation that is kept still names the fact the model meant.\<close>

lemma kept_as:
  "t < length ps \<Longrightarrow> ps ! t = Some y \<Longrightarrow>
   length (filter (\<lambda>p. p \<noteq> None) (take t ps)) < length (List.map_filter (\<lambda>p. p) ps)
   \<and> List.map_filter (\<lambda>p. p) ps ! length (filter (\<lambda>p. p \<noteq> None) (take t ps)) = y"
proof (induction ps arbitrary: t)
  case (Cons p ps)
  show ?case
  proof (cases t)
    case 0
    then show ?thesis using Cons.prems by (simp add: map_filter_simps)
  next
    case (Suc n)
    then show ?thesis using Cons.IH [of n] Cons.prems by (cases p) (auto simp: map_filter_simps)
  qed
qed simp

lemma causal_target_is_kept:
  "new_index ps t = Some k \<Longrightarrow> ps ! t = Some (List.map_filter (\<lambda>p. p) ps ! k)"
  using kept_as [of t ps] by (auto simp: new_index_def split: if_splits)

text \<open>C22: Whatever the language model answers, each fact the parser returns has a text of substance within the limit
  and entities within theirs, retracts at most one known fact, one whose text holds the quoted words, and
  names as causes at most two facts, all before it in the list the worker numbers the facts by.\<close>

theorem parsed_facts_are_sound:
  "list_all (\<lambda>(j, f). fact_sound env known j f) (enumerate 0 (parse_facts env raws event_date known))"
  using parse_facts_at by (fastforce simp: list_all_length nth_enumerate_eq)

end
