(* ===== verification/Extract_Prompt.thy ===== *)
theory Extract_Prompt
  imports Extract_Parse Recall_Injection
begin

text \<open>
  \<open>crates/memgardend/src/extract/prompts.rs\<close> and the call in \<open>extract/mod.rs\<close>: the texts extraction sends to the
  language model. The rendering of the event's date is a parameter, as is the model's answer.
\<close>

subsection \<open>The fixed texts\<close>

definition base_fact_extraction_prompt :: str where
  "base_fact_extraction_prompt = join [10]
    [lit ''Extract SIGNIFICANT facts from text. Be SELECTIVE - only extract facts worth remembering long-term.'',
     [],
     lit ''LANGUAGE: MANDATORY '' @ [0x2014] @ lit '' Detect the language of the input text and produce ALL output in that EXACT same language. You are STRICTLY FORBIDDEN from '' @
     lit ''translating or switching to any other language. Every single word of your output must be in the same language as the input. Do NOT output in a '' @
     lit ''different language under any circumstance.'',
     [],
     lit ''{retain_mission_section}{extraction_guidelines}'',
     [],
     replicate 74 0x2550,
     lit ''FACT FORMAT - BE CONCISE'',
     replicate 74 0x2550,
     [],
     lit ''1. \"what\": Core fact - concise but complete (1-2 sentences max)'',
     lit ''2. \"when\": Temporal info if mentioned. \"N/A\" if none. Use day name when known.'',
     lit ''3. \"where\": Location if relevant. \"N/A\" if none.'',
     lit ''4. \"who\": People involved with relationships. \"N/A\" if just general info.'',
     lit ''5. \"why\": Context/significance ONLY if important. \"N/A\" if obvious.'',
     [],
     lit ''CONCISENESS: Capture the essence, not every word. One good sentence beats three mediocre ones.'',
     [],
     replicate 74 0x2550,
     lit ''COREFERENCE RESOLUTION'',
     replicate 74 0x2550,
     [],
     lit ''Link generic references to names when both appear:'',
     lit ''- \"my roommate\" + \"Emily\" '' @ [0x2192] @ lit '' use \"Emily (user's roommate)\"'',
     lit ''- \"the manager\" + \"Sarah\" '' @ [0x2192] @ lit '' use \"Sarah (the manager)\"'',
     [],
     replicate 74 0x2550,
     lit ''CLASSIFICATION'',
     replicate 74 0x2550,
     [],
     lit ''fact_kind:'',
     lit ''- \"event\": Specific datable occurrence (set occurred_start/end)'',
     lit ''- \"conversation\": Ongoing state, preference, trait (no dates)'',
     [],
     lit ''fact_type:'',
     lit ''- \"world\": Objective/external facts, including the user's preferences, rules, corrections, constraints, plans, traits, or context. These stay \"world\" '' @
     lit ''even when the user states them during an assistant interaction (e.g., \"User prefers browser_navigate over web_search\", \"User corrected the project '' @
     lit ''deadline\").'',
     lit ''- \"assistant\": Actions, experiences, or observations the assistant/agent actually performed (e.g., \"I changed X\", \"I discovered Y\", \"I debugged Z\"). '' @
     lit ''Use this for the assistant/agent doing, trying, learning, deciding, recommending, or responding '' @ [0x2014] @ lit '' not merely for user facts mentioned in conversation.'',
     [],
     replicate 74 0x2550,
     lit ''TEMPORAL HANDLING'',
     replicate 74 0x2550,
     [],
     lit ''Use \"Event Date\" from input as reference for relative dates.'',
     lit ''- CRITICAL: Convert ALL relative temporal expressions to absolute dates in the fact text itself.'',
     lit ''  \"yesterday\" '' @ [0x2192] @ lit '' write the resolved date (e.g. \"on November 12, 2024\"), NOT the word \"yesterday\"'',
     lit ''  \"last night\", \"this morning\", \"today\", \"tonight\" '' @ [0x2192] @ lit '' convert to the resolved absolute date'',
     lit ''- For events: set occurred_start AND occurred_end (same for point events)'',
     lit ''- For conversation facts: NO occurred dates'',
     [],
     replicate 74 0x2550,
     lit ''ENTITIES'',
     replicate 74 0x2550,
     [],
     lit ''ALWAYS return \"entities\" as an array of plain strings '' @ [0x2014] @ lit '' never objects, never null.'',
     lit ''Correct: entities=[\"Alice\", \"Kubernetes\", \"CKA\"]'',
     lit ''Wrong:   entities as an array of objects with a \"text\" key '' @ [0x2190] @ lit '' never use this form'',
     lit ''Use an empty array [] only when the fact truly names nothing.'',
     [],
     lit ''Include: people names, organizations, places, key objects, abstract concepts (career, friendship, etc.)'',
     lit ''Always include \"user\" when fact is about the user.{examples}'']"

definition concise_guidelines :: str where
  "concise_guidelines = join [10]
    [replicate 74 0x2550,
     lit ''SELECTIVITY - CRITICAL (Reduces 90% of unnecessary output)'',
     replicate 74 0x2550,
     [],
     lit ''ONLY extract facts that are:'',
     [0x2705] @ lit '' Personal info: names, relationships, roles, background'',
     [0x2705] @ lit '' Preferences: likes, dislikes, habits, interests (e.g., \"Alice likes coffee\")'',
     [0x2705] @ lit '' Significant events: milestones, decisions, achievements, changes'',
     [0x2705] @ lit '' Plans/goals: future intentions, deadlines, commitments'',
     [0x2705] @ lit '' Expertise: skills, knowledge, certifications, experience'',
     [0x2705] @ lit '' Important context: projects, problems, constraints'',
     [0x2705] @ lit '' Sensory/emotional details: feelings, sensations, perceptions that provide context'',
     [0x2705] @ lit '' Observations: descriptions of people, places, things with specific details'',
     [],
     lit ''DO NOT extract:'',
     [0x274C] @ lit '' Generic greetings: \"how are you\", \"hello\", pleasantries without substance'',
     [0x274C] @ lit '' Pure filler: \"thanks\", \"sounds good\", \"ok\", \"got it\", \"sure\"'',
     [0x274C] @ lit '' Process chatter: \"let me check\", \"one moment\", \"I'll look into it\"'',
     [0x274C] @ lit '' Repeated info: if already stated, don't extract again'',
     [],
     lit ''CONSOLIDATE related statements into ONE fact when possible.'']"

definition concise_examples :: str where
  "concise_examples = join [10]
    [[],
     [],
     replicate 74 0x2550,
     lit ''EXAMPLES (shown in English for illustration; for non-English input, ALL output values MUST be in the input language)'',
     replicate 74 0x2550,
     [],
     lit ''Example 1 - Selective extraction (Event Date: June 10, 2024):'',
     lit ''Input: \"Hey! How's it going? Good morning! So I'm planning my wedding - want a small outdoor ceremony. Just got back from Emily's wedding, she '' @
     lit ''married Sarah at a rooftop garden. It was nice weather. I grabbed a coffee on the way.\"'',
     [],
     lit ''Output: ONLY 2 facts (skip greetings, weather, coffee):'',
     lit ''1. what=\"User planning wedding, wants small outdoor ceremony\", who=\"user\", why=\"N/A\", entities=[\"user\", \"wedding\"]'',
     lit ''2. what=\"Emily married Sarah at rooftop garden\", who=\"Emily (user's friend), Sarah\", occurred_start=\"2024-06-09\", entities=[\"Emily\", \"Sarah\", '' @
     lit ''\"wedding\"]'',
     [],
     lit ''Example 2 - Professional context:'',
     lit ''Input: \"Alice has 5 years of Kubernetes experience and holds CKA certification. She's been leading the infrastructure team since March. By the way, '' @
     lit ''she prefers dark roast coffee.\"'',
     [],
     lit ''Output: ONLY 2 facts (skip coffee preference - too trivial):'',
     lit ''1. what=\"Alice has 5 years Kubernetes experience, CKA certified\", who=\"Alice\", entities=[\"Alice\", \"Kubernetes\", \"CKA\"]'',
     lit ''2. what=\"Alice leads infrastructure team since March\", who=\"Alice\", entities=[\"Alice\", \"infrastructure\"]'',
     [],
     replicate 74 0x2550,
     lit ''QUALITY OVER QUANTITY'',
     replicate 74 0x2550,
     [],
     lit ''Ask: \"Would this be useful to recall in 6 months?\" If no, skip it.'',
     [],
     lit ''IMPORTANT: Sensory/emotional details and observations that provide meaningful context'',
     lit ''about experiences ARE important to remember, even if they seem small (e.g., how food'',
     lit ''tasted, how someone looked, how loud music was). Extract these if they characterize'',
     lit ''an experience or person.'']"

definition causal_relationships_section :: str where
  "causal_relationships_section = join [10]
    [[],
     [],
     replicate 74 0x2550,
     lit ''CAUSAL RELATIONSHIPS'',
     replicate 74 0x2550,
     [],
     lit ''Link facts with causal_relations (max 2 per fact). target_index must be < this fact's index.'',
     lit ''Type: \"caused_by\" (this fact was caused by the target fact)'',
     [],
     lit ''Example: \"Lost job '' @ [0x2192] @ lit '' couldn't pay rent '' @ [0x2192] @ lit '' moved apartment\"'',
     lit ''- Fact 0: Lost job, causal_relations: null'',
     lit ''- Fact 1: Couldn't pay rent, causal_relations: [{target_index: 0, relation_type: \"caused_by\"}]'',
     lit ''- Fact 2: Moved apartment, causal_relations: [{target_index: 1, relation_type: \"caused_by\"}]'']"

definition supersession_section :: str where
  "supersession_section = join [10]
    [[],
     [],
     replicate 74 0x2550,
     lit ''KNOWN FACTS AND RETRACTION'',
     replicate 74 0x2550,
     [],
     lit ''The user message may list KNOWN FACTS already stored for this project.'',
     [],
     lit ''FIRST, THE RULE THAT OVERRIDES THE REST: extract facts from the text exactly'',
     lit ''as you would with no list at all. Never skip, shorten or omit a fact because'',
     lit ''something like it is on the list. The list changes ONE thing only '' @ [0x2014] @ lit '' it lets'',
     lit ''you mark an old fact as no longer true.'',
     [],
     lit ''\"supersedes\": ALWAYS present. The number of the ONE known fact that this new'',
     lit ''fact makes FALSE, as a one-element array '' @ [0x2014] @ lit '' or [] when nothing is retracted.'',
     lit ''[] is the normal case and the answer for most facts you will ever extract.'',
     [],
     lit ''\"superseded_quote\": ALWAYS present. \"N/A\" when \"supersedes\" is [].'',
     lit ''Otherwise copy, word for word, the part of that known fact which is now false.'',
     lit ''Copy it from the list above '' @ [0x2014] @ lit '' do not paraphrase it, do not summarise it, do not'',
     lit ''write your own sentence. If you cannot find a span in the known fact that the'',
     lit ''new fact makes false, then nothing is retracted: answer [] and \"N/A\".'',
     [],
     lit ''Use these ONLY when the new fact and the old one cannot both be true now:'',
     [0x2705] @ lit '' A correction: \"the CPU-3 conclusion was withdrawn\" retracts \"the crashes are caused by CPU 3\"'',
     [0x2705] @ lit '' A reversal: \"the gate was signed on August 20\" retracts \"the gate is awaiting signature\"'',
     [0x2705] @ lit '' A replacement of the same measured value: \"the blind re-run scored 13/5/1\" retracts \"the result was 6/2/5\"'',
     [0x2705] @ lit '' A state change: \"moved to Seoul\" retracts \"lives in Busan\"'',
     [],
     lit ''Do NOT use it for:'',
     [0x274C] @ lit '' A fact that merely mentions the same topic, project, file or person'',
     [0x274C] @ lit '' A newer detail that ADDS to an old fact without contradicting it'',
     [0x274C] @ lit '' A fact you believe is old just because it is on the list '' @ [0x2014] @ lit '' the list is not'',
     lit ''   ordered by age and being listed is not evidence of anything'',
     [0x274C] @ lit '' Progress on the same work (\"the fix is now merged\" does not retract \"the fix'',
     lit ''   was written\") '' @ [0x2014] @ lit '' both remain true'',
     [],
     lit ''If you are not sure the two cannot both be true, do not name the number.'',
     [],
     lit ''Being on the same topic is not retraction. Naming the same project, gate,'',
     lit ''component or measurement as a known fact is not retraction. Most chunks'',
     lit ''retract nothing at all '' @ [0x2014] @ lit '' [] is the expected answer.'']"

definition expiry_section :: str where
  "expiry_section = join [10]
    [[],
     [],
     replicate 74 0x2550,
     lit ''FACTS THAT EXPIRE'',
     replicate 74 0x2550,
     [],
     lit ''\"expires_at\": ALWAYS present. An ISO date (YYYY-MM-DD) after which this fact is'',
     lit ''no longer true, for facts that are true only for a stated stretch of time '' @ [0x2014],
     lit ''otherwise the string \"N/A\".'',
     [],
     [0x2705] @ lit '' \"has an exam tomorrow\" -> the day after Event Date'',
     [0x2705] @ lit '' \"is on leave until March 3\" -> 2027-03-03'',
     [0x274C] @ lit '' Anything durable '' @ [0x2014] @ lit '' preferences, decisions, root causes, architecture, bug'',
     lit ''   fixes, measurements. These NEVER expire; answer \"N/A\". Almost every fact'',
     lit ''   belongs here.'']"

definition output_shape_section :: str where
  "output_shape_section = join [10]
    [[],
     [],
     replicate 74 0x2550,
     lit ''OUTPUT FORMAT '' @ [0x2014] @ lit '' REQUIRED'',
     replicate 74 0x2550,
     [],
     lit ''Output ONLY a JSON object of exactly this shape, no other text:'',
     lit ''{\"facts\":[{\"what\":\"...\",\"when\":\"...\",\"where\":\"...\",\"who\":\"...\",\"why\":\"...\",\"fact_kind\":\"event\"|\"conversation\",\"fact_type\":\"world\"|\"assistant\",\"occurred_start\":\"...\",\"occurred_end\":\"...\",\"entities\":[\"...\"]}]}'']"

definition output_shape_lifecycle :: str where
  "output_shape_lifecycle = join [10]
    [[],
     [],
     lit ''When the KNOWN FACTS section is present, every fact also carries these three,'',
     lit ''always:'',
     lit ''\"supersedes\":[],\"superseded_quote\":\"N/A\",\"expires_at\":\"N/A'']"

text \<open>\<open>str::replace\<close> of the three placeholders, the first by nothing.\<close>

definition extract_system_prompt :: "bool \<Rightarrow> bool \<Rightarrow> str" where
  "extract_system_prompt causal supersession =
     (let base = str_replace (lit ''{examples}'') concise_examples
            (str_replace (lit ''{extraction_guidelines}'') concise_guidelines
              (str_replace (lit ''{retain_mission_section}'') [] base_fact_extraction_prompt))
      in base @ (if causal then causal_relationships_section else [])
          @ (if supersession then supersession_section else []) @ (if supersession then expiry_section else [])
          @ output_shape_section @ (if supersession then output_shape_lifecycle else []))"

subsection \<open>The message\<close>

definition mission_rule :: str where "mission_rule = replicate 74 0x2550"

definition retain_mission_preamble :: "str option \<Rightarrow> str" where
  "retain_mission_preamble retain_mission =
     (case retain_mission of
        None \<Rightarrow> []
      | Some mission \<Rightarrow>
          if mission = [] then []
          else join [10] [mission_rule,
                 lit ''FOCUS '' @ [0x2014] @ lit '' What to retain for this bank (takes priority over the general guidelines)'',
                 mission_rule, [], mission, [], []])"

definition known_fact_max_chars :: nat where "known_fact_max_chars = 240"

definition known_fact_text :: "str \<Rightarrow> str" where
  "known_fact_text t =
     map (\<lambda>c. if c = 10 \<or> c = 13 then 32 else c)
       (if known_fact_max_chars < length t then take known_fact_max_chars t @ [8230] else t)"

definition known_facts_section :: "known_fact list \<Rightarrow> str" where
  "known_facts_section known =
     (if known = [] then []
      else [10] @ lit ''KNOWN FACTS (already stored; see the retraction rules above):'' @ [10]
        @ concat (map (\<lambda>(i, f). nat_str (i + 1) @ lit ''. '' @ known_fact_text (kf_text f) @ [10]) (enumerate 0 known)))"

definition user_message :: "(int \<Rightarrow> str) \<Rightarrow> str \<Rightarrow> int option \<Rightarrow> str option \<Rightarrow> str \<Rightarrow> known_fact list \<Rightarrow> str" where
  "user_message date_str mission_preamble event_date ctx chunk known =
     mission_preamble @ join [10]
       [lit ''Extract facts from the following text chunk.'', [],
        lit ''Chunk: 1/1'',
        lit ''Event Date: '' @ (case event_date of None \<Rightarrow> lit ''Unknown'' | Some ms \<Rightarrow> date_str ms),
        lit ''Context: '' @ (case ctx of None \<Rightarrow> lit ''none'' | Some c \<Rightarrow> if c = [] then lit ''none'' else c),
        known_facts_section known,
        lit ''Text:'',
        chunk]"

subsection \<open>The call\<close>

text \<open>The answer is \<open>Inl\<close> for a failed call; one that is no list of facts fails as well, with the error of the
  client's parser.\<close>

definition extract_facts ::
  "extract_env \<Rightarrow> (int \<Rightarrow> str) \<Rightarrow> (str \<Rightarrow> str \<Rightarrow> 'e + json) \<Rightarrow> 'e \<Rightarrow> str \<Rightarrow> int option \<Rightarrow> str option \<Rightarrow> known_fact list
     \<Rightarrow> 'e + extracted_fact list" where
  "extract_facts env date_str chat unparseable text event_date mission known =
     (case chat (extract_system_prompt True (known \<noteq> []))
             (user_message date_str (retain_mission_preamble mission) event_date None text known) of
        Inl e \<Rightarrow> Inl e
      | Inr v \<Rightarrow> (case read_facts_response v of None \<Rightarrow> Inl unparseable | Some raws \<Rightarrow> Inr (parse_facts env raws event_date known)))"

text \<open>Each known fact takes one line, whatever its text: a stored fact cannot add a line to the list.\<close>

lemma known_fact_text_line: "10 \<notin> set (known_fact_text t)" "13 \<notin> set (known_fact_text t)"
  by (auto simp: known_fact_text_def)

lemma known_facts_lines:
  "count_list (concat (map (\<lambda>(i, f). nat_str (i + 1) @ lit ''. '' @ known_fact_text (kf_text f) @ [10]) (enumerate n known))) 10 = length known"
proof (induction known arbitrary: n)
  case (Cons f known)
  have "count_list (nat_str (n + 1)) 10 = 0" using nat_str_digits [of 10 "n + 1"] by (auto simp: count_list_0_iff)
  moreover have "count_list (known_fact_text (kf_text f)) 10 = 0" using known_fact_text_line(1) by (simp add: count_list_0_iff)
  ultimately show ?case using Cons.IH [of "Suc n"] by simp
qed simp

lemma extracted_facts_are_sound:
  "extract_facts env date_str chat unparseable t event_date mission known = Inr fs \<Longrightarrow> j < length fs \<Longrightarrow> fact_sound env known j (fs ! j)"
  using parse_facts_at by (fastforce simp: extract_facts_def split: sum.splits option.splits)

end
