(* ===== verification/Extract_Graph.thy ===== *)
theory Extract_Graph
  imports Extract_Parse Recall_Store
begin

text \<open>
  \<open>crates/memgardend/src/entities.rs\<close> and \<open>links.rs\<close>: which existing entity a mention names, by difflib's ratio
  and the circumstances, and the links a batch of facts is stored with. An \<open>f64\<close> is a rational, so the
  arithmetic is exact. Parameters: \<open>str::to_lowercase\<close> and \<open>char::is_numeric\<close>.
\<close>

section \<open>Difflib's ratio\<close>

text \<open>The positions of a character in \<open>b\<close>; in a long text a character that is too common has none.\<close>

definition b2j :: "str \<Rightarrow> uchar \<Rightarrow> nat list" where
  "b2j b c =
     (let js = filter (\<lambda>j. b ! j = c) [0..<length b] in
      if 200 \<le> length b \<and> length b div 100 + 1 < length js then [] else js)"

type_synonym match = "nat \<times> nat \<times> nat"

text \<open>The inner loop over the positions of one character, with its \<open>continue\<close> and \<open>break\<close>.\<close>

fun scan_js :: "nat \<Rightarrow> nat \<Rightarrow> nat \<Rightarrow> (nat \<rightharpoonup> nat) \<Rightarrow> nat list \<Rightarrow> (nat \<rightharpoonup> nat) \<Rightarrow> match \<Rightarrow> (nat \<rightharpoonup> nat) \<times> match" where
  "scan_js i blo bhi j2len [] newj2len best = (newj2len, best)"
| "scan_js i blo bhi j2len (j # js) newj2len best =
     (if j < blo then scan_js i blo bhi j2len js newj2len best
      else if bhi \<le> j then (newj2len, best)
      else
        let k = (case j of 0 \<Rightarrow> 0 | Suc p \<Rightarrow> (case j2len p of None \<Rightarrow> 0 | Some n \<Rightarrow> n)) + 1
        in scan_js i blo bhi j2len js (newj2len(j \<mapsto> k)) (if snd (snd best) < k then (i + 1 - k, j + 1 - k, k) else best))"

fun scan_is :: "str \<Rightarrow> (uchar \<Rightarrow> nat list) \<Rightarrow> nat \<Rightarrow> nat \<Rightarrow> nat list \<Rightarrow> (nat \<rightharpoonup> nat) \<Rightarrow> match \<Rightarrow> match" where
  "scan_is a pos blo bhi [] j2len best = best"
| "scan_is a pos blo bhi (i # is) j2len best =
     (let (newj2len, best') = scan_js i blo bhi j2len (pos (a ! i)) Map.empty best
      in scan_is a pos blo bhi is newj2len best')"

text \<open>Growing the match, to the left and then to the right.\<close>

fun grow_left :: "str \<Rightarrow> str \<Rightarrow> nat \<Rightarrow> nat \<Rightarrow> match \<Rightarrow> match" where
  "grow_left a b alo blo (i, j, k) =
     (if alo < i \<and> blo < j \<and> a ! (i - 1) = b ! (j - 1) then grow_left a b alo blo (i - 1, j - 1, k + 1) else (i, j, k))"

function grow_right :: "str \<Rightarrow> str \<Rightarrow> nat \<Rightarrow> nat \<Rightarrow> match \<Rightarrow> match" where
  "grow_right a b ahi bhi (i, j, k) =
     (if i + k < ahi \<and> j + k < bhi \<and> a ! (i + k) = b ! (j + k) then grow_right a b ahi bhi (i, j, k + 1) else (i, j, k))"
  by pat_completeness auto
termination
  by (relation "measure (\<lambda>(a, b, ahi, bhi, i, j, k). ahi - (i + k))") auto

declare grow_left.simps [simp del] grow_right.simps [simp del]

definition longest_match :: "str \<Rightarrow> str \<Rightarrow> (uchar \<Rightarrow> nat list) \<Rightarrow> nat \<Rightarrow> nat \<Rightarrow> nat \<Rightarrow> nat \<Rightarrow> match" where
  "longest_match a b pos alo ahi blo bhi =
     grow_right a b ahi bhi (grow_left a b alo blo (scan_is a pos blo bhi [alo..<ahi] Map.empty (alo, blo, 0)))"

text \<open>A match found in a window lies inside it.\<close>

definition inside :: "nat \<Rightarrow> nat \<Rightarrow> nat \<Rightarrow> nat \<Rightarrow> match \<Rightarrow> bool" where
  "inside alo ahi blo bhi m \<longleftrightarrow>
     (case m of (i, j, k) \<Rightarrow> alo \<le> i \<and> i + k \<le> ahi \<and> blo \<le> j \<and> j + k \<le> bhi)"

text \<open>The lengths in the row before \<open>i\<close> describe runs that begin inside the window.\<close>

definition runs_ok :: "nat \<Rightarrow> nat \<Rightarrow> nat \<Rightarrow> (nat \<rightharpoonup> nat) \<Rightarrow> bool" where
  "runs_ok alo blo i row \<longleftrightarrow> (\<forall>j k. row j = Some k \<longrightarrow> k \<le> i - alo \<and> k + blo \<le> j + 1)"

lemma scan_js_inside:
  assumes "runs_ok alo blo i j2len" and "runs_ok alo blo (Suc i) new" and "alo \<le> i" and "i < ahi" and "inside alo ahi blo bhi best"
    and "scan_js i blo bhi j2len js new best = (new', best')"
  shows "runs_ok alo blo (Suc i) new' \<and> inside alo ahi blo bhi best'"
  using assms(2,5,6)
proof (induction js arbitrary: new best)
  case (Cons j js)
  show ?case
  proof (cases "j < blo \<or> bhi \<le> j")
    case True
    then show ?thesis using Cons by (auto split: if_splits)
  next
    case False
    define k where "k = (case j of 0 \<Rightarrow> 0 | Suc p \<Rightarrow> (case j2len p of None \<Rightarrow> 0 | Some n \<Rightarrow> n)) + 1"
    have k: "k \<le> Suc i - alo" "k + blo \<le> j + 1"
    proof -
      have r: "n \<le> i - alo \<and> n + blo \<le> p + 1" if "j2len p = Some n" for p n using assms(1) that by (simp add: runs_ok_def)
      show "k \<le> Suc i - alo" "k + blo \<le> j + 1"
        using assms(3) False by (auto simp: k_def Suc_diff_le split: nat.splits option.splits dest!: r)
    qed
    have "runs_ok alo blo (Suc i) (new(j \<mapsto> k))" using Cons.prems(1) k by (auto simp: runs_ok_def)
    moreover have "inside alo ahi blo bhi (if snd (snd best) < k then (i + 1 - k, j + 1 - k, k) else best)"
      using Cons.prems(2) k False assms(3,4) by (auto simp: inside_def)
    moreover have "scan_js i blo bhi j2len js (new(j \<mapsto> k)) (if snd (snd best) < k then (i + 1 - k, j + 1 - k, k) else best) = (new', best')"
      using Cons.prems(3) False unfolding scan_js.simps Let_def k_def [symmetric] by simp
    ultimately show ?thesis by (rule Cons.IH)
  qed
qed simp

lemma scan_is_inside:
  assumes "runs_ok alo blo i j2len" and "alo \<le> i" and "inside alo ahi blo bhi best"
  shows "inside alo ahi blo bhi (scan_is a pos blo bhi [i..<ahi] j2len best)"
  using assms
proof (induction "ahi - i" arbitrary: i j2len best)
  case 0
  then show ?case by simp
next
  case (Suc d)
  then have i: "i < ahi" by simp
  obtain new best' where s: "scan_js i blo bhi j2len (pos (a ! i)) Map.empty best = (new, best')"
    by (cases "scan_js i blo bhi j2len (pos (a ! i)) Map.empty best")
  have "runs_ok alo blo (Suc i) new \<and> inside alo ahi blo bhi best'"
    by (rule scan_js_inside [OF Suc.prems(1) _ Suc.prems(2) i Suc.prems(3) s]) (simp add: runs_ok_def)
  then show ?case using Suc.hyps(1) [of "Suc i" new best'] Suc.hyps(2) Suc.prems(2) i s by (simp add: upt_conv_Cons)
qed

lemma grow_left_inside: "inside alo ahi blo bhi m \<Longrightarrow> inside alo ahi blo bhi (grow_left a b alo blo m)"
proof (induction a b alo blo m rule: grow_left.induct)
  case (1 a b alo blo i j k)
  show ?case
  proof (cases "alo < i \<and> blo < j \<and> a ! (i - 1) = b ! (j - 1)")
    case True
    moreover from this 1(2) have "inside alo ahi blo bhi (i - 1, j - 1, k + 1)" by (auto simp: inside_def)
    ultimately show ?thesis using 1(1) by (subst grow_left.simps) simp
  next
    case False
    then show ?thesis using 1(2) by (subst grow_left.simps) auto
  qed
qed

lemma grow_right_inside: "inside alo ahi blo bhi m \<Longrightarrow> inside alo ahi blo bhi (grow_right a b ahi bhi m)"
proof (induction a b ahi bhi m rule: grow_right.induct)
  case (1 a b ahi bhi i j k)
  show ?case
  proof (cases "i + k < ahi \<and> j + k < bhi \<and> a ! (i + k) = b ! (j + k)")
    case True
    moreover from this 1(2) have "inside alo ahi blo bhi (i, j, k + 1)" by (auto simp: inside_def)
    ultimately show ?thesis using 1(1) by (subst grow_right.simps) simp
  next
    case False
    then show ?thesis using 1(2) by (subst grow_right.simps) auto
  qed
qed

lemma longest_match_inside:
  "alo \<le> ahi \<Longrightarrow> blo \<le> bhi \<Longrightarrow> inside alo ahi blo bhi (longest_match a b pos alo ahi blo bhi)"
  unfolding longest_match_def
  by (intro grow_right_inside grow_left_inside scan_is_inside) (simp_all add: runs_ok_def inside_def)

text \<open>The stack of windows, its top first.\<close>

type_synonym window = "nat \<times> nat \<times> nat \<times> nat"

definition sub_windows :: "window \<Rightarrow> match \<Rightarrow> window list" where
  "sub_windows w m =
     (case (w, m) of ((alo, ahi, blo, bhi), (i, j, k)) \<Rightarrow>
        (if i + k < ahi \<and> j + k < bhi then [(i + k, ahi, j + k, bhi)] else [])
        @ (if alo < i \<and> blo < j then [(alo, i, blo, j)] else []))"

definition window_ok :: "window \<Rightarrow> bool" where
  "window_ok w \<longleftrightarrow> (case w of (alo, ahi, blo, bhi) \<Rightarrow> alo \<le> ahi \<and> blo \<le> bhi)"

definition a_width :: "window \<Rightarrow> nat" where "a_width w = fst (snd w) - fst w"
definition b_width :: "window \<Rightarrow> nat" where "b_width w = snd (snd (snd w)) - fst (snd (snd w))"

lemma sub_windows_fit:
  assumes "inside alo ahi blo bhi (i, j, k)"
  shows "list_all window_ok (sub_windows (alo, ahi, blo, bhi) (i, j, k))"
    and "k + sum_list (map a_width (sub_windows (alo, ahi, blo, bhi) (i, j, k))) \<le> ahi - alo"
    and "k + sum_list (map b_width (sub_windows (alo, ahi, blo, bhi) (i, j, k))) \<le> bhi - blo"
    and "0 < k \<Longrightarrow> sum_list (map (\<lambda>w. 2 * a_width w + 1) (sub_windows (alo, ahi, blo, bhi) (i, j, k))) < 2 * (ahi - alo) + 1"
  using assms by (auto simp: sub_windows_def inside_def window_ok_def a_width_def b_width_def)

text \<open>A window that is not one, which the code never pushes, is passed over; so the loop ends for every stack.\<close>

function match_loop :: "str \<Rightarrow> str \<Rightarrow> (uchar \<Rightarrow> nat list) \<Rightarrow> window list \<Rightarrow> nat \<Rightarrow> nat" where
  "match_loop a b pos [] size_so_far = size_so_far"
| "match_loop a b pos ((alo, ahi, blo, bhi) # stack) size_so_far =
     (let (i, j, k) = longest_match a b pos alo ahi blo bhi in
      if k = 0 \<or> \<not> window_ok (alo, ahi, blo, bhi) then match_loop a b pos stack size_so_far
      else match_loop a b pos (sub_windows (alo, ahi, blo, bhi) (i, j, k) @ stack) (size_so_far + k))"
  by pat_completeness auto
termination
proof (relation "measure (\<lambda>(a, b, pos, stack, n). sum_list (map (\<lambda>w. 2 * a_width w + 1) stack))", goal_cases)
  case (3 a b pos alo ahi blo bhi stack n m i y j k)
  then have "inside alo ahi blo bhi (i, j, k)"
    using longest_match_inside [of alo ahi blo bhi a b pos] by (auto simp: window_ok_def)
  then show ?case using sub_windows_fit(4) [of alo ahi blo bhi i j k] 3 by (auto simp: a_width_def)
qed (auto simp: a_width_def)

definition matching_size :: "str \<Rightarrow> str \<Rightarrow> nat" where
  "matching_size a b = match_loop a b (b2j b) [(0, length a, 0, length b)] 0"

definition ratio :: "str \<Rightarrow> str \<Rightarrow> f64" where
  "ratio a b =
     (if length a + length b = 0 then 1 else 2 * of_nat (matching_size a b) / of_nat (length a + length b))"

section \<open>Entities\<close>

definition resolution_threshold :: f64 where "resolution_threshold = 6 / 10"
definition temporal_window_days :: f64 where "temporal_window_days = 7"
definition resolution_ms_per_day :: f64 where "resolution_ms_per_day = 86400000"
definition name_floor :: f64 where "name_floor = 1 / 2"

definition normalize_name :: "(str \<Rightarrow> str) \<Rightarrow> str \<Rightarrow> str" where
  "normalize_name lower name = lower (trim name)"

fun digit_runs :: "(uchar \<Rightarrow> bool) \<Rightarrow> str \<Rightarrow> str \<Rightarrow> str list" where
  "digit_runs numeric cur [] = (if cur = [] then [] else [cur])"
| "digit_runs numeric cur (c # cs) =
     (if numeric c then digit_runs numeric (cur @ [if 0xFF10 \<le> c \<and> c \<le> 0xFF19 then 48 + (c - 0xFF10) else c]) cs
      else if cur = [] then digit_runs numeric [] cs
      else cur # digit_runs numeric [] cs)"

definition digits_differ :: "(uchar \<Rightarrow> bool) \<Rightarrow> str \<Rightarrow> str \<Rightarrow> bool" where
  "digits_differ numeric a b \<longleftrightarrow> digit_runs numeric [] a \<noteq> digit_runs numeric [] b"

definition resolution_score :: "f64 \<Rightarrow> nat \<Rightarrow> nat \<Rightarrow> f64 option \<Rightarrow> f64" where
  "resolution_score name_ratio overlap nearby_total days_diff =
     name_ratio * (1 / 2)
     + (if 0 < nearby_total then of_nat overlap / of_nat nearby_total * (3 / 10) else 0)
     + (case days_diff of
          None \<Rightarrow> 0
        | Some days \<Rightarrow> if days < temporal_window_days then max (1 - days / temporal_window_days) 0 * (2 / 10) else 0)"

definition ratio_ceiling :: "nat \<Rightarrow> nat \<Rightarrow> f64" where
  "ratio_ceiling len_a len_b = 2 * of_nat (min len_a len_b) / of_nat (len_a + len_b)"

definition can_clear_threshold :: "nat \<Rightarrow> nat \<Rightarrow> bool" where
  "can_clear_threshold len_a len_b \<longleftrightarrow>
     len_a + len_b = 0
   \<or> name_floor \<le> ratio_ceiling len_a len_b
     \<and> resolution_threshold < resolution_score (ratio_ceiling len_a len_b) 1 1 (Some 0)"

definition normalized_mentions :: "(str \<Rightarrow> str) \<Rightarrow> str list \<Rightarrow> str list" where
  "normalized_mentions lower mentions =
     retain_new (\<lambda>m. m) {} (filter (\<lambda>m. m \<noteq> []) (map (normalize_name lower) mentions))"

record entity_candidate =
  ec_id :: int
  ec_canonical_name :: str
  ec_last_seen :: "int option"

record resolution_context =
  rx_candidates :: "entity_candidate list"
  rx_cooccurring :: "int \<rightharpoonup> str set"

definition overlap_of :: "resolution_context \<Rightarrow> str list \<Rightarrow> int \<Rightarrow> nat" where
  "overlap_of ctx nearby i =
     (case rx_cooccurring ctx i of None \<Rightarrow> 0 | Some names \<Rightarrow> length (filter (\<lambda>n. n \<in> names) nearby))"

definition days_apart :: "int option \<Rightarrow> int option \<Rightarrow> f64 option" where
  "days_apart last_seen now =
     (case (last_seen, now) of (Some l, Some n) \<Rightarrow> Some (of_int \<bar>n - l\<bar> / resolution_ms_per_day) | _ \<Rightarrow> None)"

definition candidate_score :: "resolution_context \<Rightarrow> str list \<Rightarrow> int option \<Rightarrow> str \<Rightarrow> entity_candidate \<Rightarrow> f64" where
  "candidate_score ctx nearby event_date mention c =
     resolution_score (ratio mention (ec_canonical_name c)) (overlap_of ctx nearby (ec_id c)) (length nearby)
       (days_apart (ec_last_seen c) event_date)"

text \<open>The loop over the candidates; \<open>prefilter\<close> is the test on the two lengths.\<close>

fun best_candidate ::
  "(nat \<Rightarrow> nat \<Rightarrow> bool) \<Rightarrow> (uchar \<Rightarrow> bool) \<Rightarrow> resolution_context \<Rightarrow> str list \<Rightarrow> int option \<Rightarrow> str \<Rightarrow> entity_candidate list
     \<Rightarrow> f64 \<times> str option \<Rightarrow> f64 \<times> str option" where
  "best_candidate prefilter numeric ctx nearby event_date mention [] best = best"
| "best_candidate prefilter numeric ctx nearby event_date mention (c # cs) best =
     (if ec_canonical_name c = mention then (1, Some (ec_canonical_name c))
      else if \<not> prefilter (length mention) (length (ec_canonical_name c))
        \<or> digits_differ numeric mention (ec_canonical_name c)
        \<or> ratio mention (ec_canonical_name c) < name_floor
      then best_candidate prefilter numeric ctx nearby event_date mention cs best
      else
        let s = candidate_score ctx nearby event_date mention c
        in best_candidate prefilter numeric ctx nearby event_date mention cs
             (if fst best < s then (s, Some (ec_canonical_name c)) else best))"

definition adopt :: "str \<Rightarrow> f64 \<times> str option \<Rightarrow> str" where
  "adopt mention best =
     (case best of (score, Some name) \<Rightarrow> if resolution_threshold < score then name else mention | (score, None) \<Rightarrow> mention)"

definition resolve_with ::
  "(nat \<Rightarrow> nat \<Rightarrow> bool) \<Rightarrow> (str \<Rightarrow> str) \<Rightarrow> (uchar \<Rightarrow> bool) \<Rightarrow> str list \<Rightarrow> int option \<Rightarrow> resolution_context \<Rightarrow> str list" where
  "resolve_with prefilter lower numeric mentions event_date ctx =
     (let normalized = normalized_mentions lower mentions in
      map (\<lambda>m. adopt m (best_candidate prefilter numeric ctx (filter (\<lambda>n. n \<noteq> m) normalized) event_date m (rx_candidates ctx) (0, None)))
        normalized)"

definition resolve_fact :: "(str \<Rightarrow> str) \<Rightarrow> (uchar \<Rightarrow> bool) \<Rightarrow> str list \<Rightarrow> int option \<Rightarrow> resolution_context \<Rightarrow> str list" where
  "resolve_fact = resolve_with can_clear_threshold"

section \<open>Links\<close>

definition temporal_window_hours :: f64 where "temporal_window_hours = 24"
definition max_temporal_links_per_node :: nat where "max_temporal_links_per_node = 20"
definition semantic_link_threshold :: f64 where "semantic_link_threshold = 87 / 100"
definition semantic_weight_floor :: f64 where "semantic_weight_floor = 7 / 10"
definition semantic_link_top_k :: nat where "semantic_link_top_k = 20"
definition causal_link_weight :: f64 where "causal_link_weight = 1"
definition ms_per_hour :: f64 where "ms_per_hour = 3600000"

definition temporal_weight :: "f64 \<Rightarrow> f64" where
  "temporal_weight hours_diff = max (1 - hours_diff / temporal_window_hours) (3 / 10)"

record timed_node =
  tn_id :: int
  tn_fact_type :: str
  tn_event_date :: int

definition temporal_link :: "timed_node \<Rightarrow> timed_node \<Rightarrow> link_row option" where
  "temporal_link n other =
     (let hours = of_int \<bar>tn_event_date n - tn_event_date other\<bar> / ms_per_hour in
      if hours \<le> temporal_window_hours
      then Some \<lparr>lk_from = tn_id n, lk_to = tn_id other, lk_type = lit ''temporal'', lk_weight = temporal_weight hours\<rparr>
      else None)"

definition links_of_node :: "timed_node list \<Rightarrow> timed_node \<Rightarrow> link_row list" where
  "links_of_node win n =
     take max_temporal_links_per_node (sort_key (\<lambda>l. - lk_weight l) (sort_key lk_to
       (List.map_filter (temporal_link n) (filter (\<lambda>other. tn_id other \<noteq> tn_id n \<and> tn_fact_type other = tn_fact_type n) win))))"

definition temporal_links :: "timed_node list \<Rightarrow> timed_node list \<Rightarrow> link_row list" where
  "temporal_links new_nodes win = concat (map (links_of_node win) new_nodes)"

definition causal_link :: "int list \<Rightarrow> int \<Rightarrow> causal_relation \<Rightarrow> link_row option" where
  "causal_link ids from_id rel =
     (if ca_target_index rel < length ids \<and> ids ! ca_target_index rel \<noteq> from_id
      then Some \<lparr>lk_from = from_id, lk_to = ids ! ca_target_index rel, lk_type = lit ''caused_by'', lk_weight = causal_link_weight\<rparr>
      else None)"

definition causal_links :: "extracted_fact list \<Rightarrow> int list \<Rightarrow> link_row list" where
  "causal_links facts ids =
     concat (map (\<lambda>(f, from_id). List.map_filter (causal_link ids from_id) (xf_causal_relations f)) (zip facts ids))"

definition semantic_weight :: "f64 \<Rightarrow> f64" where
  "semantic_weight sim =
     (let t = (sim - semantic_link_threshold) / (1 - semantic_link_threshold)
      in max 0 (min 1 (semantic_weight_floor + t * (1 - semantic_weight_floor))))"

definition semantic_links :: "int \<Rightarrow> str \<Rightarrow> (int \<times> f64) list \<Rightarrow> (int \<rightharpoonup> str \<times> str) \<Rightarrow> link_row list" where
  "semantic_links node_id ft neighbors types =
     map (\<lambda>(i, sim). \<lparr>lk_from = node_id, lk_to = i, lk_type = lit ''semantic'', lk_weight = semantic_weight sim\<rparr>)
       (take semantic_link_top_k
         (filter (\<lambda>p. fst p \<noteq> node_id \<and> semantic_link_threshold \<le> snd p
                   \<and> (case types (fst p) of None \<Rightarrow> False | Some t \<Rightarrow> snd t = ft)) neighbors))"

section \<open>The test on the lengths loses nothing\<close>

lemma match_loop_bound:
  "match_loop a b pos stack n \<le> n + sum_list (map a_width stack) \<and> match_loop a b pos stack n \<le> n + sum_list (map b_width stack)"
proof (induction a b pos stack n rule: match_loop.induct)
  case (2 a b pos alo ahi blo bhi stack n)
  obtain i j k where m: "longest_match a b pos alo ahi blo bhi = (i, j, k)" by (cases "longest_match a b pos alo ahi blo bhi")
  show ?case
  proof (cases "k = 0 \<or> \<not> window_ok (alo, ahi, blo, bhi)")
    case True
    then show ?thesis using 2(1) [OF m [symmetric] refl refl True] m True by (auto simp: a_width_def b_width_def)
  next
    case False
    then have "inside alo ahi blo bhi (i, j, k)"
      using longest_match_inside [of alo ahi blo bhi a b pos] m by (auto simp: window_ok_def)
    from sub_windows_fit(2,3) [OF this] show ?thesis
      using 2(2) [OF m [symmetric] refl refl False] m False
      by (simp add: a_width_def [of "(alo, ahi, blo, bhi)"] b_width_def [of "(alo, ahi, blo, bhi)"])
  qed
qed simp

lemma matching_size_le: "matching_size a b \<le> min (length a) (length b)"
  using match_loop_bound [of a b "b2j b" "[(0, length a, 0, length b)]" 0] by (simp add: matching_size_def a_width_def b_width_def)

lemma ratio_le_ceiling: "length a + length b \<noteq> 0 \<Longrightarrow> ratio a b \<le> ratio_ceiling (length a) (length b)"
  using matching_size_le [of a b] by (auto simp: ratio_def ratio_ceiling_def intro!: divide_right_mono)

lemma ratio_range: "0 \<le> ratio a b \<and> ratio a b \<le> 1"
proof (cases "length a + length b = 0")
  case False
  have "2 * matching_size a b \<le> length a + length b" using matching_size_le [of a b] by simp
  then have "of_nat (2 * matching_size a b) \<le> (of_nat (length a + length b) :: f64)" by (rule of_nat_mono)
  then show ?thesis using False by (simp add: ratio_def divide_le_eq)
qed (simp add: ratio_def)

lemma overlap_le: "overlap_of ctx nearby i \<le> length nearby"
  by (simp add: overlap_of_def split: option.splits)

lemma days_apart_nonneg: "days_apart l now = Some d \<Longrightarrow> 0 \<le> d"
  by (auto simp: days_apart_def resolution_ms_per_day_def split: option.splits)

lemma score_below:
  assumes "r \<le> c" and "overlap \<le> nearby" and "case days of None \<Rightarrow> True | Some d \<Rightarrow> 0 \<le> d"
  shows "resolution_score r overlap nearby days \<le> resolution_score c 1 1 (Some 0)"
proof -
  have "(if 0 < nearby then of_nat overlap / of_nat nearby * (3 / 10) else 0) \<le> (3 / 10 :: f64)"
    using assms(2) by (simp add: divide_le_eq)
  moreover have "(case days of None \<Rightarrow> 0 | Some d \<Rightarrow> if d < temporal_window_days then max (1 - d / temporal_window_days) 0 * (2 / 10) else 0) \<le> (2 / 10 :: f64)"
    using assms(3) by (auto simp: temporal_window_days_def split: option.splits)
  ultimately show ?thesis using assms(1) by (simp add: resolution_score_def temporal_window_days_def)
qed

lemma filtered_scores_low:
  assumes "\<not> can_clear_threshold (length m) (length (ec_canonical_name c))" and "name_floor \<le> ratio m (ec_canonical_name c)"
  shows "candidate_score ctx nearby ed m c \<le> resolution_threshold"
proof -
  have n: "length m + length (ec_canonical_name c) \<noteq> 0" using assms(1) by (auto simp: can_clear_threshold_def)
  have r: "ratio m (ec_canonical_name c) \<le> ratio_ceiling (length m) (length (ec_canonical_name c))" by (rule ratio_le_ceiling [OF n])
  have "candidate_score ctx nearby ed m c \<le> resolution_score (ratio_ceiling (length m) (length (ec_canonical_name c))) 1 1 (Some 0)"
    unfolding candidate_score_def by (rule score_below [OF r overlap_le]) (auto split: option.splits dest: days_apart_nonneg)
  also have "\<dots> \<le> resolution_threshold" using assms r by (auto simp: can_clear_threshold_def)
  finally show ?thesis .
qed

text \<open>Two bests are as good when they are equal or neither clears the threshold.\<close>

definition as_good :: "f64 \<times> str option \<Rightarrow> f64 \<times> str option \<Rightarrow> bool" where
  "as_good x y \<longleftrightarrow> x = y \<or> fst x \<le> resolution_threshold \<and> fst y \<le> resolution_threshold"

lemma prefilter_as_good:
  "as_good x y \<Longrightarrow>
   as_good (best_candidate can_clear_threshold numeric ctx nearby ed m cs x) (best_candidate (\<lambda>_ _. True) numeric ctx nearby ed m cs y)"
proof (induction cs arbitrary: x y)
  case (Cons c cs)
  let ?s = "candidate_score ctx nearby ed m c"
  have low: "?s \<le> resolution_threshold" if "\<not> can_clear_threshold (length m) (length (ec_canonical_name c))"
      "\<not> ratio m (ec_canonical_name c) < name_floor" using filtered_scores_low that by simp
  have "as_good x (if fst y < ?s then (?s, Some (ec_canonical_name c)) else y)" if "?s \<le> resolution_threshold"
    using Cons.prems that by (auto simp: as_good_def)
  moreover have "as_good (if fst x < ?s then (?s, n) else x) (if fst y < ?s then (?s, n) else y)" for n
    using Cons.prems by (auto simp: as_good_def)
  ultimately show ?case using Cons low by (auto simp: Let_def as_good_def [of "(1, _)"])
qed simp

lemma adopt_as_good: "as_good x y \<Longrightarrow> adopt m x = adopt m y"
  by (auto simp: as_good_def adopt_def split: prod.splits option.splits)

text \<open>What is adopted is the mention, or a name with the same numbers at least half alike.\<close>

definition close_name :: "(uchar \<Rightarrow> bool) \<Rightarrow> str \<Rightarrow> str \<Rightarrow> bool" where
  "close_name numeric m name \<longleftrightarrow> name = m \<or> \<not> digits_differ numeric m name \<and> name_floor \<le> ratio m name"

lemma best_is_close:
  "(case snd best of None \<Rightarrow> True | Some n \<Rightarrow> close_name numeric m n) \<Longrightarrow>
   (case snd (best_candidate pre numeric ctx nearby ed m cs best) of None \<Rightarrow> True | Some n \<Rightarrow> close_name numeric m n)"
  by (induction cs arbitrary: best) (auto simp: Let_def close_name_def split: option.splits)

lemma adopt_close: "close_name numeric m (adopt m (best_candidate pre numeric ctx nearby ed m cs (0, None)))"
  using best_is_close [where best = "(0, None)" and numeric = numeric and m = m and pre = pre and ctx = ctx and nearby = nearby and ed = ed and cs = cs]
  by (auto simp: adopt_def close_name_def split: prod.splits option.splits)

text \<open>C23: Passing over the candidates whose length rules them out changes no resolution: the names are those of the resolver that
  scores every candidate. And each mention keeps its name or adopts one whose numbers are the same and
  that is at least half alike.\<close>

theorem length_prefilter_loses_nothing:
  "resolve_fact lower numeric mentions event_date ctx = resolve_with (\<lambda>_ _. True) lower numeric mentions event_date ctx
   \<and> list_all2 (close_name numeric) (normalized_mentions lower mentions) (resolve_fact lower numeric mentions event_date ctx)"
proof
  show "resolve_fact lower numeric mentions event_date ctx = resolve_with (\<lambda>_ _. True) lower numeric mentions event_date ctx"
    unfolding resolve_fact_def resolve_with_def Let_def
    by (intro map_cong refl adopt_as_good prefilter_as_good) (simp add: as_good_def)
  show "list_all2 (close_name numeric) (normalized_mentions lower mentions) (resolve_fact lower numeric mentions event_date ctx)"
    by (simp add: resolve_fact_def resolve_with_def Let_def list_all2_conv_all_nth adopt_close)
qed

section \<open>Links\<close>

definition link_ok :: "link_row \<Rightarrow> bool" where
  "link_ok l \<longleftrightarrow> lk_from l \<noteq> lk_to l \<and> 0 \<le> lk_weight l \<and> lk_weight l \<le> 1"

lemma temporal_links_ok: "list_all link_ok (temporal_links new_nodes win)"
proof -
  have "link_ok l" if "temporal_link n x = Some l" "tn_id x \<noteq> tn_id n" for n x l
    using that by (auto simp: temporal_link_def link_ok_def temporal_weight_def temporal_window_hours_def ms_per_hour_def Let_def split: if_splits)
  then show ?thesis
    by (fastforce simp: temporal_links_def links_of_node_def list_all_iff dest!: in_set_takeD map_filter_member)
qed

lemma causal_links_ok: "list_all link_ok (causal_links facts ids)"
  by (auto simp: causal_links_def list_all_iff causal_link_def link_ok_def causal_link_weight_def split: if_splits dest!: map_filter_member)

lemma semantic_links_ok: "list_all link_ok (semantic_links i ft neighbors types)"
  by (auto simp: semantic_links_def list_all_iff link_ok_def semantic_weight_def Let_def dest!: in_set_takeD)

end
