(* ===== verification/Spec2Isabelle.thy ===== *)
theory Spec2Isabelle
  imports Hook_Recovery Daemon_Runs Task_Ledger Settings_Uninstall Mental_Routes Consolidate_Tick
    Extract_Prompt Extract_Graph
begin

text \<open>
  MemGarden keeps a coding assistant's memory across sessions. A hook (\<open>crates/memgarden-cli\<close>) runs at
  each turn of a session: it reads the part of the session's JSONL transcript it has not sent yet,
  posts it to a daemon, and remembers in a small file per session how far it got. The daemon
  (\<open>crates/memgardend\<close>) prepares the messages it receives, cuts them into chunks, has a language model
  extract facts from each chunk, and writes the facts, the job's progress and the session's cursors to
  an SQLite database (\<open>crates/memgarden-store\<close>). In the other direction it answers a query with the facts
  that match it (recall), as a block of text the assistant reads. Between the two, background passes have the
  language model merge facts into observations (consolidation) and keep longer documents up to date (mental
  models). What hook, daemon and store promise together is that every byte of a transcript is either turned
  into facts or known to be missing, across crashes, outages, retries and restarts on both sides, and that
  what recall returns is what the store holds. The development models these paths end to end.

  \<^bold>\<open>Theories, and the code they model.\<close>

  \<^item> \<open>MG_Prelude\<close>: saturating arithmetic at the widths of the code, \<open>COALESCE\<close>, and lemmas on lists and
    maps. \<open>Rust_Text\<close>: characters and \<open>str\<close> as the standard library has them (UTF-8 lengths, white space,
    \<open>trim\<close>, \<open>split\<close>, \<open>lines\<close>). \<open>Core_Types\<close>: \<open>memgarden-core\<close>'s enumerations and errors. \<open>Json_Value\<close>:
    \<open>serde_json::Value\<close>. \<open>Json_Text\<close>: the JSON grammar as an inductive relation between texts and values.
  \<^item> \<open>Transcript_Delta\<close> (\<open>cli/transcript.rs\<close>): \<open>read_delta\<close>, its bounded line reader and the window that
    keeps the newest messages that fit.
  \<^item> \<open>Hook_State\<close> (\<open>cli/state.rs\<close>, \<open>cli/cmd/mod.rs\<close>): the record \<open>hook_state\<close>, file names, loading, the
    write through a temporary file, the breaker and the poison throttle. A directory is a map from
    names to contents, and a write returns every directory it passes through, so a crash is a prefix.
  \<^item> \<open>Hook_Retain\<close>, \<open>Hook_Recovery\<close> (\<open>cli/cmd/retain.rs\<close>): \<open>advance\<close> with \<open>reconcile\<close>, \<open>post_delta\<close>,
    \<open>accept\<close> and \<open>apply_outcome\<close>, and runs of many invocations. The daemon's answers and the file are
    the fields of \<open>net\<close>; each definition also returns the events that say what became of which bytes.
    The locale \<open>delta_source\<close> states what the state machine relies on in a reader of deltas;
    the interpretation \<open>transcripts\<close> shows that \<open>read_delta\<close> provides it.
  \<^item> \<open>Settings_Splice\<close>, \<open>Settings_Install\<close>, \<open>Settings_Uninstall\<close> (\<open>cli/settings.rs\<close>): the byte scanners over
    the assistant's settings file, and installing and removing the hooks as edits of the text.
  \<^item> \<open>Retain_Request\<close> (\<open>memgardend/routes/retain.rs\<close>, \<open>routes/sessions.rs\<close>): the handler in front of the queue,
    from the request to the queued job or the answer that nothing is to be done.
  \<^item> \<open>Transcript_Prep\<close> (\<open>memgardend/retain/transcript.rs\<close>): from messages to the text that is chunked.
  \<^item> \<open>Chunking\<close> (\<open>memgardend/retain/chunk.rs\<close>): the three chunkers and the recursive splitter.
  \<^item> \<open>Sessions_Store\<close>, \<open>Jobs_Store\<close>, \<open>Documents_Store\<close>, \<open>Nodes_Store\<close>, \<open>Task_Ledger\<close>
    (\<open>memgarden-store/sessions.rs\<close>, \<open>retain_jobs.rs\<close>, \<open>documents.rs\<close>, \<open>nodes.rs\<close>, \<open>task_ledger.rs\<close>): each
    table is a list of records, each SQL statement a function on it with the statement's \<open>WHERE\<close>,
    \<open>COALESCE\<close>, \<open>MAX\<close> and \<open>CHECK\<close> clauses.
  \<^item> \<open>Retain_Worker\<close> (\<open>memgardend/retain/mod.rs\<close>): one job from its task to its settled row,
    \<open>run_job_inner\<close>, over the four tables. What the worker asks of the model, the clock, the shutdown
    token and the graph writer is the record \<open>worker_env\<close>.
  \<^item> \<open>Retain_Queue\<close> (\<open>memgardend/retain/mod.rs\<close>, \<open>main.rs\<close>): the byte budget shared by concurrent
    requests, as a step relation over atomic operations, and recovery at startup. \<open>Daemon_Runs\<close>: runs of
    requests, jobs, restarts and garbage collection, the setting of the daemon's theorems.
  \<^item> \<open>Extract_Parse\<close>, \<open>Extract_Prompt\<close> (\<open>memgardend/extract/\<close>, \<open>temporal/parse.rs\<close>), \<open>Extract_Graph\<close>
    (\<open>entities.rs\<close>, \<open>links.rs\<close>): what one chunk's extraction asks the model, the facts read from its answer, the
    entities they name and the links between them. They are the code behind three fields of \<open>worker_env\<close>.
  \<^item> \<open>Recall_Store\<close> (\<open>memgarden-store/search.rs\<close>, the reads of \<open>graph.rs\<close>), \<open>Recall_Ranking\<close>
    (\<open>memgardend/recall/fusion.rs\<close>, \<open>graph.rs\<close>, \<open>scoring.rs\<close>, \<open>budget.rs\<close>), \<open>Recall_Injection\<close> and \<open>Recall_Pipeline\<close>
    (\<open>recall/mod.rs\<close>, \<open>rerank.rs\<close>), \<open>Recall_Route\<close> (\<open>routes/recall.rs\<close>): from a query to the block of text. The
    node row of \<open>Nodes_Store\<close> is extended by the columns recall reads. Embedder, full text matcher, reranker
    and tokenizer are the record \<open>recall_env\<close>.
  \<^item> \<open>Mental_Store\<close> (\<open>memgarden-store/mental_models.rs\<close>, \<open>vecblob.rs\<close>), \<open>Mental_Refresh\<close> and \<open>Mental_Routes\<close>
    (\<open>memgardend/mental/mod.rs\<close>, \<open>reflect.rs\<close>, \<open>routes/mental_models.rs\<close>), \<open>Mental_Cron\<close> and \<open>Mental_Tick\<close>
    (\<open>mental/cron.rs\<close>): the documents, their vectors, the refresh, reflection, the schedule, and histories of
    requests and passes, one after the other (\<open>serve\<close>) or with reads of earlier states (\<open>serve_overlapped\<close>). A refresh reads and writes in separate transactions, and each has a
    database of its own. The locale \<open>shedding\<close> is the contract of a loop that drops input until a prompt fits,
    interpreted for the refresh, reflection and consolidation; \<open>row_law\<close> that of a property every write to
    the table keeps.
  \<^item> \<open>Consolidate_Store\<close> (\<open>memgarden-store/consolidate.rs\<close>), \<open>Consolidate_Prompt\<close>, \<open>Consolidate_Round\<close>,
    \<open>Consolidate_Tick\<close> (\<open>memgardend/consolidate/prompts.rs\<close>, \<open>mod.rs\<close>, \<open>round.rs\<close>, \<open>routes/consolidate.rs\<close>):
    observations with their provenance, plans and their validation, the merging of near duplicates, and the
    round that works off the facts above the watermark. \<open>round_loop\<close> also returns the ranges that ended.

  \<^bold>\<open>What the lemmas show.\<close>

  \<^item> No loss on the hook's side: the reader consumes whole lines only and may be resumed anywhere; over
    any run of invocations, with a daemon that answers anything, each byte the cursor passes is
    accounted for; a failed job is sent again from the same byte under the same document id; an outage
    never poisons a session; no gate stays closed; a state file is never half written.
  \<^item> No false confirmation on the daemon's side: session rows merge monotonically and in any order, a
    confirmed cursor covers only bytes some job confirmed, a request is called a duplicate only after its
    content was ingested, a worker marks content as ingested only after a complete run, and a paused job
    resumed from its row ends as if it had never stopped.
  \<^item> The text itself: chunking keeps the text and the turns, chunks fit their budget, and chunking a
    chunk again changes nothing, which resuming relies on; what a message's text has between private markers has no
    influence on the transcript (the marker is not read in tool calls and results, and with tool calls kept it is read
    block by block).
  \<^item> Extraction: whatever the model answers, the facts that are read are well formed, retract only what they quote
    and have their causes before them; the shortcut in entity resolution loses no candidate.
  \<^item> The store: retractions cannot form a cycle, batches are stored in order, a restart leaves no job
    unsettled, concurrent reservations stay within the budget.
  \<^item> Recall: what is returned is live, of the asked bank, types and tags, within the token budget, without
    repetition and never a fact beside the observation made from it; other banks are asked only when the request's
    own has nothing and their items name them; the ranking is the reciprocal rank sum;
    the block of text cannot be left by a recalled text.
  \<^item> Mental models: stored rows stay valid over any history; vectors describe their rows over histories whose calls may
    overlap, as long as no other call changes a model's text between the read and the write of a patch or refresh
    of it; a failed refresh keeps the document; facts a refresh summarised are not summarised again; a reflection cites
    only what its prompt held; the prompt drops no more than it must; a schedule fires exactly when its expression says;
    and where the pass falls short of its comment (a bank of more than 32 models) a theorem says so.
  \<^item> Consolidation: a round returns whatever the model answers, takes facts in order and records exactly how
    far it came, gives up a batch of several facts only when the model could not be asked, and writes no fact; proof
    counts are the number of provenance rows; a plan stays within its batch and pool.
  \<^item> Settings: installing denotes the document with the hooks added and nothing else changed, and uninstalling gives
    the text back byte by byte.

  \<^bold>\<open>Bounds and parameters.\<close> Counters the code keeps in \<open>u64\<close> and \<open>u32\<close> are naturals with the code's
  saturating operations written out; SQL integers and \<open>i64\<close> times are integers; the byte budget's counter
  wraps modulo \<open>2 ^ 64\<close>; an \<open>f32\<close> of a stored vector is its 32 bits. The loops of the program recurse on the
  text, list or queue they consume, with their measures proved; the loops that shed input until a prompt fits
  are \<open>partial_function\<close>s, and that they return is proved through \<open>shedding\<close>. Nothing here takes fuel. A \<open>char\<close> is its code point, a byte a natural, an \<open>f64\<close>
  of a score a rational. Parameters stand for third-party code: \<open>serde_json\<close>'s parser and serializer, the Unicode
  tables behind \<open>char::is_alphanumeric\<close> and case mapping, SQLite's full text matcher and vector distance, the HTTP server's
  answers, the embedder's and the models' answers; and for the code's own transcendental arithmetic (cosine,
  \<open>tanh\<close>, \<open>ln\<close>) and date rendering. Theorems that rely on one of them say so in a hypothesis.

  \<^bold>\<open>Not modelled.\<close> Process, socket and SQLite machinery, Ollama's client and the tasks' interval timers (I/O around what is
  modelled). The writers of the entity and link tables, which the worker takes as a parameter: its theorems hold for all of
  them. The temporal expressions of a query, which are calendar arithmetic of a third-party crate throughout. Configuration loading and bank derivation, which read the
  environment and run git. The one-time migration from the previous system with its verification. The manifest lists every
  part.
\<close>

end
